(* ===== verification/Prelude.thy ===== *)
theory Prelude
  imports Complex_Main "HOL-Library.Word" "HOL-Library.Monad_Syntax"
begin

text \<open>
  Shared vocabulary of the development: the widths of Go's integer types on a 64-bit
  target, the pointer type of the explicit entry store, the signed comparisons and
  conversions that Go's \<open>int\<close>/\<open>int64\<close> use on two's complement words, and the
  generic lemmas on words, lists and the option monad that the component theories share.
  A computation of type \<open>'a option\<close> is a piece of Go code that may fail to return:
  \<open>None\<close> is a panic (a nil dereference, an index out of range) or a loop that never
  ends, so a theorem that concludes \<open>\<exists>y. f x = Some y\<close> shows absence of both.
\<close>

unbundle bit_operations_syntax

named_theorems heap_simps \<open>reading the store after one of the primitive writes\<close>

type_synonym i8 = "8 word"
type_synonym u8 = "8 word"
type_synonym u32 = "32 word"
type_synonym i64 = "64 word"
type_synonym u64 = "64 word"
type_synonym addr = nat

subsection \<open>Signed views of machine words\<close>

text \<open>
  Go compares \<open>int\<close>, \<open>int64\<close> values as two's complement numbers; the bit pattern is
  the one of the unsigned word, so the conversions \<open>uint(x)\<close> and \<open>int64(x)\<close> are the
  identity on words and only the comparisons differ.
\<close>

definition sle :: "'a::len word \<Rightarrow> 'a word \<Rightarrow> bool" where
  "sle a b \<longleftrightarrow> sint a \<le> sint b"

definition slt :: "'a::len word \<Rightarrow> 'a word \<Rightarrow> bool" where
  "slt a b \<longleftrightarrow> sint a < sint b"

lemma slt_not_sle: "slt a b \<longleftrightarrow> \<not> sle b a"
  by (auto simp: sle_def slt_def)

lemma sle_refl [simp]: "sle a a"
  by (simp add: sle_def)

lemma slt_irrefl [simp]: "\<not> slt a a"
  by (simp add: slt_def)

lemma sint_uint64: "sint (x :: 64 word) = (if uint x < 2 ^ 63 then uint x else uint x - 2 ^ 64)"
proof -
  have b: "0 \<le> uint x" "uint x < 2 ^ 64" using uint_lt2p [of x] by simp_all
  have "sint x = (uint x + 2 ^ 63) mod 2 ^ 64 - 2 ^ 63"
    by (simp add: sint_uint signed_take_bit_eq_take_bit_shift take_bit_eq_mod)
  moreover have "(uint x + 2 ^ 63) mod 2 ^ 64 = (if uint x < 2 ^ 63 then uint x + 2 ^ 63 else uint x - 2 ^ 63)"
    using b mod_pos_pos_trivial [of "uint x - 2 ^ 63" "2 ^ 64"] mod_add_self2 [of "uint x - 2 ^ 63" "2^64"]
    by (auto simp: add.commute)
  ultimately show ?thesis by simp
qed

lemma unat_lt64: "unat (x :: 64 word) < 2 ^ 64"
  using unsigned_less [of x] by simp

lemma sint_unat64: "sint (x :: 64 word) = (if unat x < 2 ^ 63 then int (unat x) else int (unat x) - 2 ^ 64)"
proof -
  define n where "n = unat x"
  then have u: "uint x = int n" by simp
  show ?thesis unfolding sint_uint64 u n_def [symmetric] by simp
qed

lemma sint_eq_unat64: "unat (x :: 64 word) < 2 ^ 63 \<Longrightarrow> sint x = int (unat x)"
  by (simp only: sint_unat64 if_True)

lemma sint_nonneg64: "0 \<le> sint (x :: 64 word) \<longleftrightarrow> unat x < 2 ^ 63"
proof (cases "unat x < 2 ^ 63")
  case True
  then show ?thesis by (simp add: sint_eq_unat64)
next
  case False
  have "int (unat x) < 2 ^ 64" using unat_lt64 [of x] by (simp only: of_nat_less_numeral_power_cancel_iff)
  with False have "sint x < 0" by (simp only: sint_unat64 if_False)
  with False show ?thesis by linarith
qed

lemma sint_range64: "- (2 ^ 63) \<le> sint (x :: 64 word)" "sint (x :: 64 word) < 2 ^ 63"
  using sint_ge [of x] sint_lt [of x] by simp_all

lemma sint_add64: "- (2 ^ 63) \<le> sint a + sint b \<Longrightarrow> sint a + sint b < 2 ^ 63 \<Longrightarrow> sint (a + b) = sint a + sint (b :: 64 word)"
  using signed_take_bit_int_eq_self_iff[of 63 "sint a + sint b"] by (simp add: sint_word_ariths)
lemma sint_sub64: "- (2 ^ 63) \<le> sint a - sint b \<Longrightarrow> sint a - sint b < 2 ^ 63 \<Longrightarrow> sint (a - b) = sint a - sint (b :: 64 word)"
  using signed_take_bit_int_eq_self_iff[of 63 "sint a - sint b"] by (simp add: sint_word_ariths)
lemma sint_neg64: "sint b \<noteq> - (2^63) \<Longrightarrow> sint (- b) = - sint (b :: 64 word)"
  using signed_take_bit_int_eq_self_iff[of 63 "- sint b"] sint_range64[of b] by (simp add: sint_word_ariths)
lemma sint_word_of_int64: "- (2 ^ 63) \<le> d \<Longrightarrow> d < 2 ^ 63 \<Longrightarrow> sint (word_of_int d :: i64) = d"
  using signed_take_bit_int_eq_self_iff [of 63 d] by (simp add: signed_of_int)

text \<open>Powers of two and masking with one less: \<open>w & (p - 1)\<close> is \<open>w % p\<close>.\<close>

lemma unat_exp2:
  assumes "m < LENGTH('a)" shows "unat (2 ^ m :: 'a::len word) = 2 ^ m"
proof -
  have "unat (word_of_nat (2 ^ m) :: 'a word) = 2 ^ m"
    using assms by (simp only: unat_of_nat mod_less power_strict_increasing_iff semiring_norm(76) one_less_numeral_iff)
  then show ?thesis by simp
qed

lemma unat_and_pow2_minus_1:
  fixes w p :: "'a::len word"
  assumes "unat p = 2 ^ m" 
  shows "unat (w AND (p - 1)) = unat w mod 2 ^ m"
proof -
  have ml: "m < LENGTH('a)" 
    using assms unsigned_less[of p] by (metis nat_power_less_imp_less numeral_2_eq_2 zero_less_Suc)
  then have "p = 2 ^ m" using assms by (metis unat_exp2 unsigned_word_eqI)
  then have "p - 1 = mask m" by (simp add: mask_eq_exp_minus_1)
  then have "w AND (p - 1) = take_bit m w" by (simp add: take_bit_eq_mask)
  then have "unat (w AND (p - 1)) = take_bit m (unat w)" by (simp only: unsigned_take_bit_eq)
  then show ?thesis by (simp only: take_bit_eq_mod)
qed

subsection \<open>Loops\<close>

text \<open>
  A loop is its body iterated: the body fails (\<open>None\<close>), goes on with a new loop state
  (\<open>Inl\<close>) or leaves the loop with a result (\<open>Inr\<close>). The loop is \<open>None\<close> when the body
  fails or when it never leaves; \<open>iterate_total\<close> is the rule for total correctness.
\<close>

partial_function (option) iterate :: "('s \<Rightarrow> ('s + 'r) option) \<Rightarrow> 's \<Rightarrow> 'r option" where
  "iterate body s = Option.bind (body s) (\<lambda>x. case x of Inl s \<Rightarrow> iterate body s | Inr r \<Rightarrow> Some r)"

declare iterate.simps [code]

text \<open>\<open>x\<close> is a ghost: the abstract value the loop state stands for.\<close>

lemma iterate_total:
  fixes m :: "'x \<Rightarrow> 's \<Rightarrow> nat"
  assumes "I x s"
    and "\<And>x s. I x s \<Longrightarrow> (\<exists>x' s'. body s = Some (Inl s') \<and> I x' s' \<and> m x' s' < m x s) \<or> (\<exists>r. body s = Some (Inr r) \<and> Q r)"
  shows "\<exists>r. iterate body s = Some r \<and> Q r"
  using assms(1)
proof (induction "m x s" arbitrary: x s rule: less_induct)
  case less
  from assms(2) [OF less.prems] show ?case
  proof (elim disjE exE conjE)
    fix x' s' assume "body s = Some (Inl s')" "I x' s'" "m x' s' < m x s"
    then show ?thesis using less.hyps [of x' s'] by (simp add: iterate.simps [of body s])
  qed (simp add: iterate.simps [of body s])
qed

end
