(* ===== verification/Policy_Flag.thy ===== *)
theory Policy_Flag
  imports Prelude
begin

text \<open>
  The eight flag bits of an entry (internal/policy_flag.go). The struct keeps them in one
  \<open>int8\<close>; every accessor is a mask test, every setter an or / and-not. The lemmas show
  that the seven flags are independent booleans: each setter decides its own accessor and
  leaves the other six alone. They are simp rules, so the list and policy proofs compute
  with flags as with record fields.
\<close>

record Flag =
  Flags :: i8

text \<open>The zero value \<open>Flag{}\<close>.\<close>

definition zero_flag :: Flag where
  "zero_flag = \<lparr>Flags = 0\<rparr>"

definition SetRoot :: "bool \<Rightarrow> Flag \<Rightarrow> Flag" where
  "SetRoot b f =
     (if b then f\<lparr>Flags := Flags f OR push_bit 0 1\<rparr>
      else f\<lparr>Flags := Flags f AND NOT (push_bit 0 1)\<rparr>)"

definition SetProbation :: "bool \<Rightarrow> Flag \<Rightarrow> Flag" where
  "SetProbation b f =
     (if b then f\<lparr>Flags := Flags f OR push_bit 1 1\<rparr>
      else f\<lparr>Flags := Flags f AND NOT (push_bit 1 1)\<rparr>)"

definition SetProtected :: "bool \<Rightarrow> Flag \<Rightarrow> Flag" where
  "SetProtected b f =
     (if b then f\<lparr>Flags := Flags f OR push_bit 2 1\<rparr>
      else f\<lparr>Flags := Flags f AND NOT (push_bit 2 1)\<rparr>)"

definition SetWindow :: "bool \<Rightarrow> Flag \<Rightarrow> Flag" where
  "SetWindow b f =
     (if b then f\<lparr>Flags := Flags f OR push_bit 6 1\<rparr>
      else f\<lparr>Flags := Flags f AND NOT (push_bit 6 1)\<rparr>)"

definition SetRemoved :: "bool \<Rightarrow> Flag \<Rightarrow> Flag" where
  "SetRemoved b f =
     (if b then f\<lparr>Flags := Flags f OR push_bit 3 1\<rparr>
      else f\<lparr>Flags := Flags f AND NOT (push_bit 3 1)\<rparr>)"

definition SetFromNVM :: "bool \<Rightarrow> Flag \<Rightarrow> Flag" where
  "SetFromNVM b f =
     (if b then f\<lparr>Flags := Flags f OR push_bit 4 1\<rparr>
      else f\<lparr>Flags := Flags f AND NOT (push_bit 4 1)\<rparr>)"

definition SetDeleted :: "bool \<Rightarrow> Flag \<Rightarrow> Flag" where
  "SetDeleted b f =
     (if b then f\<lparr>Flags := Flags f OR push_bit 5 1\<rparr>
      else f\<lparr>Flags := Flags f AND NOT (push_bit 5 1)\<rparr>)"

definition IsRoot :: "Flag \<Rightarrow> bool" where
  "IsRoot f \<longleftrightarrow> Flags f AND push_bit 0 1 \<noteq> 0"

definition IsProbation :: "Flag \<Rightarrow> bool" where
  "IsProbation f \<longleftrightarrow> Flags f AND push_bit 1 1 \<noteq> 0"

definition IsProtected :: "Flag \<Rightarrow> bool" where
  "IsProtected f \<longleftrightarrow> Flags f AND push_bit 2 1 \<noteq> 0"

definition IsRemoved :: "Flag \<Rightarrow> bool" where
  "IsRemoved f \<longleftrightarrow> Flags f AND push_bit 3 1 \<noteq> 0"

definition IsFromNVM :: "Flag \<Rightarrow> bool" where
  "IsFromNVM f \<longleftrightarrow> Flags f AND push_bit 4 1 \<noteq> 0"

definition IsDeleted :: "Flag \<Rightarrow> bool" where
  "IsDeleted f \<longleftrightarrow> Flags f AND push_bit 5 1 \<noteq> 0"

definition IsWindow :: "Flag \<Rightarrow> bool" where
  "IsWindow f \<longleftrightarrow> Flags f AND push_bit 6 1 \<noteq> 0"

subsection \<open>Flags are independent booleans\<close>

text \<open>The mask test is a bit test; or and and-not write one bit.\<close>

lemma mask_test: "n < 8 \<Longrightarrow> (x :: i8) AND push_bit n 1 \<noteq> 0 \<longleftrightarrow> bit x n"
proof -
  assume n: "n < 8"
  have "x AND push_bit n 1 = (if bit x n then push_bit n 1 else 0)"
    by (rule bit_word_eqI) (auto simp: bit_and_iff bit_exp_iff)
  moreover have "push_bit n 1 \<noteq> (0 :: i8)" using n by (auto simp: bit_eq_iff bit_exp_iff)
  ultimately show ?thesis by simp
qed

lemma mask_set: "n < 8 \<Longrightarrow> bit ((x :: i8) OR push_bit n 1) m \<longleftrightarrow> m = n \<or> bit x m"
  by (auto simp: bit_or_iff bit_exp_iff)

lemma mask_clear: "n < 8 \<Longrightarrow> bit ((x :: i8) AND NOT (push_bit n 1)) m \<longleftrightarrow> m \<noteq> n \<and> bit x m"
  by (auto simp: bit_and_iff bit_not_iff bit_exp_iff dest: bit_imp_le_length)

lemma put_bit:
  "n < 8 \<Longrightarrow> bit (Flags (if b then f\<lparr>Flags := Flags f OR push_bit n 1\<rparr>
      else f\<lparr>Flags := Flags f AND NOT (push_bit n 1)\<rparr>)) i \<longleftrightarrow> (if i = n then b else bit (Flags f) i)"
  using mask_set [of n "Flags f" i] mask_clear [of n "Flags f" i] by auto

lemma Is_bit:
  "IsRoot f \<longleftrightarrow> bit (Flags f) 0"
  "IsProbation f \<longleftrightarrow> bit (Flags f) 1"
  "IsProtected f \<longleftrightarrow> bit (Flags f) 2"
  "IsWindow f \<longleftrightarrow> bit (Flags f) 6"
  "IsRemoved f \<longleftrightarrow> bit (Flags f) 3"
  "IsFromNVM f \<longleftrightarrow> bit (Flags f) 4"
  "IsDeleted f \<longleftrightarrow> bit (Flags f) 5"
  unfolding IsRoot_def IsProbation_def IsProtected_def IsWindow_def IsRemoved_def IsFromNVM_def IsDeleted_def
  by (rule mask_test, simp)+

lemma Set_bit:
  "bit (Flags (SetRoot b f)) i \<longleftrightarrow> (if i = 0 then b else bit (Flags f) i)"
  "bit (Flags (SetProbation b f)) i \<longleftrightarrow> (if i = 1 then b else bit (Flags f) i)"
  "bit (Flags (SetProtected b f)) i \<longleftrightarrow> (if i = 2 then b else bit (Flags f) i)"
  "bit (Flags (SetWindow b f)) i \<longleftrightarrow> (if i = 6 then b else bit (Flags f) i)"
  "bit (Flags (SetRemoved b f)) i \<longleftrightarrow> (if i = 3 then b else bit (Flags f) i)"
  "bit (Flags (SetFromNVM b f)) i \<longleftrightarrow> (if i = 4 then b else bit (Flags f) i)"
  "bit (Flags (SetDeleted b f)) i \<longleftrightarrow> (if i = 5 then b else bit (Flags f) i)"
  unfolding SetRoot_def SetProbation_def SetProtected_def SetWindow_def SetRemoved_def SetFromNVM_def SetDeleted_def
  by (rule put_bit, simp)+

lemma SetRoot_flags [simp]:
  "IsRoot (SetRoot b f) = b"
  "IsProbation (SetRoot b f) = IsProbation f"
  "IsProtected (SetRoot b f) = IsProtected f"
  "IsWindow (SetRoot b f) = IsWindow f"
  "IsRemoved (SetRoot b f) = IsRemoved f"
  "IsFromNVM (SetRoot b f) = IsFromNVM f"
  "IsDeleted (SetRoot b f) = IsDeleted f"
  by (simp_all add: Is_bit Set_bit)

lemma SetProbation_flags [simp]:
  "IsRoot (SetProbation b f) = IsRoot f"
  "IsProbation (SetProbation b f) = b"
  "IsProtected (SetProbation b f) = IsProtected f"
  "IsWindow (SetProbation b f) = IsWindow f"
  "IsRemoved (SetProbation b f) = IsRemoved f"
  "IsFromNVM (SetProbation b f) = IsFromNVM f"
  "IsDeleted (SetProbation b f) = IsDeleted f"
  by (simp_all add: Is_bit Set_bit)

lemma SetProtected_flags [simp]:
  "IsRoot (SetProtected b f) = IsRoot f"
  "IsProbation (SetProtected b f) = IsProbation f"
  "IsProtected (SetProtected b f) = b"
  "IsWindow (SetProtected b f) = IsWindow f"
  "IsRemoved (SetProtected b f) = IsRemoved f"
  "IsFromNVM (SetProtected b f) = IsFromNVM f"
  "IsDeleted (SetProtected b f) = IsDeleted f"
  by (simp_all add: Is_bit Set_bit)

lemma SetWindow_flags [simp]:
  "IsRoot (SetWindow b f) = IsRoot f"
  "IsProbation (SetWindow b f) = IsProbation f"
  "IsProtected (SetWindow b f) = IsProtected f"
  "IsWindow (SetWindow b f) = b"
  "IsRemoved (SetWindow b f) = IsRemoved f"
  "IsFromNVM (SetWindow b f) = IsFromNVM f"
  "IsDeleted (SetWindow b f) = IsDeleted f"
  by (simp_all add: Is_bit Set_bit)

lemma SetRemoved_flags [simp]:
  "IsRoot (SetRemoved b f) = IsRoot f"
  "IsProbation (SetRemoved b f) = IsProbation f"
  "IsProtected (SetRemoved b f) = IsProtected f"
  "IsWindow (SetRemoved b f) = IsWindow f"
  "IsRemoved (SetRemoved b f) = b"
  "IsFromNVM (SetRemoved b f) = IsFromNVM f"
  "IsDeleted (SetRemoved b f) = IsDeleted f"
  by (simp_all add: Is_bit Set_bit)

lemma SetFromNVM_flags [simp]:
  "IsRoot (SetFromNVM b f) = IsRoot f"
  "IsProbation (SetFromNVM b f) = IsProbation f"
  "IsProtected (SetFromNVM b f) = IsProtected f"
  "IsWindow (SetFromNVM b f) = IsWindow f"
  "IsRemoved (SetFromNVM b f) = IsRemoved f"
  "IsFromNVM (SetFromNVM b f) = b"
  "IsDeleted (SetFromNVM b f) = IsDeleted f"
  by (simp_all add: Is_bit Set_bit)

lemma SetDeleted_flags [simp]:
  "IsRoot (SetDeleted b f) = IsRoot f"
  "IsProbation (SetDeleted b f) = IsProbation f"
  "IsProtected (SetDeleted b f) = IsProtected f"
  "IsWindow (SetDeleted b f) = IsWindow f"
  "IsRemoved (SetDeleted b f) = IsRemoved f"
  "IsFromNVM (SetDeleted b f) = IsFromNVM f"
  "IsDeleted (SetDeleted b f) = b"
  by (simp_all add: Is_bit Set_bit)

lemma zero_flag_flags [simp]:
  "\<not> IsRoot zero_flag"
  "\<not> IsProbation zero_flag"
  "\<not> IsProtected zero_flag"
  "\<not> IsWindow zero_flag"
  "\<not> IsRemoved zero_flag"
  "\<not> IsFromNVM zero_flag"
  "\<not> IsDeleted zero_flag"
  by (simp_all add: Is_bit zero_flag_def)

definition flag_bits :: "Flag \<Rightarrow> bool list" where
  "flag_bits f = [IsRoot f, IsProbation f, IsProtected f, IsRemoved f, IsFromNVM f, IsDeleted f, IsWindow f]"

text \<open>
  The flags of an entry are independent: each setter changes its own bit of the byte to
  the given value and leaves the six others alone.
\<close>

theorem flags_independent:
  "map flag_bits [SetRoot b f, SetProbation b f, SetProtected b f, SetRemoved b f, SetFromNVM b f, SetDeleted b f, SetWindow b f] =
   map (\<lambda>i. (flag_bits f)[i := b]) [0..<7]"
  by (simp add: flag_bits_def upt_rec)

end
