(* ===== verification/Entry.thy ===== *)
theory Entry
  imports Policy_Flag
begin

text \<open>
  Cache entries and their two families of intrusive links (internal/entry.go). Pointers to
  entries are addresses in an explicit store; a nil pointer is \<open>None\<close>. The link accessors
  take the list type, as the source does: the three policy lists share \<open>prev\<close>/\<open>next\<close>,
  the timer wheel uses \<open>wheelPrev\<close>/\<open>wheelNext\<close>.
\<close>

datatype code = NEW | REMOVE | UPDATE | EVICTE | WAIT

abbreviation LIST_PROBATION :: u8 where "LIST_PROBATION \<equiv> 1"
abbreviation LIST_PROTECTED :: u8 where "LIST_PROTECTED \<equiv> 2"
abbreviation WHEEL_LIST :: u8 where "WHEEL_LIST \<equiv> 3"
abbreviation LIST_WINDOW :: u8 where "LIST_WINDOW \<equiv> 4"

record MetaData =
  m_prev :: "addr option"
  m_next :: "addr option"
  m_wheelPrev :: "addr option"
  m_wheelNext :: "addr option"

record ('k, 'v) Entry =
  key :: 'k
  evalue :: 'v
  meta :: MetaData
  weight :: i64
  policyWeight :: i64
  expire :: i64
  flag :: Flag

type_synonym ('k, 'v) heap = "addr \<Rightarrow> ('k, 'v) Entry"

text \<open>Go's zero value of an entry; the zero values of the key and value types are \<open>0\<close>.\<close>

definition zero_entry :: "('k::zero, 'v::zero) Entry" where
  "zero_entry = \<lparr>key = 0, evalue = 0,
     meta = \<lparr>m_prev = None, m_next = None, m_wheelPrev = None, m_wheelNext = None\<rparr>,
     weight = 0, policyWeight = 0, expire = 0, flag = zero_flag\<rparr>"

text \<open>The result of \<open>NewEntry\<close> (used by the tests of the source).\<close>

definition NewEntry :: "'k::zero \<Rightarrow> 'v::zero \<Rightarrow> i64 \<Rightarrow> i64 \<Rightarrow> ('k, 'v) Entry" where
  "NewEntry k v cost ex =
     (let en = zero_entry\<lparr>key := k, evalue := v, weight := cost, policyWeight := cost\<rparr>
      in if slt 0 ex then en\<lparr>expire := ex\<rparr> else en)"

subsection \<open>Link accessors\<close>

definition e_prev :: "u8 \<Rightarrow> ('k, 'v) Entry \<Rightarrow> addr option" where
  "e_prev lt e =
     (if lt = LIST_PROBATION \<or> lt = LIST_PROTECTED \<or> lt = LIST_WINDOW then m_prev (meta e)
      else if lt = WHEEL_LIST then m_wheelPrev (meta e) else None)"

definition e_next :: "u8 \<Rightarrow> ('k, 'v) Entry \<Rightarrow> addr option" where
  "e_next lt e =
     (if lt = LIST_PROBATION \<or> lt = LIST_PROTECTED \<or> lt = LIST_WINDOW then m_next (meta e)
      else if lt = WHEEL_LIST then m_wheelNext (meta e) else None)"

definition setPrev :: "addr option \<Rightarrow> u8 \<Rightarrow> ('k, 'v) Entry \<Rightarrow> ('k, 'v) Entry" where
  "setPrev p lt e =
     (if lt = LIST_PROBATION \<or> lt = LIST_PROTECTED \<or> lt = LIST_WINDOW
      then e\<lparr>meta := (meta e)\<lparr>m_prev := p\<rparr>\<rparr>
      else if lt = WHEEL_LIST then e\<lparr>meta := (meta e)\<lparr>m_wheelPrev := p\<rparr>\<rparr> else e)"

definition setNext :: "addr option \<Rightarrow> u8 \<Rightarrow> ('k, 'v) Entry \<Rightarrow> ('k, 'v) Entry" where
  "setNext p lt e =
     (if lt = LIST_PROBATION \<or> lt = LIST_PROTECTED \<or> lt = LIST_WINDOW
      then e\<lparr>meta := (meta e)\<lparr>m_next := p\<rparr>\<rparr>
      else if lt = WHEEL_LIST then e\<lparr>meta := (meta e)\<lparr>m_wheelNext := p\<rparr>\<rparr> else e)"

text \<open>
  \<open>if p := ...; !p.flag.IsRoot() { return p }; return nil\<close>: the outer \<open>None\<close> is the nil
  dereference.
\<close>

definition unless_root :: "('k, 'v) heap \<Rightarrow> addr option \<Rightarrow> addr option option" where
  "unless_root h p =
     (case p of None \<Rightarrow> None
      | Some a \<Rightarrow> Some (if \<not> IsRoot (flag (h a)) then Some a else None))"

definition e_Next :: "u8 \<Rightarrow> ('k, 'v) heap \<Rightarrow> addr \<Rightarrow> addr option option" where
  "e_Next lt h e =
     (if lt = LIST_PROBATION \<or> lt = LIST_PROTECTED \<or> lt = LIST_WINDOW
      then unless_root h (m_next (meta (h e)))
      else if lt = WHEEL_LIST then unless_root h (m_wheelNext (meta (h e))) else Some None)"

definition e_Prev :: "u8 \<Rightarrow> ('k, 'v) heap \<Rightarrow> addr \<Rightarrow> addr option option" where
  "e_Prev lt h e =
     (if lt = LIST_PROBATION \<or> lt = LIST_PROTECTED \<or> lt = LIST_WINDOW
      then unless_root h (m_prev (meta (h e)))
      else if lt = WHEEL_LIST then unless_root h (m_wheelPrev (meta (h e))) else Some None)"

definition PrevPolicy :: "('k, 'v) heap \<Rightarrow> addr \<Rightarrow> addr option option" where
  "PrevPolicy h e = unless_root h (m_prev (meta (h e)))"

definition PrevExpire :: "('k, 'v) heap \<Rightarrow> addr \<Rightarrow> addr option option" where
  "PrevExpire h e = unless_root h (m_wheelPrev (meta (h e)))"

definition NextPolicy :: "('k, 'v) heap \<Rightarrow> addr \<Rightarrow> addr option option" where
  "NextPolicy h e = unless_root h (m_next (meta (h e)))"

definition NextExpire :: "('k, 'v) heap \<Rightarrow> addr \<Rightarrow> addr option option" where
  "NextExpire h e = unless_root h (m_wheelNext (meta (h e)))"

definition Position :: "('k, 'v) Entry \<Rightarrow> string" where
  "Position e =
     (if IsWindow (flag e) then ''WINDOW'' else if IsProbation (flag e) then ''PROBATION''
      else if IsProtected (flag e) then ''PROTECTED''
      else if IsRemoved (flag e) then ''REMOVED'' else ''UNKNOWN'')"

subsection \<open>Entries for persistence\<close>

record ('k, 'v) Pentry =
  P_Key :: 'k
  P_Value :: 'v
  P_Weight :: i64
  P_PolicyWeight :: i64
  P_Expire :: i64
  P_Frequency :: i64
  P_Flag :: Flag

definition pentry :: "('k, 'v) Entry \<Rightarrow> ('k, 'v) Pentry" where
  "pentry e = \<lparr>P_Key = key e, P_Value = evalue e, P_Weight = weight e,
     P_PolicyWeight = policyWeight e, P_Expire = expire e, P_Frequency = 0, P_Flag = flag e\<rparr>"

definition entry_of :: "('k::zero, 'v::zero) Pentry \<Rightarrow> ('k, 'v) Entry" where
  "entry_of p = zero_entry\<lparr>key := P_Key p, evalue := P_Value p, weight := P_Weight p,
     expire := P_Expire p, flag := P_Flag p, policyWeight := P_PolicyWeight p\<rparr>"

subsection \<open>Writes through pointers\<close>

text \<open>\<open>modify a f h\<close> writes through a non-nil pointer, \<open>modify_ptr\<close> through one that may be nil.\<close>

definition modify :: "addr \<Rightarrow> (('k, 'v) Entry \<Rightarrow> ('k, 'v) Entry) \<Rightarrow> ('k, 'v) heap \<Rightarrow> ('k, 'v) heap" where
  "modify a f h = h(a := f (h a))"

definition modify_ptr :: "addr option \<Rightarrow> (('k, 'v) Entry \<Rightarrow> ('k, 'v) Entry) \<Rightarrow> ('k, 'v) heap \<Rightarrow> ('k, 'v) heap option" where
  "modify_ptr p f h = (case p of None \<Rightarrow> None | Some a \<Rightarrow> Some (modify a f h))"

text \<open>The list types the source uses, and the links of a list type as functions of the store.\<close>

definition valid_lt :: "u8 \<Rightarrow> bool" where
  "valid_lt lt \<longleftrightarrow> lt = LIST_PROBATION \<or> lt = LIST_PROTECTED \<or> lt = WHEEL_LIST \<or> lt = LIST_WINDOW"

definition nxt :: "u8 \<Rightarrow> ('k, 'v) heap \<Rightarrow> addr \<Rightarrow> addr option" where
  "nxt lt h = (\<lambda>a. e_next lt (h a))"

definition prv :: "u8 \<Rightarrow> ('k, 'v) heap \<Rightarrow> addr \<Rightarrow> addr option" where
  "prv lt h = (\<lambda>a. e_prev lt (h a))"

definition flags :: "('k, 'v) heap \<Rightarrow> addr \<Rightarrow> Flag" where
  "flags h = (\<lambda>a. flag (h a))"

text \<open>An entry with the links of one list type and the flags erased: what list operations keep.\<close>

definition strip :: "u8 \<Rightarrow> ('k, 'v) Entry \<Rightarrow> ('k, 'v) Entry" where
  "strip lt e = setNext None lt (setPrev None lt (e\<lparr>flag := zero_flag\<rparr>))"

lemma nxt_modify [heap_simps]:
  "valid_lt lt \<Longrightarrow> nxt lt (modify a (setNext p lt) h) = (nxt lt h)(a := p)"
  "valid_lt lt \<Longrightarrow> nxt lt (modify a (setPrev p lt) h) = nxt lt h"
  "nxt lt (modify a (flag_update f) h) = nxt lt h"
  by (auto simp: nxt_def modify_def setNext_def setPrev_def e_next_def valid_lt_def fun_eq_iff)

lemma prv_modify [heap_simps]:
  "valid_lt lt \<Longrightarrow> prv lt (modify a (setPrev p lt) h) = (prv lt h)(a := p)"
  "valid_lt lt \<Longrightarrow> prv lt (modify a (setNext p lt) h) = prv lt h"
  "prv lt (modify a (flag_update f) h) = prv lt h"
  by (auto simp: prv_def modify_def setNext_def setPrev_def e_prev_def valid_lt_def fun_eq_iff)

lemma strip_modify [heap_simps]:
  "strip lt (modify a (setPrev p lt) h b) = strip lt (h b)"
  "strip lt (modify a (setNext p lt) h b) = strip lt (h b)"
  "strip lt (modify a (flag_update f) h b) = strip lt (h b)"
  by (auto simp: strip_def modify_def setNext_def setPrev_def)

lemma flags_modify [heap_simps]:
  "flags (modify a (setPrev p lt) h) = flags h"
  "flags (modify a (setNext p lt) h) = flags h"
  "flags (modify a (flag_update f) h) = (flags h)(a := f (flags h a))"
  by (auto simp: flags_def modify_def setNext_def setPrev_def fun_eq_iff)

lemma modify_ptr_Some [simp]: "modify_ptr (Some a) f h = Some (modify a f h)"
  by (simp add: modify_ptr_def)

text \<open>What two entries that differ in the policy links and flags only have in common.\<close>

lemma strip_eq_fields:
  assumes "strip lt e' = strip lt e"
  shows "key e' = key e" "evalue e' = evalue e" "weight e' = weight e"
    "policyWeight e' = policyWeight e" "expire e' = expire e"
proof -
  have *: "key (strip lt x) = key x" "evalue (strip lt x) = evalue x" "weight (strip lt x) = weight x"
    "policyWeight (strip lt x) = policyWeight x" "expire (strip lt x) = expire x" for x :: "('a, 'b) Entry"
    by (simp_all add: strip_def setNext_def setPrev_def)
  show "key e' = key e" "evalue e' = evalue e" "weight e' = weight e"
    "policyWeight e' = policyWeight e" "expire e' = expire e" using * assms by metis+
qed

lemma strip_policy_wheel:
  assumes "lt \<noteq> WHEEL_LIST" "strip lt e' = strip lt e"
  shows "e_prev WHEEL_LIST e' = e_prev WHEEL_LIST e" "e_next WHEEL_LIST e' = e_next WHEEL_LIST e"
proof -
  have *: "e_prev WHEEL_LIST (strip lt x) = e_prev WHEEL_LIST x" "e_next WHEEL_LIST (strip lt x) = e_next WHEEL_LIST x"
    for x :: "('a, 'b) Entry"
    using assms(1) by (simp_all add: strip_def setNext_def setPrev_def e_prev_def e_next_def)
  show "e_prev WHEEL_LIST e' = e_prev WHEEL_LIST e" "e_next WHEEL_LIST e' = e_next WHEEL_LIST e"
    using * assms(2) by metis+
qed

lemma strip_wheel_policy:
  assumes "strip WHEEL_LIST e' = strip WHEEL_LIST e"
  shows "e_prev lt e' = e_prev lt e \<or> lt = WHEEL_LIST" "e_next lt e' = e_next lt e \<or> lt = WHEEL_LIST"
proof -
  have *: "lt \<noteq> WHEEL_LIST \<Longrightarrow> e_prev lt (strip WHEEL_LIST x) = e_prev lt x"
    "lt \<noteq> WHEEL_LIST \<Longrightarrow> e_next lt (strip WHEEL_LIST x) = e_next lt x" for x :: "('a, 'b) Entry"
    by (simp_all add: strip_def setNext_def setPrev_def e_prev_def e_next_def)
  show "e_prev lt e' = e_prev lt e \<or> lt = WHEEL_LIST" "e_next lt e' = e_next lt e \<or> lt = WHEEL_LIST"
    using * assms by metis+
qed

text \<open>
  The record that is written to disk keeps what the cache needs: restoring it gives an
  unlinked entry with the same key, value, weights, expiry time and flags.
\<close>

theorem pentry_roundtrip:
  "entry_of (pentry e) = e\<lparr>meta := \<lparr>m_prev = None, m_next = None, m_wheelPrev = None, m_wheelNext = None\<rparr>\<rparr>"
  by (simp add: entry_of_def pentry_def zero_entry_def)

end
