(* ===== verification/Ring.thy ===== *)
theory Ring
  imports Prelude
begin

text \<open>
  Circular doubly linked lists as link functions. The intrusive lists of the source
  (internal/list.go) are rings: a sentinel root whose \<open>next\<close>/\<open>prev\<close> chain runs
  through the entries and back. \<open>rings nx pv S R\<close> says that the links \<open>nx\<close>, \<open>pv\<close>
  hold, for every root \<open>r\<close> in \<open>S\<close>, exactly the ring of the list \<open>R r\<close>, and that
  the rings share no node. The two lemmas \<open>rings_insert\<close> and \<open>rings_remove\<close> are the
  pointer surgery of \<open>insert\<close>, \<open>remove\<close>, \<open>move\<close> and \<open>deschedule\<close>; they serve
  the policy lists and the timer wheel, which use different link fields of an entry.
\<close>

type_synonym links = "addr \<Rightarrow> addr option"

definition lk :: "links \<Rightarrow> links \<Rightarrow> addr \<Rightarrow> addr \<Rightarrow> bool" where
  "lk nx pv a b \<longleftrightarrow> nx a = Some b \<and> pv b = Some a"

definition ring :: "links \<Rightarrow> links \<Rightarrow> addr \<Rightarrow> addr list \<Rightarrow> bool" where
  "ring nx pv r xs \<longleftrightarrow> distinct (r # xs) \<and> successively (lk nx pv) (r # xs @ [r])"

definition rings :: "links \<Rightarrow> links \<Rightarrow> addr set \<Rightarrow> (addr \<Rightarrow> addr list) \<Rightarrow> bool" where
  "rings nx pv S R \<longleftrightarrow> (\<forall>r\<in>S. ring nx pv r (R r)) \<and>
     (\<forall>r\<in>S. \<forall>s\<in>S. r \<noteq> s \<longrightarrow> set (r # R r) \<inter> set (s # R s) = {})"

text \<open>The entries linked into some ring.\<close>

definition members :: "addr set \<Rightarrow> (addr \<Rightarrow> addr list) \<Rightarrow> addr set" where
  "members S R = (\<Union>r\<in>S. set (R r))"

lemma membersI: "r \<in> S \<Longrightarrow> e \<in> set (R r) \<Longrightarrow> e \<in> members S R"
  by (auto simp: members_def)

lemma membersE: "e \<in> members S R \<Longrightarrow> (\<And>r us vs. r \<in> S \<Longrightarrow> R r = us @ e # vs \<Longrightarrow> P) \<Longrightarrow> P"
  by (auto simp: members_def dest!: split_list)

lemma successively_lk_cong:
  assumes "\<And>x. x \<in> set (butlast xs) \<Longrightarrow> nx' x = nx x" "\<And>y. y \<in> set (tl xs) \<Longrightarrow> pv' y = pv y"
  shows "successively (lk nx' pv') xs = successively (lk nx pv) xs"
  using assms
proof (induction xs)
  case (Cons x xs)
  show ?case
  proof (cases xs)
    case (Cons y ys)
    have "successively (lk nx' pv') xs = successively (lk nx pv) xs"
    proof (rule Cons.IH)
      fix z assume "z \<in> set (butlast xs)" then show "nx' z = nx z" using Cons.prems(1) Cons by simp
    next
      fix z assume "z \<in> set (tl xs)" then show "pv' z = pv z" using Cons.prems(2) Cons by simp
    qed
    moreover have "lk nx' pv' x y = lk nx pv x y" using Cons.prems Cons by (simp add: lk_def)
    ultimately show ?thesis using Cons by simp
  qed simp
qed simp

lemma ring_split:
  "ring nx pv r (us @ vs) \<longleftrightarrow> distinct (r # us @ vs) \<and> successively (lk nx pv) (r # us) \<and>
     lk nx pv (last (r # us)) (hd (vs @ [r])) \<and> successively (lk nx pv) (vs @ [r])"
  using successively_append_iff [of "lk nx pv" "r # us" "vs @ [r]"] by (auto simp: ring_def)

lemma ring_split3:
  "ring nx pv r (us @ e # vs) \<longleftrightarrow> distinct (r # us @ e # vs) \<and> successively (lk nx pv) (r # us) \<and>
     lk nx pv (last (r # us)) e \<and> lk nx pv e (hd (vs @ [r])) \<and> successively (lk nx pv) (vs @ [r])"
  using successively_append_iff [of "lk nx pv" "[e]" "vs @ [r]"]
  by (auto simp: ring_split [of nx pv r us "e # vs"])

lemma ring_ends:
  assumes "ring nx pv r xs"
  shows "nx r = Some (hd (xs @ [r]))" "pv r = Some (last (r # xs))"
  using assms ring_split [of nx pv r "[]" xs] ring_split [of nx pv r xs "[]"] by (auto simp: lk_def)

lemma ring_neighbours:
  assumes "ring nx pv r (us @ e # vs)"
  shows "pv e = Some (last (r # us))" "nx e = Some (hd (vs @ [r]))"
  using assms by (auto simp: ring_split3 lk_def)

lemma ring_cong:
  assumes "\<And>x. x \<in> set (r # xs) \<Longrightarrow> nx' x = nx x" "\<And>x. x \<in> set (r # xs) \<Longrightarrow> pv' x = pv x"
  shows "ring nx' pv' r xs = ring nx pv r xs"
proof -
  have "successively (lk nx' pv') (r # xs @ [r]) = successively (lk nx pv) (r # xs @ [r])"
    by (rule successively_lk_cong) (use assms in \<open>auto dest: in_set_butlastD\<close>)
  then show ?thesis by (simp add: ring_def)
qed

lemma in_rings: "rings nx pv S R \<Longrightarrow> r \<in> S \<Longrightarrow> ring nx pv r (R r)"
  by (simp add: rings_def)

lemma rings_disjoint:
  "rings nx pv S R \<Longrightarrow> r \<in> S \<Longrightarrow> s \<in> S \<Longrightarrow> r \<noteq> s \<Longrightarrow> set (r # R r) \<inter> set (s # R s) = {}"
  unfolding rings_def by blast

lemma rings_distinct: "rings nx pv S R \<Longrightarrow> r \<in> S \<Longrightarrow> distinct (R r)"
  by (simp add: rings_def ring_def)

lemma rings_root_not_member: "rings nx pv S R \<Longrightarrow> r \<in> S \<Longrightarrow> r \<notin> members S R"
proof -
  assume R: "rings nx pv S R" "r \<in> S"
  { fix s assume "s \<in> S" "r \<in> set (R s)"
    then have False using R rings_disjoint [OF R(1), of r s] in_rings [OF R(1), of r] by (cases "r = s") (auto simp: ring_def) }
  then show ?thesis by (auto simp: members_def)
qed

text \<open>
  A change that is confined to one ring, and to a node that enters or leaves it, keeps the
  other rings and their separation.
\<close>

lemma rings_change:
  assumes R: "rings nx pv S R" and r: "r \<in> S" and new: "ring nx' pv' r xs" "set xs \<subseteq> insert e (set (R r))"
    and e: "e \<notin> S" "e \<notin> members (S - {r}) R" and same: "\<And>x. x \<notin> set (r # e # R r) \<Longrightarrow> nx' x = nx x \<and> pv' x = pv x"
  shows "rings nx' pv' S (R(r := xs))"
proof -
  have apart: "set (s # R s) \<inter> set (r # e # R r) = {}" if "s \<in> S" "s \<noteq> r" for s
    using rings_disjoint [OF R that(1) r that(2)] e that by (auto simp: members_def)
  have other: "ring nx' pv' s (R s)" if "s \<in> S" "s \<noteq> r" for s
  proof -
    have "ring nx' pv' s (R s) = ring nx pv s (R s)" by (intro ring_cong) (use apart [OF that] same in blast)+
    then show ?thesis using in_rings [OF R that(1)] by simp
  qed
  show ?thesis unfolding rings_def
  proof (intro conjI ballI impI)
    fix s assume "s \<in> S"
    then show "ring nx' pv' s ((R(r := xs)) s)" using new(1) other by (cases "s = r") auto
  next
    fix s t assume st: "s \<in> S" "t \<in> S" "s \<noteq> t"
    then show "set (s # (R(r := xs)) s) \<inter> set (t # (R(r := xs)) t) = {}"
      using apart [of s] apart [of t] new(2) rings_disjoint [OF R st] by (cases "s = r"; cases "t = r") auto
  qed
qed

lemma last_once: "distinct (x # xs) \<Longrightarrow> last (x # xs) \<notin> set (butlast (x # xs))"
  by (induction xs arbitrary: x) auto

lemma hd_once: "distinct (xs @ [x]) \<Longrightarrow> hd (xs @ [x]) \<notin> set (tl (xs @ [x]))"
  by (cases xs) auto

text \<open>The part before and the part after a place of the ring, when only the links across it change.\<close>

lemma segments_kept:
  assumes d: "distinct (r # us @ vs)" and p: "p = last (r # us)" and n: "n = hd (vs @ [r])"
    and s: "successively (lk nx pv) (r # us)" "successively (lk nx pv) (vs @ [r])"
    and same: "\<And>x. x \<in> set (r # us @ vs) \<Longrightarrow> x \<noteq> p \<Longrightarrow> nx' x = nx x" "\<And>x. x \<in> set (r # us @ vs) \<Longrightarrow> x \<noteq> n \<Longrightarrow> pv' x = pv x"
  shows "successively (lk nx' pv') (r # us)" "successively (lk nx' pv') (vs @ [r])"
proof -
  have pin: "p \<in> set (r # us)" unfolding p by (rule last_in_set) simp
  have nin: "n \<in> set (vs @ [r])" unfolding n by (rule hd_in_set) simp
  have p_last: "p \<notin> set (butlast (r # us))" unfolding p using d by (intro last_once) simp
  have n_hd: "n \<notin> set (tl (vs @ [r]))" unfolding n using d by (intro hd_once) auto
  have "successively (lk nx' pv') (r # us) = successively (lk nx pv) (r # us)"
  proof (rule successively_lk_cong)
    fix x assume x: "x \<in> set (butlast (r # us))"
    then have "x \<in> set (r # us)" by (rule in_set_butlastD)
    then show "nx' x = nx x" using x p_last by (intro same(1)) auto
  next
    fix y assume "y \<in> set (tl (r # us))"
    then show "pv' y = pv y" using nin d by (intro same(2)) auto
  qed
  then show "successively (lk nx' pv') (r # us)" using s(1) by simp
  have "successively (lk nx' pv') (vs @ [r]) = successively (lk nx pv) (vs @ [r])"
  proof (rule successively_lk_cong)
    fix x assume "x \<in> set (butlast (vs @ [r]))"
    then show "nx' x = nx x" using pin d by (intro same(1)) auto
  next
    fix y assume y: "y \<in> set (tl (vs @ [r]))"
    then have "y \<in> set (vs @ [r])" by (cases vs) auto
    then show "pv' y = pv y" using y n_hd by (intro same(2)) auto
  qed
  then show "successively (lk nx' pv') (vs @ [r])" using s(2) by simp
qed

text \<open>A node lies in one ring only.\<close>

lemma rings_unique:
  "rings nx pv S R \<Longrightarrow> r \<in> S \<Longrightarrow> s \<in> S \<Longrightarrow> e \<in> set (R r) \<Longrightarrow> e \<in> set (R s) \<Longrightarrow> r = s"
  using rings_disjoint by fastforce

lemma rings_cong:
  assumes "\<And>x. x \<in> S \<union> members S R \<Longrightarrow> nx' x = nx x" "\<And>x. x \<in> S \<union> members S R \<Longrightarrow> pv' x = pv x"
  shows "rings nx' pv' S R = rings nx pv S R"
proof -
  have "ring nx' pv' r (R r) = ring nx pv r (R r)" if "r \<in> S" for r
    by (rule ring_cong) (use that assms in \<open>auto simp: members_def\<close>)
  then show ?thesis by (simp add: rings_def)
qed

subsection \<open>Linking a node in\<close>

lemma rings_insert:
  assumes R: "rings nx pv S R" and r: "r \<in> S" and xs: "R r = us @ vs"
    and e: "e \<notin> S" "e \<notin> members S R"
    and tp: "tp = last (r # us)" and n: "n = hd (vs @ [r])"
  shows "nx tp = Some n"
    and "rings (nx(e := Some n, tp := Some e)) (pv(e := Some tp, n := Some e)) S (R(r := us @ e # vs))"
proof -
  let ?nx = "nx(e := Some n, tp := Some e)" and ?pv = "pv(e := Some tp, n := Some e)"
  have ring: "ring nx pv r (us @ vs)" using in_rings [OF R r] xs by simp
  then have d: "distinct (r # us @ vs)" and s1: "successively (lk nx pv) (r # us)"
    and l: "lk nx pv tp n" and s2: "successively (lk nx pv) (vs @ [r])"
    by (simp_all only: ring_split tp n)
  from l show "nx tp = Some n" by (simp add: lk_def)
  have ee: "e \<noteq> r" "e \<notin> set us" "e \<notin> set vs" using e r xs by (auto simp: members_def)
  have tpin: "tp \<in> set (r # us)" unfolding tp by (rule last_in_set) simp
  have nin: "n \<in> set (vs @ [r])" unfolding n by (rule hd_in_set) simp
  note K = segments_kept [OF d tp n s1 s2, of ?nx ?pv]
  have new: "ring ?nx ?pv r (us @ e # vs)" unfolding ring_split3
  proof (intro conjI)
    show "distinct (r # us @ e # vs)" using d ee by auto
    show "successively (lk ?nx ?pv) (r # us)" by (rule K(1)) (use ee in auto)
    show "lk ?nx ?pv (last (r # us)) e" using ee nin unfolding tp [symmetric] lk_def by auto
    show "lk ?nx ?pv e (hd (vs @ [r]))" using ee tpin unfolding n [symmetric] lk_def by auto
    show "successively (lk ?nx ?pv) (vs @ [r])" by (rule K(2)) (use ee in auto)
  qed
  have "e \<notin> members (S - {r}) R" using e(2) by (auto simp: members_def)
  then show "rings ?nx ?pv S (R(r := us @ e # vs))" by (rule rings_change [OF R r new _ e(1), rotated 1]) (use xs tpin nin in auto)
qed

subsection \<open>Unlinking a node\<close>

lemma rings_remove:
  assumes R: "rings nx pv S R" and r: "r \<in> S" and xs: "R r = us @ e # vs"
    and p: "p = last (r # us)" and n: "n = hd (vs @ [r])"
  shows "pv e = Some p" "nx e = Some n" "p \<noteq> e" "n \<noteq> e"
    and "rings (nx(p := Some n, e := None)) (pv(n := Some p, e := None)) S (R(r := us @ vs))"
proof -
  let ?nx = "nx(p := Some n, e := None)" and ?pv = "pv(n := Some p, e := None)"
  have ring: "ring nx pv r (us @ e # vs)" using in_rings [OF R r] xs by simp
  then have d: "distinct (r # us @ e # vs)" and s1: "successively (lk nx pv) (r # us)"
    and l1: "lk nx pv p e" and l2: "lk nx pv e n" and s2: "successively (lk nx pv) (vs @ [r])"
    by (simp_all only: ring_split3 p n)
  from l1 l2 show "pv e = Some p" "nx e = Some n" by (simp_all add: lk_def)
  have pin: "p \<in> set (r # us)" unfolding p by (rule last_in_set) simp
  have nin: "n \<in> set (vs @ [r])" unfolding n by (rule hd_in_set) simp
  show pe: "p \<noteq> e" and ne: "n \<noteq> e" using pin nin d by auto
  have d': "distinct (r # us @ vs)" using d by auto
  note K = segments_kept [OF d' p n s1 s2, of ?nx ?pv]
  have new: "ring ?nx ?pv r (us @ vs)" unfolding ring_split
  proof (intro conjI)
    show "distinct (r # us @ vs)" by (rule d')
    show "successively (lk ?nx ?pv) (r # us)" by (rule K(1)) (use d in auto)
    show "lk ?nx ?pv (last (r # us)) (hd (vs @ [r]))" unfolding p [symmetric] n [symmetric] lk_def using pe ne by simp
    show "successively (lk ?nx ?pv) (vs @ [r])" by (rule K(2)) (use d in auto)
  qed
  have m: "e \<in> members S R" by (rule membersI [OF r]) (simp add: xs)
  have "e \<notin> S" using rings_root_not_member [OF R] m by blast
  moreover have "e \<notin> members (S - {r}) R" using rings_disjoint [OF R _ r] xs by (fastforce simp: members_def)
  ultimately show "rings ?nx ?pv S (R(r := us @ vs))" by (rule rings_change [OF R r new, rotated 1]) (use xs pin nin in auto)
qed

lemma members_split: "r \<in> S \<Longrightarrow> members S R = set (R r) \<union> members (S - {r}) R"
  by (auto simp: members_def)

lemma members_upd:
  assumes "r \<in> S"
  shows "members S (R(r := ys)) = set ys \<union> members (S - {r}) R"
proof -
  have "members (S - {r}) (R(r := ys)) = members (S - {r}) R" by (auto simp: members_def)
  then show ?thesis using members_split [OF assms, of "R(r := ys)"] by simp
qed

lemma members_insert_one:
  "r \<in> S \<Longrightarrow> R r = us @ vs \<Longrightarrow> members S (R(r := us @ e # vs)) = insert e (members S R)"
  by (simp add: members_upd members_split [of r S R])

lemma members_remove_one:
  assumes "rings nx pv S R" "r \<in> S" "R r = us @ e # vs"
  shows "members S (R(r := us @ vs)) = members S R - {e}"
proof -
  have "distinct (R r)" using rings_distinct assms by blast
  moreover have "e \<notin> members (S - {r}) R"
    using rings_unique [OF assms(1,2), of _ e] assms(3) by (auto simp: members_def)
  ultimately show ?thesis using assms by (auto simp: members_upd members_split [of r S R])
qed

end
