(* ===== verification/Intrusive_List.thy ===== *)
theory Intrusive_List
  imports Entry Ring
begin

text \<open>
  The doubly linked list of internal/list.go, at the level of its pointers. The sentinel
  \<open>root\<close> is an entry of the store; \<open>len\<close> is the sum of the policy weights, \<open>count\<close> the
  number of entries. Every operation that dereferences a pointer fails (\<open>None\<close>) where
  the pointer is nil. The specification lemmas relate each operation to the list of
  addresses that the ring through the root represents.
\<close>

record List =
  l_root :: addr
  l_len :: i64
  l_count :: i64
  l_capacity :: u64
  l_listType :: u8

text \<open>\<open>a\<close> is the address the allocator gives to the sentinel, \<open>&l.root\<close>.\<close>

definition NewList :: "u64 \<Rightarrow> u8 \<Rightarrow> addr \<Rightarrow> ('k::zero, 'v::zero) heap \<Rightarrow> ('k, 'v) heap \<times> List" where
  "NewList sz lt a h =
     (let l = \<lparr>l_root = a, l_len = 0, l_count = 0, l_capacity = sz, l_listType = lt\<rparr>;
          h = h(a := zero_entry);
          h = modify a (flag_update (SetRoot True)) h;
          h = modify a (setNext (Some a) lt) h;
          h = modify a (setPrev (Some a) lt) h
      in (h, l\<lparr>l_capacity := sz\<rparr>))"

definition list_Reset :: "List \<Rightarrow> ('k, 'v) heap \<Rightarrow> ('k, 'v) heap \<times> List" where
  "list_Reset l h =
     (let h = modify (l_root l) (setNext (Some (l_root l)) (l_listType l)) h;
          h = modify (l_root l) (setPrev (Some (l_root l)) (l_listType l)) h
      in (h, l\<lparr>l_len := 0\<rparr>))"

definition Len :: "List \<Rightarrow> i64" where
  "Len l = l_len l"

definition Front :: "List \<Rightarrow> ('k, 'v) heap \<Rightarrow> addr option" where
  "Front l h = (let e = e_next (l_listType l) (h (l_root l)) in if e \<noteq> Some (l_root l) then e else None)"

definition Back :: "List \<Rightarrow> ('k, 'v) heap \<Rightarrow> addr option" where
  "Back l h = (let e = e_prev (l_listType l) (h (l_root l)) in if e \<noteq> Some (l_root l) then e else None)"

text \<open>The flag \<open>insert\<close> sets on an entry of a list of type \<open>lt\<close>.\<close>

definition mark :: "u8 \<Rightarrow> Flag \<Rightarrow> Flag" where
  "mark lt f =
     (if lt \<noteq> WHEEL_LIST then
        if lt = LIST_PROTECTED then SetProtected True f
        else if lt = LIST_PROBATION then SetProbation True f
        else if lt = LIST_WINDOW then SetWindow True f else f
      else f)"

definition unmark :: "u8 \<Rightarrow> Flag \<Rightarrow> Flag" where
  "unmark lt f =
     (if lt \<noteq> WHEEL_LIST then SetWindow False (SetProtected False (SetProbation False f)) else f)"

definition list_insert :: "List \<Rightarrow> addr \<Rightarrow> addr \<Rightarrow> ('k, 'v) heap \<Rightarrow> (('k, 'v) heap \<times> List) option" where
  "list_insert l e tp h =
     (let lt = l_listType l;
          h = modify e (flag_update (mark lt)) h;
          h = modify e (setPrev (Some tp) lt) h;
          h = modify e (setNext (e_next lt (h tp)) lt) h
      in do { h \<leftarrow> modify_ptr (e_prev lt (h e)) (setNext (Some e) lt) h;
              h \<leftarrow> modify_ptr (e_next lt (h e)) (setPrev (Some e) lt) h;
              Some (h, l\<lparr>l_len := l_len l + policyWeight (h e), l_count := l_count l + 1\<rparr>) })"

definition PushFront :: "List \<Rightarrow> addr \<Rightarrow> ('k, 'v) heap \<Rightarrow> (('k, 'v) heap \<times> List) option" where
  "PushFront l e h = list_insert l e (l_root l) h"

definition PushBack :: "List \<Rightarrow> addr \<Rightarrow> ('k, 'v) heap \<Rightarrow> (('k, 'v) heap \<times> List) option" where
  "PushBack l e h = do { tp \<leftarrow> e_prev (l_listType l) (h (l_root l)); list_insert l e tp h }"

definition list_remove :: "List \<Rightarrow> addr \<Rightarrow> ('k, 'v) heap \<Rightarrow> (('k, 'v) heap \<times> List) option" where
  "list_remove l e h =
     (let lt = l_listType l in
      do { h \<leftarrow> modify_ptr (e_prev lt (h e)) (setNext (e_next lt (h e)) lt) h;
           h \<leftarrow> modify_ptr (e_next lt (h e)) (setPrev (e_prev lt (h e)) lt) h;
           (let h = modify e (setNext None lt) h;
                h = modify e (setPrev None lt) h;
                h = modify e (flag_update (unmark lt)) h
            in Some (h, l\<lparr>l_len := l_len l + (- policyWeight (h e)), l_count := l_count l - 1\<rparr>)) })"

definition list_move :: "List \<Rightarrow> addr \<Rightarrow> addr \<Rightarrow> ('k, 'v) heap \<Rightarrow> ('k, 'v) heap option" where
  "list_move l e tp h =
     (if e = tp then Some h
      else let lt = l_listType l in
        do { h \<leftarrow> modify_ptr (e_prev lt (h e)) (setNext (e_next lt (h e)) lt) h;
             h \<leftarrow> modify_ptr (e_next lt (h e)) (setPrev (e_prev lt (h e)) lt) h;
             (let h = modify e (setPrev (Some tp) lt) h;
                  h = modify e (setNext (e_next lt (h tp)) lt) h
              in do { h \<leftarrow> modify_ptr (e_prev lt (h e)) (setNext (Some e) lt) h;
                      modify_ptr (e_next lt (h e)) (setPrev (Some e) lt) h }) })"

definition MoveToFront :: "List \<Rightarrow> addr \<Rightarrow> ('k, 'v) heap \<Rightarrow> ('k, 'v) heap option" where
  "MoveToFront l e h = list_move l e (l_root l) h"

definition MoveToBack :: "List \<Rightarrow> addr \<Rightarrow> ('k, 'v) heap \<Rightarrow> ('k, 'v) heap option" where
  "MoveToBack l e h = do { tp \<leftarrow> e_prev (l_listType l) (h (l_root l)); list_move l e tp h }"

definition MoveBefore :: "List \<Rightarrow> addr \<Rightarrow> addr \<Rightarrow> ('k, 'v) heap \<Rightarrow> ('k, 'v) heap option" where
  "MoveBefore l e mk h = do { tp \<leftarrow> e_prev (l_listType l) (h mk); list_move l e tp h }"

definition MoveAfter :: "List \<Rightarrow> addr \<Rightarrow> addr \<Rightarrow> ('k, 'v) heap \<Rightarrow> ('k, 'v) heap option" where
  "MoveAfter l e mk h = list_move l e mk h"

definition PopTail :: "List \<Rightarrow> ('k, 'v) heap \<Rightarrow> (('k, 'v) heap \<times> List \<times> addr option) option" where
  "PopTail l h =
     (case e_prev (l_listType l) (h (l_root l)) of
        None \<Rightarrow> Some (h, l, None)
      | Some e \<Rightarrow>
          if e \<noteq> l_root l then do { (h, l) \<leftarrow> list_remove l e h; Some (h, l, Some e) }
          else Some (h, l, None))"

text \<open>
  The loops \<open>for e := l.Front(); e != nil; e = e.Next(l.listType)\<close> of \<open>entries\<close>, \<open>rangef\<close>,
  \<open>display\<close> and \<open>Contains\<close>: they need not end on a store that is not well-formed.
\<close>

partial_function (option) entries_from :: "('k, 'v) heap \<Rightarrow> u8 \<Rightarrow> addr option \<Rightarrow> addr list option" where
  "entries_from h lt p =
     (case p of None \<Rightarrow> Some []
      | Some e \<Rightarrow> Option.bind (e_Next lt h e) (\<lambda>n. Option.bind (entries_from h lt n) (\<lambda>es. Some (e # es))))"

definition entries :: "List \<Rightarrow> ('k, 'v) heap \<Rightarrow> addr list option" where
  "entries l h = entries_from h (l_listType l) (Front l h)"

partial_function (option) contains_from :: "('k, 'v) heap \<Rightarrow> u8 \<Rightarrow> addr \<Rightarrow> addr option \<Rightarrow> bool option" where
  "contains_from h lt entry p =
     (case p of None \<Rightarrow> Some False
      | Some e \<Rightarrow> if e = entry then Some True
                else Option.bind (e_Next lt h e) (\<lambda>n. contains_from h lt entry n))"

definition Contains :: "List \<Rightarrow> addr \<Rightarrow> ('k, 'v) heap \<Rightarrow> bool option" where
  "Contains l entry h = contains_from h (l_listType l) entry (Front l h)"

text \<open>\<open>rangef(fn)\<close>: the callback is a state transformer over the visited entry.\<close>

definition rangef :: "List \<Rightarrow> (addr \<Rightarrow> 's \<Rightarrow> 's) \<Rightarrow> ('k, 'v) heap \<Rightarrow> 's \<Rightarrow> 's option" where
  "rangef l f h s = do { es \<leftarrow> entries l h; Some (fold f es s) }"

subsection \<open>Specification of the pointer operations\<close>

lemma nxt_at: "e_next lt (h a) = nxt lt h a" and prv_at: "e_prev lt (h a) = prv lt h a"
  by (simp_all add: nxt_def prv_def)

lemmas link_views = nxt_at prv_at heap_simps

definition stripped :: "u8 \<Rightarrow> ('k, 'v) heap \<Rightarrow> ('k, 'v) heap \<Rightarrow> bool" where
  "stripped lt h h' \<longleftrightarrow> (\<forall>a. strip lt (h' a) = strip lt (h a))"

lemma stripped_refl [simp]: "stripped lt h h"
  by (simp add: stripped_def)

lemma stripped_trans: "stripped lt h h' \<Longrightarrow> stripped lt h' h'' \<Longrightarrow> stripped lt h h''"
  by (simp add: stripped_def)

lemma stripped_modify:
  "stripped lt h (modify a (setPrev p lt) h)" "stripped lt h (modify a (setNext p lt) h)"
  "stripped lt h (modify a (flag_update f) h)"
  by (simp_all add: stripped_def heap_simps)

lemma stripped_policyWeight: "stripped lt h h' \<Longrightarrow> policyWeight (h' a) = policyWeight (h a)"
  unfolding stripped_def by (metis strip_eq_fields(4))

lemma list_insert_links:
  assumes lt: "valid_lt (l_listType l)" and ne: "e \<noteq> tp" and n: "nxt (l_listType l) h tp = Some n"
  obtains h' where "list_insert l e tp h =
      Some (h', l\<lparr>l_len := l_len l + policyWeight (h e), l_count := l_count l + 1\<rparr>)"
    "nxt (l_listType l) h' = (nxt (l_listType l) h)(e := Some n, tp := Some e)"
    "prv (l_listType l) h' = (prv (l_listType l) h)(e := Some tp, n := Some e)"
    "stripped (l_listType l) h h'"
    "flags h' = (flags h)(e := mark (l_listType l) (flags h e))"
proof -
  define lt where "lt = l_listType l"
  define h1 where "h1 = modify e (flag_update (mark lt)) h"
  define h2 where "h2 = modify e (setPrev (Some tp) lt) h1"
  define h3 where "h3 = modify e (setNext (nxt lt h2 tp) lt) h2"
  define h4 where "h4 = modify tp (setNext (Some e) lt) h3"
  define h5 where "h5 = modify n (setPrev (Some e) lt) h4"
  note v = assms [folded lt_def]
  have 3: "nxt lt h3 = (nxt lt h)(e := Some n)" "prv lt h3 = (prv lt h)(e := Some tp)"
    using v by (simp_all add: h3_def h2_def h1_def link_views)
  have 4: "nxt lt h4 = (nxt lt h)(e := Some n, tp := Some e)" "prv lt h4 = (prv lt h)(e := Some tp)"
    using v 3 by (simp_all add: h4_def link_views)
  have s: "stripped lt h h5" unfolding h5_def h4_def h3_def h2_def h1_def
    by (intro stripped_trans [OF _ stripped_modify(1)] stripped_trans [OF _ stripped_modify(2)] stripped_modify(3))
  have "list_insert l e tp h = Some (h5, l\<lparr>l_len := l_len l + policyWeight (h5 e), l_count := l_count l + 1\<rparr>)"
    using v(2) 3 4 by (simp add: list_insert_def Let_def nxt_at prv_at
        flip: lt_def h1_def h2_def h3_def h4_def h5_def)
  then show ?thesis
    by (rule that [unfolded lt_def [symmetric] stripped_policyWeight [OF s, symmetric]])
      (use v 4 s in \<open>simp_all add: h5_def h4_def h3_def h2_def h1_def link_views\<close>)
qed

lemma list_remove_links:
  assumes lt: "valid_lt (l_listType l)" and p: "prv (l_listType l) h e = Some p"
    and n: "nxt (l_listType l) h e = Some n" and ne: "p \<noteq> e" "n \<noteq> e"
  obtains h' where "list_remove l e h =
      Some (h', l\<lparr>l_len := l_len l - policyWeight (h e), l_count := l_count l - 1\<rparr>)"
    "nxt (l_listType l) h' = (nxt (l_listType l) h)(p := Some n, e := None)"
    "prv (l_listType l) h' = (prv (l_listType l) h)(n := Some p, e := None)"
    "stripped (l_listType l) h h'"
    "flags h' = (flags h)(e := unmark (l_listType l) (flags h e))"
proof -
  define lt where "lt = l_listType l"
  define h1 where "h1 = modify p (setNext (Some n) lt) h"
  define h2 where "h2 = modify n (setPrev (Some p) lt) h1"
  define h3 where "h3 = modify e (setNext None lt) h2"
  define h4 where "h4 = modify e (setPrev None lt) h3"
  define h5 where "h5 = modify e (flag_update (unmark lt)) h4"
  note v = assms [folded lt_def]
  have 1: "nxt lt h1 = (nxt lt h)(p := Some n)" "prv lt h1 = prv lt h"
    using v by (simp_all add: h1_def link_views)
  have 2: "nxt lt h2 = (nxt lt h)(p := Some n)" "prv lt h2 = (prv lt h)(n := Some p)"
    using v 1 by (simp_all add: h2_def link_views)
  have s: "stripped lt h h5" unfolding h5_def h4_def h3_def h2_def h1_def
    by (intro stripped_trans [OF _ stripped_modify(1)] stripped_trans [OF _ stripped_modify(2)]
        stripped_trans [OF _ stripped_modify(3)]) simp
  have "list_remove l e h = Some (h5, l\<lparr>l_len := l_len l - policyWeight (h5 e), l_count := l_count l - 1\<rparr>)"
    using v 1 2 by (simp add: list_remove_def Let_def nxt_at prv_at
        flip: lt_def h1_def h2_def h3_def h4_def h5_def)
  then show ?thesis
    by (rule that [unfolded lt_def [symmetric] stripped_policyWeight [OF s, symmetric]])
      (use v 2 s in \<open>simp_all add: h5_def h4_def h3_def link_views\<close>,
       simp_all add: h2_def h1_def link_views)
qed

lemma list_move_links:
  assumes lt: "valid_lt (l_listType l)" and p: "prv (l_listType l) h e = Some p"
    and n: "nxt (l_listType l) h e = Some n" and ne: "p \<noteq> e" "n \<noteq> e" "e \<noteq> tp"
    and m: "((nxt (l_listType l) h)(p := Some n)) tp = Some m" "m \<noteq> e"
  obtains h' where "list_move l e tp h = Some h'"
    "nxt (l_listType l) h' = (nxt (l_listType l) h)(p := Some n, e := None, e := Some m, tp := Some e)"
    "prv (l_listType l) h' = (prv (l_listType l) h)(n := Some p, e := None, e := Some tp, m := Some e)"
    "stripped (l_listType l) h h'" "flags h' = flags h"
proof -
  define lt where "lt = l_listType l"
  define h1 where "h1 = modify p (setNext (Some n) lt) h"
  define h2 where "h2 = modify n (setPrev (Some p) lt) h1"
  define h3 where "h3 = modify e (setPrev (Some tp) lt) h2"
  define h4 where "h4 = modify e (setNext (Some m) lt) h3"
  define h5 where "h5 = modify tp (setNext (Some e) lt) h4"
  define h6 where "h6 = modify m (setPrev (Some e) lt) h5"
  note v = assms [folded lt_def]
  have 1: "nxt lt h1 = (nxt lt h)(p := Some n)" "prv lt h1 = prv lt h"
    using v by (simp_all add: h1_def link_views)
  have 2: "nxt lt h2 = (nxt lt h)(p := Some n)" "prv lt h2 = (prv lt h)(n := Some p)"
    using v 1 by (simp_all add: h2_def link_views)
  have 3: "nxt lt h3 = (nxt lt h)(p := Some n)" "prv lt h3 = (prv lt h)(n := Some p, e := Some tp)"
    using v 2 by (simp_all add: h3_def link_views)
  have 4: "nxt lt h4 = (nxt lt h)(p := Some n, e := Some m)" "prv lt h4 = (prv lt h)(n := Some p, e := Some tp)"
    using v 3 by (simp_all add: h4_def link_views)
  have nt: "nxt lt h3 tp = Some m" using v 3 by simp
  have 5: "nxt lt h5 = (nxt lt h)(p := Some n, e := Some m, tp := Some e)" "prv lt h5 = prv lt h4"
    using v 4 by (simp_all add: h5_def link_views)
  have s: "stripped lt h h6" unfolding h6_def h5_def h4_def h3_def h2_def h1_def
    by (intro stripped_trans [OF _ stripped_modify(1)] stripped_trans [OF _ stripped_modify(2)]) simp
  have "list_move l e tp h = Some h6"
    using v 1 2 nt 4 5 by (simp add: list_move_def Let_def nxt_at prv_at
        flip: lt_def h1_def h2_def h3_def h4_def h5_def h6_def)
  then show ?thesis
    by (rule that [unfolded lt_def [symmetric]])
      (use v 4 5 s in \<open>simp_all add: h6_def link_views\<close>,
       simp_all add: h5_def h4_def h3_def h2_def h1_def link_views)
qed

subsection \<open>The operations on rings\<close>

text \<open>
  \<open>hrings lt h S R\<close>: in the store \<open>h\<close> the links of type \<open>lt\<close> form the rings \<open>R\<close> over
  the sentinels \<open>S\<close>; the sentinels, and no member, carry the root flag.
\<close>

definition hrings :: "u8 \<Rightarrow> ('k, 'v) heap \<Rightarrow> addr set \<Rightarrow> (addr \<Rightarrow> addr list) \<Rightarrow> bool" where
  "hrings lt h S R \<longleftrightarrow> valid_lt lt \<and> rings (nxt lt h) (prv lt h) S R \<and>
     (\<forall>r\<in>S. IsRoot (flags h r)) \<and> (\<forall>e\<in>members S R. \<not> IsRoot (flags h e))"

lemma hrings_rings: "hrings lt h S R \<Longrightarrow> rings (nxt lt h) (prv lt h) S R"
  by (simp add: hrings_def)

lemma IsRoot_mark [simp]: "IsRoot (mark lt f) = IsRoot f" "IsRoot (unmark lt f) = IsRoot f"
  by (simp_all add: mark_def unmark_def)

lemma hrings_insert:
  assumes H: "hrings (l_listType l) h S R" and r: "l_root l \<in> S" and xs: "R (l_root l) = us @ vs"
    and e: "e \<notin> S" "e \<notin> members S R" "\<not> IsRoot (flags h e)" and tp: "tp = last (l_root l # us)"
  obtains h' where "list_insert l e tp h =
      Some (h', l\<lparr>l_len := l_len l + policyWeight (h e), l_count := l_count l + 1\<rparr>)"
    "hrings (l_listType l) h' S (R(l_root l := us @ e # vs))" "stripped (l_listType l) h h'"
    "flags h' = (flags h)(e := mark (l_listType l) (flags h e))"
    "\<forall>a. a \<notin> insert e (S \<union> members S R) \<longrightarrow> prv (l_listType l) h' a = prv (l_listType l) h a"
proof -
  have lt: "valid_lt (l_listType l)" using H by (simp add: hrings_def)
  define n where "n = hd (vs @ [l_root l])"
  note ri = rings_insert [OF hrings_rings [OF H] r xs e(1,2) tp n_def]
  have "tp \<in> set (l_root l # us)" unfolding tp by (rule last_in_set) simp
  then have ne: "e \<noteq> tp" using e r xs by (auto simp: members_def)
  obtain h' where h': "list_insert l e tp h =
      Some (h', l\<lparr>l_len := l_len l + policyWeight (h e), l_count := l_count l + 1\<rparr>)"
    "nxt (l_listType l) h' = (nxt (l_listType l) h)(e := Some n, tp := Some e)"
    "prv (l_listType l) h' = (prv (l_listType l) h)(e := Some tp, n := Some e)"
    "stripped (l_listType l) h h'"
    and fl: "flags h' = (flags h)(e := mark (l_listType l) (flags h e))"
    by (rule list_insert_links [OF lt ne ri(1)])
  have "hrings (l_listType l) h' S (R(l_root l := us @ e # vs))"
    unfolding hrings_def h'(2,3) members_insert_one [of "l_root l" S R us vs, OF r xs]
    using lt ri(2) H e by (auto simp: fl hrings_def)
  moreover have "n \<in> S \<union> members S R" unfolding n_def using r xs membersI [OF r, of "hd vs" R] by (cases vs) auto
  then have "\<forall>a. a \<notin> insert e (S \<union> members S R) \<longrightarrow> prv (l_listType l) h' a = prv (l_listType l) h a"
    unfolding h'(3) by auto
  ultimately show ?thesis using that h' fl by blast
qed

lemma hrings_remove:
  assumes H: "hrings (l_listType l) h S R" and r: "l_root l \<in> S" and xs: "R (l_root l) = us @ e # vs"
  obtains h' where "list_remove l e h =
      Some (h', l\<lparr>l_len := l_len l - policyWeight (h e), l_count := l_count l - 1\<rparr>)"
    "hrings (l_listType l) h' S (R(l_root l := us @ vs))" "stripped (l_listType l) h h'"
    "flags h' = (flags h)(e := unmark (l_listType l) (flags h e))"
    "nxt (l_listType l) h' e = None" "prv (l_listType l) h' e = None"
    "\<forall>a. a \<notin> insert e (S \<union> members S R) \<longrightarrow> prv (l_listType l) h' a = prv (l_listType l) h a"
proof -
  have lt: "valid_lt (l_listType l)" using H by (simp add: hrings_def)
  define p n where "p = last (l_root l # us)" and "n = hd (vs @ [l_root l])"
  note rr = rings_remove [OF hrings_rings [OF H] r xs p_def n_def]
  obtain h' where h': "list_remove l e h =
      Some (h', l\<lparr>l_len := l_len l - policyWeight (h e), l_count := l_count l - 1\<rparr>)"
    "nxt (l_listType l) h' = (nxt (l_listType l) h)(p := Some n, e := None)"
    "prv (l_listType l) h' = (prv (l_listType l) h)(n := Some p, e := None)"
    "stripped (l_listType l) h h'"
    and fl: "flags h' = (flags h)(e := unmark (l_listType l) (flags h e))"
    by (rule list_remove_links [OF lt rr(1-4)])
  have "hrings (l_listType l) h' S (R(l_root l := us @ vs))"
    unfolding hrings_def h'(2,3) members_remove_one [OF hrings_rings [OF H] r xs]
    using lt rr(5) H by (auto simp: fl hrings_def)
  moreover have "n \<in> S \<union> members S R" unfolding n_def using r xs membersI [OF r, of "hd vs" R] by (cases vs) auto
  then have "\<forall>a. a \<notin> insert e (S \<union> members S R) \<longrightarrow> prv (l_listType l) h' a = prv (l_listType l) h a"
    unfolding h'(3) by auto
  ultimately show ?thesis using that h' fl by simp
qed

text \<open>Moving an entry within its list: any target position of the remaining list.\<close>

lemma hrings_move:
  assumes H: "hrings (l_listType l) h S R" and r: "l_root l \<in> S" and xs: "R (l_root l) = us @ e # vs"
    and ys: "us @ vs = us' @ vs'" and tp: "tp = last (l_root l # us')"
  obtains h' where "list_move l e tp h = Some h'" "hrings (l_listType l) h' S (R(l_root l := us' @ e # vs'))"
    "stripped (l_listType l) h h'" "flags h' = flags h"
    "\<forall>a. a \<notin> S \<union> members S R \<longrightarrow> prv (l_listType l) h' a = prv (l_listType l) h a"
proof -
  let ?lt = "l_listType l" and ?r = "l_root l"
  have lt: "valid_lt ?lt" using H by (simp add: hrings_def)
  define p n m where "p = last (?r # us)" and "n = hd (vs @ [?r])" and "m = hd (vs' @ [?r])"
  note rr = rings_remove [OF hrings_rings [OF H] r xs p_def n_def]
  let ?R = "R(?r := us @ vs)"
  have "e \<in> members S R" by (rule membersI [OF r]) (simp add: xs)
  then have em: "e \<notin> members S ?R" "e \<notin> S"
    using members_remove_one [OF hrings_rings [OF H] r xs] rings_root_not_member [OF hrings_rings [OF H], of e] by blast+
  have Rr: "?R ?r = us' @ vs'" using ys by simp
  note ri = rings_insert [OF rr(5) r Rr em(2,1) tp m_def]
  have tpin: "tp \<in> set (?r # us')" unfolding tp by (rule last_in_set) simp
  have min: "m \<in> set (vs' @ [?r])" unfolding m_def by (rule hd_in_set) simp
  have eus: "e \<notin> set (us' @ vs')" using membersI [OF r, of e ?R] em(1) unfolding Rr by blast
  have "e \<noteq> ?r" using em(2) r by blast
  with eus have ne: "e \<noteq> tp" "m \<noteq> e" using tpin min by auto
  have m1: "((nxt ?lt h)(p := Some n)) tp = Some m" using ri(1) ne by simp
  obtain h' where h': "list_move l e tp h = Some h'"
    "nxt ?lt h' = (nxt ?lt h)(p := Some n, e := None, e := Some m, tp := Some e)"
    "prv ?lt h' = (prv ?lt h)(n := Some p, e := None, e := Some tp, m := Some e)"
    "stripped ?lt h h'" and fl: "flags h' = flags h"
    by (rule list_move_links [OF lt rr(1-4) ne(1) m1 ne(2)])
  have mem: "members S (R(?r := us' @ e # vs')) = members S R"
  proof -
    have "set (us @ vs) = set (us' @ vs')" using ys by simp
    then show ?thesis using xs by (simp add: members_upd [OF r] members_split [OF r, of R])
  qed
  have "hrings ?lt h' S (R(?r := us' @ e # vs'))"
    unfolding hrings_def mem fl h'(2,3) using lt ri(2) H by (auto simp: hrings_def)
  moreover have "n \<in> S \<union> members S R" unfolding n_def using r xs membersI [OF r, of "hd vs" R] by (cases vs) auto
  moreover have "m \<in> S \<union> members S R" 
  proof -
    have "set vs' \<subseteq> set (us' @ vs')" by simp
    then have "set vs' \<subseteq> set (R ?r)" unfolding ys [symmetric] xs by auto
    then show ?thesis unfolding m_def using r by (cases vs') (auto simp: members_def)
  qed
  ultimately show ?thesis using that h' fl \<open>e \<in> members S R\<close> by fastforce
qed

lemma Front_spec:
  assumes "hrings (l_listType l) h S R" "l_root l \<in> S"
  shows "Front l h = (case R (l_root l) of [] \<Rightarrow> None | e # _ \<Rightarrow> Some e)"
proof -
  have r: "ring (nxt (l_listType l) h) (prv (l_listType l) h) (l_root l) (R (l_root l))"
    using in_rings [OF hrings_rings [OF assms(1)] assms(2)] .
  show ?thesis using ring_ends(1) [OF r] r
    by (cases "R (l_root l)") (auto simp: Front_def Let_def nxt_at ring_def)
qed

lemma Back_spec:
  assumes "hrings (l_listType l) h S R" "l_root l \<in> S"
  shows "Back l h = (if R (l_root l) = [] then None else Some (last (R (l_root l))))"
proof -
  have r: "ring (nxt (l_listType l) h) (prv (l_listType l) h) (l_root l) (R (l_root l))"
    using in_rings [OF hrings_rings [OF assms(1)] assms(2)] .
  have "l_root l \<noteq> last (R (l_root l))" if "R (l_root l) \<noteq> []" using r last_in_set [OF that] by (auto simp: ring_def)
  then show ?thesis using ring_ends(2) [OF r] by (cases "R (l_root l) = []") (simp_all add: Back_def Let_def prv_at)
qed

text \<open>The neighbour of a member in its list.\<close>

lemma e_Next_spec:
  assumes H: "hrings lt h S R" and r: "r \<in> S" and xs: "R r = us @ e # vs"
  shows "e_Next lt h e = Some (case vs of [] \<Rightarrow> None | n # _ \<Rightarrow> Some n)"
proof -
  have "nxt lt h e = Some (hd (vs @ [r]))"
    using ring_neighbours(2) [of "nxt lt h" "prv lt h" r us e vs] in_rings [OF hrings_rings [OF H] r] xs by simp
  moreover have "IsRoot (flags h (hd (vs @ [r]))) \<longleftrightarrow> vs = []"
    using H r xs by (cases vs) (auto simp: hrings_def members_def)
  ultimately show ?thesis using H
    by (auto simp: flags_def e_Next_def nxt_def e_next_def unless_root_def hrings_def valid_lt_def split: list.splits)
qed

lemma e_Prev_spec:
  assumes H: "hrings lt h S R" and r: "r \<in> S" and xs: "R r = us @ e # vs"
  shows "e_Prev lt h e = Some (if us = [] then None else Some (last us))"
proof -
  have "prv lt h e = Some (last (r # us))"
    using ring_neighbours(1) [of "nxt lt h" "prv lt h" r us e vs] in_rings [OF hrings_rings [OF H] r] xs by simp
  moreover have "us \<noteq> [] \<Longrightarrow> last us \<in> set (R r)" using xs by simp
  then have "us \<noteq> [] \<Longrightarrow> \<not> IsRoot (flags h (last us))" using H r by (auto simp: hrings_def members_def)
  moreover have "IsRoot (flags h r)" using H r by (simp add: hrings_def)
  ultimately show ?thesis using H
    by (cases "us = []") (auto simp: flags_def e_Prev_def prv_def e_prev_def unless_root_def hrings_def valid_lt_def)
qed

text \<open>The iteration loops end and visit exactly the entries of the list, in order.\<close>

lemma entries_from_spec:
  assumes H: "hrings lt h S R" and r: "r \<in> S"
  shows "R r = us @ vs \<Longrightarrow> entries_from h lt (case vs of [] \<Rightarrow> None | e # _ \<Rightarrow> Some e) = Some vs"
proof (induction vs arbitrary: us)
  case Nil
  then show ?case by (simp add: entries_from.simps)
next
  case (Cons e vs)
  have "e_Next lt h e = Some (case vs of [] \<Rightarrow> None | n # _ \<Rightarrow> Some n)"
    by (rule e_Next_spec [OF H r Cons.prems])
  with Cons.IH [of "us @ [e]"] Cons.prems show ?case
    by (simp add: entries_from.simps [of h lt "Some e"])
qed

lemma entries_spec:
  assumes "hrings (l_listType l) h S R" "l_root l \<in> S"
  shows "entries l h = Some (R (l_root l))"
  using entries_from_spec [OF assms, of "[]"] by (simp add: entries_def Front_spec [OF assms])

lemma contains_from_spec:
  assumes H: "hrings lt h S R" and r: "r \<in> S"
  shows "R r = us @ vs \<Longrightarrow> contains_from h lt x (case vs of [] \<Rightarrow> None | e # _ \<Rightarrow> Some e) = Some (x \<in> set vs)"
proof (induction vs arbitrary: us)
  case Nil
  then show ?case by (simp add: contains_from.simps)
next
  case (Cons e vs)
  have "e_Next lt h e = Some (case vs of [] \<Rightarrow> None | n # _ \<Rightarrow> Some n)"
    by (rule e_Next_spec [OF H r Cons.prems])
  with Cons.IH [of "us @ [e]"] Cons.prems show ?case
    by (auto simp: contains_from.simps [of h lt x "Some e"])
qed

lemma Contains_spec:
  assumes "hrings (l_listType l) h S R" "l_root l \<in> S"
  shows "Contains l x h = Some (x \<in> set (R (l_root l)))"
  using contains_from_spec [OF assms, of "[]"] by (simp add: Contains_def Front_spec [OF assms])

end
