(* ===== verification/Policy_Lists.thy ===== *)
theory Policy_Lists
  imports Intrusive_List
begin

text \<open>
  The lists of the eviction policy: window, probation and protected are three intrusive
  lists over the same links of the same store, and the flags of an entry tell which of
  them holds it. \<open>reps h T X\<close> states this shared representation once: \<open>T\<close> gives the list
  headers, \<open>X\<close> the sequences of entries they stand for, newest first. Each list operation
  is then an operation on \<open>X\<close>.
\<close>

datatype pqueue = QWindow | QProbation | QProtected

fun ltype :: "pqueue \<Rightarrow> u8" where
  "ltype QWindow = LIST_WINDOW"
| "ltype QProbation = LIST_PROBATION"
| "ltype QProtected = LIST_PROTECTED"

fun in_queue :: "pqueue \<Rightarrow> Flag \<Rightarrow> bool" where
  "in_queue QWindow f = IsWindow f"
| "in_queue QProbation f = IsProbation f"
| "in_queue QProtected f = IsProtected f"

lemma pqueue_all: "(\<forall>q. P q) \<longleftrightarrow> P QWindow \<and> P QProbation \<and> P QProtected"
  by (metis pqueue.exhaust)

lemma UNIV_pqueue: "UNIV = {QWindow, QProbation, QProtected}"
  using pqueue.exhaust by auto

lemma ltype_policy: "ltype q \<noteq> WHEEL_LIST" "valid_lt (ltype q)"
  by (cases q; simp add: valid_lt_def)+

lemma ltype_links: "nxt (ltype q) h = nxt LIST_WINDOW h" "prv (ltype q) h = prv LIST_WINDOW h"
  "setPrev p (ltype q) = setPrev p LIST_WINDOW" "setNext p (ltype q) = setNext p LIST_WINDOW"
  by (cases q; simp add: nxt_def prv_def e_next_def e_prev_def setPrev_def setNext_def fun_eq_iff)+

lemma ltype_strip: "strip (ltype q) = strip LIST_WINDOW"
  by (simp add: strip_def fun_eq_iff ltype_links)

lemma ltype_hrings: "hrings (ltype q) h S R = hrings LIST_WINDOW h S R"
  "stripped (ltype q) h h' = stripped LIST_WINDOW h h'"
  using ltype_policy(2) [of q] ltype_policy(2) [of QWindow]
  by (simp_all add: hrings_def ltype_links stripped_def ltype_strip)

lemma in_queue_mark [simp]: "in_queue q (mark (ltype q') f) \<longleftrightarrow> q = q' \<or> in_queue q f"
  by (cases q; cases q'; simp add: mark_def)

lemma in_queue_unmark [simp]: "\<not> in_queue q (unmark (ltype q') f)"
  by (cases q; cases q'; simp add: unmark_def)

subsection \<open>What the policy does not touch\<close>

text \<open>The part of the flags that belongs to the store.\<close>

definition store_flags :: "Flag \<Rightarrow> bool \<times> bool \<times> bool \<times> bool" where
  "store_flags f = (IsRoot f, IsRemoved f, IsFromNVM f, IsDeleted f)"

definition pframe :: "('k, 'v) heap \<Rightarrow> ('k, 'v) heap \<Rightarrow> bool" where
  "pframe h h' \<longleftrightarrow> stripped LIST_WINDOW h h' \<and> (\<forall>a. store_flags (flags h' a) = store_flags (flags h a))"

lemma pframe_refl [simp]: "pframe h h"
  by (simp add: pframe_def)

lemma pframe_trans: "pframe h h' \<Longrightarrow> pframe h' h'' \<Longrightarrow> pframe h h''"
  unfolding pframe_def by (auto intro: stripped_trans)

lemma pframe_fields:
  assumes "pframe h h'"
  shows "key (h' a) = key (h a)" "evalue (h' a) = evalue (h a)" "weight (h' a) = weight (h a)"
    "policyWeight (h' a) = policyWeight (h a)" "expire (h' a) = expire (h a)"
    "nxt WHEEL_LIST h' = nxt WHEEL_LIST h" "prv WHEEL_LIST h' = prv WHEEL_LIST h"
    "IsRoot (flags h' a) = IsRoot (flags h a)" "IsRemoved (flags h' a) = IsRemoved (flags h a)"
proof -
  have s: "strip LIST_WINDOW (h' b) = strip LIST_WINDOW (h b)" for b
    using assms by (simp add: pframe_def stripped_def)
  show "key (h' a) = key (h a)" "evalue (h' a) = evalue (h a)" "weight (h' a) = weight (h a)"
    "policyWeight (h' a) = policyWeight (h a)" "expire (h' a) = expire (h a)"
    using strip_eq_fields [OF s [of a]] by simp_all
  show "nxt WHEEL_LIST h' = nxt WHEEL_LIST h" "prv WHEEL_LIST h' = prv WHEEL_LIST h"
    unfolding nxt_def prv_def using strip_policy_wheel [OF _ s] by auto
  show "IsRoot (flags h' a) = IsRoot (flags h a)" "IsRemoved (flags h' a) = IsRemoved (flags h a)"
    using assms by (simp_all add: pframe_def store_flags_def)
qed

lemma store_flags_mark [simp]: "store_flags (mark lt f) = store_flags f" "store_flags (unmark lt f) = store_flags f"
  by (simp_all add: store_flags_def mark_def unmark_def)

subsection \<open>The shared representation\<close>

definition wsum :: "('k, 'v) heap \<Rightarrow> addr list \<Rightarrow> i64" where
  "wsum h xs = sum_list (map (\<lambda>a. policyWeight (h a)) xs)"

lemma wsum_simps [simp]: "wsum h [] = 0" "wsum h (x # xs) = policyWeight (h x) + wsum h xs"
  "wsum h (xs @ ys) = wsum h xs + wsum h ys"
  by (simp_all add: wsum_def)

lemma wsum_pframe: "pframe h h' \<Longrightarrow> wsum h' = wsum h"
  by (simp add: wsum_def fun_eq_iff pframe_fields(4))

definition roots :: "(pqueue \<Rightarrow> List) \<Rightarrow> addr set" where
  "roots T = range (\<lambda>q. l_root (T q))"

definition all_entries :: "(pqueue \<Rightarrow> addr list) \<Rightarrow> addr set" where
  "all_entries X = (\<Union>q. set (X q))"

text \<open>An entry outside the lists has no policy links and none of their flags.\<close>

definition detached :: "('k, 'v) heap \<Rightarrow> addr \<Rightarrow> bool" where
  "detached h e \<longleftrightarrow> prv LIST_WINDOW h e = None \<and> (\<forall>q. \<not> in_queue q (flags h e))"

definition header_ok :: "('k, 'v) heap \<Rightarrow> pqueue \<Rightarrow> List \<Rightarrow> addr list \<Rightarrow> bool" where
  "header_ok h q l xs \<longleftrightarrow> l_listType l = ltype q \<and> l_len l = wsum h xs \<and>
     l_count l = word_of_nat (length xs) \<and> (\<forall>e\<in>set xs. \<forall>q'. in_queue q' (flags h e) \<longleftrightarrow> q' = q)"

definition reps_ring :: "('k, 'v) heap \<Rightarrow> (pqueue \<Rightarrow> List) \<Rightarrow> (pqueue \<Rightarrow> addr list) \<Rightarrow> (addr \<Rightarrow> addr list) \<Rightarrow> bool" where
  "reps_ring h T X R \<longleftrightarrow> inj (\<lambda>q. l_root (T q)) \<and>
     hrings LIST_WINDOW h (roots T) R \<and> (\<forall>q. R (l_root (T q)) = X q) \<and>
     (\<forall>q. header_ok h q (T q) (X q)) \<and>
     (\<forall>a. a \<notin> roots T \<longrightarrow> a \<notin> all_entries X \<longrightarrow> detached h a)"

definition reps :: "('k, 'v) heap \<Rightarrow> (pqueue \<Rightarrow> List) \<Rightarrow> (pqueue \<Rightarrow> addr list) \<Rightarrow> bool" where
  "reps h T X \<longleftrightarrow> (\<exists>R. reps_ring h T X R)"

lemma members_roots: "(\<forall>q. R (l_root (T q)) = X q) \<Longrightarrow> members (roots T) R = all_entries X"
  by (auto simp: members_def roots_def all_entries_def)

lemma all_entries_upd: "all_entries (X(q := ys)) = set ys \<union> all_entries (X(q := []))"
  by (auto simp: all_entries_def split: if_splits)

lemma all_entries_split: "all_entries X = set (X q) \<union> all_entries (X(q := []))"
  using all_entries_upd [of X q "X q"] by simp

lemma all_entriesI: "e \<in> set (X q) \<Longrightarrow> e \<in> all_entries X"
  by (auto simp: all_entries_def)

lemma all_entriesE: "e \<in> all_entries X \<Longrightarrow> (\<And>q us vs. X q = us @ e # vs \<Longrightarrow> P) \<Longrightarrow> P"
  by (auto simp: all_entries_def dest!: split_list)

lemma reps_ringD:
  assumes "reps_ring h T X R"
  shows "inj (\<lambda>q. l_root (T q))" "hrings (l_listType (T q)) h (roots T) R"
    "R (l_root (T q)) = X q" "header_ok h q (T q) (X q)" "l_root (T q) \<in> roots T"
    "members (roots T) R = all_entries X" "a \<notin> roots T \<Longrightarrow> a \<notin> all_entries X \<Longrightarrow> detached h a"
    "l_listType (T q) = ltype q"
proof -
  show ht: "header_ok h q (T q) (X q)" "inj (\<lambda>q. l_root (T q))" "R (l_root (T q)) = X q"
    "a \<notin> roots T \<Longrightarrow> a \<notin> all_entries X \<Longrightarrow> detached h a"
    using assms by (simp_all add: reps_ring_def)
  then show lt: "l_listType (T q) = ltype q" by (simp add: header_ok_def)
  show "hrings (l_listType (T q)) h (roots T) R" using assms by (simp add: reps_ring_def lt ltype_hrings)
  show "l_root (T q) \<in> roots T" by (simp add: roots_def)
  show "members (roots T) R = all_entries X" using assms by (simp add: members_roots reps_ring_def)
qed

lemma header_ok_cong:
  assumes "header_ok h q l xs" "\<And>a. policyWeight (h' a) = policyWeight (h a)" "\<And>a. a \<in> set xs \<Longrightarrow> flags h' a = flags h a"
  shows "header_ok h' q l xs"
  using assms by (simp add: header_ok_def wsum_def)

lemma reps_not_root: "reps h T X \<Longrightarrow> a \<in> all_entries X \<Longrightarrow> \<not> IsRoot (flags h a) \<and> a \<notin> roots T"
  unfolding reps_def by (metis hrings_def reps_ringD(2,6))

lemma reps_root: "reps h T X \<Longrightarrow> a \<in> roots T \<Longrightarrow> IsRoot (flags h a)"
  unfolding reps_def by (metis hrings_def reps_ringD(2))

lemma reps_distinct: "reps h T X \<Longrightarrow> distinct (X q)"
  unfolding reps_def by (metis hrings_rings rings_distinct reps_ringD(2,3,5))

lemma reps_disjoint:
  assumes "reps h T X" "a \<in> set (X p)" "a \<in> set (X q)" shows "p = q"
proof -
  obtain R where R: "reps_ring h T X R" using assms by (auto simp: reps_def)
  note D = reps_ringD [OF R]
  have "l_root (T p) = l_root (T q)"
    by (rule rings_unique [OF hrings_rings [OF D(2)] D(5) D(5), of a]) (simp_all add: D(3) assms(2,3))
  then show ?thesis using D(1) by (auto dest: injD)
qed

lemma reps_in_queue: "reps h T X \<Longrightarrow> e \<in> set (X q) \<Longrightarrow> in_queue p (flags h e) \<longleftrightarrow> p = q"
  by (auto simp: reps_def reps_ring_def header_ok_def)

lemma reps_header:
  "reps h T X \<Longrightarrow> l_listType (T q) = ltype q \<and> l_len (T q) = wsum h (X q) \<and> l_count (T q) = word_of_nat (length (X q))"
  by (auto simp: reps_def reps_ring_def header_ok_def)

subsection \<open>List operations on the representation\<close>

text \<open>
  One header and its ring change; the flags of the other entries and all weights stay.
\<close>

lemma reps_update:
  assumes X: "reps_ring h T X R" and R: "hrings LIST_WINDOW h' (roots T) (R(l_root (T q) := ys))"
    and l: "l_root l = l_root (T q)" "header_ok h' q l ys"
    and h': "pframe h h'" "flags h' = (flags h)(e := f)" "e \<notin> all_entries (X(q := []))"
    and d: "\<And>a. a \<notin> roots T \<Longrightarrow> a \<notin> all_entries (X(q := ys)) \<Longrightarrow> detached h' a"
  shows "reps h' (T(q := l)) (X(q := ys))"
proof -
  have inj: "inj (\<lambda>q. l_root (T q))" by (rule reps_ringD(1) [OF X])
  have T': "(\<lambda>p. l_root ((T(q := l)) p)) = (\<lambda>q. l_root (T q))" using l by auto
  then have rts: "roots (T(q := l)) = roots T" by (simp only: roots_def)
  have "header_ok h' p (T p) (X p)" if "p \<noteq> q" for p
  proof (rule header_ok_cong [OF reps_ringD(4) [OF X] pframe_fields(4) [OF h'(1)]])
    fix a assume a: "a \<in> set (X p)"
    then have "a \<in> all_entries (X(q := []))" using that by (auto simp: all_entries_def intro!: exI [of _ p])
    then have "a \<noteq> e" using h'(3) by blast
    then show "flags h' a = flags h a" by (simp add: h'(2))
  qed
  then have "header_ok h' p ((T(q := l)) p) ((X(q := ys)) p)" for p using l by simp
  moreover have "(R(l_root (T q) := ys)) (l_root ((T(q := l)) p)) = (X(q := ys)) p" for p
    using reps_ringD(3) [OF X] l inj by (auto dest: injD)
  ultimately show ?thesis unfolding reps_def reps_ring_def T' rts using R d inj by blast
qed

lemma detached_cong: "prv LIST_WINDOW h' a = prv LIST_WINDOW h a \<Longrightarrow> flags h' a = flags h a \<Longrightarrow> detached h' a = detached h a"
  by (simp add: detached_def)

lemma reps_PushFront:
  assumes X: "reps h T X" and e: "e \<notin> all_entries X" "\<not> IsRoot (flags h e)"
    and l: "l = (T q)\<lparr>l_len := l_len (T q) + policyWeight (h e), l_count := l_count (T q) + 1\<rparr>"
  shows "\<exists>h'. PushFront (T q) e h = Some (h', l) \<and> reps h' (T(q := l)) (X(q := e # X q)) \<and> pframe h h'"
proof -
  obtain R where R: "reps_ring h T X R" using X by (auto simp: reps_def)
  note D = reps_ringD [OF R]
  have er: "e \<notin> roots T" using reps_root [OF X] e(2) by blast
  have ex: "R (l_root (T q)) = [] @ X q" "e \<notin> members (roots T) R" using D e by simp_all
  obtain h' where h': "list_insert (T q) e (l_root (T q)) h = Some (h', l)"
    "hrings (l_listType (T q)) h' (roots T) (R(l_root (T q) := [] @ e # X q))"
    "stripped (l_listType (T q)) h h'" "flags h' = (flags h)(e := mark (l_listType (T q)) (flags h e))"
    "\<forall>a. a \<notin> insert e (roots T \<union> members (roots T) R) \<longrightarrow> prv (l_listType (T q)) h' a = prv (l_listType (T q)) h a"
    unfolding l by (rule hrings_insert [OF D(2) D(5) ex(1) er ex(2) e(2)]) simp_all
  note h'' = h' [unfolded D(8) ltype_hrings ltype_links D(6)]
  have d: "detached h e" using D(7) er e by blast
  have fr: "pframe h h'" using h''(3,4) by (simp add: pframe_def)
  have hok: "header_ok h' q l (e # X q)"
    using D(4) [of q] d h''(4) by (auto simp: header_ok_def l wsum_pframe [OF fr] pframe_fields(4) [OF fr] detached_def)
  have "reps h' (T(q := l)) (X(q := e # X q))"
  proof (rule reps_update [OF R _ _ hok fr h''(4)])
    fix a assume a: "a \<notin> roots T" "a \<notin> all_entries (X(q := e # X q))"
    then have ae: "a \<noteq> e" "a \<notin> all_entries X" by (auto simp: all_entries_def split: if_splits)
    then have "detached h a" using D(7) a by simp
    then show "detached h' a" using detached_cong [of h' a h] ae a h''(4,5) by simp
  qed (use h'' l e in \<open>auto simp: all_entries_def\<close>)
  then show ?thesis using h'(1) fr by (auto simp: PushFront_def)
qed

lemma reps_remove:
  assumes X: "reps h T X" and xs: "X q = us @ e # vs"
    and l: "l = (T q)\<lparr>l_len := l_len (T q) - policyWeight (h e), l_count := l_count (T q) - 1\<rparr>"
  shows "\<exists>h'. list_remove (T q) e h = Some (h', l) \<and> reps h' (T(q := l)) (X(q := us @ vs)) \<and> pframe h h'"
proof -
  obtain R where R: "reps_ring h T X R" using X by (auto simp: reps_def)
  note D = reps_ringD [OF R]
  have Rq: "R (l_root (T q)) = us @ e # vs" using D(3) xs by simp
  have dist: "distinct (us @ e # vs)" using reps_distinct [OF X, of q] by (simp only: xs)
  obtain h' where h': "list_remove (T q) e h = Some (h', l)"
    "hrings (l_listType (T q)) h' (roots T) (R(l_root (T q) := us @ vs))"
    "stripped (l_listType (T q)) h h'" "flags h' = (flags h)(e := unmark (l_listType (T q)) (flags h e))"
    "nxt (l_listType (T q)) h' e = None" "prv (l_listType (T q)) h' e = None"
    "\<forall>a. a \<notin> insert e (roots T \<union> members (roots T) R) \<longrightarrow> prv (l_listType (T q)) h' a = prv (l_listType (T q)) h a"
    unfolding l by (rule hrings_remove [OF D(2) D(5) Rq])
  note h'' = h' [unfolded D(8) ltype_hrings ltype_links D(6)]
  have fr: "pframe h h'" using h''(3,4) by (simp add: pframe_def)
  have hok: "header_ok h' q l (us @ vs)"
    using D(4) [of q] dist h''(4) by (auto simp: header_ok_def l wsum_pframe [OF fr] xs)
  have eX: "e \<notin> set (X p)" if "p \<noteq> q" for p
    using reps_disjoint [OF X, of e p q] that xs by auto
  have "reps h' (T(q := l)) (X(q := us @ vs))"
  proof (rule reps_update [OF R _ _ hok fr h''(4)])
    fix a assume a: "a \<notin> roots T" "a \<notin> all_entries (X(q := us @ vs))"
    show "detached h' a"
    proof (cases "a = e")
      case True
      then show ?thesis using h''(4,6) by (simp add: detached_def)
    next
      case False
      then have "a \<notin> all_entries X" using a(2) unfolding all_entries_split [of X q] all_entries_upd [of X q "us @ vs"] xs by simp
      then show ?thesis using detached_cong [of h' a h] D(7) False a h''(4,7) by simp
    qed
  qed (use h'' l eX in \<open>auto simp: all_entries_def\<close>)
  then show ?thesis using h'(1) fr by auto
qed

lemma reps_MoveToFront:
  assumes X: "reps h T X" and xs: "X q = us @ e # vs"
  shows "\<exists>h'. MoveToFront (T q) e h = Some h' \<and> reps h' T (X(q := e # us @ vs)) \<and> pframe h h'"
proof -
  obtain R where R: "reps_ring h T X R" using X by (auto simp: reps_def)
  note D = reps_ringD [OF R]
  have Rq: "R (l_root (T q)) = us @ e # vs" using D(3) xs by simp
  obtain h' where h': "list_move (T q) e (l_root (T q)) h = Some h'"
    "hrings (l_listType (T q)) h' (roots T) (R(l_root (T q) := [] @ e # us @ vs))"
    "stripped (l_listType (T q)) h h'" "flags h' = flags h"
    "\<forall>a. a \<notin> roots T \<union> members (roots T) R \<longrightarrow> prv (l_listType (T q)) h' a = prv (l_listType (T q)) h a"
    by (rule hrings_move [OF D(2) D(5) Rq, of "[]" "us @ vs"]) simp_all
  note h'' = h' [unfolded D(8) ltype_hrings ltype_links D(6)]
  have fr: "pframe h h'" using h''(3,4) by (simp add: pframe_def)
  have fl: "flags h' = (flags h)(e := flags h e)" using h''(4) by simp
  have hok: "header_ok h' q (T q) (e # us @ vs)"
    using D(4) [of q] h''(4) by (auto simp: header_ok_def wsum_pframe [OF fr] xs pframe_fields(4) [OF fr])
  have eX: "e \<notin> set (X p)" if "p \<noteq> q" for p
    using reps_disjoint [OF X, of e p q] that xs by auto
  have "reps h' (T(q := T q)) (X(q := e # us @ vs))"
  proof (rule reps_update [OF R _ _ hok fr fl])
    fix a assume a: "a \<notin> roots T" "a \<notin> all_entries (X(q := e # us @ vs))"
    then have "a \<notin> all_entries X" unfolding all_entries_split [of X q] all_entries_upd [of X q "e # us @ vs"] xs by simp
    then show "detached h' a" using detached_cong [of h' a h] D(7) a h''(4,5) by simp
  qed (use h'' eX in \<open>auto simp: all_entries_def\<close>)
  then show ?thesis using h'(1) fr by (auto simp: MoveToFront_def)
qed

lemma reps_Back: "reps h T X \<Longrightarrow> Back (T q) h = (if X q = [] then None else Some (last (X q)))"
  unfolding reps_def
proof (erule exE)
  fix R assume R: "reps_ring h T X R"
  show ?thesis using Back_spec [OF reps_ringD(2,5) [OF R], of q] by (simp add: reps_ringD(3) [OF R])
qed

lemma reps_PopTail:
  assumes X: "reps h T X"
  shows "X q = [] \<Longrightarrow> PopTail (T q) h = Some (h, T q, None)"
    "X q = us @ [e] \<Longrightarrow> PopTail (T q) h = do { (h, l) \<leftarrow> list_remove (T q) e h; Some (h, l, Some e) }"
proof -
  have *: "PopTail (T q) h = (case Back (T q) h of None \<Rightarrow> Some (h, T q, None)
      | Some e \<Rightarrow> do { (h, l) \<leftarrow> list_remove (T q) e h; Some (h, l, Some e) })"
    by (simp add: PopTail_def Back_def Let_def split: option.split)
  show "X q = [] \<Longrightarrow> PopTail (T q) h = Some (h, T q, None)" by (simp add: * reps_Back [OF X])
  show "X q = us @ [e] \<Longrightarrow> PopTail (T q) h = do { (h, l) \<leftarrow> list_remove (T q) e h; Some (h, l, Some e) }"
    by (simp add: * reps_Back [OF X])
qed

lemma reps_PrevPolicy:
  assumes X: "reps h T X" and xs: "X q = us @ e # vs"
  shows "PrevPolicy h e = Some (if us = [] then None else Some (last us))"
proof -
  obtain R where R: "reps_ring h T X R" using X by (auto simp: reps_def)
  note D = reps_ringD [OF R]
  have "e_Prev (l_listType (T q)) h e = Some (if us = [] then None else Some (last us))"
    by (rule e_Prev_spec [OF D(2) D(5) [of q], of _ _ vs]) (simp add: D(3) xs)
  moreover have "e_Prev (l_listType (T q)) h e = PrevPolicy h e"
    unfolding D(8) by (cases q) (simp_all add: e_Prev_def PrevPolicy_def)
  ultimately show ?thesis by simp
qed

text \<open>The policy reads these fields of an entry only.\<close>

definition pview :: "('k, 'v) heap \<Rightarrow> addr \<Rightarrow> i64 \<times> addr option \<times> addr option \<times> bool \<times> (pqueue \<Rightarrow> bool)" where
  "pview h a = (policyWeight (h a), prv LIST_WINDOW h a, nxt LIST_WINDOW h a, IsRoot (flags h a), \<lambda>q. in_queue q (flags h a))"

lemma reps_cong:
  assumes "pview h' = pview h" shows "reps h' T X = reps h T X"
proof -
  have v: "policyWeight (h' a) = policyWeight (h a)" "prv LIST_WINDOW h' a = prv LIST_WINDOW h a" "nxt LIST_WINDOW h' a = nxt LIST_WINDOW h a"
    "IsRoot (flags h' a) = IsRoot (flags h a)" "in_queue q (flags h' a) = in_queue q (flags h a)" for a q
    using fun_cong [OF assms, of a] by (auto simp: pview_def fun_eq_iff)
  have "prv LIST_WINDOW h' = prv LIST_WINDOW h" "nxt LIST_WINDOW h' = nxt LIST_WINDOW h" using v by auto
  then show ?thesis by (simp add: reps_def reps_ring_def hrings_def header_ok_def wsum_def detached_def v)
qed

lemma reps_member: 
  assumes "reps h T X" "a \<notin> roots T"
  shows "m_prev (meta (h a)) \<noteq> None \<longleftrightarrow> a \<in> all_entries X"
proof
  assume "a \<in> all_entries X"
  then obtain q us vs where "X q = us @ a # vs" by (rule all_entriesE)
  then have "PrevPolicy h a \<noteq> None" using reps_PrevPolicy [OF assms(1)] by simp
  then show "m_prev (meta (h a)) \<noteq> None" by (auto simp: PrevPolicy_def unless_root_def split: option.splits)
next
  assume "m_prev (meta (h a)) \<noteq> None"
  then have "\<not> detached h a" by (auto simp: detached_def prv_def e_prev_def)
  then show "a \<in> all_entries X" using assms by (auto simp: reps_def reps_ring_def)
qed

text \<open>Moving an entry from one list to the front of another.\<close>

lemma reps_transfer:
  assumes X: "reps h T X" and xs: "X q = us @ e # vs" and ne: "q \<noteq> q'"
    and l: "l = (T q)\<lparr>l_len := l_len (T q) - policyWeight (h e), l_count := l_count (T q) - 1\<rparr>"
    and l': "l' = (T q')\<lparr>l_len := l_len (T q') + policyWeight (h e), l_count := l_count (T q') + 1\<rparr>"
  shows "\<exists>h1 h2. list_remove (T q) e h = Some (h1, l) \<and> PushFront (T q') e h1 = Some (h2, l') \<and>
    reps h2 (T(q := l, q' := l')) (X(q := us @ vs, q' := e # X q')) \<and> pframe h h1 \<and> pframe h h2"
proof -
  obtain h1 where h1: "list_remove (T q) e h = Some (h1, l)" "reps h1 (T(q := l)) (X(q := us @ vs))" "pframe h h1"
    using reps_remove [OF X xs l] by blast
  have "e \<in> all_entries X" using xs by (auto intro: all_entriesI [of e X q])
  then have root: "\<not> IsRoot (flags h1 e)" using reps_not_root [OF X] pframe_fields(8) [OF h1(3)] by auto
  have "distinct (X q)" by (rule reps_distinct [OF X])
  then have nin: "e \<notin> all_entries (X(q := us @ vs))"
    using reps_disjoint [OF X, of e _ q] xs by (auto simp: all_entries_def split: if_splits)
  have l'': "l' = ((T(q := l)) q')\<lparr>l_len := l_len ((T(q := l)) q') + policyWeight (h1 e), l_count := l_count ((T(q := l)) q') + 1\<rparr>"
    using ne l' pframe_fields(4) [OF h1(3)] by simp
  obtain h2 where "PushFront ((T(q := l)) q') e h1 = Some (h2, l')"
    "reps h2 ((T(q := l))(q' := l')) ((X(q := us @ vs))(q' := e # (X(q := us @ vs)) q'))" "pframe h1 h2"
    using reps_PushFront [OF h1(2) nin root l''] by blast
  then show ?thesis using h1 ne pframe_trans by (auto intro!: exI [of _ h1] exI [of _ h2])
qed

text \<open>The weight of an entry changes in place.\<close>

definition reweigh :: "addr \<Rightarrow> i64 \<Rightarrow> ('k, 'v) heap \<Rightarrow> ('k, 'v) heap" where
  "reweigh e d h = modify e (policyWeight_update (\<lambda>w. w + d)) h"

lemma reweigh_simps [simp]:
  "policyWeight (reweigh e d h a) = (if a = e then policyWeight (h a) + d else policyWeight (h a))"
  "nxt lt (reweigh e d h) = nxt lt h" "prv lt (reweigh e d h) = prv lt h" "flags (reweigh e d h) = flags h"
  "flag (reweigh e d h a) = flag (h a)" "meta (reweigh e d h a) = meta (h a)" "key (reweigh e d h a) = key (h a)"
  by (auto simp: reweigh_def modify_def nxt_def prv_def e_next_def e_prev_def flags_def fun_eq_iff)

lemma wsum_reweigh: "distinct xs \<Longrightarrow> wsum (reweigh e d h) xs = wsum h xs + (if e \<in> set xs then d else 0)"
  by (induction xs) auto

lemma reps_reweigh:
  assumes X: "reps h T X" and e: "e \<in> set (X q)"
  shows "reps (reweigh e d h) (T(q := (T q)\<lparr>l_len := l_len (T q) + d\<rparr>)) X"
proof -
  let ?T = "T(q := (T q)\<lparr>l_len := l_len (T q) + d\<rparr>)" and ?h = "reweigh e d h"
  obtain R where R: "reps_ring h T X R" using X by (auto simp: reps_def)
  note D = reps_ringD [OF R]
  have rt: "(\<lambda>p. l_root (?T p)) = (\<lambda>p. l_root (T p))" "roots ?T = roots T" by (auto simp: roots_def image_def)
  have "header_ok ?h p (?T p) (X p)" for p
  proof -
    have "e \<in> set (X p) \<longleftrightarrow> p = q" using reps_disjoint [OF X, of e p q] e by blast
    then show ?thesis using D(4) [of p] by (auto simp: header_ok_def wsum_reweigh [OF reps_distinct [OF X]])
  qed
  moreover have "(\<forall>p. R (l_root (?T p)) = X p)" using D(3) by simp
  moreover have "hrings LIST_WINDOW ?h (roots ?T) R" using R by (simp add: reps_ring_def hrings_def rt(2))
  moreover have "\<forall>a. a \<notin> roots ?T \<longrightarrow> a \<notin> all_entries X \<longrightarrow> detached ?h a" using D(7) by (simp add: detached_def rt(2))
  ultimately have "reps_ring ?h ?T X R" unfolding reps_ring_def rt(1) using D(1) by blast
  then show ?thesis by (auto simp: reps_def)
qed

end
