(* ===== verification/Go_Float.thy ===== *)
theory Go_Float
  imports Prelude "HOL-Library.Log_Nat"
begin

text \<open>
  Go's \<open>float32\<close> and \<open>float64\<close> as rational numbers with IEEE 754 rounding: every
  arithmetic operation is the exact rational operation followed by rounding to nearest,
  ties to even, in the format's precision and exponent range (subnormals included). The
  code that uses them (internal/tlfu.go, internal/slru.go, internal/bf/bf.go) works with
  finite values far from overflow, so infinities and NaN do not arise; the lemmas give
  the relative error bound from which the callers' range facts follow.
\<close>

definition rnd_even :: "rat \<Rightarrow> int" where
  "rnd_even x =
     (let f = \<lfloor>x\<rfloor>; r = x - of_int f
      in if r < 1 / 2 then f else if 1 / 2 < r then f + 1 else if even f then f else f + 1)"

text \<open>\<open>2 ^ e\<close> for an integer exponent, and \<open>\<lfloor>log2 x\<rfloor>\<close> of a positive rational.\<close>

definition exp2 :: "int \<Rightarrow> rat" where
  "exp2 e = (if 0 \<le> e then 2 ^ nat e else 1 / 2 ^ nat (- e))"

definition ilog2 :: "rat \<Rightarrow> int" where
  "ilog2 x = (let (n, d) = quotient_of x; e = bitlen n - bitlen d in if exp2 e \<le> x then e else e - 1)"

definition fround :: "int \<Rightarrow> int \<Rightarrow> rat \<Rightarrow> rat" where
  "fround prec emin x =
     (if x = 0 then 0
      else let u = exp2 (max (ilog2 \<bar>x\<bar> - (prec - 1)) emin) in of_int (rnd_even (x / u)) * u)"

definition f32 :: "rat \<Rightarrow> rat" where
  "f32 = fround 24 (- 149)"

definition f64 :: "rat \<Rightarrow> rat" where
  "f64 = fround 53 (- 1074)"

text \<open>Conversions: \<open>float32(u)\<close> of an unsigned integer, \<open>int(f)\<close>, \<open>uint(f)\<close> (truncation).\<close>

definition f32_of_uint :: "u64 \<Rightarrow> rat" where
  "f32_of_uint n = f32 (of_int (uint n))"

definition trunc_rat :: "rat \<Rightarrow> int" where
  "trunc_rat x = (if 0 \<le> x then \<lfloor>x\<rfloor> else \<lceil>x\<rceil>)"

definition uint_of_float :: "rat \<Rightarrow> u64" where
  "uint_of_float x = word_of_int (trunc_rat x)"

definition int_of_float :: "rat \<Rightarrow> i64" where
  "int_of_float x = word_of_int (trunc_rat x)"

subsection \<open>Error bounds\<close>

lemma rnd_even_err: "\<bar>of_int (rnd_even x) - x\<bar> \<le> 1 / 2"
proof -
  define f where "f = \<lfloor>x\<rfloor>"
  have "of_int f \<le> x" "x < of_int f + 1" unfolding f_def by linarith+
  then show ?thesis unfolding rnd_even_def Let_def f_def [symmetric] by (auto simp: abs_if)
qed

lemma exp2_pos [simp]: "0 < exp2 e"
  by (simp add: exp2_def)

lemma exp2_nonzero [simp]: "exp2 e \<noteq> 0"
  using exp2_pos [of e] by linarith

lemma exp2_int: "exp2 e = 2 powi e"
  by (simp add: exp2_def power_int_def field_simps)

lemma exp2_add: "exp2 (a + b) = exp2 a * exp2 b"
  by (simp add: exp2_int power_int_add)

lemma exp2_half: "exp2 (a + 1) = 2 * exp2 a"
  unfolding exp2_add by (simp add: exp2_int)

lemma exp2_mono: "a \<le> b \<Longrightarrow> exp2 a \<le> exp2 b"
  unfolding exp2_int by (rule power_int_increasing) simp_all

lemma exp2_ilog2: 
  assumes "0 < x" shows "exp2 (ilog2 x) \<le> x"
proof -
  obtain n d where q: "quotient_of x = (n, d)" by (cases "quotient_of x")
  then have d: "0 < d" by (rule quotient_of_denom_pos)
  have x: "x = of_int n / of_int d" using q by (rule quotient_of_div)
  then have n: "0 < n" using assms d by (simp add: zero_less_divide_iff)
  have bn: "2 ^ nat (bitlen n - 1) \<le> n" and bd: "d < 2 ^ nat (bitlen d)" using bitlen_bounds [OF n] bitlen_bounds [OF d] by auto
  have pn: "0 < bitlen n" "0 < bitlen d" using n d bitlen_nonneg [of n] bitlen_nonneg [of d] bitlen_eq_zero_iff [of n] bitlen_eq_zero_iff [of d] by linarith+
  have "exp2 (bitlen n - 1) = of_int (2 ^ nat (bitlen n - 1))" "exp2 (bitlen d) = of_int (2 ^ nat (bitlen d))"
    using pn by (simp_all add: exp2_def)
  then have "exp2 (bitlen n - 1) \<le> of_int n" "of_int d \<le> exp2 (bitlen d)"
    using bn bd by (simp_all only: of_int_le_iff order_less_imp_le)
  then have "exp2 (bitlen n - 1) * of_int d \<le> of_int n * exp2 (bitlen d)"
    using d n by (intro mult_mono) simp_all
  then have "exp2 (bitlen n - 1) / exp2 (bitlen d) \<le> x" unfolding x using d by (simp add: field_simps)
  moreover have "exp2 (bitlen n - 1) / exp2 (bitlen d) = exp2 (bitlen n - bitlen d - 1)"
    using exp2_add [of "bitlen n - bitlen d - 1" "bitlen d"] by (simp add: field_simps)
  ultimately show ?thesis by (simp add: ilog2_def q Let_def)
qed

lemma fround_err:
  "\<bar>fround p emin x - x\<bar> \<le> exp2 (- p) * \<bar>x\<bar> + exp2 (emin - 1)"
proof (cases "x = 0")
  case True then show ?thesis by (simp add: fround_def less_imp_le)
next
  case False
  define u where "u = exp2 (max (ilog2 \<bar>x\<bar> - (p - 1)) emin)"
  have u: "0 < u" by (simp add: u_def)
  have "fround p emin x - x = (of_int (rnd_even (x / u)) - x / u) * u"
    using False u unfolding fround_def Let_def u_def [symmetric] by (simp add: algebra_simps)
  then have "\<bar>fround p emin x - x\<bar> = \<bar>of_int (rnd_even (x / u)) - x / u\<bar> * u" using u by (simp add: abs_mult)
  also have "\<dots> \<le> 1 / 2 * u" using rnd_even_err u by (intro mult_right_mono) simp_all
  also have "\<dots> \<le> exp2 (- p) * \<bar>x\<bar> + exp2 (emin - 1)"
  proof (cases "emin \<le> ilog2 \<bar>x\<bar> - (p - 1)")
    case True
    have "1 / 2 * u = exp2 (- p) * exp2 (ilog2 \<bar>x\<bar>)"
      using True exp2_add [of "- p" "ilog2 \<bar>x\<bar>"] exp2_half [of "ilog2 \<bar>x\<bar> - p"]
      by (simp add: u_def max_absorb1 algebra_simps)
    also have "\<dots> \<le> exp2 (- p) * \<bar>x\<bar>" using exp2_ilog2 [of "\<bar>x\<bar>"] False by (intro mult_left_mono) (simp_all add: less_imp_le)
    finally show ?thesis using exp2_pos [of "emin - 1"] by linarith
  next
    case f: False
    have "1 / 2 * u = exp2 (emin - 1)" using f exp2_half [of "emin - 1"] by (simp add: u_def max_absorb2)
    moreover have "0 \<le> exp2 (- p) * \<bar>x\<bar>" by (simp add: less_imp_le)
    ultimately show ?thesis by linarith
  qed
  finally show ?thesis .
qed

lemma f32_err: "\<bar>f32 x - x\<bar> \<le> \<bar>x\<bar> / 2 ^ 24 + 1 / 2 ^ 150"
  using fround_err [of 24 "- 149" x] by (simp add: f32_def exp2_def)

lemma f32_zero [simp]: "f32 0 = 0"
  by (simp add: f32_def fround_def)

lemma f32_le:
  assumes "\<bar>x\<bar> \<le> B" "1 \<le> B" shows "\<bar>f32 x\<bar> \<le> B * (101 / 100)"
proof -
  have "\<bar>f32 x\<bar> \<le> \<bar>x\<bar> + (\<bar>x\<bar> / 2 ^ 24 + 1 / 2 ^ 150)" using f32_err [of x] by linarith
  moreover have "(1::rat) / 2 ^ 150 \<le> 1 / 1000" by simp
  ultimately show ?thesis using assms by (simp add: field_simps)
qed

text \<open>Scaling by a constant below one never reaches the original.\<close>

lemma f32_scale_le:
  assumes "\<bar>x\<bar> \<le> B" "0 \<le> c" "c \<le> 99 / 100" "1 \<le> B"
  shows "\<bar>f32 (x * c)\<bar> \<le> B"
proof -
  have "\<bar>x * c\<bar> \<le> B * (99 / 100)" unfolding abs_mult using assms by (intro mult_mono) simp_all
  moreover have "\<bar>f32 (x * c)\<bar> \<le> \<bar>x * c\<bar> + (\<bar>x * c\<bar> / 2 ^ 24 + 1 / 2 ^ 150)" using f32_err [of "x * c"] by linarith
  moreover have "(1::rat) / 2 ^ 150 \<le> 1 / 1000" by simp
  ultimately show ?thesis using assms(4) by (simp add: field_simps)
qed

end
