(* ===== verification/Slru.thy ===== *)
theory Slru
  imports Policy_Lists Go_Float
begin

text \<open>
  The segmented LRU of internal/slru.go: the probation and protected lists of the main
  region. The operations take and return the store of entries together with the record.
\<close>

record Slru =
  probation :: List
  protected :: List
  s_maxsize :: u64

text \<open>\<open>a1\<close>, \<open>a2\<close>: the addresses the allocator gives to the two sentinels.\<close>

definition NewSlru :: "u64 \<Rightarrow> addr \<Rightarrow> addr \<Rightarrow> ('k::zero, 'v::zero) heap \<Rightarrow> ('k, 'v) heap \<times> Slru" where
  "NewSlru sz a1 a2 h =
     (let (h, l1) = NewList 0 LIST_PROBATION a1 h;
          (h, l2) = NewList (uint_of_float (f32 (f32_of_uint sz * f32 (4 / 5)))) LIST_PROTECTED a2 h
      in (h, \<lparr>probation = l1, protected = l2, s_maxsize = sz\<rparr>))"

definition slru_insert :: "Slru \<Rightarrow> addr \<Rightarrow> ('k, 'v) heap \<Rightarrow> (('k, 'v) heap \<times> Slru) option" where
  "slru_insert s e h = do { (h, l) \<leftarrow> PushFront (probation s) e h; Some (h, s\<lparr>probation := l\<rparr>) }"

definition slru_access :: "Slru \<Rightarrow> addr \<Rightarrow> ('k, 'v) heap \<Rightarrow> (('k, 'v) heap \<times> Slru) option" where
  "slru_access s e h =
     (if IsProbation (flag (h e)) then
        do { (h, l) \<leftarrow> list_remove (probation s) e h;
             (h, l') \<leftarrow> PushFront (protected s) e h;
             Some (h, s\<lparr>probation := l, protected := l'\<rparr>) }
      else if IsProtected (flag (h e)) then
        do { h \<leftarrow> MoveToFront (protected s) e h; Some (h, s) }
      else Some (h, s))"

definition slru_remove :: "Slru \<Rightarrow> addr \<Rightarrow> ('k, 'v) heap \<Rightarrow> (('k, 'v) heap \<times> Slru) option" where
  "slru_remove s e h =
     (if IsProbation (flag (h e)) then
        do { (h, l) \<leftarrow> list_remove (probation s) e h; Some (h, s\<lparr>probation := l\<rparr>) }
      else if IsProtected (flag (h e)) then
        do { (h, l) \<leftarrow> list_remove (protected s) e h; Some (h, s\<lparr>protected := l\<rparr>) }
      else Some (h, s))"

definition slru_updateCost :: "Slru \<Rightarrow> addr \<Rightarrow> i64 \<Rightarrow> ('k, 'v) heap \<Rightarrow> Slru" where
  "slru_updateCost s e delta h =
     (if IsProbation (flag (h e)) then s\<lparr>probation := (probation s)\<lparr>l_len := l_len (probation s) + delta\<rparr>\<rparr>
      else if IsProtected (flag (h e)) then s\<lparr>protected := (protected s)\<lparr>l_len := l_len (protected s) + delta\<rparr>\<rparr>
      else s)"

definition slru_len :: "Slru \<Rightarrow> i64" where
  "slru_len s = Len (probation s) + Len (protected s)"

end
