(* ===== verification/Pow2.thy ===== *)
theory Pow2
  imports Prelude
begin

text \<open>
  Rounding up to a power of two: \<open>next2Power\<close> (internal/timerwheel.go),
  \<open>RoundUpPowerOf2\<close> (internal/utils.go) and \<open>nextPowerOfTwo\<close> (internal/bf/bf.go).
  All three smear the highest set bit of \<open>x - 1\<close> to the right and add one. The locale
  \<open>pow2_rounding\<close> is the contract the clients rely on when they mask an index with
  \<open>size - 1\<close>; it is interpreted for each of the three functions.
\<close>

subsection \<open>The three functions\<close>

text \<open>One line \<open>n |= n >> s\<close> of the source.\<close>

definition smear :: "nat \<Rightarrow> 'a::len word \<Rightarrow> 'a word" where
  "smear s n = n OR drop_bit s n"

definition next2Power :: "u64 \<Rightarrow> u64" where
  "next2Power x =
     (let x = x - 1; x = smear 1 x; x = smear 2 x; x = smear 4 x; x = smear 8 x;
          x = smear 16 x; x = smear 32 x in x + 1)"

definition RoundUpPowerOf2 :: "u32 \<Rightarrow> u32" where
  "RoundUpPowerOf2 v =
     (if v = 0 then 1
      else let v = v - 1; v = smear 1 v; v = smear 2 v; v = smear 4 v; v = smear 8 v;
               v = smear 16 v in v + 1)"

definition nextPowerOfTwo :: "u32 \<Rightarrow> u32" where
  "nextPowerOfTwo i =
     (let n = i - 1; n = smear 1 n; n = smear 2 n; n = smear 4 n; n = smear 8 n;
          n = smear 16 n in n + 1)"

subsection \<open>Smearing computes a mask\<close>

text \<open>
  After smearing by 1, 2, 4, \<dots> a bit of the result is set exactly when some bit of
  the input at most \<open>w\<close> places further left is.
\<close>

definition covers :: "nat \<Rightarrow> 'a::len word \<Rightarrow> 'a word \<Rightarrow> bool" where
  "covers w x y \<longleftrightarrow> (\<forall>n. bit y n \<longleftrightarrow> (\<exists>d<w. bit x (n + d)))"

lemma bit_smear: "bit (smear s x) n \<longleftrightarrow> bit x n \<or> bit x (s + n)"
  by (simp add: smear_def bit_or_iff bit_drop_bit_eq)

lemma covers_1: "covers 1 x x"
  by (simp add: covers_def)

lemma covers_smear:
  assumes "covers w x y"
  shows "covers (w + w) x (smear w y)"
  unfolding covers_def
proof
  fix n
  show "bit (smear w y) n \<longleftrightarrow> (\<exists>d<w + w. bit x (n + d))" (is "?L \<longleftrightarrow> ?R")
  proof
    assume ?L
    then show ?R using assms unfolding bit_smear covers_def
      by (metis add.assoc add.commute nat_add_left_cancel_less trans_less_add1)
  next
    assume ?R
    then obtain d where d: "d < w + w" "bit x (n + d)" by blast
    show ?L
    proof (cases "d < w")
      case True
      with d assms show ?thesis unfolding bit_smear covers_def by blast
    next
      case False
      then have "d - w < w" "(w + n) + (d - w) = n + d" using d by auto
      with d assms show ?thesis unfolding bit_smear covers_def by metis
    qed
  qed
qed

lemma covers_full:
  fixes x y :: "'a::len word"
  assumes "covers w x y" and "LENGTH('a) \<le> w"
  shows "\<exists>m\<le>LENGTH('a). y = mask m \<and> unat x < 2 ^ m \<and> (0 < m \<longrightarrow> 2 ^ (m - 1) \<le> unat x)"
proof (cases "x = 0")
  case True
  with assms have "y = 0" by (auto simp: covers_def intro: bit_word_eqI)
  with True show ?thesis by (intro exI [of _ 0]) simp
next
  case False
  define k where "k = Max {n. bit x n}"
  have fin: "finite {n. bit x n}" 
    by (rule finite_subset [of _ "{..<LENGTH('a)}"]) (auto dest: bit_imp_le_length)
  have ne: "{n. bit x n} \<noteq> {}" using False bit_eq_iff[of x 0] by auto
  have k: "bit x k" using Max_in [OF fin ne] by (simp add: k_def)
  have kmax: "\<And>n. bit x n \<Longrightarrow> n \<le> k" using fin by (auto simp: k_def)
  have kl: "k < LENGTH('a)" using k by (rule bit_imp_le_length)
  have "y = mask (Suc k)"
  proof (rule bit_word_eqI)
    fix n assume "n < LENGTH('a)"
    have "bit y n \<longleftrightarrow> n \<le> k"
    proof
      assume "bit y n" then show "n \<le> k" using assms(1) kmax unfolding covers_def by (meson le_add1 le_trans)
    next
      assume "n \<le> k"
      then have "bit x (n + (k - n))" "k - n < w" using k kl assms(2) by auto
      then show "bit y n" using assms(1) unfolding covers_def by blast
    qed
    then show "bit y n \<longleftrightarrow> bit (mask (Suc k) :: 'a word) n" using \<open>n < LENGTH('a)\<close>
      by (simp add: bit_mask_iff less_Suc_eq_le)
  qed
  moreover have "unat x < 2 ^ Suc k"
  proof -
    have "take_bit (Suc k) x = x"
      by (rule bit_word_eqI) (auto simp: bit_take_bit_iff less_Suc_eq_le dest: kmax)
    then have "take_bit (Suc k) (unat x) = unat x" by (metis unsigned_take_bit_eq)
    then show ?thesis by (metis take_bit_nat_less_exp)
  qed
  moreover have "2 ^ k \<le> unat x"
  proof -
    have "bit (unat x) k" using k kl by (simp add: bit_unsigned_iff)
    then have "odd (unat x div 2 ^ k)" by (simp add: bit_iff_odd)
    then have "unat x div 2 ^ k \<noteq> 0" by (metis even_zero)
    then show ?thesis by (metis div_less leI)
  qed
  ultimately show ?thesis using kl by (intro exI [of _ "Suc k"]) auto
qed

lemma covers_round_up:
  fixes x y :: "'a::len word"
  assumes c: "covers w (x - 1) y" and w: "LENGTH('a) \<le> w"
    and x: "x \<noteq> 0" "unat x \<le> 2 ^ (LENGTH('a) - 1)"
  shows "\<exists>m<LENGTH('a). unat (y + 1) = 2 ^ m \<and> unat x \<le> 2 ^ m \<and> 2 ^ m < 2 * unat x"
proof -
  obtain m where m: "m \<le> LENGTH('a)" "y = mask m" "unat (x - 1) < 2 ^ m"
    "0 < m \<longrightarrow> 2 ^ (m - 1) \<le> unat (x - 1)"
    using covers_full [OF c w] by blast
  have u: "unat (x - 1) = unat x - 1" using x by (simp add: unat_minus_one)
  have pos: "0 < unat x" using x by (simp add: unat_gt_0)
  have ml: "m < LENGTH('a)"
  proof (rule ccontr)
    assume "\<not> m < LENGTH('a)"
    then have "m = LENGTH('a)" using m(1) by simp
    then have "2 ^ (LENGTH('a) - 1) \<le> unat x - 1" using m(4) u by simp
    with x pos show False by linarith
  qed
  have "y + 1 = 2 ^ m" using m(2) by (simp add: mask_eq_exp_minus_1)
  then have "unat (y + 1) = 2 ^ m" using ml by (simp add: unat_exp2)
  moreover have "unat x \<le> 2 ^ m" using m(3) u pos by linarith
  moreover have "2 ^ m < 2 * unat x"
  proof (cases m)
    case 0 with pos show ?thesis by simp
  next
    case (Suc k) with m(4) u pos show ?thesis by simp
  qed
  ultimately show ?thesis using ml by blast
qed


text \<open>Five smears cover 32 bits, six cover 64.\<close>

lemma covers_32: "covers 32 x (smear 16 (smear 8 (smear 4 (smear 2 (smear 1 x)))))"
proof -
  have "covers 2 x (smear 1 x)" using covers_smear [OF covers_1] by (simp only: one_add_one)
  from covers_smear [OF this] have "covers 4 x (smear 2 (smear 1 x))" by simp
  from covers_smear [OF this] have "covers 8 x (smear 4 (smear 2 (smear 1 x)))" by simp
  from covers_smear [OF this] have "covers 16 x (smear 8 (smear 4 (smear 2 (smear 1 x))))" by simp
  from covers_smear [OF this] show ?thesis by simp
qed

lemma covers_64: "covers 64 x (smear 32 (smear 16 (smear 8 (smear 4 (smear 2 (smear 1 x))))))"
  using covers_32 [of x, THEN covers_smear] by simp

subsection \<open>The contract\<close>

locale pow2_rounding =
  fixes up :: "'a::len word \<Rightarrow> 'a word"
  assumes rounds: "x \<noteq> 0 \<Longrightarrow> unat x \<le> 2 ^ (LENGTH('a) - 1) \<Longrightarrow>
    \<exists>m<LENGTH('a). unat (up x) = 2 ^ m \<and> unat x \<le> 2 ^ m \<and> 2 ^ m < 2 * unat x"
begin

lemma power: "x \<noteq> 0 \<Longrightarrow> unat x \<le> 2 ^ (LENGTH('a) - 1) \<Longrightarrow> \<exists>m<LENGTH('a). unat (up x) = 2 ^ m"
  using rounds by blast

lemma not_below: "x \<noteq> 0 \<Longrightarrow> unat x \<le> 2 ^ (LENGTH('a) - 1) \<Longrightarrow> unat x \<le> unat (up x)"
  using rounds [of x] by auto

text \<open>No smaller power of two is large enough.\<close>

lemma least:
  assumes "x \<noteq> 0" "unat x \<le> 2 ^ (LENGTH('a) - 1)" "unat x \<le> 2 ^ j"
  shows "unat (up x) \<le> 2 ^ j"
proof -
  obtain m where m: "unat (up x) = 2 ^ m" "2 ^ m < 2 * unat x" using rounds assms by blast
  then have "(2::nat) ^ m < 2 ^ Suc j" using assms(3) by simp
  then have "m < Suc j" by (rule power_less_imp_less_exp [rotated]) simp
  then show ?thesis using m(1) by simp
qed

lemma least_power:
  assumes "x \<noteq> 0" "unat x \<le> 2 ^ (LENGTH('a) - 1)"
  shows "\<exists>m. unat (up x) = 2 ^ m \<and> unat x \<le> 2 ^ m \<and> (\<forall>j. unat x \<le> 2 ^ j \<longrightarrow> 2 ^ m \<le> (2 ^ j :: nat))"
proof -
  obtain m where m: "unat (up x) = 2 ^ m" "unat x \<le> 2 ^ m" using rounds assms by blast
  then show ?thesis using least [OF assms] by (intro exI [of _ m]) simp
qed

lemma fixpoint:
  assumes "unat x = 2 ^ j"
  shows "up x = x"
proof -
  have nz: "x \<noteq> 0" using assms by (metis power_not_zero unsigned_0 zero_neq_numeral)
  have "(2::nat) ^ j < 2 ^ LENGTH('a)" using assms unsigned_less [of x] by metis
  then have "j < LENGTH('a)" by simp
  then have "(2::nat) ^ j \<le> 2 ^ (LENGTH('a) - 1)" by (intro power_increasing) auto
  with assms have le: "unat x \<le> 2 ^ (LENGTH('a) - 1)" by simp
  have "unat (up x) = unat x" using least [OF nz le, of j] not_below [OF nz le] assms by simp
  then show ?thesis by (rule unsigned_word_eqI)
qed

text \<open>Masking with the rounded size minus one is an index into an array of that size.\<close>

lemma mask_index:
  assumes "x \<noteq> 0" "unat x \<le> 2 ^ (LENGTH('a) - 1)"
  shows "unat (w AND (up x - 1)) = unat w mod unat (up x)"
  using power [OF assms] unat_and_pow2_minus_1 by metis

end

interpretation next2: pow2_rounding next2Power
proof
  fix x :: u64 assume x: "x \<noteq> 0" "unat x \<le> 2 ^ (LENGTH(64) - 1)"
  have "covers 64 (x - 1) (next2Power x - 1)" using covers_64 [of "x - 1"] by (simp add: next2Power_def Let_def)
  from covers_round_up [OF this _ x]
  show "\<exists>m<LENGTH(64). unat (next2Power x) = 2 ^ m \<and> unat x \<le> 2 ^ m \<and> 2 ^ m < 2 * unat x" by simp
qed

interpretation roundup: pow2_rounding RoundUpPowerOf2
proof
  fix x :: u32 assume x: "x \<noteq> 0" "unat x \<le> 2 ^ (LENGTH(32) - 1)"
  have "covers 32 (x - 1) (RoundUpPowerOf2 x - 1)"
    using covers_32 [of "x - 1"] x by (simp add: RoundUpPowerOf2_def Let_def)
  from covers_round_up [OF this _ x]
  show "\<exists>m<LENGTH(32). unat (RoundUpPowerOf2 x) = 2 ^ m \<and> unat x \<le> 2 ^ m \<and> 2 ^ m < 2 * unat x" by simp
qed

interpretation bfpow: pow2_rounding nextPowerOfTwo
proof
  fix x :: u32 assume x: "x \<noteq> 0" "unat x \<le> 2 ^ (LENGTH(32) - 1)"
  have "covers 32 (x - 1) (nextPowerOfTwo x - 1)"
    using covers_32 [of "x - 1"] by (simp add: nextPowerOfTwo_def Let_def)
  from covers_round_up [OF this _ x]
  show "\<exists>m<LENGTH(32). unat (nextPowerOfTwo x) = 2 ^ m \<and> unat x \<le> 2 ^ m \<and> 2 ^ m < 2 * unat x" by simp
qed

text \<open>
  The three rounding routines of the program return the least power of two that is not
  below their argument, for every argument from 1 up to the largest power of two of the
  width.
\<close>

theorem rounding_least_power:
  assumes "x \<noteq> 0" "unat x \<le> 2 ^ 63" "y \<noteq> 0" "unat y \<le> 2 ^ 31"
  shows "(\<exists>m. unat (next2Power x) = 2 ^ m \<and> unat x \<le> 2 ^ m \<and> (\<forall>j. unat x \<le> 2 ^ j \<longrightarrow> 2 ^ m \<le> (2 ^ j :: nat))) \<and>
    (\<exists>m. unat (RoundUpPowerOf2 y) = 2 ^ m \<and> unat y \<le> 2 ^ m \<and> (\<forall>j. unat y \<le> 2 ^ j \<longrightarrow> 2 ^ m \<le> (2 ^ j :: nat))) \<and>
    (\<exists>m. unat (nextPowerOfTwo y) = 2 ^ m \<and> unat y \<le> 2 ^ m \<and> (\<forall>j. unat y \<le> 2 ^ j \<longrightarrow> 2 ^ m \<le> (2 ^ j :: nat)))"
proof -
  have w: "unat x \<le> 2 ^ (LENGTH(64) - 1)" "unat y \<le> 2 ^ (LENGTH(32) - 1)" using assms(2,4) by simp_all
  show ?thesis
    using next2.least_power [OF assms(1) w(1)] roundup.least_power [OF assms(3) w(2)] bfpow.least_power [OF assms(3) w(2)] by blast
qed

theorem rounding_least_power_witness:
  "\<exists>m. unat (next2Power 1000) = 2 ^ m \<and> 1000 \<le> (2 :: nat) ^ m \<and> (\<forall>j. 1000 \<le> (2 :: nat) ^ j \<longrightarrow> 2 ^ m \<le> (2 ^ j :: nat))"
  using rounding_least_power [of 1000 5] by simp

end
