(* ===== verification/Sketch.thy ===== *)
theory Sketch
  imports Pow2
begin

text \<open>
  The frequency sketch of the policy (internal/sketch.go): a count-min sketch whose table
  of 64-bit words packs sixteen 4-bit counters per word, in blocks of eight words. Table
  accesses are guarded as Go's slice accesses are: an index out of range is \<open>None\<close>.
  The lemmas read the table as a matrix of counters (\<open>counter\<close>), show that the packed
  arithmetic of \<open>inc\<close> and \<open>reset\<close> acts on single counters, that no index leaves
  the table, and what \<open>Add\<close> does to every estimate.
\<close>

record CountMinSketch =
  Table :: "u64 list"
  Additions :: u64
  SampleSize :: u64
  BlockMask :: u64

definition resetMask :: u64 where "resetMask = 0x7777777777777777"
definition oneMask :: u64 where "oneMask = 0x1111111111111111"

text \<open>\<open>math/bits.OnesCount64\<close>.\<close>

definition OnesCount64 :: "u64 \<Rightarrow> nat" where
  "OnesCount64 x = length (filter (bit x) [0..<64])"

text \<open>
  \<open>make([]uint64, n)\<close>: the runtime panics when the slice would exceed the address
  space it manages, \<open>2 ^ 48\<close> bytes (\<open>2 ^ 45\<close> words) on 64-bit targets.
\<close>

definition make_u64 :: "u64 \<Rightarrow> u64 list option" where
  "make_u64 n = (if n \<le> 0x200000000000 then Some (replicate (unat n) 0) else None)"

definition indexOf :: "u64 \<Rightarrow> u64 \<Rightarrow> u8 \<Rightarrow> u64 \<times> u64" where
  "indexOf counterHash block offset =
     (let h = drop_bit (unat (push_bit 3 offset)) counterHash;
          index = block + (h AND 1) + ucast (push_bit 1 offset)
      in (index, drop_bit 1 h AND 0xf))"

definition inc :: "CountMinSketch \<Rightarrow> u64 \<times> u64 \<Rightarrow> (CountMinSketch \<times> bool) option" where
  "inc s = (\<lambda>(index, offset).
     let offset = push_bit 2 offset; msk = push_bit (unat offset) 0xF in
     if unat index < length (Table s) then
       let v = Table s ! unat index in
       if v AND msk \<noteq> msk
       then Some (s\<lparr>Table := (Table s)[unat index := v + push_bit (unat offset) 1]\<rparr>, True)
       else Some (s, False)
     else None)"

definition rehash :: "u64 \<Rightarrow> u64" where
  "rehash h = (let h = h * 0x94d049bb133111eb in h XOR drop_bit 31 h)"

definition sk_reset :: "CountMinSketch \<Rightarrow> CountMinSketch" where
  "sk_reset s =
     (let cnt = (\<Sum>v\<leftarrow>Table s. OnesCount64 (v AND oneMask))
      in s\<lparr>Table := map (\<lambda>v. drop_bit 1 v AND resetMask) (Table s),
           Additions := drop_bit 1 (Additions s - of_nat (cnt div 4))\<rparr>)"

definition block_of :: "CountMinSketch \<Rightarrow> u64 \<Rightarrow> u64" where
  "block_of s h = push_bit 3 (h AND BlockMask s)"

definition sk_Add :: "u64 \<Rightarrow> CountMinSketch \<Rightarrow> (CountMinSketch \<times> bool) option" where
  "sk_Add h s =
     (let block = block_of s h; counterHash = rehash h in
      do { (s, a0) \<leftarrow> inc s (indexOf counterHash block 0);
           (s, a1) \<leftarrow> inc s (indexOf counterHash block 1);
           (s, a2) \<leftarrow> inc s (indexOf counterHash block 2);
           (s, a3) \<leftarrow> inc s (indexOf counterHash block 3);
           (if a3 \<or> a2 \<or> a1 \<or> a0 then
              let s = s\<lparr>Additions := Additions s + 1\<rparr> in
              if Additions s = SampleSize s then Some (sk_reset s, True) else Some (s, False)
            else Some (s, False)) })"

text \<open>The body of the loop of \<open>Addn\<close>, and the loop itself.\<close>

definition inc4 :: "u64 \<Rightarrow> u64 \<Rightarrow> CountMinSketch \<Rightarrow> CountMinSketch option" where
  "inc4 hc block s =
     do { (s, _) \<leftarrow> inc s (indexOf hc block 0);
          (s, _) \<leftarrow> inc s (indexOf hc block 1);
          (s, _) \<leftarrow> inc s (indexOf hc block 2);
          (s, _) \<leftarrow> inc s (indexOf hc block 3);
          Some s }"

fun inc4_times :: "nat \<Rightarrow> u64 \<Rightarrow> u64 \<Rightarrow> CountMinSketch \<Rightarrow> CountMinSketch option" where
  "inc4_times 0 hc block s = Some s"
| "inc4_times (Suc n) hc block s = do { s \<leftarrow> inc4 hc block s; inc4_times n hc block s }"

definition sk_Addn :: "u64 \<Rightarrow> i64 \<Rightarrow> CountMinSketch \<Rightarrow> CountMinSketch option" where
  "sk_Addn h n s = inc4_times (nat (sint n)) (rehash h) (block_of s h) s"

definition sk_count :: "CountMinSketch \<Rightarrow> u64 \<times> u64 \<Rightarrow> u64 option" where
  "sk_count s = (\<lambda>(index, off).
     if unat index < length (Table s)
     then Some (drop_bit (unat (push_bit 2 off)) (Table s ! unat index) AND 0xF) else None)"

definition min_uint :: "u64 \<Rightarrow> u64 \<Rightarrow> u64" where
  "min_uint a b = (if a < b then a else b)"

definition sk_Estimate :: "u64 \<Rightarrow> CountMinSketch \<Rightarrow> u64 option" where
  "sk_Estimate h s =
     (let block = block_of s h; hc = rehash h in
      do { c0 \<leftarrow> sk_count s (indexOf hc block 0);
           c1 \<leftarrow> sk_count s (indexOf hc block 1);
           c2 \<leftarrow> sk_count s (indexOf hc block 2);
           c3 \<leftarrow> sk_count s (indexOf hc block 3);
           Some (min_uint c3 (min_uint c2 (min_uint c1 (min_uint c0 100)))) })"

definition sk_EnsureCapacity :: "u64 \<Rightarrow> CountMinSketch \<Rightarrow> CountMinSketch option" where
  "sk_EnsureCapacity sz s =
     (if int (length (Table s)) \<ge> sint sz then Some s
      else
        let sz = (if sz < 16 then 16 else sz); newSize = next2Power sz in
        do { t \<leftarrow> make_u64 newSize;
             Some (s\<lparr>Table := t, SampleSize := 10 * newSize,
                     BlockMask := drop_bit 3 (of_nat (length t)) - 1, Additions := 0\<rparr>) })"

definition NewCountMinSketch :: "CountMinSketch option" where
  "NewCountMinSketch =
     sk_EnsureCapacity 64 \<lparr>Table = [], Additions = 0, SampleSize = 0, BlockMask = 0\<rparr>"

text \<open>The views of the counters that the tests print: of a word, the highest counter first, and of the table.\<close>

definition uint64ToBase10Slice :: "u64 \<Rightarrow> nat list" where
  "uint64ToBase10Slice n = fold (\<lambda>i result. result[15 - i := unat (drop_bit (i * 4) n AND 0xF)]) [0..<16] (replicate 16 0)"

definition sk_counters :: "CountMinSketch \<Rightarrow> nat list list" where
  "sk_counters s = map uint64ToBase10Slice (Table s)"

subsection \<open>Four-bit counters inside a word\<close>

definition nib :: "u64 \<Rightarrow> nat \<Rightarrow> nat" where
  "nib v k = unat v div 16 ^ k mod 16"

lemma nat_nib_add:
  fixes v :: nat
  assumes d: "v div 16 ^ k mod 16 < 15"
  shows "(v + 16 ^ k) div 16 ^ j mod 16 = (if j = k then v div 16 ^ k mod 16 + 1 else v div 16 ^ j mod 16)"
proof -
  consider "j = k" | "j < k" | "k < j" by linarith
  then show ?thesis
  proof cases
    case 1
    have "(v + 16 ^ k) div 16 ^ k = v div 16 ^ k + 1" by simp
    with 1 d show ?thesis by (simp add: mod_Suc)
  next
    case 2
    then have e: "(16::nat) ^ k = 16 ^ j * (16 * 16 ^ (k - j - 1))"
      by (simp flip: power_add power_Suc)
    have "(v + 16 ^ k) div 16 ^ j = 16 * 16 ^ (k - j - 1) + v div 16 ^ j"
      unfolding e by (rule div_mult_self2) simp
    with 2 show ?thesis by simp
  next
    case 3
    then have e: "(16::nat) ^ j = 16 ^ k * (16 * 16 ^ (j - k - 1))" by (simp flip: power_add power_Suc)
    have "(v + 16 ^ k) div 16 ^ k div 16 = v div 16 ^ k div 16"
      using d by (simp add: div_Suc mod_Suc)
    then have "(v + 16 ^ k) div 16 ^ j = v div 16 ^ j" unfolding e by (simp only: div_mult2_eq)
    with 3 show ?thesis by simp
  qed
qed

lemma nat_nib_no_overflow:
  fixes v :: nat
  assumes d: "v div 16 ^ k mod 16 < 15" and "k < 16" "v < 2 ^ 64"
  shows "v + 16 ^ k < 2 ^ 64"
proof -
  have e: "(2::nat) ^ 64 = 16 ^ k * (16 * 16 ^ (15 - k))"
    using assms(2) by (simp flip: power_add power_Suc) 
  have "(v + 16 ^ k) div 16 ^ k div 16 = v div 16 ^ k div 16"
    using d by (simp add: div_Suc mod_Suc)
  also have "\<dots> < 16 ^ (15 - k)" using assms(3) unfolding e by (simp add: less_mult_imp_div_less mult.assoc mult.commute mult.left_commute flip: div_mult2_eq)
  finally have "(v + 16 ^ k) div 16 ^ k < 16 * 16 ^ (15 - k)" by (simp only: div_less_iff_less_mult mult.commute)
  then show ?thesis unfolding e by (metis div_less_iff_less_mult mult.commute zero_less_power zero_less_numeral)
qed

lemma F_mask: "(0xF :: u64) = mask 4"
  by (simp add: mask_eq_exp_minus_1)

lemma nib_word: "k < 16 \<Longrightarrow> unat (drop_bit (4 * k) v AND 0xF :: u64) = nib v k"
proof -
  have "drop_bit (4 * k) v AND 0xF = take_bit 4 (drop_bit (4 * k) v)" by (simp only: F_mask take_bit_eq_mask)
  then have "unat (drop_bit (4 * k) v AND 0xF) = take_bit 4 (drop_bit (4 * k) (unat v))"
    by (simp only: unsigned_take_bit_eq unat_drop_bit_eq)
  also have "\<dots> = nib v k" by (simp add: take_bit_eq_mod drop_bit_eq_div nib_def power_mult)
  finally show ?thesis .
qed

lemma nib_full: 
  assumes "k < 16"
  shows "(v AND push_bit (4 * k) 0xF = push_bit (4 * k) (0xF :: u64)) \<longleftrightarrow> nib v k = 15"
proof -
  have d: "drop_bit (4 * k) (push_bit (4 * k) 0xF) = (0xF :: u64)"
    unfolding F_mask using assms
    by (intro bit_word_eqI) (auto simp: bit_drop_bit_eq bit_push_bit_iff bit_mask_iff)
  have dm: "drop_bit (4 * k) (v AND push_bit (4 * k) 0xF) = drop_bit (4 * k) v AND 0xF"
    by (simp only: drop_bit_and d)
  have p: "v AND push_bit (4 * k) 0xF = push_bit (4 * k) (drop_bit (4 * k) v AND 0xF)"
    by (rule bit_word_eqI) (auto simp: bit_and_iff bit_drop_bit_eq bit_push_bit_iff)
  have "nib v k = 15 \<longleftrightarrow> unat (drop_bit (4 * k) v AND 0xF) = unat (0xF :: u64)"
    unfolding nib_word [OF assms] by simp
  also have "\<dots> \<longleftrightarrow> drop_bit (4 * k) v AND 0xF = 0xF" by (metis unsigned_word_eqI)
  also have "\<dots> \<longleftrightarrow> v AND push_bit (4 * k) 0xF = push_bit (4 * k) 0xF" using d dm p by metis
  finally show ?thesis by simp
qed

lemma nib_add:
  assumes "k < 16" "nib v k < 15"
  shows "nib (v + push_bit (4 * k) 1) j = (if j = k then nib v k + 1 else nib v j)"
proof -
  have p: "unat (push_bit (4 * k) (1 :: u64)) = 16 ^ k"
    using unat_exp2[of "4 * k", where 'a=64] assms(1) by (simp add: power_mult)
  have "unat (v + push_bit (4 * k) 1) = unat v + 16 ^ k"
    using nat_nib_no_overflow[of "unat v" k] assms unat_lt64[of v] 
    by (subst unat_add_lem[THEN iffD1]) (simp_all only: p nib_def, simp)
  then show ?thesis using nat_nib_add[of "unat v" k j] assms(2) by (simp add: nib_def)
qed

lemma nib_lt: "nib v k < 16" by (simp add: nib_def)

lemma bit_resetMask: "bit resetMask n \<longleftrightarrow> n < 64 \<and> n mod 4 \<noteq> 3"
proof (cases "n < 64")
  case True
  have "\<forall>n\<in>set [0..<64]. bit resetMask n \<longleftrightarrow> n mod 4 \<noteq> 3"
    unfolding resetMask_def by code_simp
  with True show ?thesis by simp
next
  case False
  then show ?thesis by (auto dest: bit_imp_le_length)
qed

lemma nib_halve: 
  assumes "k < 16" shows "nib (drop_bit 1 v AND resetMask) k = nib v k div 2"
proof -
  have "drop_bit (4 * k) (drop_bit 1 v AND resetMask) AND 0xF = drop_bit 1 (drop_bit (4 * k) v AND 0xF)"
    unfolding F_mask
  proof (rule bit_word_eqI)
    fix n assume "n < LENGTH(64)"
    have "n < 4 \<Longrightarrow> (4 * k + n) mod 4 = n" by simp
    then show "bit (drop_bit (4 * k) (drop_bit 1 v AND resetMask) AND mask 4) n \<longleftrightarrow> bit (drop_bit 1 (drop_bit (4 * k) v AND mask 4)) n"
      using assms by (auto simp: bit_and_iff bit_drop_bit_eq bit_mask_iff bit_resetMask)
  qed
  then have "nib (drop_bit 1 v AND resetMask) k = unat (drop_bit 1 (drop_bit (4 * k) v AND 0xF))"
    by (simp only: nib_word [OF assms, symmetric])
  also have "\<dots> = nib v k div 2" unfolding nib_word [OF assms, symmetric]
    unfolding unat_drop_bit_eq by (simp only: drop_bit_eq_div [where 'a = nat] power_one_right)
  finally show ?thesis .
qed


subsection \<open>The table as a matrix of counters\<close>

text \<open>
  \<open>cells s h\<close> are the four (word, counter) positions of a hash, \<open>ctr s\<close> reads the
  table as a function of the position, and \<open>sketch_wf\<close> is the invariant of the type:
  the table has \<open>2 ^ m\<close> words and the other fields agree with it.
\<close>

definition cell :: "CountMinSketch \<Rightarrow> u64 \<Rightarrow> u8 \<Rightarrow> nat \<times> nat" where
  "cell s h i = map_prod unat unat (indexOf (rehash h) (block_of s h) i)"

definition cells :: "CountMinSketch \<Rightarrow> u64 \<Rightarrow> (nat \<times> nat) list" where
  "cells s h = map (cell s h) [0, 1, 2, 3]"

definition ctr :: "CountMinSketch \<Rightarrow> nat \<times> nat \<Rightarrow> nat" where
  "ctr s = (\<lambda>(i, k). nib (Table s ! i) k)"

definition sketch_wf :: "CountMinSketch \<Rightarrow> bool" where
  "sketch_wf s \<longleftrightarrow>
     (\<exists>m. 4 \<le> m \<and> m \<le> 45 \<and> length (Table s) = 2 ^ m \<and> SampleSize s = 10 * 2 ^ m \<and>
          BlockMask s = 2 ^ (m - 3) - 1 \<and> Additions s < SampleSize s)"

lemma fold_slots:
  assumes "j \<le> 16" "k < 16"
  shows "length (fold (\<lambda>i r. r[15 - i := f i]) [0..<j] (replicate 16 0)) = 16 \<and>
    fold (\<lambda>i r. r[15 - i := f i]) [0..<j] (replicate 16 0) ! (15 - k) = (if k < j then f k else (0 :: nat))"
  using assms(1) by (induction j) (use assms(2) in \<open>auto simp: nth_list_update less_Suc_eq\<close>)

lemma sk_counters_ctr:
  assumes "i < length (Table s)" "k < 16" shows "sk_counters s ! i ! (15 - k) = ctr s (i, k)"
  using assms fold_slots [of 16 k "\<lambda>i. unat (drop_bit (i * 4) (Table s ! i') AND 0xF)" for i'] nib_word [of k]
  by (simp add: sk_counters_def ctr_def uint64ToBase10Slice_def mult.commute [of k 4])

lemma unat_eq_of_nat64: "w = of_nat n \<Longrightarrow> n < 2 ^ 64 \<Longrightarrow> unat (w :: u64) = n"
  by (simp only: unat_of_nat) simp

lemma unat_block_of:
  assumes "3 \<le> m" "m \<le> 45" "BlockMask s = 2 ^ (m - 3) - 1"
  shows "unat (block_of s h) = 8 * (unat h mod 2 ^ (m - 3))"
proof -
  have "unat (2 ^ (m - 3) :: u64) = 2 ^ (m - 3)" by (rule unat_exp2) (use assms in simp)
  from unat_and_pow2_minus_1 [OF this]
  have a: "unat (h AND BlockMask s) = unat h mod 2 ^ (m - 3)" using assms(3) by simp
  have "unat h mod 2 ^ (m - 3) < 2 ^ (m - 3)" by simp
  also have "(2::nat) ^ (m - 3) \<le> 2 ^ 42" by (rule power_increasing) (use assms in simp_all)
  finally have lt: "8 * (unat h mod 2 ^ (m - 3)) < 2 ^ 64" by simp
  have "block_of s h = 8 * (h AND BlockMask s)" by (simp add: block_of_def push_bit_eq_mult)
  also have "\<dots> = of_nat (8 * (unat h mod 2 ^ (m - 3)))" by (simp flip: a)
  finally show ?thesis using lt by (rule unat_eq_of_nat64)
qed

lemma cell_bounds:
  assumes wf: "3 \<le> m" "m \<le> 45" "BlockMask s = 2 ^ (m - 3) - 1" and j: "j \<in> {0, 1, 2, 3}"
  obtains c where "c < 2" "fst (cell s h j) = 8 * (unat h mod 2 ^ (m - 3)) + c + 2 * unat j"
    "snd (cell s h j) < 16" "fst (cell s h j) < 2 ^ m"
proof -
  define g where "g = drop_bit (unat (push_bit 3 j)) (rehash h)"
  have c: "unat (g AND 1) < 2" using unat_and_pow2_minus_1 [of "2 :: u64" 1 g] by simp
  have o: "unat (drop_bit 1 g AND 0xF) < 16" using unat_and_pow2_minus_1 [of "16 :: u64" 4] by simp
  have jj: "unat (ucast (push_bit 1 j) :: u64) = 2 * unat j" "unat j \<le> 3" using j by auto
  have m: "(2::nat) ^ m = 8 * 2 ^ (m - 3)" using wf(1) power_add [of "2::nat" 3 "m - 3"] by simp
  have lt: "unat h mod 2 ^ (m - 3) < 2 ^ (m - 3)" by simp
  let ?n = "8 * (unat h mod 2 ^ (m - 3)) + unat (g AND 1) + 2 * unat j"
  have n: "?n < 2 ^ m" unfolding m using c jj(2) lt by linarith
  have "(2::nat) ^ m \<le> 2 ^ 45" by (rule power_increasing) (use wf in simp_all)
  with n have big: "?n < 2 ^ 64" by simp
  have "fst (indexOf (rehash h) (block_of s h) j) = of_nat ?n"
    by (simp add: indexOf_def Let_def jj(1)[symmetric] unat_block_of[OF wf, of h, symmetric] flip: g_def)
  from unat_eq_of_nat64 [OF this big] have "fst (cell s h j) = ?n" by (simp add: cell_def)
  moreover have "snd (cell s h j) = unat (drop_bit 1 g AND 0xF)" by (simp add: cell_def indexOf_def Let_def g_def)
  ultimately show ?thesis using that [OF c] o n by simp
qed

definition bump :: "'c \<Rightarrow> ('c \<Rightarrow> nat) \<Rightarrow> 'c \<Rightarrow> nat" where
  "bump c f = f(c := min 15 (f c + 1))"

lemma fold_bump: "distinct cs \<Longrightarrow> fold bump cs f c = (if c \<in> set cs then min 15 (f c + 1) else f c)"
  by (induction cs arbitrary: f) (auto simp: bump_def)

definition same_shape :: "CountMinSketch \<Rightarrow> CountMinSketch \<Rightarrow> bool" where
  "same_shape s s' \<longleftrightarrow> length (Table s') = length (Table s) \<and> Additions s' = Additions s \<and>
     SampleSize s' = SampleSize s \<and> BlockMask s' = BlockMask s"

lemma same_shape_cell: "same_shape s s' \<Longrightarrow> cell s' = cell s"
  by (simp add: same_shape_def cell_def block_of_def fun_eq_iff)

lemma same_shape_trans: "same_shape s t \<Longrightarrow> same_shape t u \<Longrightarrow> same_shape s u"
  by (simp add: same_shape_def)

lemma ctr_le: "ctr s c \<le> 15"
  using nib_lt [of "Table s ! fst c" "snd c"] by (simp add: ctr_def split_beta)

lemma inc_spec:
  assumes "fst (map_prod unat unat p) < length (Table s)" "snd (map_prod unat unat p) < 16"
  obtains s' where "inc s p = Some (s', ctr s (map_prod unat unat p) < 15)"
    "ctr s' = bump (map_prod unat unat p) (ctr s)" "same_shape s s'"
proof -
  obtain a b where p: "p = (a, b)" by (cases p)
  define i k v where "i = unat a" and "k = unat b" and "v = Table s ! i"
  have ik: "i < length (Table s)" "k < 16" using assms by (simp_all add: p i_def k_def)
  have o: "unat (push_bit 2 b) = 4 * k"
  proof (rule unat_eq_of_nat64)
    show "push_bit 2 b = of_nat (4 * k)" by (simp add: push_bit_eq_mult k_def)
    show "4 * k < 2 ^ 64" using ik by simp
  qed
  show ?thesis
  proof (cases "nib v k < 15")
    case True
    then have ne: "v AND push_bit (4 * k) 0xF \<noteq> push_bit (4 * k) 0xF"
      using nib_full [of k v] ik by simp
    let ?s = "s\<lparr>Table := (Table s)[i := v + push_bit (4 * k) 1]\<rparr>"
    have "inc s p = Some (?s, True)" using ne ik
      by (simp add: inc_def p Let_def o i_def[symmetric] v_def del: push_bit_of_1)
    moreover have "ctr ?s = bump (i, k) (ctr s)"
    proof
      fix c :: "nat \<times> nat"
      obtain i' k' where c: "c = (i', k')" by (cases c)
      show "ctr ?s c = bump (i, k) (ctr s) c" 
        using nib_add [of k v k'] ik True
        by (cases "i' = i") (auto simp: c ctr_def bump_def v_def simp del: push_bit_of_1)
    qed
    ultimately show ?thesis using that [of ?s] True
      by (simp add: p ctr_def same_shape_def v_def i_def[symmetric] k_def[symmetric])
  next
    case False
    then have n: "nib v k = 15" using nib_lt [of v k] by simp
    then have "v AND push_bit (4 * k) 0xF = push_bit (4 * k) 0xF" using nib_full [of k v] ik by simp
    then have "inc s p = Some (s, False)" using ik
      by (simp add: inc_def p Let_def o i_def[symmetric] v_def del: push_bit_of_1)
    moreover have "bump (i, k) (ctr s) = ctr s" using n by (auto simp: bump_def ctr_def v_def)
    ultimately show ?thesis using that [of s] n
      by (simp add: p ctr_def same_shape_def v_def i_def[symmetric] k_def[symmetric])
  qed
qed

lemma cell_in_table:
  assumes "sketch_wf s" "j \<in> {0, 1, 2, 3}"
  shows "fst (cell s h j) < length (Table s)" "snd (cell s h j) < 16"
proof -
  obtain m where "4 \<le> m" and m2: "m \<le> 45" "BlockMask s = 2 ^ (m - 3) - 1" "length (Table s) = 2 ^ m"
    using assms(1) unfolding sketch_wf_def by blast
  then have m: "3 \<le> m" by simp
  show "fst (cell s h j) < length (Table s)" "snd (cell s h j) < 16"
    using cell_bounds [OF m m2(1,2) assms(2)] m2(3) by metis+
qed

lemma distinct_cells:
  assumes "sketch_wf s"
  shows "distinct (cells s h)"
proof -
  obtain m where "4 \<le> m" and m2: "m \<le> 45" "BlockMask s = 2 ^ (m - 3) - 1"
    using assms unfolding sketch_wf_def by blast
  then have m: "3 \<le> m" by simp
  note cb = cell_bounds [OF m m2, of _ h]
  obtain c0 where "c0 < 2" "fst (cell s h 0) = 8 * (unat h mod 2 ^ (m - 3)) + c0 + 2 * unat (0::u8)" by (rule cb [of 0]) auto
  moreover obtain c1 where "c1 < 2" "fst (cell s h 1) = 8 * (unat h mod 2 ^ (m - 3)) + c1 + 2 * unat (1::u8)" by (rule cb [of 1]) auto
  moreover obtain c2 where "c2 < 2" "fst (cell s h 2) = 8 * (unat h mod 2 ^ (m - 3)) + c2 + 2 * unat (2::u8)" by (rule cb [of 2]) auto
  moreover obtain c3 where "c3 < 2" "fst (cell s h 3) = 8 * (unat h mod 2 ^ (m - 3)) + c3 + 2 * unat (3::u8)" by (rule cb [of 3]) auto
  ultimately have "distinct (map fst (cells s h))" by (simp add: cells_def)
  then show ?thesis by (simp add: distinct_map)
qed

text \<open>The four increments that \<open>Add\<close> and \<open>Addn\<close> make, one per row.\<close>

lemma inc_cells:
  assumes "sketch_wf s"
  obtains s1 s2 s3 s4 where
    "inc s (indexOf (rehash h) (block_of s h) 0) = Some (s1, ctr s (cell s h 0) < 15)"
    "inc s1 (indexOf (rehash h) (block_of s h) 1) = Some (s2, ctr s (cell s h 1) < 15)"
    "inc s2 (indexOf (rehash h) (block_of s h) 2) = Some (s3, ctr s (cell s h 2) < 15)"
    "inc s3 (indexOf (rehash h) (block_of s h) 3) = Some (s4, ctr s (cell s h 3) < 15)"
    "ctr s4 = fold bump (cells s h) (ctr s)" "same_shape s s4"
proof -
  let ?p = "indexOf (rehash h) (block_of s h)"
  have pc: "map_prod unat unat (?p j) = cell s h j" for j by (simp add: cell_def)
  note ct = cell_in_table [OF assms, of _ h]
  note d = distinct_cells [OF assms, of h, unfolded cells_def, simplified]
  obtain s1 where 1: "inc s (?p 0) = Some (s1, ctr s (cell s h 0) < 15)" "ctr s1 = bump (cell s h 0) (ctr s)" "same_shape s s1"
    by (rule inc_spec [of "?p 0" s]) (use ct pc in auto)
  obtain s2 where 2: "inc s1 (?p 1) = Some (s2, ctr s1 (cell s h 1) < 15)" "ctr s2 = bump (cell s h 1) (ctr s1)" "same_shape s1 s2"
    by (rule inc_spec [of "?p 1" s1]) (use ct pc 1 in \<open>auto simp: same_shape_def\<close>)
  obtain s3 where 3: "inc s2 (?p 2) = Some (s3, ctr s2 (cell s h 2) < 15)" "ctr s3 = bump (cell s h 2) (ctr s2)" "same_shape s2 s3"
    by (rule inc_spec [of "?p 2" s2]) (use ct pc 1 2 in \<open>auto simp: same_shape_def\<close>)
  obtain s4 where 4: "inc s3 (?p 3) = Some (s4, ctr s3 (cell s h 3) < 15)" "ctr s4 = bump (cell s h 3) (ctr s3)" "same_shape s3 s4"
    by (rule inc_spec [of "?p 3" s3]) (use ct pc 1 2 3 in \<open>auto simp: same_shape_def\<close>)
  have e: "ctr s1 (cell s h 1) = ctr s (cell s h 1)" "ctr s2 (cell s h 2) = ctr s (cell s h 2)" "ctr s3 (cell s h 3) = ctr s (cell s h 3)"
    using d by (auto simp: 1(2) 2(2) 3(2) bump_def) 
  show ?thesis
    by (rule that [of s1 s2 s3 s4]) (use 1 2 3 4 e in \<open>auto simp: cells_def intro: same_shape_trans\<close>)
qed

lemma min_uint_min: "min_uint a b = min a b"
  by (auto simp: min_uint_def min_def)

definition est :: "CountMinSketch \<Rightarrow> u64 \<Rightarrow> nat" where
  "est s h = Min (ctr s ` set (cells s h))"

lemma est_le: "est s h \<le> 15"
proof -
  have "Min (ctr s ` set (cells s h)) \<le> ctr s (cell s h 0)" by (rule Min_le) (auto simp: cells_def)
  then show ?thesis using ctr_le [of s "cell s h 0"] by (simp add: est_def)
qed

lemma Estimate_est:
  assumes "sketch_wf s"
  shows "sk_Estimate h s = Some (of_nat (est s h))"
proof -
  let ?p = "indexOf (rehash h) (block_of s h)"
  have c: "sk_count s (?p j) = Some (of_nat (ctr s (cell s h j)))" if "j \<in> {0, 1, 2, 3}" for j
  proof -
    obtain a b where p: "?p j = (a, b)" by (cases "?p j")
    then have c: "cell s h j = (unat a, unat b)" by (simp add: cell_def)
    then have ik: "unat a < length (Table s)" "unat b < 16" using cell_in_table [OF assms that, of h] by simp_all
    have o: "unat (push_bit 2 b) = 4 * unat b"
      by (rule unat_eq_of_nat64) (use ik in \<open>simp_all add: push_bit_eq_mult\<close>)
    have "drop_bit (4 * unat b) (Table s ! unat a) AND 0xF = of_nat (nib (Table s ! unat a) (unat b))"
      by (simp flip: nib_word [OF ik(2)])
    then show ?thesis using ik by (simp add: sk_count_def p c ctr_def o)
  qed
  have mn: "min (of_nat a) (of_nat b :: u64) = of_nat (min a b)" if "a \<le> 100" "b \<le> 100" for a b :: nat
    using that by (simp add: min_def word_le_nat_alt unat_of_nat)
  have le: "ctr s c \<le> 100" for c using ctr_le [of s c] by simp
  have M: "est s h = min (ctr s (cell s h 3)) (min (ctr s (cell s h 2)) (min (ctr s (cell s h 1)) (min (ctr s (cell s h 0)) 100)))"
    using le [of "cell s h 0"] by (simp add: est_def cells_def min_def)
  show ?thesis
    using mn [of "ctr s (cell s h 0)" 100] le
    by (simp add: sk_Estimate_def c Let_def min_uint_min M mn min.coboundedI1)
qed

lemma cells_reset: "cells (sk_reset s) = cells s"
  by (simp add: fun_eq_iff cells_def cell_def block_of_def sk_reset_def Let_def)

lemma ctr_reset: "fst c < length (Table s) \<Longrightarrow> snd c < 16 \<Longrightarrow> ctr (sk_reset s) c = ctr s c div 2"
  by (cases c) (simp add: ctr_def sk_reset_def Let_def nib_halve [simplified])

lemma Min_div2: "finite A \<Longrightarrow> A \<noteq> {} \<Longrightarrow> Min ((\<lambda>n::nat. n div 2) ` A) = Min A div 2"
  by (rule mono_Min_commute [symmetric]) (auto simp: mono_def div_le_mono)

lemma est_reset:
  assumes "sketch_wf s"
  shows "est (sk_reset s) h = est s h div 2"
proof -
  have "ctr (sk_reset s) c = ctr s c div 2" if "c \<in> set (cells s h)" for c
  proof -
    from that obtain j where "j \<in> {0, 1, 2, 3}" "c = cell s h j" by (auto simp: cells_def)
    then show ?thesis using cell_in_table [OF assms] by (auto intro: ctr_reset)
  qed
  then have "ctr (sk_reset s) ` set (cells (sk_reset s) h) = (\<lambda>n. n div 2) ` ctr s ` set (cells s h)"
    by (simp add: cells_reset image_image cong: image_cong)
  then show ?thesis unfolding est_def by (simp only:) (rule Min_div2, simp_all add: cells_def)
qed

lemma OnesCount_odd: "OnesCount64 (v AND oneMask) \<le> 16"
proof -
  have "\<forall>n\<in>set [0..<64]. bit oneMask n \<longleftrightarrow> n mod 4 = 0" unfolding oneMask_def by code_simp
  then have "filter (bit (v AND oneMask)) [0..<64] = filter (bit v) (filter (\<lambda>n. n mod 4 = 0) [0..<64])"
    by (auto simp: bit_and_iff intro!: filter_cong)
  then have "OnesCount64 (v AND oneMask) \<le> length (filter (\<lambda>n::nat. n mod 4 = 0) [0..<64])"
    unfolding OnesCount64_def by (metis length_filter_le)
  also have "\<dots> = 16" by code_simp
  finally show ?thesis .
qed

lemma sum_OnesCount: "(\<Sum>v\<leftarrow>vs. OnesCount64 (v AND oneMask)) \<le> 16 * length vs"
  by (induction vs) (use OnesCount_odd in \<open>auto intro: add_mono\<close>)

text \<open>At a reset \<open>Additions\<close> equals \<open>SampleSize\<close>, ten times the table length, while the
  odd counters number at most sixteen per word, so the correction cannot underflow.\<close>

lemma sample_size_unat:
  assumes "m \<le> 45" shows "unat (10 * 2 ^ m :: u64) = 10 * 2 ^ m"
proof (rule unat_eq_of_nat64)
  show "10 * 2 ^ m = (of_nat (10 * 2 ^ m) :: u64)" by simp
  have "(2::nat) ^ m \<le> 2 ^ 45" by (rule power_increasing) (use assms in simp_all)
  then show "10 * 2 ^ m < (2::nat) ^ 64" by simp
qed

lemma wf_reset:
  assumes m: "4 \<le> m" "m \<le> 45" "length (Table s) = 2 ^ m" "SampleSize s = 10 * 2 ^ m"
    "BlockMask s = 2 ^ (m - 3) - 1" and a: "Additions s = SampleSize s"
  shows "sketch_wf (sk_reset s)"
proof -
  let ?c = "(\<Sum>v\<leftarrow>Table s. OnesCount64 (v AND oneMask)) div 4"
  have "?c \<le> 16 * 2 ^ m div 4" using sum_OnesCount [of "Table s"] m(3) by (metis div_le_mono)
  then have c: "?c \<le> 4 * 2 ^ m" by simp
  note u = sample_size_unat [OF m(2)]
  have c64: "?c < 2 ^ 64" using c u unat_lt64 [of "10 * 2 ^ m"] by linarith
  have uc: "unat (of_nat ?c :: u64) = ?c" by (rule unat_eq_of_nat64 [OF refl c64])
  have "unat (Additions s - of_nat ?c) = 10 * 2 ^ m - ?c"
    using c a m(4) u uc by (subst unat_sub) (simp_all add: word_le_nat_alt)
  then have "unat (Additions (sk_reset s)) = (10 * 2 ^ m - ?c) div 2"
    by (simp add: sk_reset_def Let_def unat_drop_bit_eq) (simp add: drop_bit_eq_div [where 'a = nat])
  also have "\<dots> \<le> 10 * 2 ^ m div 2" by (rule div_le_mono) simp
  also have "\<dots> < 10 * 2 ^ m" by simp
  finally have "Additions (sk_reset s) < SampleSize s" using u m(4) by (simp add: word_less_nat_alt)
  then show ?thesis unfolding sketch_wf_def
    by (intro exI [of _ m]) (use m in \<open>simp add: sk_reset_def Let_def\<close>)
qed

lemma Min_bump: "finite A \<Longrightarrow> A \<noteq> {} \<Longrightarrow> Min ((\<lambda>n::nat. min 15 (n + 1)) ` A) = min 15 (Min A + 1)"
  by (rule mono_Min_commute [symmetric]) (auto simp: mono_def)

lemma est_bump:
  assumes wf: "sketch_wf s" and c4: "ctr s4 = fold bump (cells s h) (ctr s)" and sh: "same_shape s s4"
  shows "est s4 h = min 15 (est s h + 1)" and "est s g \<le> est s4 g"
proof -
  have cells4: "cells s4 = cells s" using same_shape_cell [OF sh] by (simp add: cells_def fun_eq_iff)
  have cv: "ctr s4 c = (if c \<in> set (cells s h) then min 15 (ctr s c + 1) else ctr s c)" for c
    by (simp add: c4 fold_bump distinct_cells [OF wf])
  have "ctr s4 ` set (cells s h) = (\<lambda>n. min 15 (n + 1)) ` ctr s ` set (cells s h)"
    by (simp add: cv image_image cong: image_cong)
  then show "est s4 h = min 15 (est s h + 1)" unfolding est_def cells4
    by (simp only:) (rule Min_bump, simp_all add: cells_def)
  have le: "ctr s c \<le> ctr s4 c" for c using ctr_le [of s c] by (auto simp: cv min_def)
  show "est s g \<le> est s4 g" unfolding est_def cells4
  proof (rule Min.boundedI)
    fix x assume "x \<in> ctr s4 ` set (cells s g)"
    then obtain c where c: "c \<in> set (cells s g)" "x = ctr s4 c" by blast
    have "Min (ctr s ` set (cells s g)) \<le> ctr s c" using c by (intro Min_le) auto
    then show "Min (ctr s ` set (cells s g)) \<le> x" using le [of c] c(2) by (metis order.trans)
  qed (simp_all add: cells_def)
qed

lemma Add_spec:
  assumes wf: "sketch_wf s"
  obtains s' r where "sk_Add h s = Some (s', r)" "sketch_wf s'"
    "est s' h = (if r then min 15 (est s h + 1) div 2 else min 15 (est s h + 1))"
    "\<And>g. est s g div 2 \<le> est s' g" "\<And>g. \<not> r \<Longrightarrow> est s g \<le> est s' g"
    "r \<Longrightarrow> Additions s + 1 = SampleSize s" "BlockMask s' = BlockMask s" "SampleSize s' = SampleSize s" 
proof -
  obtain m where m: "4 \<le> m" "m \<le> 45" "length (Table s) = 2 ^ m" "SampleSize s = 10 * 2 ^ m"
    "BlockMask s = 2 ^ (m - 3) - 1" "Additions s < SampleSize s" using wf unfolding sketch_wf_def by blast
  obtain s1 s2 s3 s4 where i:
    "inc s (indexOf (rehash h) (block_of s h) 0) = Some (s1, ctr s (cell s h 0) < 15)"
    "inc s1 (indexOf (rehash h) (block_of s h) 1) = Some (s2, ctr s (cell s h 1) < 15)"
    "inc s2 (indexOf (rehash h) (block_of s h) 2) = Some (s3, ctr s (cell s h 2) < 15)"
    "inc s3 (indexOf (rehash h) (block_of s h) 3) = Some (s4, ctr s (cell s h 3) < 15)"
    and c4: "ctr s4 = fold bump (cells s h) (ctr s)" and sh: "same_shape s s4"
    by (rule inc_cells [OF wf])
  define A where "A \<longleftrightarrow> (\<exists>c\<in>set (cells s h). ctr s c < 15)"
  define s5 where "s5 = s4\<lparr>Additions := Additions s4 + 1\<rparr>"
  have add: "sk_Add h s = (if A then if Additions s5 = SampleSize s5 then Some (sk_reset s5, True) else Some (s5, False)
       else Some (s4, False))"
    by (auto simp: sk_Add_def Let_def i A_def cells_def s5_def)
  have cells4: "cells s4 = cells s" using same_shape_cell [OF sh] by (simp add: cells_def fun_eq_iff)
  have cells5: "cells s5 = cells s4" by (simp add: s5_def fun_eq_iff cells_def cell_def block_of_def)
  have ctr5: "ctr s5 = ctr s4" by (simp add: s5_def ctr_def)
  note eh = est_bump(1) [OF wf c4 sh] and mono = est_bump(2) [OF wf c4 sh]
  have e5: "est s5 = est s4" by (simp add: est_def fun_eq_iff cells5 ctr5)
  have wf5: "sketch_wf s5" if "Additions s5 \<noteq> SampleSize s5"
  proof -
    have lt: "unat (Additions s) < unat (SampleSize s)" using m(6) by (simp add: word_less_nat_alt)
    have "unat (Additions s + 1) = unat (Additions s) + 1"
      using lt unat_lt64 [of "SampleSize s"] by (subst unat_add_lem [THEN iffD1]) auto
    then have "Additions s + 1 \<le> SampleSize s" using lt by (simp add: word_le_nat_alt)
    with that sh have "Additions s5 < SampleSize s5" by (simp add: s5_def same_shape_def)
    then show ?thesis unfolding sketch_wf_def
      by (intro exI [of _ m]) (use m sh in \<open>simp add: s5_def same_shape_def\<close>)
  qed
  show ?thesis
  proof (cases "A \<and> Additions s5 = SampleSize s5")
    case True
    have wfr: "sketch_wf (sk_reset s5)"
      by (rule wf_reset [of m]) (use True m sh in \<open>simp_all add: s5_def same_shape_def\<close>)
    have "sketch_wf (s5\<lparr>Additions := 0\<rparr>)" unfolding sketch_wf_def
      by (intro exI [of _ m]) (use m sh in \<open>auto simp: s5_def same_shape_def word_less_nat_alt sample_size_unat\<close>)
    from est_reset [OF this] have er: "est (sk_reset s5) g = est s5 g div 2" for g
      by (simp add: est_def sk_reset_def ctr_def cells_def cell_def block_of_def Let_def)
    show ?thesis
      by (rule that [of "sk_reset s5" True])
        (use True add wfr er e5 eh mono sh in \<open>auto simp: s5_def same_shape_def sk_reset_def Let_def div_le_mono\<close>)
  next
    case False
    define s6 where "s6 = (if A then s5 else s4)"
    have "sk_Add h s = Some (s6, False)" using False add by (auto simp: s6_def)
    moreover have "sketch_wf s6"
    proof (cases A)
      case True then show ?thesis using False wf5 by (simp add: s6_def)
    next
      case False then show ?thesis using wf sh by (simp add: s6_def sketch_wf_def same_shape_def)
    qed
    moreover have "est s6 = est s4" by (simp add: s6_def e5)
    moreover have "BlockMask s6 = BlockMask s" "SampleSize s6 = SampleSize s" using sh by (simp_all add: s6_def s5_def same_shape_def)
    ultimately show ?thesis using eh mono by (intro that [of s6 False]) (auto intro: order.trans [OF _ mono])
  qed
qed

lemma Addn_spec:
  assumes wf: "sketch_wf s"
  obtains s' where "sk_Addn h n s = Some s'" "sketch_wf s'" "same_shape s s'"
    "est s' h = min 15 (est s h + nat (sint n))"
proof -
  have *: "\<exists>s'. inc4_times k (rehash h) (block_of s h) s = Some s' \<and> sketch_wf s' \<and> same_shape s s' \<and>
      est s' h = min 15 (est s h + k)" if "sketch_wf s" for k s
    using that
  proof (induction k arbitrary: s)
    case 0
    then show ?case using est_le [of s h] by (auto simp: same_shape_def)
  next
    case (Suc k)
    obtain s1 s2 s3 s4 where i:
      "inc s (indexOf (rehash h) (block_of s h) 0) = Some (s1, ctr s (cell s h 0) < 15)"
      "inc s1 (indexOf (rehash h) (block_of s h) 1) = Some (s2, ctr s (cell s h 1) < 15)"
      "inc s2 (indexOf (rehash h) (block_of s h) 2) = Some (s3, ctr s (cell s h 2) < 15)"
      "inc s3 (indexOf (rehash h) (block_of s h) 3) = Some (s4, ctr s (cell s h 3) < 15)"
      and c4: "ctr s4 = fold bump (cells s h) (ctr s)" and sh: "same_shape s s4"
      by (rule inc_cells [OF Suc.prems])
    have wf4: "sketch_wf s4" using Suc.prems sh by (simp add: sketch_wf_def same_shape_def)
    have b: "block_of s4 h = block_of s h" using sh by (simp add: block_of_def same_shape_def)
    have "est s4 h = min 15 (est s h + 1)"
      by (rule est_bump(1) [OF Suc.prems c4 sh])
    with Suc.IH [OF wf4] sh i show ?case
      by (fastforce simp: b inc4_def intro: same_shape_trans)
  qed
  from * [OF wf, of "nat (sint n)"] show ?thesis using that by (auto simp: sk_Addn_def)
qed

lemma est_fresh:
  assumes "sketch_wf s" "\<And>v. v \<in> set (Table s) \<Longrightarrow> v = 0"
  shows "est s h = 0"
proof -
  have "ctr s (cell s h 0) = 0"
    using cell_in_table [OF assms(1), of 0 h] assms(2) [OF nth_mem] by (simp add: ctr_def split_beta nib_def)
  moreover have "est s h \<le> ctr s (cell s h 0)" unfolding est_def by (rule Min_le) (auto simp: cells_def)
  ultimately show ?thesis by simp
qed

lemma EnsureCapacity_grow:
  assumes "int (length (Table s)) < sint sz" "unat sz \<le> 2 ^ 45"
  obtains s' where "sk_EnsureCapacity sz s = Some s'" "sketch_wf s'" "unat sz \<le> length (Table s')"
    "\<And>h. est s' h = 0"
proof -
  define n where "n = (if sz < 16 then 16 else sz)"
  have n: "n \<noteq> 0" "unat n \<le> 2 ^ 45" "16 \<le> unat n" "unat sz \<le> unat n"
    using assms(2) by (auto simp: n_def word_less_nat_alt)
  have "(2::nat) ^ 45 \<le> 2 ^ (LENGTH(64) - 1)" by simp
  with n have n63: "unat n \<le> 2 ^ (LENGTH(64) - 1)" by (metis le_trans)
  obtain m where m: "unat (next2Power n) = 2 ^ m" "unat n \<le> 2 ^ m" "2 ^ m < 2 * unat n"
    using next2.rounds [OF n(1) n63] by blast
  have m45: "m \<le> 45"
  proof -
    have "(2::nat) ^ m < 2 ^ 46" using m(3) n(2) by simp
    then have "m < 46" by (rule power_less_imp_less_exp [rotated]) simp
    then show ?thesis by simp
  qed
  have m4: "4 \<le> m"
  proof (rule ccontr)
    assume "\<not> 4 \<le> m"
    then have "(2::nat) ^ m \<le> 2 ^ 3" by (intro power_increasing) simp_all
    with m(2) n(3) show False by simp
  qed
  have nm: "next2Power n = 2 ^ m" using m(1) m45 unat_exp2 [of m, where 'a = 64] by (simp add: word_eq_iff_unsigned [where ?'a = nat])
  have "(2::nat) ^ m \<le> 2 ^ 45" using m45 by (intro power_increasing) simp_all
  then have mk: "make_u64 (next2Power n) = Some (replicate (2 ^ m) 0)"
    using m(1) by (simp add: make_u64_def word_le_nat_alt)
  define s' where "s' = s\<lparr>Table := replicate (2 ^ m) 0, SampleSize := 10 * 2 ^ m,
      BlockMask := drop_bit 3 (of_nat (2 ^ m)) - 1, Additions := 0\<rparr>"
  have e: "sk_EnsureCapacity sz s = Some s'"
    using assms(1) by (simp add: sk_EnsureCapacity_def mk [unfolded nm] s'_def nm Let_def flip: n_def)
  have bm: "drop_bit 3 (2 ^ m :: u64) = 2 ^ (m - 3)"
    by (rule bit_word_eqI) (use m4 m45 in \<open>auto simp: bit_drop_bit_eq bit_exp_iff\<close>)
  have wf: "sketch_wf s'" unfolding sketch_wf_def
    by (intro exI [of _ m]) (use m4 m45 in \<open>simp add: s'_def bm word_less_nat_alt sample_size_unat\<close>)
  show ?thesis
    by (rule that [OF e wf]) (use m n wf in \<open>auto simp: s'_def intro!: est_fresh\<close>)
qed

lemma EnsureCapacity_id: "sint sz \<le> int (length (Table s)) \<Longrightarrow> sk_EnsureCapacity sz s = Some s"
  by (simp add: sk_EnsureCapacity_def)

lemma NewCountMinSketch_wf: "\<exists>s. NewCountMinSketch = Some s \<and> sketch_wf s"
  unfolding NewCountMinSketch_def by (rule EnsureCapacity_grow) auto

subsection \<open>The interface the policy relies on\<close>

text \<open>
  Feeding a sequence of hashes; the flag records whether some addition aged the table.
\<close>

fun add_all :: "('h \<Rightarrow> 's \<Rightarrow> ('s \<times> bool) option) \<Rightarrow> 'h list \<Rightarrow> 's \<Rightarrow> ('s \<times> bool) option" where
  "add_all f [] s = Some (s, False)"
| "add_all f (h # hs) s =
     do { (s, r) \<leftarrow> f h s; (s, q) \<leftarrow> add_all f hs s; Some (s, r \<or> q) }"

locale frequency_sketch =
  fixes add :: "'h \<Rightarrow> 's \<Rightarrow> ('s \<times> bool) option"
    and estimate :: "'h \<Rightarrow> 's \<Rightarrow> u64 option"
    and wf :: "'s \<Rightarrow> bool"
  assumes add_total: "wf s \<Longrightarrow> \<exists>s' r. add h s = Some (s', r) \<and> wf s'"
    and estimate_total: "wf s \<Longrightarrow> \<exists>e. estimate h s = Some e \<and> e \<le> 15"
    and add_counts: "wf s \<Longrightarrow> add h s = Some (s', False) \<Longrightarrow> estimate h s = Some e \<Longrightarrow>
          estimate h s' = Some (min 15 (e + 1))"
    and add_mono: "wf s \<Longrightarrow> add h s = Some (s', False) \<Longrightarrow> estimate g s = Some e \<Longrightarrow>
          estimate g s' = Some e' \<Longrightarrow> e \<le> e'"
begin

lemma add_wf: "wf s \<Longrightarrow> add h s = Some (s', r) \<Longrightarrow> wf s'"
  using add_total [of s h] by auto

lemma add_all_total: "wf s \<Longrightarrow> \<exists>s' r. add_all add hs s = Some (s', r) \<and> wf s'"
proof (induction hs arbitrary: s)
  case (Cons h hs)
  obtain s1 r where "add h s = Some (s1, r)" "wf s1" using add_total Cons.prems by blast
  with Cons.IH [of s1] show ?case by auto
qed auto

text \<open>
  Until the table is aged the estimate of a hash is at least the number of times it was
  added, up to the saturation of the counters: a count-min sketch never underestimates.
\<close>

lemma never_underestimates:
  assumes "wf s" "add_all add hs s = Some (s', False)" "estimate g s = Some e" "estimate g s' = Some e'"
  shows "min 15 (unat e + count_list hs g) \<le> unat e'"
  using assms
proof (induction hs arbitrary: s e)
  case (Cons h hs)
  obtain s1 r q where "add h s = Some (s1, r)" "add_all add hs s1 = Some (s', q)" "(r \<or> q) = False"
    using Cons.prems(2) by (auto simp: bind_eq_Some_conv)
  then have s1: "add h s = Some (s1, False)" "add_all add hs s1 = Some (s', False)" by simp_all
  have wf1: "wf s1" using add_wf [OF Cons.prems(1) s1(1)] .
  obtain e1 where e1: "estimate g s1 = Some e1" using estimate_total [OF wf1] by blast
  have IH: "min 15 (unat e1 + count_list hs g) \<le> unat e'" using Cons.IH [OF wf1 s1(2) e1 Cons.prems(4)] .
  have "e \<le> 15" using estimate_total [OF Cons.prems(1), of g] Cons.prems(3) by auto
  then have e15: "unat e \<le> 15" by (simp add: word_le_nat_alt)
  show ?case
  proof (cases "h = g")
    case True
    then have "e1 = min 15 (e + 1)" using add_counts [OF Cons.prems(1)] s1(1) Cons.prems(3) e1 by simp
    moreover have "unat (e + 1) = unat e + 1" using e15 by (subst unat_add_lem [THEN iffD1]) simp_all
    ultimately have "min 15 (unat e + 1) \<le> unat e1" by (auto simp: min_def word_le_nat_alt)
    with True IH show ?thesis by simp
  next
    case False
    have "unat e \<le> unat e1" using add_mono [OF Cons.prems(1) s1(1) Cons.prems(3) e1] by (simp add: word_le_nat_alt)
    with False IH show ?thesis by simp
  qed
qed simp

end

lemma of_nat_est: "of_nat (min 15 (est s h + 1)) = min 15 (of_nat (est s h) + 1 :: u64)"
  using est_le [of s h] by (auto simp: min_def word_le_nat_alt unat_of_nat unat_word_ariths)

interpretation cms: frequency_sketch sk_Add sk_Estimate sketch_wf
proof
  fix s h assume wf: "sketch_wf s"
  show "\<exists>s' r. sk_Add h s = Some (s', r) \<and> sketch_wf s'" by (rule Add_spec [OF wf]) blast
  show "\<exists>e. sk_Estimate h s = Some e \<and> e \<le> 15"
    using est_le [of s h] by (simp add: Estimate_est [OF wf] word_le_nat_alt unat_of_nat)
next
  fix s h s' e assume a: "sketch_wf s" "sk_Add h s = Some (s', False)" "sk_Estimate h s = Some e"
  have "sketch_wf s' \<and> est s' h = min 15 (est s h + 1)" by (rule Add_spec [OF a(1), of h]) (use a(2) in auto)
  then show "sk_Estimate h s' = Some (min 15 (e + 1))"
    using a(3) Estimate_est [OF a(1), of h] Estimate_est [of s' h] of_nat_est [of s h] by simp
next
  fix s h s' g e e' assume a: "sketch_wf s" "sk_Add h s = Some (s', False)"
    "sk_Estimate g s = Some e" "sk_Estimate g s' = Some e'"
  have "sketch_wf s' \<and> est s g \<le> est s' g" by (rule Add_spec [OF a(1), of h]) (use a(2) in auto)
  then show "e \<le> e'"
    using a(3,4) Estimate_est [OF a(1), of g] Estimate_est [of s' g] est_le [of s g] est_le [of s' g]
    by (auto simp: word_le_nat_alt unat_of_nat)
qed

subsection \<open>Properties\<close>

text \<open>
  C31. Adding a hash to a well-formed sketch never fails, keeps the sketch well-formed and
  raises the estimate of that hash by exactly one, saturating at 15; when the addition
  completes a sample period the table is aged and the new estimate is half of that. The
  estimates of all other hashes never fall below their old value (half of it when aged).
\<close>

theorem sketch_add_exact:
  assumes "sketch_wf s" "sk_Estimate h s = Some e"
  shows "\<exists>s' r. sk_Add h s = Some (s', r) \<and> sketch_wf s' \<and>
    sk_Estimate h s' = Some (if r then min 15 (e + 1) div 2 else min 15 (e + 1)) \<and>
    (\<forall>g. \<exists>x y. sk_Estimate g s = Some x \<and> sk_Estimate g s' = Some y \<and> (if r then x div 2 \<le> y else x \<le> y))"
proof -
  obtain s' r where a: "sk_Add h s = Some (s', r)" "sketch_wf s'"
    "est s' h = (if r then min 15 (est s h + 1) div 2 else min 15 (est s h + 1))"
    "\<And>g. est s g div 2 \<le> est s' g" "\<And>g. \<not> r \<Longrightarrow> est s g \<le> est s' g"
    using Add_spec [OF assms(1), of h] by metis
  note E = Estimate_est [OF assms(1)] and E' = Estimate_est [OF a(2)]
  have small: "unat (of_nat (est t g) :: u64) = est t g" for t g
    using est_le [of t g] by (simp add: unat_of_nat)
  have h2: "of_nat (n div 2) = (of_nat n div 2 :: u64)" if "n \<le> 15" for n
    using that by (simp add: word_eq_iff_unsigned [where ?'a = nat] unat_div_distrib unat_of_nat)
  have "sk_Estimate h s' = Some (if r then min 15 (e + 1) div 2 else min 15 (e + 1))"
    using E' [of h] E [of h] assms(2) a(3) of_nat_est [of s h] h2 [of "min 15 (est s h + 1)"] by (simp split: if_splits)
  moreover have "\<exists>x y. sk_Estimate g s = Some x \<and> sk_Estimate g s' = Some y \<and> (if r then x div 2 \<le> y else x \<le> y)" for g
    using a(4,5) [of g] by (simp add: E E' word_le_nat_alt unat_div_distrib small)
  ultimately show ?thesis using a(1,2) by blast
qed

text \<open>
  C32. A sketch never underestimates: starting from a new sketch, as long as no sample
  period has ended, the estimate of a hash is at least the number of times it was added
  (up to the 4-bit saturation at 15) and never more than 15.
\<close>

theorem sketch_never_underestimates:
  assumes "NewCountMinSketch = Some s0" "add_all sk_Add hs s0 = Some (s, False)"
  shows "\<exists>e. sk_Estimate g s = Some e \<and> min 15 (count_list hs g) \<le> unat e \<and> unat e \<le> 15"
proof -
  have wf0: "sketch_wf s0" using NewCountMinSketch_wf assms(1) by (metis option.inject)
  obtain e0 where e0: "sk_Estimate g s0 = Some e0" using cms.estimate_total [OF wf0] by blast
  have "sketch_wf s" using cms.add_all_total [OF wf0, of hs] assms(2) by auto
  then obtain e where e: "sk_Estimate g s = Some e" "e \<le> 15" using cms.estimate_total by blast
  have "min 15 (unat e0 + count_list hs g) \<le> unat e"
    by (rule cms.never_underestimates [OF wf0 assms(2) e0 e(1)])
  with e show ?thesis by (auto simp: word_le_nat_alt)
qed

text \<open>
  Growing the sketch for \<open>sz\<close> entries (at most \<open>2 ^ 45\<close>) succeeds, keeps it
  well-formed and makes the table at least that long; a table that is long enough is left
  as it is, a new one starts with every estimate at zero.
\<close>

theorem sketch_ensure_capacity:
  assumes "sketch_wf s" "unat sz \<le> 2 ^ 45"
  shows "\<exists>s'. sk_EnsureCapacity sz s = Some s' \<and> sketch_wf s' \<and> unat sz \<le> length (Table s') \<and>
    (if unat sz \<le> length (Table s) then s' = s else \<forall>h. sk_Estimate h s' = Some 0)"
proof -
  have "unat sz < 2 ^ 63" using assms(2) by (rule le_less_trans) simp
  then have i: "sint sz = int (unat sz)" by (rule sint_eq_unat64)
  show ?thesis
  proof (cases "unat sz \<le> length (Table s)")
    case True
    then have "sk_EnsureCapacity sz s = Some s" unfolding i [symmetric] by (intro EnsureCapacity_id) (simp only: i of_nat_le_iff)
    with True assms(1) show ?thesis by simp
  next
    case False
    then obtain s' where "sk_EnsureCapacity sz s = Some s'" "sketch_wf s'" "unat sz \<le> length (Table s')" "\<And>h. est s' h = 0"
      using EnsureCapacity_grow [of s sz] assms(2) by (metis i not_le of_nat_less_iff)
    with False show ?thesis by (auto simp: Estimate_est)
  qed
qed

text \<open>Witnesses: a new sketch with three additions.\<close>

lemma sketch_add_exact_witness:
  "\<exists>s s' r. NewCountMinSketch = Some s \<and> sk_Add 7 s = Some (s', r) \<and>
     sk_Estimate 7 s' = Some (if r then min 15 (0 + 1) div 2 else min 15 (0 + 1))"
proof -
  obtain s where s: "NewCountMinSketch = Some s" "sketch_wf s" using NewCountMinSketch_wf by blast
  have "Option.bind NewCountMinSketch (sk_Estimate 7) = Some 0" by code_simp
  then have "sk_Estimate 7 s = Some 0" unfolding s(1) by simp
  from sketch_add_exact [OF s(2) this] s(1) show ?thesis by blast
qed

lemma sketch_never_underestimates_witness:
  "\<exists>s e. Option.bind NewCountMinSketch (add_all sk_Add [7, 9, 7]) = Some (s, False) \<and>
     sk_Estimate 7 s = Some e \<and> 2 \<le> unat e"
proof -
  have "map_option snd (Option.bind NewCountMinSketch (add_all sk_Add [7, 9, 7])) = Some False" by code_simp
  then obtain s0 s where s: "NewCountMinSketch = Some s0" "add_all sk_Add [7, 9, 7] s0 = Some (s, False)"
    unfolding map_option_eq_Some bind_eq_Some_conv by force
  have "min 15 (count_list [7, 9, 7] (7 :: u64)) = 2" by simp
  with sketch_never_underestimates [OF s, of 7] obtain e where e: "sk_Estimate 7 s = Some e" "2 \<le> unat e" by metis
  show ?thesis unfolding s(1) using s(2) e by (metis bind.bind_lunit)
qed

lemma sketch_ensure_capacity_witness:
  "\<exists>s s'. NewCountMinSketch = Some s \<and> sk_EnsureCapacity 100 s = Some s' \<and> 100 \<le> length (Table s')"
proof -
  obtain s where s: "NewCountMinSketch = Some s" "sketch_wf s" using NewCountMinSketch_wf by blast
  have "unat (100 :: u64) \<le> 2 ^ 45" by simp
  from sketch_ensure_capacity [OF s(2) this] s(1) show ?thesis by auto
qed

end
