(* ===== verification/Counter.thy ===== *)
theory Counter
  imports Pow2 Go_Float
begin

text \<open>
  The striped counter of internal/counter.go and the statistics of internal/stats.go. A
  stripe is one 64-bit word (the padding has no content). \<open>Add\<close> is a lock-free loop of a
  load and a compare-and-swap; it is modelled twice: sequentially, as the single-goroutine
  run the other components use, and as a step relation in which any number of goroutines
  interleave their loads, their compare-and-swaps and their retries.
\<close>

record UnsignedCounter =
  stripes :: "u64 list"
  c_mask :: u32

text \<open>\<open>parallelism\<close> is \<open>xruntime.Parallelism()\<close>.\<close>

definition NewUnsignedCounter :: "u32 \<Rightarrow> UnsignedCounter" where
  "NewUnsignedCounter parallelism =
     (let nstripes = RoundUpPowerOf2 parallelism
      in \<lparr>stripes = replicate (unat nstripes) 0, c_mask = nstripes - 1\<rparr>)"

text \<open>
  \<open>Add\<close> with no other goroutine between the load and the compare-and-swap; \<open>idx\<close> is the
  index in the token taken from the pool or drawn at random.
\<close>

definition counter_Add :: "u32 \<Rightarrow> u64 \<Rightarrow> UnsignedCounter \<Rightarrow> UnsignedCounter option" where
  "counter_Add idx delta c =
     (let i = unat (idx AND c_mask c) in
      if i < length (stripes c) then Some (c\<lparr>stripes := (stripes c)[i := stripes c ! i + delta]\<rparr>) else None)"

definition counter_Inc :: "u32 \<Rightarrow> UnsignedCounter \<Rightarrow> UnsignedCounter option" where
  "counter_Inc idx c = counter_Add idx 1 c"

definition counter_Value :: "UnsignedCounter \<Rightarrow> u64" where
  "counter_Value c = foldl (+) 0 (stripes c)"

definition counter_Reset :: "UnsignedCounter \<Rightarrow> UnsignedCounter" where
  "counter_Reset c = c\<lparr>stripes := map (\<lambda>_. 0) (stripes c)\<rparr>"

subsection \<open>Interleaved additions\<close>

datatype add_pc =
    AIdle
  | ALoop u64 u32        \<comment> \<open>delta, token index: about to load the stripe\<close>
  | ALoaded u64 u32 u64  \<comment> \<open>delta, token index, the value loaded: about to compare and swap\<close>

record cstate =
  counter :: UnsignedCounter
  pcs :: "nat \<Rightarrow> add_pc"

text \<open>The label of a step is the delta of the call that returns in it, if one does.\<close>

inductive counter_step :: "cstate \<Rightarrow> u64 option \<Rightarrow> cstate \<Rightarrow> bool" where
  call: "pcs s g = AIdle \<Longrightarrow> counter_step s None (s\<lparr>pcs := (pcs s)(g := ALoop delta idx)\<rparr>)"
| load: "pcs s g = ALoop delta idx \<Longrightarrow> i = unat (idx AND c_mask (counter s)) \<Longrightarrow>
    i < length (stripes (counter s)) \<Longrightarrow>
    counter_step s None (s\<lparr>pcs := (pcs s)(g := ALoaded delta idx (stripes (counter s) ! i))\<rparr>)"
| cas_ok: "pcs s g = ALoaded delta idx cnt \<Longrightarrow> i = unat (idx AND c_mask (counter s)) \<Longrightarrow>
    stripes (counter s) ! i = cnt \<Longrightarrow>
    counter_step s (Some delta)
      (s\<lparr>counter := (counter s)\<lparr>stripes := (stripes (counter s))[i := cnt + delta]\<rparr>, pcs := (pcs s)(g := AIdle)\<rparr>)"
| cas_fail: "pcs s g = ALoaded delta idx cnt \<Longrightarrow> i = unat (idx AND c_mask (counter s)) \<Longrightarrow>
    stripes (counter s) ! i \<noteq> cnt \<Longrightarrow>
    counter_step s None (s\<lparr>pcs := (pcs s)(g := ALoop delta idx')\<rparr>)"

inductive counter_run :: "cstate \<Rightarrow> u64 list \<Rightarrow> cstate \<Rightarrow> bool" where
  stop: "counter_run s [] s"
| more: "counter_run s ds s' \<Longrightarrow> counter_step s' l s'' \<Longrightarrow>
    counter_run s (case l of None \<Rightarrow> ds | Some d \<Rightarrow> d # ds) s''"

text \<open>The panic of an index out of range: a goroutine about to load with its stripe out of range.\<close>

definition stuck_load :: "cstate \<Rightarrow> bool" where
  "stuck_load s \<longleftrightarrow> (\<exists>g delta idx. pcs s g = ALoop delta idx \<and>
     length (stripes (counter s)) \<le> unat (idx AND c_mask (counter s)))"

subsection \<open>Statistics\<close>

record Stats =
  st_hits :: u64
  st_misses :: u64

definition newStats :: "u64 \<Rightarrow> u64 \<Rightarrow> Stats" where
  "newStats h m = \<lparr>st_hits = h, st_misses = m\<rparr>"

definition Hits :: "Stats \<Rightarrow> u64" where "Hits s = st_hits s"
definition Misses :: "Stats \<Rightarrow> u64" where "Misses s = st_misses s"

definition HitRatio :: "Stats \<Rightarrow> rat" where
  "HitRatio s =
     (let total = st_hits s + st_misses s
      in if total = 0 then 0 else f64 (f64 (of_int (uint (st_hits s))) / f64 (of_int (uint total))))"

subsection \<open>Correctness\<close>

definition counter_wf :: "UnsignedCounter \<Rightarrow> bool" where
  "counter_wf c \<longleftrightarrow> (\<exists>m. length (stripes c) = 2 ^ m \<and> unat (c_mask c + 1) = 2 ^ m)"

lemma foldl_add: "foldl (+) (a :: u64) xs = a + sum_list xs"
  by (induction xs arbitrary: a) (simp_all add: add.assoc)

lemma counter_Value_sum: "counter_Value c = sum_list (stripes c)"
  by (simp add: counter_Value_def foldl_add)

lemma sum_list_bump: "i < length xs \<Longrightarrow> sum_list (xs[i := xs ! i + d]) = sum_list xs + (d :: u64)"
  by (induction xs arbitrary: i) (auto simp: nth_Cons split: nat.split)

lemma counter_index:
  assumes "counter_wf c" shows "unat (idx AND c_mask c) < length (stripes c)"
proof -
  obtain m where m: "length (stripes c) = 2 ^ m" "unat (c_mask c + 1) = 2 ^ m"
    using assms by (auto simp: counter_wf_def)
  have "unat (idx AND (c_mask c + 1 - 1)) = unat idx mod 2 ^ m" by (rule unat_and_pow2_minus_1 [OF m(2)])
  then show ?thesis using m(1) by simp
qed

lemma New_counter_wf:
  assumes "p \<noteq> 0" "unat p \<le> 2 ^ 31"
  shows "counter_wf (NewUnsignedCounter p)" "counter_Value (NewUnsignedCounter p) = 0"
proof -
  have "\<exists>m<LENGTH(32). unat (RoundUpPowerOf2 p) = 2 ^ m" by (rule roundup.power) (use assms in simp_all)
  then show "counter_wf (NewUnsignedCounter p)" by (auto simp: counter_wf_def NewUnsignedCounter_def Let_def)
  show "counter_Value (NewUnsignedCounter p) = 0"
    by (simp add: counter_Value_sum NewUnsignedCounter_def Let_def sum_list_replicate)
qed

lemma counter_Add_spec:
  assumes "counter_wf c"
  shows "\<exists>c'. counter_Add idx d c = Some c' \<and> counter_wf c' \<and> counter_Value c' = counter_Value c + d"
  using counter_index [OF assms, of idx] assms
  by (simp add: counter_Add_def Let_def counter_Value_sum sum_list_bump counter_wf_def)

inductive_cases counter_stepE: "counter_step s l s'"

lemma counter_step_value:
  assumes "counter_step s l s'" "counter_wf (counter s)"
  shows "counter_wf (counter s') \<and> counter_Value (counter s') = counter_Value (counter s) + (case l of None \<Rightarrow> 0 | Some d \<Rightarrow> d)"
  using assms
proof cases
  case (cas_ok g delta idx cnt i)
  then show ?thesis using counter_index [OF assms(2), of idx] assms(2) sum_list_bump [of i "stripes (counter s)" delta]
    by (simp add: counter_Value_sum counter_wf_def)
qed simp_all

lemma counter_run_value:
  "counter_run s ds s' \<Longrightarrow> counter_wf (counter s) \<Longrightarrow>
     counter_wf (counter s') \<and> counter_Value (counter s') = counter_Value (counter s) + sum_list ds"
proof (induction rule: counter_run.induct)
  case (more s ds s' l s'')
  then show ?case using counter_step_value [OF more.hyps(2)] by (auto split: option.splits)
qed simp

text \<open>
  C33. Concurrent \<open>Add\<close> calls lose no update: after any interleaving of loads,
  compare-and-swaps and retries of any number of goroutines on a new counter, the value is
  the sum of the deltas of the calls that have returned, and no stripe index is out of range.
\<close>

theorem counter_no_lost_update:
  assumes "p \<noteq> 0" "unat p \<le> 2 ^ 31" "counter s = NewUnsignedCounter p" "counter_run s ds s'"
  shows "counter_Value (counter s') = sum_list ds \<and> \<not> stuck_load s'"
proof -
  have "counter_wf (counter s') \<and> counter_Value (counter s') = sum_list ds"
    using counter_run_value [OF assms(4)] New_counter_wf [OF assms(1,2)] assms(3) by simp
  then show ?thesis using counter_index by (auto simp: stuck_load_def not_le)
qed

text \<open>The witness: two goroutines load the same stripe, one wins, the other retries and succeeds.\<close>

lemma counter_no_lost_update_witness:
  "\<exists>s s'. counter s = NewUnsignedCounter 3 \<and> counter_run s [7, 5] s' \<and> counter_Value (counter s') = 12 \<and> \<not> stuck_load s'"
proof -
  define c0 where "c0 = NewUnsignedCounter 3"
  have c0: "c0 = \<lparr>stripes = [0, 0, 0, 0], c_mask = 3\<rparr>" unfolding c0_def by code_simp
  define st where "st = (\<lambda>xs p. \<lparr>counter = \<lparr>stripes = xs, c_mask = 3\<rparr>, pcs = p\<rparr>)"
  let ?p = "\<lambda>a b. ((\<lambda>_. AIdle)(0 := a, Suc 0 := b))"
  have z: "counter_run (st [0, 0, 0, 0] (\<lambda>_. AIdle)) [] (st [0, 0, 0, 0] (?p AIdle AIdle))"
    using counter_run.stop [of "st [0, 0, 0, 0] (\<lambda>_. AIdle)"] by (simp add: fun_upd_idem)
  note R = counter_run.more [where l = None, simplified]
  have 1: "counter_run (st [0, 0, 0, 0] (\<lambda>_. AIdle)) [] (st [0, 0, 0, 0] (?p (ALoop 5 1) AIdle))"
    by (rule R [OF z]) (use counter_step.call [of "st [0, 0, 0, 0] (?p AIdle AIdle)" 0 5 1] in \<open>simp add: st_def fun_upd_twist\<close>)
  have 2: "counter_run (st [0, 0, 0, 0] (\<lambda>_. AIdle)) [] (st [0, 0, 0, 0] (?p (ALoop 5 1) (ALoop 7 1)))"
    by (rule R [OF 1]) (use counter_step.call [of "st [0, 0, 0, 0] (?p (ALoop 5 1) AIdle)" 1 7 1] in \<open>simp add: st_def\<close>)
  have 3: "counter_run (st [0, 0, 0, 0] (\<lambda>_. AIdle)) [] (st [0, 0, 0, 0] (?p (ALoaded 5 1 0) (ALoop 7 1)))"
    by (rule R [OF 2]) (use counter_step.load [of "st [0, 0, 0, 0] (?p (ALoop 5 1) (ALoop 7 1))" 0 5 1] in \<open>simp add: st_def fun_upd_twist\<close>)
  have 4: "counter_run (st [0, 0, 0, 0] (\<lambda>_. AIdle)) [] (st [0, 0, 0, 0] (?p (ALoaded 5 1 0) (ALoaded 7 1 0)))"
    by (rule R [OF 3]) (use counter_step.load [of "st [0, 0, 0, 0] (?p (ALoaded 5 1 0) (ALoop 7 1))" 1 7 1] in \<open>simp add: st_def\<close>)
  have 5: "counter_run (st [0, 0, 0, 0] (\<lambda>_. AIdle)) [5] (st [0, 5, 0, 0] (?p AIdle (ALoaded 7 1 0)))"
    using counter_run.more [OF 4 counter_step.cas_ok [of _ 0 5 1 0]] by (simp add: st_def fun_upd_twist)
  have 6: "counter_run (st [0, 0, 0, 0] (\<lambda>_. AIdle)) [5] (st [0, 5, 0, 0] (?p AIdle (ALoop 7 2)))"
    by (rule R [OF 5]) (use counter_step.cas_fail [of "st [0, 5, 0, 0] (?p AIdle (ALoaded 7 1 0))" 1 7 1 0 1 2] in \<open>simp add: st_def\<close>)
  have 7: "counter_run (st [0, 0, 0, 0] (\<lambda>_. AIdle)) [5] (st [0, 5, 0, 0] (?p AIdle (ALoaded 7 2 0)))"
    by (rule R [OF 6]) (use counter_step.load [of "st [0, 5, 0, 0] (?p AIdle (ALoop 7 2))" 1 7 2] in \<open>simp add: st_def\<close>)
  have 8: "counter_run (st [0, 0, 0, 0] (\<lambda>_. AIdle)) [7, 5] (st [0, 5, 7, 0] (?p AIdle AIdle))"
    using counter_run.more [OF 7 counter_step.cas_ok [of _ 1 7 2 0]] by (simp add: st_def fun_upd_twist)
  have c: "counter (st [0, 0, 0, 0] (\<lambda>_. AIdle)) = NewUnsignedCounter 3" using c0 by (simp add: st_def c0_def)
  show ?thesis using counter_no_lost_update [OF _ _ c 8] c 8 by auto
qed

end
