(* ===== verification/Tlfu.thy ===== *)
theory Tlfu
  imports Slru Sketch Counter
begin

text \<open>
  The W-TinyLFU eviction policy of internal/tlfu.go. The policy owns three lists over the
  store of entries, the frequency sketch and the hill climber's state. A state \<open>pstate\<close>
  holds the store and the policy; the store component extends this record with its own
  fields. \<open>removeCallback\<close> is a parameter \<open>cb\<close> of the operations that evict: a state
  transformer that may fail. Random numbers (\<open>xruntime.Fastrand\<close>) are read from the stream
  \<open>rnd\<close>. float32 arithmetic is that of theory Go_Float.
\<close>

record 'k TinyLfu =
  window :: List
  slru :: Slru
  sketch :: CountMinSketch
  hasher :: "'k \<Rightarrow> u64"
  capacity :: u64
  weightedSize :: u64
  misses :: UnsignedCounter
  hits :: UnsignedCounter
  hitsInSample :: u64
  missesInSample :: u64
  hr :: rat
  step :: rat
  amount :: i64

record ('k, 'v) pstate =
  heap :: "('k, 'v) heap"
  policy :: "'k TinyLfu"
  rnd :: "nat \<Rightarrow> u32"
  rnd_pos :: nat

text \<open>
  \<open>aw\<close>, \<open>ap\<close>, \<open>aq\<close> are the addresses of the three sentinels, \<open>par\<close> is
  \<open>xruntime.Parallelism()\<close>.
\<close>

definition NewTinyLfu :: "u64 \<Rightarrow> ('k::zero \<Rightarrow> u64) \<Rightarrow> u32 \<Rightarrow> addr \<Rightarrow> addr \<Rightarrow> addr \<Rightarrow> ('k, 'v::zero) heap
    \<Rightarrow> (('k, 'v) heap \<times> 'k TinyLfu) option" where
  "NewTinyLfu sz hsh par aw ap aq h =
     (let windowSize = uint_of_float (f32 (f32_of_uint sz * f32 (1 / 100)));
          windowSize = (if windowSize < 1 then 1 else windowSize);
          mainSize = sz - windowSize;
          (h, sl) = NewSlru mainSize ap aq h;
          (h, w) = NewList windowSize LIST_WINDOW aw h
      in do { sk \<leftarrow> NewCountMinSketch;
              Some (h, \<lparr>window = w, slru = sl, sketch = sk, hasher = hsh, capacity = sz, weightedSize = 0,
                misses = NewUnsignedCounter par, hits = NewUnsignedCounter par,
                hitsInSample = 0, missesInSample = 0, hr = 0, step = f32 (- f32_of_uint sz * (1 / 16)), amount = 0\<rparr>) })"

subsection \<open>Window and main region\<close>

definition set_window :: "List \<Rightarrow> ('k, 'v, 'z) pstate_scheme \<Rightarrow> ('k, 'v, 'z) pstate_scheme" where
  "set_window l st = st\<lparr>policy := (policy st)\<lparr>window := l\<rparr>\<rparr>"

definition set_probation :: "List \<Rightarrow> ('k, 'v, 'z) pstate_scheme \<Rightarrow> ('k, 'v, 'z) pstate_scheme" where
  "set_probation l st = st\<lparr>policy := (policy st)\<lparr>slru := (slru (policy st))\<lparr>probation := l\<rparr>\<rparr>\<rparr>"

definition set_protected :: "List \<Rightarrow> ('k, 'v, 'z) pstate_scheme \<Rightarrow> ('k, 'v, 'z) pstate_scheme" where
  "set_protected l st = st\<lparr>policy := (policy st)\<lparr>slru := (slru (policy st))\<lparr>protected := l\<rparr>\<rparr>\<rparr>"

text \<open>Each loop is given by its body, one round; \<open>Inr\<close> leaves the loop.\<close>

definition increaseWindow_round :: "i64 \<times> ('k, 'v, 'z) pstate_scheme
    \<Rightarrow> ((i64 \<times> ('k, 'v, 'z) pstate_scheme) + (i64 \<times> ('k, 'v, 'z) pstate_scheme)) option" where
  "increaseWindow_round = (\<lambda>(amt, st).
     let b = Back (probation (slru (policy st))) (heap st);
         prob = (case b of None \<Rightarrow> False | Some e \<Rightarrow> \<not> slt amt (policyWeight (heap st e)));
         entry = (if prob then b else Back (protected (slru (policy st))) (heap st))
     in case entry of None \<Rightarrow> Some (Inr (amt, st))
        | Some e \<Rightarrow>
            let weight = policyWeight (heap st e) in
            if slt amt weight then Some (Inr (amt, st))
            else do {
              st \<leftarrow> (if prob then do { (h, l) \<leftarrow> list_remove (probation (slru (policy st))) e (heap st);
                                         Some ((set_probation l st)\<lparr>heap := h\<rparr>) }
                      else do { (h, l) \<leftarrow> list_remove (protected (slru (policy st))) e (heap st);
                                Some ((set_protected l st)\<lparr>heap := h\<rparr>) });
              (h, l) \<leftarrow> PushFront (window (policy st)) e (heap st);
              Some (Inl (amt - weight, (set_window l st)\<lparr>heap := h\<rparr>)) })"

definition increaseWindow :: "i64 \<Rightarrow> ('k, 'v, 'z) pstate_scheme \<Rightarrow> (i64 \<times> ('k, 'v, 'z) pstate_scheme) option" where
  "increaseWindow amt st = iterate increaseWindow_round (amt, st)"

definition decreaseWindow_round :: "i64 \<times> ('k, 'v, 'z) pstate_scheme
    \<Rightarrow> ((i64 \<times> ('k, 'v, 'z) pstate_scheme) + (i64 \<times> ('k, 'v, 'z) pstate_scheme)) option" where
  "decreaseWindow_round = (\<lambda>(amt, st).
     case Back (window (policy st)) (heap st) of None \<Rightarrow> Some (Inr (amt, st))
     | Some e \<Rightarrow>
         let weight = policyWeight (heap st e) in
         if slt amt weight then Some (Inr (amt, st))
         else do {
           (h, l) \<leftarrow> list_remove (window (policy st)) e (heap st);
           let st = (set_window l st)\<lparr>heap := h\<rparr>;
           (h, l) \<leftarrow> PushFront (probation (slru (policy st))) e (heap st);
           Some (Inl (amt - weight, (set_probation l st)\<lparr>heap := h\<rparr>)) })"

definition decreaseWindow :: "i64 \<Rightarrow> ('k, 'v, 'z) pstate_scheme \<Rightarrow> (i64 \<times> ('k, 'v, 'z) pstate_scheme) option" where
  "decreaseWindow amt st = iterate decreaseWindow_round (amt, st)"

definition demote_round :: "('k, 'v, 'z) pstate_scheme \<Rightarrow> (('k, 'v, 'z) pstate_scheme + ('k, 'v, 'z) pstate_scheme) option" where
  "demote_round st =
    (if slt (l_capacity (protected (slru (policy st)))) (Len (protected (slru (policy st)))) then do {
       (h, l, entry) \<leftarrow> PopTail (protected (slru (policy st))) (heap st);
       let st = (set_protected l st)\<lparr>heap := h\<rparr>;
       e \<leftarrow> entry;
       (h, l) \<leftarrow> PushFront (probation (slru (policy st))) e (heap st);
       Some (Inl ((set_probation l st)\<lparr>heap := h\<rparr>)) }
     else Some (Inr st))"

definition demoteFromProtected :: "('k, 'v, 'z) pstate_scheme \<Rightarrow> ('k, 'v, 'z) pstate_scheme option" where
  "demoteFromProtected st = iterate demote_round st"

definition add_window_cap :: "i64 \<Rightarrow> ('k, 'v, 'z) pstate_scheme \<Rightarrow> ('k, 'v, 'z) pstate_scheme" where
  "add_window_cap d st =
     (let t = policy st; w = window t; q = protected (slru t)
      in set_protected (q\<lparr>l_capacity := l_capacity q - d\<rparr>) (set_window (w\<lparr>l_capacity := l_capacity w + d\<rparr>) st))"

definition set_amount :: "i64 \<Rightarrow> ('k, 'v, 'z) pstate_scheme \<Rightarrow> ('k, 'v, 'z) pstate_scheme" where
  "set_amount a st = st\<lparr>policy := (policy st)\<lparr>amount := a\<rparr>\<rparr>"

definition resize_move :: "('k, 'v, 'z) pstate_scheme \<Rightarrow> ('k, 'v, 'z) pstate_scheme option" where
  "resize_move st =
     (if slt 0 (amount (policy st)) then
        do { (remain, st) \<leftarrow> increaseWindow (amount (policy st)) st; Some (set_amount remain st) }
      else if slt (amount (policy st)) 0 then
        do { (remain, st) \<leftarrow> decreaseWindow (- amount (policy st)) st; Some (set_amount (- remain) st) }
      else Some st)"

definition resizeWindow :: "('k, 'v, 'z) pstate_scheme \<Rightarrow> ('k, 'v, 'z) pstate_scheme option" where
  "resizeWindow st =
     do { st \<leftarrow> demoteFromProtected (add_window_cap (amount (policy st)) st);
          st \<leftarrow> resize_move st;
          Some (add_window_cap (- amount (policy st)) st) }"

text \<open>
  \<open>climb\<close>: the change of the hit ratio since the last sample, the clamping of the amount
  to the two capacities, and the whole function.
\<close>

definition climb_delta :: "'k TinyLfu \<Rightarrow> rat \<times> rat" where
  "climb_delta t =
     (let total = hitsInSample t + missesInSample t in
      if total = 0 then (0, hr t)
      else let current = f32 (f32_of_uint (hitsInSample t) / f32_of_uint total)
           in (f32 (current - hr t), current))"

definition clamp_amount :: "i64 \<Rightarrow> 'k TinyLfu \<Rightarrow> i64" where
  "clamp_amount a t =
     (let pc = l_capacity (protected (slru t)); wc = l_capacity (window t);
          a = (if slt 0 a \<and> slt pc a then pc else a)
      in if slt a 0 \<and> slt (wc - 1) (- a) then - (wc - 1) else a)"

definition climb :: "'k TinyLfu \<Rightarrow> 'k TinyLfu" where
  "climb t =
     (let (delta, hr') = climb_delta t;
          t = t\<lparr>hr := hr', hitsInSample := 0, missesInSample := 0\<rparr>;
          amt = (if 0 \<le> delta then step t else - step t);
          nextStepSize = f32 (amt * f32 (98 / 100));
          nextStepSizeAbs = f32 (f32_of_uint (capacity t) * (1 / 16));
          nextStepSize = (if f64 (5 / 100) \<le> \<bar>delta\<bar> then (if 0 \<le> amt then nextStepSizeAbs else - nextStepSizeAbs)
                          else nextStepSize)
      in t\<lparr>step := nextStepSize, amount := clamp_amount (int_of_float amt) t\<rparr>)"

subsection \<open>Eviction\<close>

definition tlfu_Remove :: "(addr \<Rightarrow> ('k, 'v, 'z) pstate_scheme \<Rightarrow> ('k, 'v, 'z) pstate_scheme option) \<Rightarrow> addr \<Rightarrow> bool
    \<Rightarrow> ('k, 'v, 'z) pstate_scheme \<Rightarrow> ('k, 'v, 'z) pstate_scheme option" where
  "tlfu_Remove cb e callback st =
     do { st \<leftarrow> (if IsWindow (flag (heap st e)) then
                   do { (h, l) \<leftarrow> list_remove (window (policy st)) e (heap st); Some ((set_window l st)\<lparr>heap := h\<rparr>) }
                 else
                   do { (h, s) \<leftarrow> slru_remove (slru (policy st)) e (heap st);
                        Some (st\<lparr>heap := h, policy := (policy st)\<lparr>slru := s\<rparr>\<rparr>) });
          (let st = st\<lparr>policy := (policy st)\<lparr>weightedSize := weightedSize (policy st) - policyWeight (heap st e)\<rparr>\<rparr>
           in if callback then cb e st else Some st) }"

definition evictFromWindow_round :: "addr option \<times> ('k, 'v, 'z) pstate_scheme
    \<Rightarrow> ((addr option \<times> ('k, 'v, 'z) pstate_scheme) + (addr option \<times> ('k, 'v, 'z) pstate_scheme)) option" where
  "evictFromWindow_round = (\<lambda>(first, st).
     if slt (l_capacity (window (policy st))) (Len (window (policy st))) then do {
       (h, l, victim) \<leftarrow> PopTail (window (policy st)) (heap st);
       let st = (set_window l st)\<lparr>heap := h\<rparr>;
       (case victim of
          None \<Rightarrow> Some (Inl (first, st))
        | Some v \<Rightarrow> do {
            (h, s) \<leftarrow> slru_insert (slru (policy st)) v (heap st);
            Some (Inl (if first = None then Some v else first, st\<lparr>heap := h, policy := (policy st)\<lparr>slru := s\<rparr>\<rparr>)) }) }
     else Some (Inr (first, st)))"

definition evictFromWindow :: "('k, 'v, 'z) pstate_scheme \<Rightarrow> (addr option \<times> ('k, 'v, 'z) pstate_scheme) option" where
  "evictFromWindow st = iterate evictFromWindow_round (None, st)"

definition admit :: "'k \<Rightarrow> 'k \<Rightarrow> ('k, 'v, 'z) pstate_scheme \<Rightarrow> (bool \<times> ('k, 'v, 'z) pstate_scheme) option" where
  "admit candidateKey victimKey st =
     do { victimFreq \<leftarrow> sk_Estimate (hasher (policy st) victimKey) (sketch (policy st));
          candidateFreq \<leftarrow> sk_Estimate (hasher (policy st) candidateKey) (sketch (policy st));
          (if victimFreq < candidateFreq then Some (True, st)
           else if 6 \<le> candidateFreq then
             Some (rnd st (rnd_pos st) AND 127 = 0, st\<lparr>rnd_pos := rnd_pos st + 1\<rparr>)
           else Some (False, st)) }"

text \<open>
  One round of the loop of \<open>evictFromMain\<close>, from line \<open>if candidate == nil && victim == nil\<close>
  on. The loop state holds the two queues, the candidate, the victim and the program state;
  \<open>continue\<close> is \<open>Inl\<close>, \<open>break\<close> is \<open>Inr\<close>.
\<close>

type_synonym ('k, 'v, 'z) callback = "addr \<Rightarrow> ('k, 'v, 'z) pstate_scheme \<Rightarrow> ('k, 'v, 'z) pstate_scheme option"
type_synonym ('k, 'v, 'z) main_state = "u8 \<times> u8 \<times> addr option \<times> addr option \<times> ('k, 'v, 'z) pstate_scheme"

definition evictFromMain_choose :: "('k, 'v, 'z) callback \<Rightarrow> ('k, 'v, 'z) main_state
    \<Rightarrow> (('k, 'v, 'z) main_state + ('k, 'v, 'z) pstate_scheme) option" where
  "evictFromMain_choose cb = (\<lambda>(victimQueue, candidateQueue, candidate, victim, st).
     case (victim, candidate) of
       (None, None) \<Rightarrow>
         if victimQueue = LIST_PROBATION then
           Some (Inl (LIST_PROTECTED, candidateQueue, candidate, Back (protected (slru (policy st))) (heap st), st))
         else if victimQueue = LIST_PROTECTED then
           Some (Inl (LIST_WINDOW, candidateQueue, candidate, Back (window (policy st)) (heap st), st))
         else Some (Inr st)
     | (None, Some c) \<Rightarrow> do {
         previous \<leftarrow> PrevPolicy (heap st) c;
         st \<leftarrow> tlfu_Remove cb c True st;
         Some (Inl (victimQueue, candidateQueue, previous, victim, st)) }
     | (Some v, None) \<Rightarrow> do {
         previous \<leftarrow> PrevPolicy (heap st) v;
         st \<leftarrow> tlfu_Remove cb v True st;
         Some (Inl (victimQueue, candidateQueue, candidate, previous, st)) }
     | (Some v, Some c) \<Rightarrow>
         if v = c then do {
           previous \<leftarrow> PrevPolicy (heap st) v;
           st \<leftarrow> tlfu_Remove cb c True st;
           Some (Inl (victimQueue, candidateQueue, None, previous, st)) }
         else if slt (weightedSize (policy st)) (policyWeight (heap st c)) then do {
           previous \<leftarrow> PrevPolicy (heap st) c;
           st \<leftarrow> tlfu_Remove cb c True st;
           Some (Inl (victimQueue, candidateQueue, previous, victim, st)) }
         else do {
           (ok, st) \<leftarrow> admit (key (heap st c)) (key (heap st v)) st;
           if ok then do {
             vprev \<leftarrow> PrevPolicy (heap st) v;
             st \<leftarrow> tlfu_Remove cb v True st;
             cprev \<leftarrow> PrevPolicy (heap st) c;
             Some (Inl (victimQueue, candidateQueue, cprev, vprev, st)) }
           else do {
             previous \<leftarrow> PrevPolicy (heap st) c;
             st \<leftarrow> tlfu_Remove cb c True st;
             Some (Inl (victimQueue, candidateQueue, previous, victim, st)) } })"

definition evictFromMain_round :: "('k, 'v, 'z) callback \<Rightarrow> ('k, 'v, 'z) main_state
    \<Rightarrow> (('k, 'v, 'z) main_state + ('k, 'v, 'z) pstate_scheme) option" where
  "evictFromMain_round cb = (\<lambda>(victimQueue, candidateQueue, candidate, victim, st).
     if capacity (policy st) < weightedSize (policy st) then
       if candidate = None \<and> candidateQueue = LIST_PROBATION then
         evictFromMain_choose cb (victimQueue, LIST_WINDOW, Back (window (policy st)) (heap st), victim, st)
       else evictFromMain_choose cb (victimQueue, candidateQueue, candidate, victim, st)
     else Some (Inr st))"

definition evictFromMain :: "('k, 'v, 'z) callback \<Rightarrow> addr option \<Rightarrow> ('k, 'v, 'z) pstate_scheme \<Rightarrow> ('k, 'v, 'z) pstate_scheme option" where
  "evictFromMain cb candidate st =
     iterate (evictFromMain_round cb)
       (LIST_PROBATION, LIST_PROBATION, candidate, Back (probation (slru (policy st))) (heap st), st)"

definition EvictEntries :: "(addr \<Rightarrow> ('k, 'v, 'z) pstate_scheme \<Rightarrow> ('k, 'v, 'z) pstate_scheme option)
    \<Rightarrow> ('k, 'v, 'z) pstate_scheme \<Rightarrow> ('k, 'v, 'z) pstate_scheme option" where
  "EvictEntries cb st = do { (first, st) \<leftarrow> evictFromWindow st; evictFromMain cb first st }"

subsection \<open>The operations the store calls\<close>

definition climb_if_sampled :: "('k, 'v, 'z) pstate_scheme \<Rightarrow> ('k, 'v, 'z) pstate_scheme option" where
  "climb_if_sampled st =
     (if SampleSize (sketch (policy st)) < hitsInSample (policy st) + missesInSample (policy st)
      then resizeWindow (st\<lparr>policy := climb (policy st)\<rparr>) else Some st)"

definition tlfu_Set :: "(addr \<Rightarrow> ('k, 'v, 'z) pstate_scheme \<Rightarrow> ('k, 'v, 'z) pstate_scheme option) \<Rightarrow> addr
    \<Rightarrow> ('k, 'v, 'z) pstate_scheme \<Rightarrow> ('k, 'v, 'z) pstate_scheme option" where
  "tlfu_Set cb e st =
     do { st \<leftarrow> climb_if_sampled st;
          let st = st\<lparr>policy := (policy st)\<lparr>weightedSize := weightedSize (policy st) + policyWeight (heap st e)\<rparr>\<rparr>;
          st \<leftarrow> (if m_prev (meta (heap st e)) = None then
                   (let st = st\<lparr>policy := (policy st)\<lparr>missesInSample := missesInSample (policy st) + 1\<rparr>\<rparr>
                    in do { (h, l) \<leftarrow> PushFront (window (policy st)) e (heap st); Some ((set_window l st)\<lparr>heap := h\<rparr>) })
                 else Some st);
          st \<leftarrow> demoteFromProtected st;
          st \<leftarrow> EvictEntries cb st;
          (if weightedSize (policy st) \<le> capacity (policy st) then
             (let cnt = l_count (probation (slru (policy st))) + l_count (protected (slru (policy st))) + l_count (window (policy st))
              in do { sk \<leftarrow> sk_EnsureCapacity cnt (sketch (policy st));
                      Some (st\<lparr>policy := (policy st)\<lparr>sketch := sk\<rparr>\<rparr>) })
           else Some st) }"

text \<open>The item of a read buffer: the accessed entry, which may be nil, and the hash of its key.\<close>

record ReadBufItem =
  rb_entry :: "addr option"
  rb_hash :: u64

definition tlfu_Access :: "ReadBufItem \<Rightarrow> ('k, 'v, 'z) pstate_scheme \<Rightarrow> ('k, 'v, 'z) pstate_scheme option" where
  "tlfu_Access item st =
     do { st \<leftarrow> climb_if_sampled st;
          (case rb_entry item of None \<Rightarrow> Some st
           | Some e \<Rightarrow>
               do { (sk, _) \<leftarrow> sk_Add (rb_hash item) (sketch (policy st));
                    let st = st\<lparr>policy := (policy st)\<lparr>hitsInSample := hitsInSample (policy st) + 1, sketch := sk\<rparr>\<rparr>;
                    (if m_prev (meta (heap st e)) \<noteq> None then
                       if IsWindow (flag (heap st e)) then
                         do { h \<leftarrow> MoveToFront (window (policy st)) e (heap st); Some (st\<lparr>heap := h\<rparr>) }
                       else
                         do { (h, s) \<leftarrow> slru_access (slru (policy st)) e (heap st);
                              Some (st\<lparr>heap := h, policy := (policy st)\<lparr>slru := s\<rparr>\<rparr>) }
                     else Some st) }) }"

definition tlfu_UpdateCost :: "(addr \<Rightarrow> ('k, 'v, 'z) pstate_scheme \<Rightarrow> ('k, 'v, 'z) pstate_scheme option) \<Rightarrow> addr \<Rightarrow> i64
    \<Rightarrow> ('k, 'v, 'z) pstate_scheme \<Rightarrow> ('k, 'v, 'z) pstate_scheme option" where
  "tlfu_UpdateCost cb e weightChange st =
     (let st = st\<lparr>policy := (policy st)\<lparr>weightedSize := weightedSize (policy st) + weightChange\<rparr>\<rparr> in
      do { st \<leftarrow> (if IsWindow (flag (heap st e)) then
                    (let w = window (policy st); st = set_window (w\<lparr>l_len := l_len w + weightChange\<rparr>) st in
                     if slt (capacity (policy st)) (policyWeight (heap st e)) then tlfu_Remove cb e True st
                     else do { h \<leftarrow> MoveToFront (window (policy st)) e (heap st); Some (st\<lparr>heap := h\<rparr>) })
                  else
                    (let st = st\<lparr>policy := (policy st)\<lparr>slru := slru_updateCost (slru (policy st)) e weightChange (heap st)\<rparr>\<rparr> in
                     if slt (capacity (policy st)) (policyWeight (heap st e)) then tlfu_Remove cb e True st
                     else do { (h, s) \<leftarrow> slru_access (slru (policy st)) e (heap st);
                               Some (st\<lparr>heap := h, policy := (policy st)\<lparr>slru := s\<rparr>\<rparr>) }));
           (if capacity (policy st) < weightedSize (policy st) then EvictEntries cb st else Some st) })"

end
