(* ===== verification/Tlfu_Lists.thy ===== *)
theory Tlfu_Lists
  imports Tlfu
begin

text \<open>
  The representation invariant of the policy and the loops that move entries between its
  lists: \<open>demoteFromProtected\<close>, \<open>increaseWindow\<close>, \<open>decreaseWindow\<close>, \<open>resizeWindow\<close> and
  \<open>evictFromWindow\<close>. Each ends, keeps the set of entries and their total weight, and
  changes nothing but list membership.
\<close>

fun plist :: "'k TinyLfu \<Rightarrow> pqueue \<Rightarrow> List" where
  "plist t QWindow = window t"
| "plist t QProbation = probation (slru t)"
| "plist t QProtected = protected (slru t)"

fun set_list :: "pqueue \<Rightarrow> List \<Rightarrow> ('k, 'v, 'z) pstate_scheme \<Rightarrow> ('k, 'v, 'z) pstate_scheme" where
  "set_list QWindow l st = set_window l st"
| "set_list QProbation l st = set_probation l st"
| "set_list QProtected l st = set_protected l st"

lemmas set_list_defs = set_window_def set_probation_def set_protected_def

lemma pqueue_fun_eq: "f = g \<longleftrightarrow> f QWindow = g QWindow \<and> f QProbation = g QProbation \<and> f QProtected = g QProtected"
  using pqueue_all [of "\<lambda>q. f q = g q"] by (simp add: fun_eq_iff)

lemma plist_upd [simp]:
  "plist (t\<lparr>window := l\<rparr>) = (plist t)(QWindow := l)"
  "plist (t\<lparr>slru := (slru t)\<lparr>probation := l\<rparr>\<rparr>) = (plist t)(QProbation := l)"
  "plist (t\<lparr>slru := (slru t)\<lparr>protected := l\<rparr>\<rparr>) = (plist t)(QProtected := l)"
  "plist (t\<lparr>slru := (slru t)\<lparr>probation := l, protected := l'\<rparr>\<rparr>) = (plist t)(QProbation := l, QProtected := l')"
  by (simp_all add: pqueue_fun_eq)

lemma plist_set_list [simp]: "plist (policy (set_list q l st)) = (plist (policy st))(q := l)"
  by (cases q) (simp_all add: set_list_defs)

lemma plist_other [simp]:
  "plist (t\<lparr>weightedSize := n\<rparr>) = plist t" "plist (t\<lparr>amount := a\<rparr>) = plist t" "plist (t\<lparr>sketch := sk\<rparr>) = plist t"
  "plist (t\<lparr>missesInSample := m\<rparr>) = plist t" "plist (t\<lparr>hitsInSample := m\<rparr>) = plist t"
  "plist (t\<lparr>hr := r\<rparr>) = plist t" "plist (t\<lparr>step := r\<rparr>) = plist t"
  by (simp_all add: pqueue_fun_eq)

definition total :: "('k, 'v) heap \<Rightarrow> (pqueue \<Rightarrow> addr list) \<Rightarrow> u64" where
  "total h X = wsum h (X QWindow) + wsum h (X QProbation) + wsum h (X QProtected)"

definition entry_count :: "(pqueue \<Rightarrow> addr list) \<Rightarrow> nat" where
  "entry_count X = length (X QWindow) + length (X QProbation) + length (X QProtected)"

text \<open>Two states that differ only in the policy's links, flags, list lengths and membership.\<close>

definition moves :: "('k, 'v, 'z) pstate_scheme \<Rightarrow> ('k, 'v, 'z) pstate_scheme \<Rightarrow> bool" where
  "moves st st' \<longleftrightarrow>
     st' = st\<lparr>heap := heap st', policy := (policy st)\<lparr>window := window (policy st'), slru := slru (policy st')\<rparr>\<rparr> \<and>
     pframe (heap st) (heap st') \<and> (\<forall>q. l_capacity (plist (policy st') q) = l_capacity (plist (policy st) q))"

lemma moves_refl [simp]: "moves st st"
  by (simp add: moves_def)

lemma moves_state:
  "moves st st' \<Longrightarrow> st' = st\<lparr>heap := heap st', policy := (policy st)\<lparr>window := window (policy st'), slru := slru (policy st')\<rparr>\<rparr>"
  by (simp only: moves_def)

lemma moves_policy_eq:
  assumes "moves st st'"
  shows "policy st' = (policy st)\<lparr>window := window (policy st'), slru := slru (policy st')\<rparr>"
  using arg_cong [OF moves_state [OF assms], of policy] by simp

lemma moves_trans:
  assumes "moves a b" "moves b c" shows "moves a c"
proof -
  have "c = b\<lparr>heap := heap c, policy := (policy b)\<lparr>window := window (policy c), slru := slru (policy c)\<rparr>\<rparr>"
    by (rule moves_state [OF assms(2)])
  also have "\<dots> = a\<lparr>heap := heap c, policy := (policy a)\<lparr>window := window (policy c), slru := slru (policy c)\<rparr>\<rparr>"
    by (subst moves_policy_eq [OF assms(1)], subst moves_state [OF assms(1)]) simp
  finally show ?thesis using assms pframe_trans unfolding moves_def by metis
qed

lemma moves_set_list:
  assumes "pframe (heap st) h" "l_capacity l = l_capacity (plist (policy st) q)"
  shows "moves st ((set_list q l st)\<lparr>heap := h\<rparr>)"
  using assms by (cases q) (auto simp: moves_def set_list_defs pqueue_all)

lemma moves_policy:
  assumes "moves st st'"
  shows "sketch (policy st') = sketch (policy st)" "hasher (policy st') = hasher (policy st)"
    "capacity (policy st') = capacity (policy st)" "weightedSize (policy st') = weightedSize (policy st)"
    "hitsInSample (policy st') = hitsInSample (policy st)" "missesInSample (policy st') = missesInSample (policy st)"
    "hr (policy st') = hr (policy st)" "step (policy st') = step (policy st)" "amount (policy st') = amount (policy st)"
    "l_capacity (plist (policy st') q) = l_capacity (plist (policy st) q)" "pframe (heap st) (heap st')"
    "hits (policy st') = hits (policy st)" "misses (policy st') = misses (policy st)"
proof -
  note p = moves_policy_eq [OF assms]
  show "sketch (policy st') = sketch (policy st)" "hasher (policy st') = hasher (policy st)"
    "capacity (policy st') = capacity (policy st)" "weightedSize (policy st') = weightedSize (policy st)"
    "hitsInSample (policy st') = hitsInSample (policy st)" "missesInSample (policy st') = missesInSample (policy st)"
    "hr (policy st') = hr (policy st)" "step (policy st') = step (policy st)" "amount (policy st') = amount (policy st)"
    "hits (policy st') = hits (policy st)" "misses (policy st') = misses (policy st)"
    by (subst p, simp)+
  show "l_capacity (plist (policy st') q) = l_capacity (plist (policy st) q)" "pframe (heap st) (heap st')"
    using assms by (simp_all add: moves_def)
qed

lemma all_entries_simp: "all_entries X = set (X QWindow) \<union> set (X QProbation) \<union> set (X QProtected)"
  by (auto simp: all_entries_def UNIV_pqueue)

text \<open>A state whose lists hold the entries of \<open>st\<close>, possibly in other lists.\<close>

definition rearranged :: "('k, 'v, 'z) pstate_scheme \<Rightarrow> (pqueue \<Rightarrow> addr list) \<Rightarrow> ('k, 'v, 'z) pstate_scheme \<Rightarrow> (pqueue \<Rightarrow> addr list) \<Rightarrow> bool" where
  "rearranged st X st' X' \<longleftrightarrow> reps (heap st') (plist (policy st')) X' \<and> moves st st' \<and>
     total (heap st') X' = total (heap st) X \<and> all_entries X' = all_entries X \<and> entry_count X' = entry_count X"

lemma rearranged_refl: "reps (heap st) (plist (policy st)) X \<Longrightarrow> rearranged st X st X"
  by (simp add: rearranged_def)

lemma rearranged_trans: "rearranged a X b Y \<Longrightarrow> rearranged b Y c Z \<Longrightarrow> rearranged a X c Z"
  unfolding rearranged_def by (auto intro: moves_trans)

lemma rearranged_cap: "rearranged st X st' X' \<Longrightarrow> l_capacity (plist (policy st') q) = l_capacity (plist (policy st) q)"
  unfolding rearranged_def by (auto simp: moves_policy)

lemma rearranged_weight: "rearranged st X st' X' \<Longrightarrow> policyWeight (heap st' a) = policyWeight (heap st a)"
  unfolding rearranged_def by (auto dest!: moves_policy(11) simp: pframe_fields)

text \<open>One entry moves from \<open>q\<close> to the front of \<open>q'\<close>.\<close>

lemma transfer:
  assumes X: "reps (heap st) (plist (policy st)) X" and xs: "X q = us @ e # vs" and ne: "q \<noteq> q'"
  obtains h1 l h2 l' st' where
    "list_remove (plist (policy st) q) e (heap st) = Some (h1, l)"
    "PushFront (plist (policy st) q') e h1 = Some (h2, l')"
    "st' = (set_list q' l' ((set_list q l st)\<lparr>heap := h1\<rparr>))\<lparr>heap := h2\<rparr>"
    "rearranged st X st' (X(q := us @ vs, q' := e # X q'))"
proof -
  let ?T = "plist (policy st)" and ?h = "heap st" and ?X = "X(q := us @ vs, q' := e # X q')"
  define l where "l = (?T q)\<lparr>l_len := l_len (?T q) - policyWeight (?h e), l_count := l_count (?T q) - 1\<rparr>"
  define l' where "l' = (?T q')\<lparr>l_len := l_len (?T q') + policyWeight (?h e), l_count := l_count (?T q') + 1\<rparr>"
  obtain h1 h2 where h: "list_remove (?T q) e ?h = Some (h1, l)" "PushFront (?T q') e h1 = Some (h2, l')"
    "reps h2 (?T(q := l, q' := l')) ?X" "pframe ?h h1" "pframe ?h h2"
    using reps_transfer [OF X xs ne l_def l'_def] by blast
  define st' where "st' = (set_list q' l' ((set_list q l st)\<lparr>heap := h1\<rparr>))\<lparr>heap := h2\<rparr>"
  have pl: "plist (policy (s\<lparr>heap := k\<rparr>)) = plist (policy s)" for k and s :: "('a, 'b, 'c) pstate_scheme" by simp
  have "moves st ((set_list q l st)\<lparr>heap := h1\<rparr>)" using h(4) by (rule moves_set_list) (simp add: l_def)
  moreover have "moves ((set_list q l st)\<lparr>heap := h1\<rparr>) st'"
    unfolding st'_def using h(4,5) ne
    by (intro moves_set_list) (simp_all add: l'_def pframe_def stripped_def)
  ultimately have mv: "moves st st'" by (rule moves_trans)
  have "total h2 ?X = total ?h X"
    using ne wsum_pframe [OF h(5)] xs by (cases q; cases q') (simp_all add: total_def algebra_simps)
  moreover have "all_entries ?X = all_entries X"

    using xs ne by (cases q; cases q') (auto simp: all_entries_simp)
  moreover have "entry_count ?X = entry_count X" using xs ne by (cases q; cases q') (simp_all add: entry_count_def)
  moreover have "heap st' = h2" "plist (policy st') = ?T(q := l, q' := l')" by (simp_all add: st'_def pl)
  ultimately show ?thesis using that [OF h(1,2) st'_def] h(3) mv by (simp add: rearranged_def)
qed

lemma Len_wsum: "reps h T X \<Longrightarrow> Len (T q) = wsum h (X q)"
  using reps_header [of h T X q] by (simp add: Len_def)

text \<open>A list longer than its non-negative capacity is not empty.\<close>

lemma over_capacity:
  assumes "reps h T X" "0 \<le> sint (l_capacity (T q))" "slt (l_capacity (T q)) (Len (T q))"
  obtains us e where "X q = us @ [e]"
proof -
  have "X q \<noteq> []" using assms Len_wsum [OF assms(1), of q] by (auto simp: slt_def)
  then show ?thesis using that by (metis rev_exhaust)
qed

lemma demoteFromProtected_spec:
  assumes X: "reps (heap st) (plist (policy st)) X" and c: "0 \<le> sint (l_capacity (protected (slru (policy st))))"
  shows "\<exists>st' X'. demoteFromProtected st = Some st' \<and> rearranged st X st' X' \<and>
    sle (Len (protected (slru (policy st')))) (l_capacity (protected (slru (policy st'))))"
proof -
  let ?Q = "\<lambda>st'. \<exists>X'. rearranged st X st' X' \<and> sle (Len (protected (slru (policy st')))) (l_capacity (protected (slru (policy st'))))"
  have "\<exists>st'. demoteFromProtected st = Some st' \<and> ?Q st'"
    unfolding demoteFromProtected_def
  proof (rule iterate_total [where I = "\<lambda>X' st'. rearranged st X st' X'" and x = X and m = "\<lambda>X' _. length (X' QProtected)"])
    show "rearranged st X st X" using X by (rule rearranged_refl)
    fix X1 st1 assume R: "rearranged st X st1 X1"
    then have X1: "reps (heap st1) (plist (policy st1)) X1" by (simp add: rearranged_def)
    show "(\<exists>X' s'. demote_round st1 = Some (Inl s') \<and> rearranged st X s' X' \<and> length (X' QProtected) < length (X1 QProtected)) \<or>
      (\<exists>r. demote_round st1 = Some (Inr r) \<and> ?Q r)"
    proof (cases "slt (l_capacity (protected (slru (policy st1)))) (Len (protected (slru (policy st1))))")
      case True
      have "0 \<le> sint (l_capacity (plist (policy st1) QProtected))" using rearranged_cap [OF R, of QProtected] c by simp
      then obtain us e where xs: "X1 QProtected = us @ [e]" by (rule over_capacity [OF X1, where q = QProtected]) (use True in simp)
      obtain h1 l h2 l' st2 where t: "list_remove (protected (slru (policy st1))) e (heap st1) = Some (h1, l)"
        "PushFront (probation (slru (policy st1))) e h1 = Some (h2, l')"
        "st2 = (set_probation l' ((set_protected l st1)\<lparr>heap := h1\<rparr>))\<lparr>heap := h2\<rparr>"
        "rearranged st1 X1 st2 (X1(QProtected := us @ [], QProbation := e # X1 QProbation))"
        by (rule transfer [OF X1 xs, of QProbation]) simp_all
      have "PopTail (protected (slru (policy st1))) (heap st1) = Some (h1, l, Some e)"
        using reps_PopTail(2) [OF X1 xs] t(1) by simp
      then show ?thesis using True t rearranged_trans [OF R t(4)] xs
        by (intro disjI1 exI [of _ "X1(QProtected := us, QProbation := e # X1 QProbation)"] exI [of _ st2])
          (simp add: demote_round_def Let_def set_list_defs)
    next
      case False
      then show ?thesis using R by (auto simp: demote_round_def slt_not_sle)
    qed
  qed
  then show ?thesis by blast
qed

subsection \<open>Resizing the window\<close>

definition nonneg :: "('k, 'v) heap \<Rightarrow> (pqueue \<Rightarrow> addr list) \<Rightarrow> bool" where
  "nonneg h X \<longleftrightarrow> (\<forall>e\<in>all_entries X. 0 \<le> sint (policyWeight (h e)))"

lemma rearranged_nonneg: "rearranged st X st' X' \<Longrightarrow> nonneg (heap st) X \<Longrightarrow> nonneg (heap st') X'"
  using rearranged_weight [of st X st' X'] by (simp add: nonneg_def rearranged_def)

lemma sint_sub_within:
  "0 \<le> sint (w :: i64) \<Longrightarrow> \<not> slt a w \<Longrightarrow> sint (a - w) = sint a - sint w"
  using sint_range64 [of a] sint_range64 [of w] by (intro sint_sub64) (auto simp: slt_def)

lemma rearranged_wsum: "rearranged st X st' X' \<Longrightarrow> wsum (heap st') = wsum (heap st)"
  unfolding rearranged_def by (auto dest!: moves_policy(11) simp: wsum_pframe)

lemma window_round:
  assumes n: "nonneg (heap st) X" and a: "\<not> slt amt (policyWeight (heap st e))"
    and e: "X q = us @ e # vs" and amt: "0 \<le> sint amt"
  shows "0 \<le> sint (amt - policyWeight (heap st e)) \<and> sint (amt - policyWeight (heap st e)) \<le> sint amt"
proof -
  have "e \<in> all_entries X" by (rule all_entriesI [of _ _ q]) (simp add: e)
  then have "0 \<le> sint (policyWeight (heap st e))" using n by (simp add: nonneg_def)
  then show ?thesis using sint_sub_within [OF _ a] a amt by (auto simp: slt_def)
qed

text \<open>
  \<open>decreaseWindow\<close> ends; the weight it moves out of the window is what it takes off the
  amount, which stays between zero and the requested one.
\<close>

lemma decreaseWindow_spec:
  assumes X: "reps (heap st) (plist (policy st)) X" and n: "nonneg (heap st) X" and a: "0 \<le> sint amt"
  shows "\<exists>amt' st' X'. decreaseWindow amt st = Some (amt', st') \<and> rearranged st X st' X' \<and>
    0 \<le> sint amt' \<and> sint amt' \<le> sint amt \<and> wsum (heap st) (X' QWindow) - amt' = wsum (heap st) (X QWindow) - amt"
proof -
  let ?I = "\<lambda>X' (amt', st'). rearranged st X st' X' \<and> 0 \<le> sint amt' \<and> sint amt' \<le> sint amt \<and>
    wsum (heap st) (X' QWindow) - amt' = wsum (heap st) (X QWindow) - amt"
  have "\<exists>r. decreaseWindow amt st = Some r \<and> (\<exists>X'. ?I X' r)"
    unfolding decreaseWindow_def
  proof (rule iterate_total [where I = ?I and x = X and m = "\<lambda>X' _. length (X' QWindow)"])
    show "?I X (amt, st)" using X a by (simp add: rearranged_refl)
    fix X1 s1 assume I: "?I X1 s1"
    obtain a1 st1 where s1: "s1 = (a1, st1)" by (cases s1)
    have R: "rearranged st X st1 X1" and a1: "0 \<le> sint a1" "sint a1 \<le> sint amt"
      and w1: "wsum (heap st) (X1 QWindow) - a1 = wsum (heap st) (X QWindow) - amt" using I by (simp_all add: s1)
    have X1: "reps (heap st1) (plist (policy st1)) X1" using R by (simp add: rearranged_def)
    note B = reps_Back [OF X1, of QWindow, simplified]
    show "(\<exists>X' s'. decreaseWindow_round s1 = Some (Inl s') \<and> ?I X' s' \<and> length (X' QWindow) < length (X1 QWindow)) \<or>
      (\<exists>r. decreaseWindow_round s1 = Some (Inr r) \<and> (\<exists>X'. ?I X' r))"
    proof (cases "X1 QWindow = [] \<or> slt a1 (policyWeight (heap st1 (last (X1 QWindow))))")
      case True
      then have "decreaseWindow_round s1 = Some (Inr (a1, st1))" using B by (auto simp: decreaseWindow_round_def s1)
      then show ?thesis using I by (auto simp: s1)
    next
      case False
      then obtain us e where xs: "X1 QWindow = us @ [e]" by (metis rev_exhaust)
      have ne: "\<not> slt a1 (policyWeight (heap st1 e))" using False xs by simp
      obtain h1 l h2 l' st2 where t: "list_remove (window (policy st1)) e (heap st1) = Some (h1, l)"
        "PushFront (probation (slru (policy st1))) e h1 = Some (h2, l')"
        "st2 = (set_probation l' ((set_window l st1)\<lparr>heap := h1\<rparr>))\<lparr>heap := h2\<rparr>"
        "rearranged st1 X1 st2 (X1(QWindow := us @ [], QProbation := e # X1 QProbation))"
        by (rule transfer [OF X1 xs, of QProbation]) simp_all
      have "decreaseWindow_round s1 = Some (Inl (a1 - policyWeight (heap st1 e), st2))"
        using B xs ne t(1-3) by (simp add: decreaseWindow_round_def s1 Let_def set_list_defs)
      moreover have "?I (X1(QWindow := us, QProbation := e # X1 QProbation)) (a1 - policyWeight (heap st1 e), st2)"
        using rearranged_trans [OF R t(4)] a1 window_round [OF rearranged_nonneg [OF R n] ne xs a1(1)] w1 xs
          rearranged_weight [OF R, of e] by (auto simp: algebra_simps)
      ultimately show ?thesis using xs by fastforce
    qed
  qed
  then show ?thesis by auto
qed

lemma increaseWindow_spec:
  assumes X: "reps (heap st) (plist (policy st)) X" and n: "nonneg (heap st) X" and a: "0 \<le> sint amt"
  shows "\<exists>amt' st' X'. increaseWindow amt st = Some (amt', st') \<and> rearranged st X st' X' \<and>
    0 \<le> sint amt' \<and> sint amt' \<le> sint amt \<and> wsum (heap st) (X' QWindow) + amt' = wsum (heap st) (X QWindow) + amt"
proof -
  let ?I = "\<lambda>X' (amt', st'). rearranged st X st' X' \<and> 0 \<le> sint amt' \<and> sint amt' \<le> sint amt \<and>
    wsum (heap st) (X' QWindow) + amt' = wsum (heap st) (X QWindow) + amt"
  let ?m = "\<lambda>X' :: pqueue \<Rightarrow> addr list. length (X' QProbation) + length (X' QProtected)"
  have "\<exists>r. increaseWindow amt st = Some r \<and> (\<exists>X'. ?I X' r)"
    unfolding increaseWindow_def
  proof (rule iterate_total [where I = ?I and x = X and m = "\<lambda>X' _. ?m X'"])
    show "?I X (amt, st)" using X a by (simp add: rearranged_refl)
    fix X1 s1 assume I: "?I X1 s1"
    obtain a1 st1 where s1: "s1 = (a1, st1)" by (cases s1)
    have R: "rearranged st X st1 X1" and a1: "0 \<le> sint a1" "sint a1 \<le> sint amt"
      and w1: "wsum (heap st) (X1 QWindow) + a1 = wsum (heap st) (X QWindow) + amt" using I by (simp_all add: s1)
    have X1: "reps (heap st1) (plist (policy st1)) X1" using R by (simp add: rearranged_def)
    note B = reps_Back [OF X1, of QProbation, simplified] reps_Back [OF X1, of QProtected, simplified]
    define q where "q = (if X1 QProbation \<noteq> [] \<and> \<not> slt a1 (policyWeight (heap st1 (last (X1 QProbation)))) then QProbation else QProtected)"
    show "(\<exists>X' s'. increaseWindow_round s1 = Some (Inl s') \<and> ?I X' s' \<and> ?m X' < ?m X1) \<or>
      (\<exists>r. increaseWindow_round s1 = Some (Inr r) \<and> (\<exists>X'. ?I X' r))"
    proof (cases "X1 q = [] \<or> slt a1 (policyWeight (heap st1 (last (X1 q))))")
      case True
      then have "increaseWindow_round s1 = Some (Inr (a1, st1))"
        using B by (auto simp: increaseWindow_round_def s1 q_def Let_def split: if_splits)
      then show ?thesis using I by (auto simp: s1)
    next
      case False
      then obtain us e where xs: "X1 q = us @ [e]" by (metis rev_exhaust)
      have ne: "\<not> slt a1 (policyWeight (heap st1 e))" using False xs by simp
      have qw: "q \<noteq> QWindow" by (simp add: q_def)
      obtain h1 l h2 l' st2 where t: "list_remove (plist (policy st1) q) e (heap st1) = Some (h1, l)"
        "PushFront (window (policy st1)) e h1 = Some (h2, l')"
        "st2 = (set_window l' ((set_list q l st1)\<lparr>heap := h1\<rparr>))\<lparr>heap := h2\<rparr>"
        "rearranged st1 X1 st2 (X1(q := us @ [], QWindow := e # X1 QWindow))"
        by (rule transfer [OF X1 xs qw]) simp_all
      have "increaseWindow_round s1 = Some (Inl (a1 - policyWeight (heap st1 e), st2))"
        using B xs ne t(1-3) by (auto simp: increaseWindow_round_def s1 Let_def set_list_defs q_def split: if_splits)
      moreover have "?I (X1(q := us, QWindow := e # X1 QWindow)) (a1 - policyWeight (heap st1 e), st2)"
        using rearranged_trans [OF R t(4)] a1 window_round [OF rearranged_nonneg [OF R n] ne xs a1(1)] w1 xs qw
          rearranged_weight [OF R, of e] by (auto simp: algebra_simps)
      moreover have "?m (X1(q := us, QWindow := e # X1 QWindow)) < ?m X1" using xs by (auto simp: q_def split: if_splits)
      ultimately show ?thesis by blast
    qed
  qed
  then show ?thesis by auto
qed

text \<open>
  The invariant of the climber: the window keeps at least one unit, the protected region
  at least zero, and neither the capacities nor the step leave the int64 range.
\<close>

definition caps_ok :: "'k TinyLfu \<Rightarrow> bool" where
  "caps_ok t \<longleftrightarrow> 1 \<le> sint (l_capacity (window t)) \<and> 0 \<le> sint (l_capacity (protected (slru t))) \<and>
     sint (l_capacity (window t)) + sint (l_capacity (protected (slru t))) < 2 ^ 63"

definition climber_ok :: "'k TinyLfu \<Rightarrow> bool" where
  "climber_ok t \<longleftrightarrow> caps_ok t \<and> \<bar>step t\<bar> \<le> 2 ^ 60 \<and> unat (capacity t) < 2 ^ 63"

lemma trunc_rat_bound: "\<bar>x\<bar> \<le> of_int B \<Longrightarrow> \<bar>trunc_rat x\<bar> \<le> B"
  by (auto simp: trunc_rat_def abs_le_iff) linarith+

lemma sint_int_of_float: "\<bar>x\<bar> \<le> 2 ^ 60 \<Longrightarrow> \<bar>sint (int_of_float x)\<bar> \<le> 2 ^ 60"
proof -
  assume "\<bar>x\<bar> \<le> 2 ^ 60"
  then have t: "\<bar>trunc_rat x\<bar> \<le> 2 ^ 60" using trunc_rat_bound [of x "2 ^ 60"] by simp
  then have "sint (word_of_int (trunc_rat x) :: i64) = trunc_rat x"
    by (intro sint_word_of_int64) (auto simp: abs_le_iff)
  then show ?thesis using t by (simp add: int_of_float_def)
qed

lemma step_abs_bound:
  assumes "unat c < 2 ^ 63" shows "\<bar>f32 (f32_of_uint c * (1 / 16))\<bar> \<le> 2 ^ 60"
proof -
  have "int (unat c) < int (2 ^ 63)" using assms by (simp only: of_nat_less_iff)
  then have "uint c \<le> 2 ^ 63" by simp
  then have "(of_int (uint c) :: rat) \<le> of_int (2 ^ 63)" by (simp only: of_int_le_iff)
  moreover have "0 \<le> (of_int (uint c) :: rat)" by (simp only: of_int_0_le_iff) simp
  ultimately have "\<bar>of_int (uint c) :: rat\<bar> \<le> 2 ^ 63" by (simp only: abs_of_nonneg of_int_power of_int_numeral)
  then have "\<bar>f32_of_uint c\<bar> \<le> 2 ^ 63 * (101 / 100)" unfolding f32_of_uint_def by (rule f32_le) simp
  then have "\<bar>f32_of_uint c * (1 / 16)\<bar> \<le> 2 ^ 59 * (101 / 100)" by (simp add: abs_mult)
  then have "\<bar>f32 (f32_of_uint c * (1 / 16))\<bar> \<le> 2 ^ 59 * (101 / 100) * (101 / 100)" by (rule f32_le) simp
  then show ?thesis by simp
qed

lemma climb_lists [simp]: "plist (climb t) = plist t" "window (climb t) = window t" "slru (climb t) = slru t"
  "sketch (climb t) = sketch t" "capacity (climb t) = capacity t" "weightedSize (climb t) = weightedSize t"
  "hasher (climb t) = hasher t" "hitsInSample (climb t) = 0" "missesInSample (climb t) = 0" "hits (climb t) = hits t" "misses (climb t) = misses t"
  by (simp_all add: climb_def Let_def split_beta)

lemma f32_const_98: "0 \<le> f32 (98 / 100)" "f32 (98 / 100) \<le> 99 / 100"
  by code_simp+

lemma sint_sub_one: "1 \<le> sint (w :: i64) \<Longrightarrow> sint (w - 1) = sint w - 1"
  using sint_range64 [of w] sint_sub64 [of w 1] by simp

lemma clamp_amount_sample [simp]: "clamp_amount a (t\<lparr>hr := r, hitsInSample := i, missesInSample := j\<rparr>) = clamp_amount a t"
  unfolding clamp_amount_def by simp

lemma clamp_amount_bounds:
  assumes "caps_ok t" "\<bar>sint a\<bar> \<le> 2 ^ 60"
  shows "- (sint (l_capacity (window t)) - 1) \<le> sint (clamp_amount a t)"
    "sint (clamp_amount a t) \<le> sint (l_capacity (protected (slru t)))"
proof -
  let ?wc = "l_capacity (window t)" and ?pc = "l_capacity (protected (slru t))"
  have c: "1 \<le> sint ?wc" "0 \<le> sint ?pc" using assms by (simp_all add: caps_ok_def)
  have w: "sint (?wc - 1) = sint ?wc - 1" using c(1) by (rule sint_sub_one)
  have nw: "sint (- (?wc - 1)) = - (sint ?wc - 1)" using sint_neg64 [of "?wc - 1"] w c(1) by simp
  have na: "sint (- a) = - sint a" using assms(2) by (intro sint_neg64) auto
  show "- (sint ?wc - 1) \<le> sint (clamp_amount a t)" "sint (clamp_amount a t) \<le> sint ?pc"
    using c w nw na by (auto simp: clamp_amount_def Let_def slt_def)
qed

lemma climb_spec:
  assumes "climber_ok t"
  shows "climber_ok (climb t)" "- (sint (l_capacity (window t)) - 1) \<le> sint (amount (climb t))"
    "sint (amount (climb t)) \<le> sint (l_capacity (protected (slru t)))"
proof -
  have c: "caps_ok t" "\<bar>step t\<bar> \<le> 2 ^ 60" "unat (capacity t) < 2 ^ 63" using assms by (simp_all add: climber_ok_def)
  define amt where "amt = (if 0 \<le> fst (climb_delta t) then step t else - step t)"
  have amt: "\<bar>amt\<bar> \<le> 2 ^ 60" using c(2) by (simp add: amt_def)
  have a: "amount (climb t) = clamp_amount (int_of_float amt) t"
    by (simp add: climb_def Let_def split_beta amt_def)
  have s: "step (climb t) \<in> {f32 (amt * f32 (98 / 100)), f32 (f32_of_uint (capacity t) * (1 / 16)), - f32 (f32_of_uint (capacity t) * (1 / 16))}"
    by (simp add: climb_def Let_def split_beta amt_def)
  have "\<bar>f32 (amt * f32 (98 / 100))\<bar> \<le> 2 ^ 60" using f32_scale_le [OF amt f32_const_98] by simp
  then have "\<bar>step (climb t)\<bar> \<le> 2 ^ 60" using s step_abs_bound [OF c(3)] by auto
  then show "climber_ok (climb t)" using assms by (simp add: climber_ok_def caps_ok_def)
  show "- (sint (l_capacity (window t)) - 1) \<le> sint (amount (climb t))"
    "sint (amount (climb t)) \<le> sint (l_capacity (protected (slru t)))"
    unfolding a using clamp_amount_bounds [OF c(1) sint_int_of_float [OF amt]] by simp_all
qed

subsection \<open>The whole adjustment\<close>

text \<open>
  The adjustment keeps the entries and the rest of the program state; of the policy it may
  change the lists, the capacities and the climber's fields.
\<close>

definition adjusted :: "('k, 'v, 'z) pstate_scheme \<Rightarrow> (pqueue \<Rightarrow> addr list) \<Rightarrow> ('k, 'v, 'z) pstate_scheme \<Rightarrow> (pqueue \<Rightarrow> addr list) \<Rightarrow> bool" where
  "adjusted st X st' X' \<longleftrightarrow> st' = st\<lparr>heap := heap st', policy := policy st'\<rparr> \<and> pframe (heap st) (heap st') \<and>
     reps (heap st') (plist (policy st')) X' \<and> total (heap st') X' = total (heap st) X \<and>
     all_entries X' = all_entries X \<and> entry_count X' = entry_count X \<and>
     sketch (policy st') = sketch (policy st) \<and> capacity (policy st') = capacity (policy st) \<and>
     weightedSize (policy st') = weightedSize (policy st) \<and> hasher (policy st') = hasher (policy st) \<and>
     hits (policy st') = hits (policy st) \<and> misses (policy st') = misses (policy st)"

lemma adjusted_refl: "reps (heap st) (plist (policy st)) X \<Longrightarrow> adjusted st X st X"
  by (simp add: adjusted_def)

lemma adjusted_trans:
  assumes "adjusted a X b Y" "adjusted b Y c Z" shows "adjusted a X c Z"
proof -
  have "c = a\<lparr>heap := heap c, policy := policy c\<rparr>"
    using assms unfolding adjusted_def by (metis pstate.update_convs(1,2) pstate.surjective)
  moreover have "pframe (heap a) (heap c)" using assms pframe_trans unfolding adjusted_def by blast
  ultimately show ?thesis using assms by (simp add: adjusted_def)
qed

lemma rearranged_adjusted: "rearranged st X st' X' \<Longrightarrow> adjusted st X st' X'"
proof -
  assume R: "rearranged st X st' X'"
  then have m: "moves st st'" by (simp add: rearranged_def)
  have "st' = st\<lparr>heap := heap st', policy := policy st'\<rparr>"
    by (subst moves_policy_eq [OF m], subst moves_state [OF m]) simp
  then show ?thesis using R moves_policy [OF m] by (simp add: adjusted_def rearranged_def)
qed

lemma reps_same_headers:
  assumes "\<And>q. l_root (T' q) = l_root (T q)" "\<And>q. l_listType (T' q) = l_listType (T q)"
    "\<And>q. l_len (T' q) = l_len (T q)" "\<And>q. l_count (T' q) = l_count (T q)"
  shows "reps h T' X = reps h T X"
  by (simp add: reps_def reps_ring_def roots_def header_ok_def assms)

lemma adjusted_policy:
  assumes X: "reps (heap st) (plist (policy st)) X"
    and T: "\<And>q. l_root (plist t q) = l_root (plist (policy st) q)" "\<And>q. l_listType (plist t q) = l_listType (plist (policy st) q)"
      "\<And>q. l_len (plist t q) = l_len (plist (policy st) q)" "\<And>q. l_count (plist t q) = l_count (plist (policy st) q)"
    and "sketch t = sketch (policy st)" "capacity t = capacity (policy st)"
      "weightedSize t = weightedSize (policy st)" "hasher t = hasher (policy st)"
      "hits t = hits (policy st)" "misses t = misses (policy st)"
  shows "adjusted st X (st\<lparr>policy := t\<rparr>) X"
proof -
  have "reps (heap st) (plist t) X = reps (heap st) (plist (policy st)) X" by (rule reps_same_headers) (fact T)+
  then show ?thesis using assms by (simp add: adjusted_def)
qed

lemma adjusted_add_window_cap:
  assumes "reps (heap st) (plist (policy st)) X"
  shows "adjusted st X (add_window_cap d st) X"
proof -
  have "add_window_cap d st = st\<lparr>policy := policy (add_window_cap d st)\<rparr>"
    by (simp add: add_window_cap_def set_list_defs Let_def)
  moreover have "adjusted st X (st\<lparr>policy := policy (add_window_cap d st)\<rparr>) X"
  proof (rule adjusted_policy [OF assms])
    fix q
    show "l_root (plist (policy (add_window_cap d st)) q) = l_root (plist (policy st) q)"
      "l_listType (plist (policy (add_window_cap d st)) q) = l_listType (plist (policy st) q)"
      "l_len (plist (policy (add_window_cap d st)) q) = l_len (plist (policy st) q)"
      "l_count (plist (policy (add_window_cap d st)) q) = l_count (plist (policy st) q)"
      by (cases q; simp add: add_window_cap_def set_list_defs Let_def)+
  qed (simp_all add: add_window_cap_def set_list_defs Let_def)
  ultimately show ?thesis by simp
qed

lemma adjusted_set_amount:
  assumes "reps (heap st) (plist (policy st)) X"
  shows "adjusted st X (set_amount a st) X"
  unfolding set_amount_def by (rule adjusted_policy [OF assms]) simp_all

lemma adjusted_climb:
  assumes "reps (heap st) (plist (policy st)) X"
  shows "adjusted st X (st\<lparr>policy := climb (policy st)\<rparr>) X"
  by (rule adjusted_policy [OF assms]) simp_all

lemma adjusted_reps: "adjusted st X st' X' \<Longrightarrow> reps (heap st') (plist (policy st')) X'"
  by (simp add: adjusted_def)

lemma adjusted_nonneg: "adjusted st X st' X' \<Longrightarrow> nonneg (heap st) X \<Longrightarrow> nonneg (heap st') X'"
  using pframe_fields(4) [of "heap st" "heap st'"] by (simp add: nonneg_def adjusted_def)

lemma add_window_cap_caps:
  "l_capacity (window (policy (add_window_cap d st))) = l_capacity (window (policy st)) + d"
  "l_capacity (protected (slru (policy (add_window_cap d st)))) = l_capacity (protected (slru (policy st))) - d"
  "amount (policy (add_window_cap d st)) = amount (policy st)" "step (policy (add_window_cap d st)) = step (policy st)"
  "capacity (policy (add_window_cap d st)) = capacity (policy st)"
  by (simp_all add: add_window_cap_def set_list_defs Let_def)

text \<open>Shifting capacity between the regions by an amount within the clamped bounds.\<close>

lemma shift_caps:
  assumes "caps_ok t" "- (sint (l_capacity (window t)) - 1) \<le> sint d" "sint d \<le> sint (l_capacity (protected (slru t)))"
  shows "sint (l_capacity (window t) + d) = sint (l_capacity (window t)) + sint d"
    "sint (l_capacity (protected (slru t)) - d) = sint (l_capacity (protected (slru t))) - sint d"
  using assms sint_range64 [of "l_capacity (window t)"] sint_range64 [of "l_capacity (protected (slru t))"]
  by (intro sint_add64 sint_sub64; auto simp: caps_ok_def)+

lemma rearranged_set_amount:
  assumes "rearranged st X st' X'"
  shows "adjusted st X (set_amount r st') X'" "l_capacity (window (policy (set_amount r st'))) = l_capacity (window (policy st))"
    "l_capacity (protected (slru (policy (set_amount r st')))) = l_capacity (protected (slru (policy st)))"
    "step (policy (set_amount r st')) = step (policy st)" "amount (policy (set_amount r st')) = r"
proof -
  have m: "moves st st'" using assms by (simp add: rearranged_def)
  show "adjusted st X (set_amount r st') X'"
    using rearranged_adjusted [OF assms] adjusted_set_amount adjusted_reps adjusted_trans by blast
  show "l_capacity (window (policy (set_amount r st'))) = l_capacity (window (policy st))"
    "l_capacity (protected (slru (policy (set_amount r st')))) = l_capacity (protected (slru (policy st)))"
    "step (policy (set_amount r st')) = step (policy st)" "amount (policy (set_amount r st')) = r"
    using rearranged_cap [OF assms, of QWindow] rearranged_cap [OF assms, of QProtected] moves_policy(8) [OF m]
    by (simp_all add: set_amount_def)
qed

lemma resize_move_spec:
  assumes X: "reps (heap st) (plist (policy st)) X" and n: "nonneg (heap st) X" and a: "- (2 ^ 63) < sint (amount (policy st))"
  shows "\<exists>st' X'. resize_move st = Some st' \<and> adjusted st X st' X' \<and> l_capacity (window (policy st')) = l_capacity (window (policy st)) \<and>
    l_capacity (protected (slru (policy st'))) = l_capacity (protected (slru (policy st))) \<and> step (policy st') = step (policy st) \<and>
    min 0 (sint (amount (policy st))) \<le> sint (amount (policy st')) \<and> sint (amount (policy st')) \<le> max 0 (sint (amount (policy st)))"
proof -
  let ?a = "amount (policy st)"
  consider "0 < sint ?a" | "sint ?a < 0" | "sint ?a = 0" by linarith
  then show ?thesis
  proof cases
    case 1
    obtain r st' X' where i: "increaseWindow ?a st = Some (r, st')" "rearranged st X st' X'" "0 \<le> sint r" "sint r \<le> sint ?a"
      using increaseWindow_spec [OF X n, of ?a] 1 by auto
    then have "resize_move st = Some (set_amount r st')" using 1 by (simp add: resize_move_def slt_def)
    then show ?thesis using rearranged_set_amount [OF i(2), of r] i(3,4) by auto
  next
    case 2
    have na: "sint (- ?a) = - sint ?a" using a by (intro sint_neg64) simp
    obtain r st' X' where i: "decreaseWindow (- ?a) st = Some (r, st')" "rearranged st X st' X'" "0 \<le> sint r" "sint r \<le> - sint ?a"
      using decreaseWindow_spec [OF X n, of "- ?a"] 2 na by auto
    have nr: "sint (- r) = - sint r" using i(3) by (intro sint_neg64) simp
    have "resize_move st = Some (set_amount (- r) st')" using 2 i(1) by (simp add: resize_move_def slt_def)
    then show ?thesis using rearranged_set_amount [OF i(2), of "- r"] i(3,4) nr by auto
  next
    case 3
    then show ?thesis using adjusted_refl [OF X] by (auto simp: resize_move_def slt_def)
  qed
qed

lemma resizeWindow_spec:
  assumes X: "reps (heap st) (plist (policy st)) X" and n: "nonneg (heap st) X" and c: "climber_ok (policy st)"
    and a: "- (sint (l_capacity (window (policy st))) - 1) \<le> sint (amount (policy st))"
      "sint (amount (policy st)) \<le> sint (l_capacity (protected (slru (policy st))))"
  shows "\<exists>st' X'. resizeWindow st = Some st' \<and> adjusted st X st' X' \<and> climber_ok (policy st') \<and>
    l_capacity (window (policy st')) + l_capacity (protected (slru (policy st'))) =
    l_capacity (window (policy st)) + l_capacity (protected (slru (policy st)))"
proof -
  let ?w = "\<lambda>st :: ('a, 'b, 'c) pstate_scheme. l_capacity (window (policy st))"
    and ?p = "\<lambda>st :: ('a, 'b, 'c) pstate_scheme. l_capacity (protected (slru (policy st)))"
    and ?a = "\<lambda>st :: ('a, 'b, 'c) pstate_scheme. amount (policy st)"
  have caps: "caps_ok (policy st)" using c by (simp add: climber_ok_def)
  note sh = shift_caps [OF caps a]
  define st1 where "st1 = add_window_cap (?a st) st"
  have A1: "adjusted st X st1 X" unfolding st1_def by (rule adjusted_add_window_cap [OF X])
  have f1: "?w st1 = ?w st + ?a st" "?p st1 = ?p st - ?a st" "?a st1 = ?a st" "step (policy st1) = step (policy st)"
    unfolding st1_def add_window_cap_caps by simp_all
  have "0 \<le> sint (?p st1)" using sh(2) a(2) f1(2) by simp
  then obtain st2 X2 where d: "demoteFromProtected st1 = Some st2" "rearranged st1 X st2 X2"
    using demoteFromProtected_spec [OF adjusted_reps [OF A1]] by blast
  have A2: "adjusted st X st2 X2" using A1 rearranged_adjusted [OF d(2)] by (rule adjusted_trans)
  have mv2: "moves st1 st2" using d(2) by (simp add: rearranged_def)
  have f2: "?w st2 = ?w st + ?a st" "?p st2 = ?p st - ?a st" "?a st2 = ?a st" "step (policy st2) = step (policy st)"
    using rearranged_cap [OF d(2), of QWindow] rearranged_cap [OF d(2), of QProtected] moves_policy [OF mv2] f1 by simp_all
  note n2 = adjusted_nonneg [OF A2 n]
  have "- (2 ^ 63) < sint (?a st2)" using a(1) f2(3) caps by (simp add: caps_ok_def)
  then obtain st3 X3 where m: "resize_move st2 = Some st3" and A3: "adjusted st2 X2 st3 X3"
    and f3: "?w st3 = ?w st2" "?p st3 = ?p st2" "step (policy st3) = step (policy st2)"
    and r: "min 0 (sint (?a st)) \<le> sint (?a st3)" "sint (?a st3) \<le> max 0 (sint (?a st))"
    using resize_move_spec [OF adjusted_reps [OF A2] n2] unfolding f2(3) by blast
  define st4 where "st4 = add_window_cap (- ?a st3) st3"
  have A4: "adjusted st X st4 X3" unfolding st4_def
    using A2 A3 adjusted_add_window_cap [OF adjusted_reps [OF A3]] by (blast intro: adjusted_trans)
  have f4: "?w st4 = ?w st + (?a st - ?a st3)" "?p st4 = ?p st - (?a st - ?a st3)" "step (policy st4) = step (policy st)"
    unfolding st4_def add_window_cap_caps f3 f2 by simp_all
  have diff: "sint (?a st - ?a st3) = sint (?a st) - sint (?a st3)"
    using r sint_range64 [of "?a st"] by (intro sint_sub64) (auto simp: min_def max_def split: if_splits)
  have "sint (?w st4) = sint (?w st) + (sint (?a st) - sint (?a st3))" "sint (?p st4) = sint (?p st) - (sint (?a st) - sint (?a st3))"
    unfolding f4 diff [symmetric] using r a diff caps by (intro shift_caps [OF caps]; auto simp: min_def max_def caps_ok_def split: if_splits)+
  then have "climber_ok (policy st4)"
    using c A4 f4(3) r a caps by (auto simp: climber_ok_def caps_ok_def adjusted_def min_def max_def split: if_splits)
  moreover have "resizeWindow st = Some st4"
    unfolding resizeWindow_def st1_def [symmetric] d(1) using m by (simp add: st4_def)
  ultimately show ?thesis using A4 f4(1,2) by auto
qed

text \<open>The hill climber as the two operations run it.\<close>

lemma climb_if_sampled_spec:
  assumes X: "reps (heap st) (plist (policy st)) X" and n: "nonneg (heap st) X" and c: "climber_ok (policy st)"
  shows "\<exists>st' X'. climb_if_sampled st = Some st' \<and> adjusted st X st' X' \<and> climber_ok (policy st') \<and>
    l_capacity (window (policy st')) + l_capacity (protected (slru (policy st'))) =
    l_capacity (window (policy st)) + l_capacity (protected (slru (policy st)))"
proof (cases "SampleSize (sketch (policy st)) < hitsInSample (policy st) + missesInSample (policy st)")
  case True
  let ?st = "st\<lparr>policy := climb (policy st)\<rparr>"
  have A: "adjusted st X ?st X" by (rule adjusted_climb [OF X])
  obtain st' X' where "resizeWindow ?st = Some st'" "adjusted ?st X st' X'" "climber_ok (policy st')"
    "l_capacity (window (policy st')) + l_capacity (protected (slru (policy st'))) =
     l_capacity (window (policy ?st)) + l_capacity (protected (slru (policy ?st)))"
    using resizeWindow_spec [OF adjusted_reps [OF A] adjusted_nonneg [OF A n]] climb_spec [OF c] by auto
  then show ?thesis using True adjusted_trans [OF A] by (auto simp: climb_if_sampled_def)
next
  case False
  then show ?thesis using adjusted_refl [OF X] c by (auto simp: climb_if_sampled_def)
qed

subsection \<open>Overflow of the window\<close>

lemma evictFromWindow_spec:
  assumes X: "reps (heap st) (plist (policy st)) X" and c: "0 \<le> sint (l_capacity (window (policy st)))"
  shows "\<exists>first st' X'. evictFromWindow st = Some (first, st') \<and> rearranged st X st' X' \<and>
    (\<forall>e. first = Some e \<longrightarrow> e \<in> set (X' QProbation)) \<and> sle (Len (window (policy st'))) (l_capacity (window (policy st')))"
proof -
  let ?I = "\<lambda>X' (first, st'). rearranged st X st' X' \<and> (\<forall>e. first = Some e \<longrightarrow> e \<in> set (X' QProbation))"
  let ?Q = "\<lambda>(first, st'). \<exists>X'. ?I X' (first, st') \<and> sle (Len (window (policy st'))) (l_capacity (window (policy st')))"
  have "\<exists>r. evictFromWindow st = Some r \<and> ?Q r"
    unfolding evictFromWindow_def
  proof (rule iterate_total [where I = ?I and x = X and m = "\<lambda>X' _. length (X' QWindow)"])
    show "?I X (None, st)" using X by (simp add: rearranged_refl)
    fix X1 s1 assume I: "?I X1 s1"
    obtain f1 st1 where s1: "s1 = (f1, st1)" by (cases s1)
    have R: "rearranged st X st1 X1" and f1: "\<forall>e. f1 = Some e \<longrightarrow> e \<in> set (X1 QProbation)" using I by (simp_all add: s1)
    have X1: "reps (heap st1) (plist (policy st1)) X1" using R by (simp add: rearranged_def)
    show "(\<exists>X' s'. evictFromWindow_round s1 = Some (Inl s') \<and> ?I X' s' \<and> length (X' QWindow) < length (X1 QWindow)) \<or>
      (\<exists>r. evictFromWindow_round s1 = Some (Inr r) \<and> ?Q r)"
    proof (cases "slt (l_capacity (window (policy st1))) (Len (window (policy st1)))")
      case True
      have "0 \<le> sint (l_capacity (plist (policy st1) QWindow))" using rearranged_cap [OF R, of QWindow] c by simp
      then obtain us e where xs: "X1 QWindow = us @ [e]" by (rule over_capacity [OF X1, where q = QWindow]) (use True in simp)
      obtain h1 l h2 l' st2 where t: "list_remove (window (policy st1)) e (heap st1) = Some (h1, l)"
        "PushFront (probation (slru (policy st1))) e h1 = Some (h2, l')"
        "st2 = (set_probation l' ((set_window l st1)\<lparr>heap := h1\<rparr>))\<lparr>heap := h2\<rparr>"
        "rearranged st1 X1 st2 (X1(QWindow := us @ [], QProbation := e # X1 QProbation))"
        by (rule transfer [OF X1 xs, of QProbation]) simp_all
      have "PopTail (window (policy st1)) (heap st1) = Some (h1, l, Some e)"
        using reps_PopTail(2) [OF X1, of QWindow us e] t(1) xs by simp
      then have "evictFromWindow_round s1 = Some (Inl (if f1 = None then Some e else f1, st2))"
        using True t(2,3) by (simp add: evictFromWindow_round_def s1 slru_insert_def set_list_defs)
      moreover have "?I (X1(QWindow := us, QProbation := e # X1 QProbation)) (if f1 = None then Some e else f1, st2)"
        using rearranged_trans [OF R t(4)] f1 by auto
      ultimately show ?thesis using xs by fastforce
    next
      case False
      then show ?thesis using I by (auto simp: evictFromWindow_round_def slt_not_sle s1)
    qed
  qed
  then show ?thesis by auto
qed

subsection \<open>An access\<close>

text \<open>The lists after an entry of \<open>q\<close> is accessed: it moves to the front, from probation to protected.\<close>

fun touch :: "addr \<Rightarrow> pqueue \<Rightarrow> (pqueue \<Rightarrow> addr list) \<Rightarrow> (pqueue \<Rightarrow> addr list)" where
  "touch e QProbation X = X(QProbation := remove1 e (X QProbation), QProtected := e # X QProtected)"
| "touch e q X = X(q := e # remove1 e (X q))"

lemma move_rearranged:
  assumes X: "reps (heap st) (plist (policy st)) X" and xs: "X q = us @ e # vs"
  shows "\<exists>h. MoveToFront (plist (policy st) q) e (heap st) = Some h \<and> rearranged st X (st\<lparr>heap := h\<rparr>) (X(q := e # us @ vs))"
proof -
  obtain h where h: "MoveToFront (plist (policy st) q) e (heap st) = Some h" "reps h (plist (policy st)) (X(q := e # us @ vs))" "pframe (heap st) h"
    using reps_MoveToFront [OF X xs] by blast
  have "total h (X(q := e # us @ vs)) = total (heap st) X"
    using wsum_pframe [OF h(3)] xs by (cases q) (simp_all add: total_def algebra_simps)
  moreover have "all_entries (X(q := e # us @ vs)) = all_entries X" using xs by (cases q) (auto simp: all_entries_simp)
  moreover have "entry_count (X(q := e # us @ vs)) = entry_count X" using xs by (cases q) (simp_all add: entry_count_def)
  ultimately show ?thesis using h by (simp add: rearranged_def moves_def)
qed

lemma remove1_split: "distinct (us @ e # vs) \<Longrightarrow> remove1 e (us @ e # vs) = us @ vs"
  by (simp add: remove1_append)

lemma access_spec:
  assumes X: "reps (heap st) (plist (policy st)) X" and e: "e \<in> set (X q)"
  shows "\<exists>st'. (if IsWindow (flag (heap st e)) then
        do { h \<leftarrow> MoveToFront (window (policy st)) e (heap st); Some (st\<lparr>heap := h\<rparr>) }
      else do { (h, s) \<leftarrow> slru_access (slru (policy st)) e (heap st);
                Some (st\<lparr>heap := h, policy := (policy st)\<lparr>slru := s\<rparr>\<rparr>) }) = Some st' \<and>
    rearranged st X st' (touch e q X)"
proof -
  obtain us vs where xs: "X q = us @ e # vs" using e by (meson split_list)
  have r: "remove1 e (X q) = us @ vs" using reps_distinct [OF X, of q] unfolding xs by (rule remove1_split)
  have "in_queue p (flag (heap st e)) \<longleftrightarrow> p = q" for p
    using reps_in_queue [OF X e, of p] by (simp add: flags_def)
  note f = this [of QWindow] this [of QProbation] this [of QProtected]
  show ?thesis
  proof (cases "q = QProbation")
    case True
    obtain h1 l h2 l' st2 where t: "list_remove (probation (slru (policy st))) e (heap st) = Some (h1, l)"
        "PushFront (protected (slru (policy st))) e h1 = Some (h2, l')"
        "st2 = (set_protected l' ((set_probation l st)\<lparr>heap := h1\<rparr>))\<lparr>heap := h2\<rparr>"
        "rearranged st X st2 (X(QProbation := us @ vs, QProtected := e # X QProtected))"
      by (rule transfer [OF X xs, of QProtected]) (simp_all add: True)
    have "st2 = st\<lparr>heap := h2, policy := (policy st)\<lparr>slru := (slru (policy st))\<lparr>probation := l, protected := l'\<rparr>\<rparr>\<rparr>"
      by (simp add: t(3) set_list_defs)
    then show ?thesis using t(1,2,4) f True r by (simp add: slru_access_def)
  next
    case False
    then show ?thesis using move_rearranged [OF X xs] f r by (cases q) (auto simp: slru_access_def)
  qed
qed

end
