(* ===== verification/Tlfu_Evict.thy ===== *)
theory Tlfu_Evict
  imports Tlfu_Lists
begin

text \<open>
  Eviction. The policy hands every entry it evicts to the store's callback. The locale
  \<open>eviction_callback\<close> is the contract of that callback: on an entry that has left the
  policy's lists it returns, keeps the store's own invariant \<open>J\<close>, does not touch what the
  policy sees, and makes the entry \<open>gone\<close>; in turn \<open>J\<close> and \<open>gone\<close> do not depend on the
  policy's links and fields. Under this contract every eviction loop ends with the
  weighted size within the capacity and every entry dropped is gone.
\<close>

definition policy_inv :: "('k, 'v, 'z) pstate_scheme \<Rightarrow> (pqueue \<Rightarrow> addr list) \<Rightarrow> bool" where
  "policy_inv st X \<longleftrightarrow> reps (heap st) (plist (policy st)) X \<and> weightedSize (policy st) = total (heap st) X \<and>
     sketch_wf (sketch (policy st))"

text \<open>The fields of the policy that eviction keeps.\<close>

definition pparams where
  "pparams t = (sketch t, hasher t, capacity t, hitsInSample t, missesInSample t, hr t, step t, amount t, hits t, misses t,
     \<lambda>q. l_capacity (plist t q))"

lemma policy_inv_reps: "policy_inv st X \<Longrightarrow> reps (heap st) (plist (policy st)) X"
  by (simp add: policy_inv_def)

lemma moves_pparams: "moves st st' \<Longrightarrow> pparams (policy st') = pparams (policy st)"
  by (simp add: pparams_def moves_policy)

lemma rearranged_inv: "policy_inv st X \<Longrightarrow> rearranged st X st' X' \<Longrightarrow> policy_inv st' X'"
  using moves_policy [of st st'] by (simp add: policy_inv_def rearranged_def)

lemma adjusted_inv: "policy_inv st X \<Longrightarrow> adjusted st X st' X' \<Longrightarrow> policy_inv st' X'"
  by (simp add: policy_inv_def adjusted_def)

lemma total_cong: "(\<And>a. policyWeight (h' a) = policyWeight (h a)) \<Longrightarrow> total h' X = total h X"
  by (simp add: total_def wsum_def)

lemma total_remove: "X q = us @ e # vs \<Longrightarrow> total h (X(q := us @ vs)) = total h X - policyWeight (h e)"
  by (cases q) (simp_all add: total_def algebra_simps)

text \<open>The unlinking half of \<open>Remove\<close>.\<close>

lemma unlink:
  assumes X: "reps (heap st) (plist (policy st)) X" and xs: "X q = us @ e # vs"
  obtains h l where "(if IsWindow (flag (heap st e)) then
        do { (h, l) \<leftarrow> list_remove (window (policy st)) e (heap st); Some ((set_window l st)\<lparr>heap := h\<rparr>) }
      else do { (h, s) \<leftarrow> slru_remove (slru (policy st)) e (heap st);
        Some (st\<lparr>heap := h, policy := (policy st)\<lparr>slru := s\<rparr>\<rparr>) }) = Some ((set_list q l st)\<lparr>heap := h\<rparr>)"
    "reps h ((plist (policy st))(q := l)) (X(q := us @ vs))" "pframe (heap st) h" "l_capacity l = l_capacity (plist (policy st) q)"
proof -
  define l where "l = (plist (policy st) q)\<lparr>l_len := l_len (plist (policy st) q) - policyWeight (heap st e),
    l_count := l_count (plist (policy st) q) - 1\<rparr>"
  obtain h where h: "list_remove (plist (policy st) q) e (heap st) = Some (h, l)"
    "reps h ((plist (policy st))(q := l)) (X(q := us @ vs))" "pframe (heap st) h"
    using reps_remove [OF X xs l_def] by blast
  have "in_queue p (flag (heap st e)) \<longleftrightarrow> p = q" for p
    using reps_in_queue [OF X, of e q p] xs by (simp add: flags_def)
  from this [of QWindow] this [of QProbation] this [of QProtected] show ?thesis
    using that [OF _ h(2,3)] h(1) by (cases q) (simp_all add: l_def slru_remove_def set_list_defs)
qed

lemma Remove_body:
  assumes I: "policy_inv st X" and xs: "X q = us @ e # vs" and Y: "Y = X(q := us @ vs)"
  shows "\<exists>h t. tlfu_Remove cb e c st = (if c then cb e (st\<lparr>heap := h, policy := t\<rparr>) else Some (st\<lparr>heap := h, policy := t\<rparr>)) \<and>
    policy_inv (st\<lparr>heap := h, policy := t\<rparr>) Y \<and> pframe (heap st) h \<and> detached h e \<and> \<not> IsRoot (flags h e) \<and>
    e \<notin> all_entries Y \<and> all_entries X = insert e (all_entries Y) \<and> pparams t = pparams (policy st) \<and> entry_count Y \<le> entry_count X"
proof -
  note X = policy_inv_reps [OF I(1)]
  obtain h l where h: "(if IsWindow (flag (heap st e)) then
        do { (h, l) \<leftarrow> list_remove (window (policy st)) e (heap st); Some ((set_window l st)\<lparr>heap := h\<rparr>) }
      else do { (h, s) \<leftarrow> slru_remove (slru (policy st)) e (heap st);
        Some (st\<lparr>heap := h, policy := (policy st)\<lparr>slru := s\<rparr>\<rparr>) }) = Some ((set_list q l st)\<lparr>heap := h\<rparr>)"
    "reps h ((plist (policy st))(q := l)) Y" "pframe (heap st) h" "l_capacity l = l_capacity (plist (policy st) q)"
    unfolding Y by (rule unlink [OF X xs])
  define t where "t = (policy (set_list q l st))\<lparr>weightedSize := weightedSize (policy st) - policyWeight (h e)\<rparr>"
  have run: "tlfu_Remove cb e c st = (if c then cb e (st\<lparr>heap := h, policy := t\<rparr>) else Some (st\<lparr>heap := h, policy := t\<rparr>))"
    using h(1) unfolding tlfu_Remove_def by (cases q) (simp_all add: t_def set_list_defs)
  have eX: "e \<in> all_entries X" by (rule all_entriesI [of _ _ q]) (simp add: xs)
  have nin: "e \<notin> all_entries Y"
    using reps_distinct [OF X, of q] reps_disjoint [OF X, of e _ q] xs by (auto simp: Y all_entries_def split: if_splits)
  have root: "\<not> IsRoot (flags h e)" "e \<notin> roots (plist (policy st))"
    using reps_not_root [OF X eX] pframe_fields(8) [OF h(3)] by simp_all
  then have det: "detached h e" using h(2) nin reps_root [OF h(2), of e] by (auto simp: reps_def reps_ring_def)
  have pl: "plist t = (plist (policy st))(q := l)" by (simp add: t_def)
  have tot: "total h Y = total (heap st) X - policyWeight (h e)"
    unfolding Y using total_remove [of X q us e vs, OF xs] total_cong [of h "heap st"] pframe_fields(4) [OF h(3)] by simp
  have "policy_inv (st\<lparr>heap := h, policy := t\<rparr>) Y"
    unfolding policy_inv_def using h(2) I pl tot by (cases q) (simp_all add: policy_inv_def t_def set_list_defs)
  moreover have "pparams t = pparams (policy st)"
    unfolding pparams_def pl using h(4) by (cases q) (auto simp: t_def set_list_defs)
  moreover have "all_entries X = insert e (all_entries Y)"
    unfolding Y all_entries_split [of X q] all_entries_upd [of X q "us @ vs"] xs by auto
  moreover have "entry_count Y \<le> entry_count X" using xs by (cases q) (simp_all add: entry_count_def Y)
  ultimately show ?thesis using run h(3) det root(1) nin by blast
qed

text \<open>Where the victim and the candidate of \<open>evictFromMain\<close> stand.\<close>

definition tail_of :: "addr list \<Rightarrow> addr option" where
  "tail_of xs = (if xs = [] then None else Some (last xs))"

lemma tail_of_simps [simp]: "tail_of [] = None" "tail_of (xs @ [x]) = Some x" "tail_of xs = None \<longleftrightarrow> xs = []" "None = tail_of xs \<longleftrightarrow> xs = []"
  by (simp_all add: tail_of_def)

lemma tail_of_Some: "tail_of xs = Some x \<Longrightarrow> x \<in> set xs \<and> xs = butlast xs @ [x]"
  by (auto simp: tail_of_def split: if_splits)

fun queue_of :: "u8 \<Rightarrow> pqueue" where
  "queue_of lt = (if lt = LIST_PROBATION then QProbation else if lt = LIST_PROTECTED then QProtected else QWindow)"

definition main_pos :: "(pqueue \<Rightarrow> addr list) \<Rightarrow> u8 \<Rightarrow> u8 \<Rightarrow> addr option \<Rightarrow> addr option \<Rightarrow> bool" where
  "main_pos X vq cq cand vic \<longleftrightarrow> cq \<in> {LIST_PROBATION, LIST_WINDOW} \<and> vic = tail_of (X (queue_of vq)) \<and>
     (\<forall>c. cand = Some c \<longrightarrow> c \<in> set (X (queue_of cq))) \<and>
     (vq = LIST_PROBATION \<or>
      cand = None \<and> cq = LIST_WINDOW \<and> X QProbation = [] \<and> (vq = LIST_PROTECTED \<or> vq = LIST_WINDOW \<and> X QProtected = []))"

fun rank :: "u8 \<Rightarrow> nat" where
  "rank vq = (if vq = LIST_PROBATION then 2 else if vq = LIST_PROTECTED then 1 else 0)"

text \<open>The invariant between the operations the store calls.\<close>

definition policy_ok :: "('k, 'v, 'z) pstate_scheme \<Rightarrow> (pqueue \<Rightarrow> addr list) \<Rightarrow> bool" where
  "policy_ok st X \<longleftrightarrow> policy_inv st X \<and> climber_ok (policy st) \<and> nonneg (heap st) X"

lemma climber_ok_pparams:
  assumes "pparams t' = pparams t" shows "climber_ok t' = climber_ok t"
proof -
  have "l_capacity (plist t' q) = l_capacity (plist t q)" for q
    using assms by (simp add: pparams_def fun_eq_iff)
  from this [of QWindow] this [of QProtected] show ?thesis using assms by (simp add: climber_ok_def caps_ok_def pparams_def)
qed

text \<open>The bookkeeping half of \<open>UpdateCost\<close> after the entry's own weight has changed.\<close>

definition recost :: "pqueue \<Rightarrow> i64 \<Rightarrow> ('k, 'v, 'z) pstate_scheme \<Rightarrow> ('k, 'v, 'z) pstate_scheme" where
  "recost q d st =
     (let l = plist (policy st) q in
      set_list q (l\<lparr>l_len := l_len l + d\<rparr>) (st\<lparr>policy := (policy st)\<lparr>weightedSize := weightedSize (policy st) + d\<rparr>\<rparr>))"

lemma recost_ok:
  assumes k: "policy_ok st X" and e: "e \<in> set (X q)" "0 \<le> sint (policyWeight (heap st e) + d)"
  shows "policy_ok (recost q d (st\<lparr>heap := reweigh e d (heap st)\<rparr>)) X"
proof -
  let ?st = "recost q d (st\<lparr>heap := reweigh e d (heap st)\<rparr>)" and ?l = "plist (policy st) q"
  have X: "reps (heap st) (plist (policy st)) X" using k by (simp add: policy_ok_def policy_inv_def)
  have h: "heap ?st = reweigh e d (heap st)" by (cases q) (simp_all add: recost_def set_list_defs Let_def)
  have pl: "plist (policy ?st) = (plist (policy st))(q := ?l\<lparr>l_len := l_len ?l + d\<rparr>)" by (simp add: recost_def Let_def)
  have R: "reps (heap ?st) (plist (policy ?st)) X" unfolding h pl by (rule reps_reweigh [OF X e(1)])
  have "e \<in> set (X p) \<longleftrightarrow> p = q" for p using reps_disjoint [OF X, of e p q] e(1) by blast
  then have tot: "total (reweigh e d (heap st)) X = total (heap st) X + d"
    by (cases q) (simp_all add: total_def wsum_reweigh [OF reps_distinct [OF X]])
  have f: "weightedSize (policy ?st) = weightedSize (policy st) + d" "sketch (policy ?st) = sketch (policy st)"
    "capacity (policy ?st) = capacity (policy st)" "step (policy ?st) = step (policy st)"
    "l_capacity (window (policy ?st)) = l_capacity (window (policy st))"
    "l_capacity (protected (slru (policy ?st))) = l_capacity (protected (slru (policy st)))"
    by (cases q; simp add: recost_def set_list_defs Let_def)+
  have "nonneg (reweigh e d (heap st)) X" using k e(2) by (auto simp: policy_ok_def nonneg_def)
  then show ?thesis using R k tot by (simp add: policy_ok_def policy_inv_def f h climber_ok_def caps_ok_def)
qed

text \<open>Only the heap and the policy differ.\<close>

definition same_rest :: "('k, 'v, 'z) pstate_scheme \<Rightarrow> ('k, 'v, 'z) pstate_scheme \<Rightarrow> bool" where
  "same_rest st st' \<longleftrightarrow> rnd st' = rnd st \<and> rnd_pos st' = rnd_pos st \<and> pstate.more st' = pstate.more st"

lemma same_restI: "st' = st\<lparr>heap := h, policy := t\<rparr> \<Longrightarrow> same_rest st st'"
  by (simp add: same_rest_def)

lemma same_restD: "same_rest st st' \<Longrightarrow> st' = st\<lparr>heap := heap st', policy := policy st'\<rparr>"
  by (cases st; cases st') (simp add: same_rest_def)

locale eviction_callback =
  fixes cb :: "('k, 'v, 'z) callback" and J :: "('k, 'v, 'z) pstate_scheme \<Rightarrow> bool"
    and gone :: "('k, 'v, 'z) pstate_scheme \<Rightarrow> addr \<Rightarrow> bool"
  assumes cb_runs: "J st \<Longrightarrow> \<not> IsRoot (flags (heap st) e) \<Longrightarrow> detached (heap st) e \<Longrightarrow>
      \<exists>st'. cb e st = Some st' \<and> J st' \<and> policy st' = policy st \<and> pview (heap st') = pview (heap st) \<and>
        gone st' e \<and> (\<forall>a. gone st a \<longrightarrow> gone st' a)"
    and J_frame: "J st \<Longrightarrow> pframe (heap st) h \<Longrightarrow> J (st\<lparr>heap := h, policy := t, rnd_pos := n\<rparr>)"
    and gone_frame: "gone st a \<Longrightarrow> pframe (heap st) h \<Longrightarrow> gone (st\<lparr>heap := h, policy := t, rnd_pos := n\<rparr>) a"
begin

definition evicts :: "('k, 'v, 'z) pstate_scheme \<Rightarrow> (pqueue \<Rightarrow> addr list) \<Rightarrow> ('k, 'v, 'z) pstate_scheme \<Rightarrow> (pqueue \<Rightarrow> addr list) \<Rightarrow> bool" where
  "evicts st X st' X' \<longleftrightarrow> policy_inv st' X' \<and> J st' \<and> all_entries X' \<subseteq> all_entries X \<and> entry_count X' \<le> entry_count X \<and>
     (\<forall>e\<in>all_entries X - all_entries X'. gone st' e) \<and> (\<forall>a. gone st a \<longrightarrow> gone st' a) \<and>
     pparams (policy st') = pparams (policy st) \<and>
     (\<forall>a. policyWeight (heap st' a) = policyWeight (heap st a)) \<and> (\<forall>a. IsRoot (flags (heap st') a) = IsRoot (flags (heap st) a))"

lemma evicts_refl: "policy_inv st X \<Longrightarrow> J st \<Longrightarrow> evicts st X st X"
  by (simp add: evicts_def)

lemma evicts_trans: "evicts a X b Y \<Longrightarrow> evicts b Y c Z \<Longrightarrow> evicts a X c Z"
  unfolding evicts_def by (auto 4 3)

lemma adjusted_J:
  assumes "adjusted st X st' X'" "J st"
  shows "J st'" "gone st a \<Longrightarrow> gone st' a"
proof -
  have f: "pframe (heap st) (heap st')" using assms(1) by (simp add: adjusted_def)
  have "st\<lparr>heap := heap st', policy := policy st', rnd_pos := rnd_pos st\<rparr> = st\<lparr>heap := heap st', policy := policy st'\<rparr>" by simp
  also have "\<dots> = st'" using assms(1) unfolding adjusted_def by (elim conjE) (erule sym)
  finally have e: "st\<lparr>heap := heap st', policy := policy st', rnd_pos := rnd_pos st\<rparr> = st'" .
  show "J st'" using J_frame [OF assms(2) f, where t = "policy st'" and n = "rnd_pos st"] unfolding e .
  show "gone st' a" if "gone st a" using gone_frame [OF that f, where t = "policy st'" and n = "rnd_pos st"] unfolding e .
qed

lemma rearranged_evicts:
  assumes "rearranged st X st' X'" "policy_inv st X" "J st"
  shows "evicts st X st' X'"
proof -
  note A = rearranged_adjusted [OF assms(1)]
  have m: "moves st st'" using assms(1) by (simp add: rearranged_def)
  note f = moves_policy(11) [OF m]
  show ?thesis unfolding evicts_def
    using rearranged_inv [OF assms(2,1)] adjusted_J [OF A assms(3)] A moves_pparams [OF m] pframe_fields [OF f]
    by (simp add: adjusted_def)
qed

lemma Remove_spec:
  assumes I: "policy_inv st X" "J st" and xs: "X q = us @ e # vs"
  shows "\<exists>st'. tlfu_Remove cb e True st = Some st' \<and> evicts st X st' (X(q := us @ vs)) \<and>
     e \<notin> all_entries (X(q := us @ vs)) \<and> gone st' e"
proof -
  let ?X = "X(q := us @ vs)"
  obtain h t where R: "tlfu_Remove cb e True st = cb e (st\<lparr>heap := h, policy := t\<rparr>)"
    "policy_inv (st\<lparr>heap := h, policy := t\<rparr>) ?X" "pframe (heap st) h" "detached h e" "\<not> IsRoot (flags h e)"
    "e \<notin> all_entries ?X" "all_entries X = insert e (all_entries ?X)" "pparams t = pparams (policy st)" "entry_count ?X \<le> entry_count X"
    using Remove_body [OF I(1) xs refl, of cb True] by auto
  define st1 where "st1 = st\<lparr>heap := h, policy := t\<rparr>"
  have J1: "J st1" using J_frame [OF I(2) R(3), where t = t and n = "rnd_pos st"] by (simp add: st1_def)
  obtain st' where st': "cb e st1 = Some st'" "J st'" "policy st' = t" "pview (heap st') = pview h" "gone st' e"
    "\<forall>a. gone st1 a \<longrightarrow> gone st' a"
    using cb_runs [of st1 e] J1 R(4,5) by (auto simp: st1_def)
  have g: "gone st' a" if "gone st a" for a
    using gone_frame [OF that R(3), where t = t and n = "rnd_pos st"] st'(6) by (simp add: st1_def)
  have pv: "policyWeight (heap st' a) = policyWeight (heap st a)" "IsRoot (flags (heap st') a) = IsRoot (flags (heap st) a)"
      "policyWeight (heap st' a) = policyWeight (h a)" for a
    using fun_cong [OF st'(4), of a] pframe_fields(4,8) [OF R(3), of a] by (simp_all add: pview_def)
  have "policy_inv st' ?X"
    using R(2) total_cong [of "heap st'" h ?X] pv(3) by (simp add: policy_inv_def st'(3) reps_cong [OF st'(4)])
  then have "evicts st X st' ?X" using st' g pv(1,2) R by (auto simp: evicts_def)
  then show ?thesis using R(1,6) st'(1,5) unfolding st1_def by auto
qed

lemma drop_candidate:
  assumes I: "policy_inv st X" "J st" and p: "main_pos X LIST_PROBATION cq (Some c) vic" "vic \<noteq> Some c"
  shows "\<exists>prev st' X'. PrevPolicy (heap st) c = Some prev \<and> tlfu_Remove cb c True st = Some st' \<and>
    evicts st X st' X' \<and> main_pos X' LIST_PROBATION cq prev vic \<and> entry_count X' < entry_count X"
proof -
  let ?q = "queue_of cq"
  have "c \<in> set (X ?q)" using p(1) by (simp add: main_pos_def)
  then obtain us vs where xs: "X ?q = us @ c # vs" by (meson split_list)
  let ?X = "X(?q := us @ vs)"
  obtain st' where st': "tlfu_Remove cb c True st = Some st'" "evicts st X st' ?X"
    using Remove_spec [OF I xs] by blast
  have prev: "PrevPolicy (heap st) c = Some (tail_of us)"
    using reps_PrevPolicy [OF policy_inv_reps [OF I(1)] xs] by (simp add: tail_of_def)
  have "main_pos ?X LIST_PROBATION cq (tail_of us) vic"
  proof (cases "cq = LIST_PROBATION")
    case True
    then have "vs \<noteq> []" using p xs by (auto simp: main_pos_def)
    then show ?thesis using True p(1) xs by (auto simp: main_pos_def tail_of_def)
  next
    case False
    then show ?thesis using p(1) by (auto simp: main_pos_def tail_of_def)
  qed
  moreover have "entry_count ?X < entry_count X" using xs by (cases ?q) (simp_all add: entry_count_def)
  ultimately show ?thesis using prev st' by blast
qed

lemma drop_victim:
  assumes I: "policy_inv st X" "J st" and v: "tail_of (X q) = Some v"
  shows "\<exists>st' us. X q = us @ [v] \<and> PrevPolicy (heap st) v = Some (tail_of us) \<and> tlfu_Remove cb v True st = Some st' \<and>
    evicts st X st' (X(q := us)) \<and> entry_count (X(q := us)) < entry_count X"
proof -
  have xs: "X q = butlast (X q) @ v # []" using tail_of_Some [OF v] by simp
  define us where "us = butlast (X q)"
  have xs: "X q = us @ v # []" using xs by (simp add: us_def)
  have "entry_count (X(q := us)) < entry_count X" using xs by (cases q) (simp_all add: entry_count_def)
  then show ?thesis using Remove_spec [OF I xs] reps_PrevPolicy [OF policy_inv_reps [OF I(1)] xs] xs by (auto simp: tail_of_def)
qed

lemma admit_spec:
  assumes "policy_inv st X" "J st"
  shows "\<exists>ok st'. admit k v st = Some (ok, st') \<and> evicts st X st' X \<and> heap st' = heap st"
proof -
  have wf: "sketch_wf (sketch (policy st))" using assms(1) by (simp add: policy_inv_def)
  have "evicts st X (st\<lparr>rnd_pos := n\<rparr>) X" for n
    using assms J_frame [OF assms(2), of "heap st" n "policy st"] gone_frame [of st _ "heap st" n "policy st"]
    by (simp add: evicts_def policy_inv_def)
  then show ?thesis using evicts_refl [OF assms] by (auto simp: admit_def Estimate_est [OF wf])
qed

definition main_measure :: "(pqueue \<Rightarrow> addr list) \<Rightarrow> ('k, 'v, 'z) main_state \<Rightarrow> nat" where
  "main_measure X = (\<lambda>(vq, cq, cand, vic, st). 3 * entry_count X + rank vq)"

definition main_inv :: "('k, 'v, 'z) pstate_scheme \<Rightarrow> (pqueue \<Rightarrow> addr list) \<Rightarrow> (pqueue \<Rightarrow> addr list) \<Rightarrow> ('k, 'v, 'z) main_state \<Rightarrow> bool" where
  "main_inv st0 X0 X = (\<lambda>(vq, cq, cand, vic, st). evicts st0 X0 st X \<and> main_pos X vq cq cand vic)"

lemma main_inv_step:
  assumes "main_inv st0 X0 X (vq, cq, cand, vic, st)" "evicts st X st' X'" "main_pos X' vq' cq' cand' vic'"
    "3 * entry_count X' + rank vq' < 3 * entry_count X + rank vq"
  shows "main_inv st0 X0 X' (vq', cq', cand', vic', st') \<and>
    main_measure X' (vq', cq', cand', vic', st') < main_measure X (vq, cq, cand, vic, st)"
  using assms evicts_trans by (auto simp: main_inv_def main_measure_def)

lemma choose_drops_candidate:
  assumes M: "main_inv st0 X0 X (LIST_PROBATION, cq, Some c, vic, st)" and ne: "vic \<noteq> Some c" and ad: "evicts st X st1 X" "heap st1 = heap st"
  shows "\<exists>prev st' X'. PrevPolicy (heap st1) c = Some prev \<and> tlfu_Remove cb c True st1 = Some st' \<and>
    main_inv st0 X0 X' (LIST_PROBATION, cq, prev, vic, st') \<and>
    main_measure X' (LIST_PROBATION, cq, prev, vic, st') < main_measure X (LIST_PROBATION, cq, Some c, vic, st)"
proof -
  have I: "policy_inv st1 X" "J st1" using ad by (simp_all add: evicts_def)
  have p: "main_pos X LIST_PROBATION cq (Some c) vic" using M by (simp add: main_inv_def)
  obtain prev st' X' where d: "PrevPolicy (heap st1) c = Some prev" "tlfu_Remove cb c True st1 = Some st'"
    "evicts st1 X st' X'" "main_pos X' LIST_PROBATION cq prev vic" "entry_count X' < entry_count X"
    using drop_candidate [OF I p ne] by blast
  have "evicts st X st' X'" using ad(1) d(3) by (rule evicts_trans)
  then show ?thesis using d(1,2) main_inv_step [OF M _ d(4)] d(5) by auto
qed

lemma choose_next_queue:
  assumes M: "main_inv st0 X0 X (vq, LIST_WINDOW, None, None, st)" and big: "capacity (policy st) < weightedSize (policy st)"
  shows "\<exists>X' s'. evictFromMain_choose cb (vq, LIST_WINDOW, None, None, st) = Some (Inl s') \<and> main_inv st0 X0 X' s' \<and>
    main_measure X' s' < main_measure X (vq, LIST_WINDOW, None, None, st)"
proof -
  have I: "policy_inv st X" "J st" and p: "main_pos X vq LIST_WINDOW None None" using M by (simp_all add: main_inv_def evicts_def)
  note X = policy_inv_reps [OF I(1)]
  have B: "Back (protected (slru (policy st))) (heap st) = tail_of (X QProtected)" "Back (window (policy st)) (heap st) = tail_of (X QWindow)"
    using reps_Back [OF X, of QProtected] reps_Back [OF X, of QWindow] by (simp_all add: tail_of_def)
  note st = evicts_refl [OF I]
  consider "vq = LIST_PROBATION" | "vq = LIST_PROTECTED" | "vq = LIST_WINDOW" using p by (auto simp: main_pos_def)
  then show ?thesis
  proof cases
    case 1
    have pos: "main_pos X LIST_PROTECTED LIST_WINDOW None (tail_of (X QProtected))" using p 1 by (auto simp: main_pos_def)
    show ?thesis using main_inv_step [OF M st pos] 1 by (auto simp: evictFromMain_choose_def B)
  next
    case 2
    have pos: "main_pos X LIST_WINDOW LIST_WINDOW None (tail_of (X QWindow))" using p 2 by (auto simp: main_pos_def)
    show ?thesis using main_inv_step [OF M st pos] 2 by (auto simp: evictFromMain_choose_def B)
  next
    case 3
    then have "X QProbation = []" "X QProtected = []" "X QWindow = []" using p by (auto simp: main_pos_def)
    then show ?thesis using I(1) big by (simp add: policy_inv_def total_def)
  qed
qed

lemma choose_drops_victim:
  assumes M: "main_inv st0 X0 X (vq, cq, cand, Some v, st)" and cand: "cand = None \<and> cq = LIST_WINDOW \<or> cand = Some v"
  shows "\<exists>X' s'. evictFromMain_choose cb (vq, cq, cand, Some v, st) = Some (Inl s') \<and> main_inv st0 X0 X' s' \<and>
    main_measure X' s' < main_measure X (vq, cq, cand, Some v, st)"
proof -
  have I: "policy_inv st X" "J st" and p: "main_pos X vq cq cand (Some v)" using M by (simp_all add: main_inv_def evicts_def)
  have v: "tail_of (X (queue_of vq)) = Some v" using p by (simp only: main_pos_def)
  obtain st' us where d: "X (queue_of vq) = us @ [v]" "PrevPolicy (heap st) v = Some (tail_of us)" "tlfu_Remove cb v True st = Some st'"
    "evicts st X st' (X(queue_of vq := us))" "entry_count (X(queue_of vq := us)) < entry_count X"
    using drop_victim [OF I v] by blast
  have pos: "main_pos (X(queue_of vq := us)) vq cq None (tail_of us)" using p cand by (auto simp: main_pos_def)
  have "evictFromMain_choose cb (vq, cq, cand, Some v, st) = Some (Inl (vq, cq, None, tail_of us, st'))"
    using d(2,3) cand by (auto simp: evictFromMain_choose_def)
  then show ?thesis using main_inv_step [OF M d(4) pos] d(5) by auto
qed

lemma choose_admits:
  assumes M: "main_inv st0 X0 X (LIST_PROBATION, cq, Some c, Some v, st)" and ne: "v \<noteq> c"
    and nb: "\<not> slt (weightedSize (policy st)) (policyWeight (heap st c))"
    and ad: "admit (key (heap st c)) (key (heap st v)) st = Some (True, st1)" "evicts st X st1 X"
  shows "\<exists>X' s'. evictFromMain_choose cb (LIST_PROBATION, cq, Some c, Some v, st) = Some (Inl s') \<and> main_inv st0 X0 X' s' \<and>
    main_measure X' s' < main_measure X (LIST_PROBATION, cq, Some c, Some v, st)"
proof -
  have p: "main_pos X LIST_PROBATION cq (Some c) (Some v)" using M by (simp add: main_inv_def)
  have I: "policy_inv st1 X" "J st1" using ad(2) by (simp_all add: evicts_def)
  have v: "tail_of (X QProbation) = Some v" using p by (simp add: main_pos_def)
  obtain st' us where d: "X QProbation = us @ [v]" "PrevPolicy (heap st1) v = Some (tail_of us)" "tlfu_Remove cb v True st1 = Some st'"
    "evicts st1 X st' (X(QProbation := us))" "entry_count (X(QProbation := us)) < entry_count X"
    using drop_victim [OF I v] by blast
  let ?X = "X(QProbation := us)"
  have "c \<in> set (?X (queue_of cq))" using p ne d(1) by (auto simp: main_pos_def split: if_splits)
  then obtain us' vs' where cs: "?X (queue_of cq) = us' @ c # vs'" by (meson split_list)
  have I': "policy_inv st' ?X" using d(4) by (simp add: evicts_def)
  have cp: "PrevPolicy (heap st') c = Some (tail_of us')"
    using reps_PrevPolicy [OF policy_inv_reps [OF I'] cs] by (simp add: tail_of_def)
  have "last us' \<in> set (?X (queue_of cq))" if "us' \<noteq> []" unfolding cs using that by simp
  then have pos: "main_pos ?X LIST_PROBATION cq (tail_of us') (tail_of us)"
    using p by (auto simp: main_pos_def tail_of_def)
  have "evictFromMain_choose cb (LIST_PROBATION, cq, Some c, Some v, st) = Some (Inl (LIST_PROBATION, cq, tail_of us', tail_of us, st'))"
    using ne nb ad(1) d(2,3) cp by (simp add: evictFromMain_choose_def)
  then show ?thesis using main_inv_step [OF M evicts_trans [OF ad(2) d(4)] pos] d(5) by auto
qed

lemma choose_spec:
  assumes M: "main_inv st0 X0 X (vq, cq, cand, vic, st)" and big: "capacity (policy st) < weightedSize (policy st)"
    and re: "cand = None \<longrightarrow> cq = LIST_WINDOW"
  shows "\<exists>X' s'. evictFromMain_choose cb (vq, cq, cand, vic, st) = Some (Inl s') \<and> main_inv st0 X0 X' s' \<and>
    main_measure X' s' < main_measure X (vq, cq, cand, vic, st)"
proof (cases cand)
  case None
  then show ?thesis using choose_next_queue [of st0 X0 X vq st] choose_drops_victim [of st0 X0 X vq cq None _ st] M big re
    by (cases vic) auto
next
  case (Some c)
  have I: "policy_inv st X" "J st" using M by (simp_all add: main_inv_def evicts_def)
  have vq: "vq = LIST_PROBATION" using M Some by (auto simp: main_inv_def main_pos_def)
  note M' = M [unfolded vq Some]
  consider "vic = None" | "vic = Some c" | v where "vic = Some v" "v \<noteq> c" by (cases vic) auto
  then show ?thesis
  proof cases
    case 1
    then show ?thesis using choose_drops_candidate [OF M' _ evicts_refl [OF I]] Some vq by (auto simp: evictFromMain_choose_def)
  next
    case 2
    then show ?thesis using choose_drops_victim [of st0 X0 X vq cq "Some c" c st] M Some by simp
  next
    case 3
    obtain ok st1 where ad: "admit (key (heap st c)) (key (heap st v)) st = Some (ok, st1)" "evicts st X st1 X" "heap st1 = heap st"
      using admit_spec [OF I] by blast
    note dc = choose_drops_candidate [OF M' _ evicts_refl [OF I]] choose_drops_candidate [OF M' _ ad(2,3)]
    show ?thesis
    proof (cases "slt (weightedSize (policy st)) (policyWeight (heap st c)) \<or> \<not> ok")
      case True
      then show ?thesis using dc ad(1) 3 Some vq by (auto simp: evictFromMain_choose_def)
    next
      case False
      then show ?thesis using choose_admits [OF M' [unfolded 3(1)] 3(2) _ _ ad(2)] ad(1) Some vq 3 by simp
    qed
  qed
qed

lemma evictFromMain_spec:
  assumes I: "policy_inv st X" "J st" and c: "\<forall>c. cand = Some c \<longrightarrow> c \<in> set (X QProbation)"
  shows "\<exists>st' X'. evictFromMain cb cand st = Some st' \<and> evicts st X st' X' \<and> weightedSize (policy st') \<le> capacity (policy st')"
proof -
  let ?Q = "\<lambda>st'. \<exists>X'. evicts st X st' X' \<and> weightedSize (policy st') \<le> capacity (policy st')"
  let ?s = "(LIST_PROBATION, LIST_PROBATION, cand, Back (probation (slru (policy st))) (heap st), st)"
  have "\<exists>st'. iterate (evictFromMain_round cb) ?s = Some st' \<and> ?Q st'"
  proof (rule iterate_total [where I = "main_inv st X" and x = X and m = main_measure])
    have "Back (probation (slru (policy st))) (heap st) = tail_of (X QProbation)"
      using reps_Back [OF policy_inv_reps [OF I(1)], of QProbation] by (simp add: tail_of_def)
    then show "main_inv st X X ?s" using evicts_refl [OF I] c by (simp add: main_inv_def main_pos_def)
    fix X1 s1 assume M: "main_inv st X X1 s1"
    obtain vq cq cand1 vic st1 where s1: "s1 = (vq, cq, cand1, vic, st1)" by (cases s1)
    have E: "evicts st X st1 X1" and p: "main_pos X1 vq cq cand1 vic" using M by (simp_all add: main_inv_def s1)
    then have I1: "policy_inv st1 X1" by (simp add: evicts_def)
    show "(\<exists>X' s'. evictFromMain_round cb s1 = Some (Inl s') \<and> main_inv st X X' s' \<and> main_measure X' s' < main_measure X1 s1) \<or>
      (\<exists>r. evictFromMain_round cb s1 = Some (Inr r) \<and> ?Q r)"
    proof (cases "capacity (policy st1) < weightedSize (policy st1)")
      case big: True
      show ?thesis
      proof (cases "cand1 = None \<and> cq = LIST_PROBATION")
        case True
        let ?b = "Back (window (policy st1)) (heap st1)"
        have "?b = tail_of (X1 QWindow)" using reps_Back [OF policy_inv_reps [OF I1], of QWindow] by (simp add: tail_of_def)
        then have "main_pos X1 vq LIST_WINDOW ?b vic" using p True tail_of_Some [of "X1 QWindow"] by (auto simp: main_pos_def)
        then have "main_inv st X X1 (vq, LIST_WINDOW, ?b, vic, st1)" using E by (simp add: main_inv_def)
        from choose_spec [OF this big] show ?thesis using True big
          by (auto simp: evictFromMain_round_def s1 main_measure_def)
      next
        case False
        then show ?thesis using choose_spec [OF M [unfolded s1] big] p big
          by (auto simp: evictFromMain_round_def s1 main_pos_def)
      qed
    next
      case False
      then show ?thesis using E by (auto simp: evictFromMain_round_def s1 not_less)
    qed
  qed
  then show ?thesis by (auto simp: evictFromMain_def)
qed

lemma J_policy: "J st \<Longrightarrow> J (st\<lparr>policy := t\<rparr>)" "gone st a \<Longrightarrow> gone (st\<lparr>policy := t\<rparr>) a"
  using J_frame [of st "heap st" "rnd_pos st" t] gone_frame [of st a "heap st" "rnd_pos st" t] by simp_all

lemma EvictEntries_spec:
  assumes I: "policy_inv st X" "J st" and c: "0 \<le> sint (l_capacity (window (policy st)))"
  shows "\<exists>st' X'. EvictEntries cb st = Some st' \<and> evicts st X st' X' \<and> weightedSize (policy st') \<le> capacity (policy st')"
proof -
  obtain first st1 X1 where w: "evictFromWindow st = Some (first, st1)" "rearranged st X st1 X1" "\<forall>e. first = Some e \<longrightarrow> e \<in> set (X1 QProbation)"
    using evictFromWindow_spec [OF policy_inv_reps [OF I(1)] c] by blast
  have E: "evicts st X st1 X1" by (rule rearranged_evicts [OF w(2) I])
  then have "policy_inv st1 X1" "J st1" by (simp_all add: evicts_def)
  from evictFromMain_spec [OF this w(3)] show ?thesis using w(1) evicts_trans [OF E] by (auto simp: EvictEntries_def)
qed

text \<open>
  What an operation of the policy promises: the invariant, the bound on the size, and that
  every entry of \<open>E\<close> no longer in the lists is gone.
\<close>

definition keeps :: "('k, 'v, 'z) pstate_scheme \<Rightarrow> addr set \<Rightarrow> ('k, 'v, 'z) pstate_scheme \<Rightarrow> (pqueue \<Rightarrow> addr list) \<Rightarrow> bool" where
  "keeps st E st' X' \<longleftrightarrow> policy_ok st' X' \<and> J st' \<and> capacity (policy st') = capacity (policy st) \<and>
     all_entries X' \<subseteq> E \<and> (\<forall>e\<in>E - all_entries X'. gone st' e) \<and> (\<forall>a. gone st a \<longrightarrow> gone st' a) \<and>
     hits (policy st') = hits (policy st) \<and> misses (policy st') = misses (policy st) \<and>
     (\<forall>a. policyWeight (heap st' a) = policyWeight (heap st a)) \<and> (\<forall>a. IsRoot (flags (heap st') a) = IsRoot (flags (heap st) a))"

lemma evicts_policy_ok:
  assumes "evicts st X st' X'" "climber_ok (policy st)" "nonneg (heap st) X"
  shows "policy_ok st' X'"
  using assms climber_ok_pparams [of "policy st'" "policy st"] by (auto simp: evicts_def policy_ok_def nonneg_def)

lemma EnsureCapacity_keeps:
  assumes k: "policy_ok st X" "J st" and n: "entry_count X \<le> 2 ^ 45"
    and cnt: "cnt = l_count (probation (slru (policy st))) + l_count (protected (slru (policy st))) + l_count (window (policy st))"
  shows "\<exists>sk. sk_EnsureCapacity cnt (sketch (policy st)) = Some sk \<and> entry_count X \<le> length (Table sk) \<and>
    policy_ok (st\<lparr>policy := (policy st)\<lparr>sketch := sk\<rparr>\<rparr>) X"
proof -
  have I: "policy_inv st X" using k by (simp add: policy_ok_def)
  have wf: "sketch_wf (sketch (policy st))" using I by (simp add: policy_inv_def)
  have "cnt = word_of_nat (entry_count X)"
    using reps_header [OF policy_inv_reps [OF I], of QWindow] reps_header [OF policy_inv_reps [OF I], of QProbation]
      reps_header [OF policy_inv_reps [OF I], of QProtected] by (simp add: cnt entry_count_def algebra_simps)
  then have u: "unat cnt = entry_count X" using n by (intro unat_eq_of_nat64) simp_all
  have sc: "sint cnt = int (entry_count X)" using u n sint_eq_unat64 [of cnt] by simp
  obtain sk where "sk_EnsureCapacity cnt (sketch (policy st)) = Some sk" "sketch_wf sk" "entry_count X \<le> length (Table sk)"
  proof (cases "sint cnt \<le> int (length (Table (sketch (policy st))))")
    case True
    then show ?thesis using that EnsureCapacity_id [OF True] wf sc by simp
  next
    case False
    then show ?thesis using that EnsureCapacity_grow [of "sketch (policy st)" cnt] u n by (metis not_le)
  qed
  then show ?thesis using k by (auto simp: policy_ok_def policy_inv_def climber_ok_def caps_ok_def)
qed

lemma Set_insert:
  assumes I: "policy_inv st X" "J st" and e: "e \<notin> all_entries X" "\<not> IsRoot (flags (heap st) e)"
  obtains h l st' where "PushFront (window (policy st)) e (heap st) = Some (h, l)"
    "st' = st\<lparr>heap := h, policy := (policy st)\<lparr>window := l, weightedSize := weightedSize (policy st) + policyWeight (heap st e),
       missesInSample := missesInSample (policy st) + 1\<rparr>\<rparr>"
    "policy_inv st' (X(QWindow := e # X QWindow))" "J st'" "\<And>a. gone st a \<Longrightarrow> gone st' a" "pframe (heap st) h"
    "l_capacity l = l_capacity (window (policy st))"
proof -
  let ?w = "window (policy st)"
  define l where "l = ?w\<lparr>l_len := l_len ?w + policyWeight (heap st e), l_count := l_count ?w + 1\<rparr>"
  obtain h where h: "PushFront ?w e (heap st) = Some (h, l)"
    "reps h ((plist (policy st))(QWindow := l)) (X(QWindow := e # X QWindow))" "pframe (heap st) h"
    using reps_PushFront [OF policy_inv_reps [OF I(1)] e, of l QWindow] l_def by auto
  define t where "t = (policy st)\<lparr>window := l, weightedSize := weightedSize (policy st) + policyWeight (heap st e),
       missesInSample := missesInSample (policy st) + 1\<rparr>"
  have pl: "plist t = (plist (policy st))(QWindow := l)" by (simp add: t_def pqueue_fun_eq)
  have "policy_inv (st\<lparr>heap := h, policy := t\<rparr>) (X(QWindow := e # X QWindow))"
    using h(2) I(1) pframe_fields(4) [OF h(3)]
    by (simp add: policy_inv_def pl) (simp add: t_def total_def wsum_def algebra_simps)
  moreover have "J (st\<lparr>heap := h, policy := t\<rparr>)" using J_frame [OF I(2) h(3), of "rnd_pos st" t] by simp
  moreover have "gone (st\<lparr>heap := h, policy := t\<rparr>) a" if "gone st a" for a
    using gone_frame [OF that h(3), of "rnd_pos st" t] by simp
  ultimately show ?thesis using that [OF h(1) _ _ _ _ h(3)] by (simp add: t_def l_def)
qed

lemma settle_spec:
  assumes k: "policy_ok st X" "J st" and n: "entry_count X \<le> 2 ^ 45"
  shows "\<exists>st1 st2 sk X'. demoteFromProtected st = Some st1 \<and> EvictEntries cb st1 = Some st2 \<and>
    sk_EnsureCapacity (l_count (probation (slru (policy st2))) + l_count (protected (slru (policy st2))) + l_count (window (policy st2)))
      (sketch (policy st2)) = Some sk \<and>
    weightedSize (policy st2) \<le> capacity (policy st2) \<and> evicts st X st2 X' \<and>
    policy_ok (st2\<lparr>policy := (policy st2)\<lparr>sketch := sk\<rparr>\<rparr>) X' \<and> entry_count X' \<le> length (Table sk)"
proof -
  have I: "policy_inv st X" "climber_ok (policy st)" "nonneg (heap st) X" using k by (simp_all add: policy_ok_def)
  have "0 \<le> sint (l_capacity (protected (slru (policy st))))" using I(2) by (simp add: climber_ok_def caps_ok_def)
  then obtain st1 X1 where d: "demoteFromProtected st = Some st1" "rearranged st X st1 X1"
    using demoteFromProtected_spec [OF policy_inv_reps [OF I(1)]] by blast
  note E1 = rearranged_evicts [OF d(2) I(1) k(2)]
  have I1: "policy_inv st1 X1" "J st1" using E1 by (simp_all add: evicts_def)
  have "climber_ok (policy st1)" using E1 I(2) climber_ok_pparams by (auto simp: evicts_def)
  then have "0 \<le> sint (l_capacity (window (policy st1)))" by (simp add: climber_ok_def caps_ok_def)
  then obtain st2 X2 where v: "EvictEntries cb st1 = Some st2" "evicts st1 X1 st2 X2" "weightedSize (policy st2) \<le> capacity (policy st2)"
    using EvictEntries_spec [OF I1] by blast
  note E2 = evicts_trans [OF E1 v(2)]
  have J2: "J st2" and n2: "entry_count X2 \<le> 2 ^ 45" using E2 n by (auto simp: evicts_def)
  show ?thesis using EnsureCapacity_keeps [OF evicts_policy_ok [OF E2 I(2,3)] J2 n2 refl] d(1) v(1,3) E2 by blast
qed

lemma Set_spec:
  assumes k: "policy_ok st X" "J st" and e: "m_prev (meta (heap st e)) = None" "\<not> IsRoot (flags (heap st) e)"
    "0 \<le> sint (policyWeight (heap st e))" and n: "entry_count X < 2 ^ 45"
  shows "\<exists>st' X'. tlfu_Set cb e st = Some st' \<and> keeps st (insert e (all_entries X)) st' X' \<and>
    weightedSize (policy st') \<le> capacity (policy st') \<and> entry_count X' \<le> length (Table (sketch (policy st'))) \<and> entry_count X' \<le> entry_count X + 1"
proof -
  have I: "policy_inv st X" "climber_ok (policy st)" "nonneg (heap st) X" using k by (simp_all add: policy_ok_def)
  have er: "e \<notin> roots (plist (policy st))" using reps_root [OF policy_inv_reps [OF I(1)]] e(2) by blast
  then have eX: "e \<notin> all_entries X" using reps_member [OF policy_inv_reps [OF I(1)] er] e(1) by simp
  obtain st1 X1 where c: "climb_if_sampled st = Some st1" "adjusted st X st1 X1" "climber_ok (policy st1)"
    using climb_if_sampled_spec [OF policy_inv_reps [OF I(1)] I(3,2)] by blast
  have I1: "policy_inv st1 X1" using adjusted_inv [OF I(1) c(2)] .
  have f1: "pframe (heap st) (heap st1)" and X1: "all_entries X1 = all_entries X" "entry_count X1 = entry_count X" using c(2) by (simp_all add: adjusted_def)
  note J1 = adjusted_J [OF c(2) k(2)]
  have e1: "e \<notin> all_entries X1" "\<not> IsRoot (flags (heap st1) e)" using eX X1 e(2) pframe_fields(8) [OF f1] by simp_all
  have er1: "e \<notin> roots (plist (policy st1))" using reps_root [OF policy_inv_reps [OF I1]] e1(2) by blast
  have m1: "m_prev (meta (heap st1 e)) = None" using reps_member [OF policy_inv_reps [OF I1] er1] e1(1) by simp
  obtain h l st2 where p: "PushFront (window (policy st1)) e (heap st1) = Some (h, l)"
    "st2 = st1\<lparr>heap := h, policy := (policy st1)\<lparr>window := l, weightedSize := weightedSize (policy st1) + policyWeight (heap st1 e),
       missesInSample := missesInSample (policy st1) + 1\<rparr>\<rparr>"
    and I2: "policy_inv st2 (X1(QWindow := e # X1 QWindow))" "J st2" and g2: "\<And>a. gone st1 a \<Longrightarrow> gone st2 a"
    and f2: "pframe (heap st1) h" "l_capacity l = l_capacity (window (policy st1))"
    using Set_insert [OF I1 J1(1) e1] by metis
  let ?X2 = "X1(QWindow := e # X1 QWindow)"
  have X2: "all_entries ?X2 = insert e (all_entries X)" "entry_count ?X2 = entry_count X + 1"
    using X1 by (auto simp: all_entries_simp entry_count_def)
  have "climber_ok (policy st2)" using c(3) f2(2) by (simp add: p(2) climber_ok_def caps_ok_def)
  moreover have "nonneg (heap st2) ?X2"
    using I(3) e(3) pframe_fields(4) [OF pframe_trans [OF f1 f2(1)]] unfolding nonneg_def X2(1) by (simp add: p(2))
  ultimately have k2: "policy_ok st2 ?X2" using I2(1) by (simp add: policy_ok_def)
  have n2: "entry_count ?X2 \<le> 2 ^ 45" using X2(2) n by linarith
  obtain st3 st4 sk X4 where s: "demoteFromProtected st2 = Some st3" "EvictEntries cb st3 = Some st4"
    "sk_EnsureCapacity (l_count (probation (slru (policy st4))) + l_count (protected (slru (policy st4))) + l_count (window (policy st4)))
      (sketch (policy st4)) = Some sk" "weightedSize (policy st4) \<le> capacity (policy st4)"
    and E4: "evicts st2 ?X2 st4 X4"
    and k4: "policy_ok (st4\<lparr>policy := (policy st4)\<lparr>sketch := sk\<rparr>\<rparr>) X4" "entry_count X4 \<le> length (Table sk)"
    using settle_spec [OF k2 I2(2) n2] by metis
  let ?st = "st4\<lparr>policy := (policy st4)\<lparr>sketch := sk\<rparr>\<rparr>"
  have p2: "st1\<lparr>policy := (policy st1)\<lparr>weightedSize := weightedSize (policy st1) + policyWeight (heap st1 e),
      missesInSample := missesInSample (policy st1) + 1, window := l\<rparr>, heap := h\<rparr> = st2" by (simp add: p(2))
  have "tlfu_Set cb e st = Some ?st"
    using c(1) m1 p(1) s by (simp add: tlfu_Set_def Let_def set_window_def p2)
  moreover have "keeps st (insert e (all_entries X)) ?st X4"
    unfolding keeps_def
  proof (intro conjI)
    show "capacity (policy ?st) = capacity (policy st)" "hits (policy ?st) = hits (policy st)" "misses (policy ?st) = misses (policy st)"
      using E4 c(2) by (simp_all add: evicts_def pparams_def p(2) adjusted_def)
    show "\<forall>a. gone st a \<longrightarrow> gone ?st a" using E4 J1(2) g2 J_policy(2) by (simp add: evicts_def)
    show "\<forall>a. policyWeight (heap ?st a) = policyWeight (heap st a)" "\<forall>a. IsRoot (flags (heap ?st) a) = IsRoot (flags (heap st) a)"
      using E4 pframe_fields(4,8) [OF pframe_trans [OF f1 f2(1)]] by (simp_all add: evicts_def p(2))
  qed (use k4 J_policy E4 X2 in \<open>auto simp: evicts_def\<close>)
  moreover have "entry_count X4 \<le> entry_count X + 1" using E4 X2(2) by (simp add: evicts_def)
  ultimately show ?thesis using s(4) k4(2) by auto
qed

lemma policy_ok_frame:
  assumes "policy_ok st X" "plist t = plist (policy st)" "weightedSize t = weightedSize (policy st)" "sketch_wf (sketch t)"
    "capacity t = capacity (policy st)" "step t = step (policy st)"
  shows "policy_ok (st\<lparr>policy := t\<rparr>) X"
proof -
  have "window t = window (policy st)" "protected (slru t) = protected (slru (policy st))"
    using fun_cong [OF assms(2), of QWindow] fun_cong [OF assms(2), of QProtected] by simp_all
  then show ?thesis using assms by (simp add: policy_ok_def policy_inv_def climber_ok_def caps_ok_def)
qed

lemma rearranged_keeps:
  assumes k: "policy_ok st X" "J st" and R: "rearranged st X st' X'"
  shows "keeps st (all_entries X) st' X'"
proof -
  have I: "policy_inv st X" "climber_ok (policy st)" "nonneg (heap st) X" using k by (simp_all add: policy_ok_def)
  note E = rearranged_evicts [OF R I(1) k(2)]
  show ?thesis unfolding keeps_def
    using evicts_policy_ok [OF E I(2,3)] E by (simp add: evicts_def pparams_def)
qed

text \<open>
  \<open>Access\<close>: the climber may first rearrange the lists; then a linked entry moves to the
  front of its list or from probation to protected.
\<close>

lemma Access_spec:
  assumes k: "policy_ok st X" "J st" and e: "rb_entry item = Some e" "\<not> IsRoot (flags (heap st) e)"
  shows "\<exists>st' X1 X'. tlfu_Access item st = Some st' \<and> keeps st (all_entries X) st' X' \<and>
    same_rest st st' \<and> pframe (heap st) (heap st') \<and>
    weightedSize (policy st') = weightedSize (policy st) \<and> all_entries X1 = all_entries X \<and>
    (if e \<in> all_entries X1 then \<exists>q. e \<in> set (X1 q) \<and> X' = touch e q X1 else X' = X1)"
proof -
  have I: "policy_inv st X" "climber_ok (policy st)" "nonneg (heap st) X" using k by (simp_all add: policy_ok_def)
  obtain st1 X1 where c: "climb_if_sampled st = Some st1" "adjusted st X st1 X1" "climber_ok (policy st1)"
    using climb_if_sampled_spec [OF policy_inv_reps [OF I(1)] I(3,2)] by blast
  have I1: "policy_inv st1 X1" using adjusted_inv [OF I(1) c(2)] .
  note J1 = adjusted_J [OF c(2) k(2)]
  have k1: "policy_ok st1 X1" using I1 c(3) adjusted_nonneg [OF c(2) I(3)] by (simp add: policy_ok_def)
  obtain sk r where sk: "sk_Add (rb_hash item) (sketch (policy st1)) = Some (sk, r)" "sketch_wf sk"
    using Add_spec [of "sketch (policy st1)" "rb_hash item"] I1 unfolding policy_inv_def by metis
  define st2 where "st2 = st1\<lparr>policy := (policy st1)\<lparr>hitsInSample := hitsInSample (policy st1) + 1, sketch := sk\<rparr>\<rparr>"
  have k2: "policy_ok st2 X1" unfolding st2_def by (rule policy_ok_frame [OF k1]) (simp_all add: sk(2))
  have J2: "J st2" "\<And>a. gone st a \<Longrightarrow> gone st2 a" using J_policy J1 by (simp_all add: st2_def)
  have f: "heap st2 = heap st1" "weightedSize (policy st2) = weightedSize (policy st)" "capacity (policy st2) = capacity (policy st)"
    "all_entries X1 = all_entries X" "hits (policy st2) = hits (policy st)" "misses (policy st2) = misses (policy st)"
    using c(2) by (simp_all add: st2_def adjusted_def)
  have X2: "reps (heap st2) (plist (policy st2)) X1" using k2 by (simp add: policy_ok_def policy_inv_def)
  have acc: "tlfu_Access item st = (if m_prev (meta (heap st2 e)) \<noteq> None then
      (if IsWindow (flag (heap st2 e)) then do { h \<leftarrow> MoveToFront (window (policy st2)) e (heap st2); Some (st2\<lparr>heap := h\<rparr>) }
       else do { (h, s) \<leftarrow> slru_access (slru (policy st2)) e (heap st2); Some (st2\<lparr>heap := h, policy := (policy st2)\<lparr>slru := s\<rparr>\<rparr>) })
      else Some st2)"
    using c(1) e(1) sk(1) by (simp add: tlfu_Access_def st2_def)
  have fr1: "pframe (heap st) (heap st2)" using c(2) by (simp add: adjusted_def f(1))
  note fr = pframe_fields(4,8) [OF fr1]
  have "st1 = st\<lparr>heap := heap st1, policy := policy st1\<rparr>" using c(2) unfolding adjusted_def by blast
  from same_restI [OF this] have s2: "same_rest st st2" by (simp add: same_rest_def st2_def)
  have root: "\<not> IsRoot (flags (heap st2) e)" using e(2) fr(2) by simp
  then have "e \<notin> roots (plist (policy st2))" using reps_root [OF X2] by blast
  note mem = reps_member [OF X2 this]
  show ?thesis
  proof (cases "e \<in> all_entries X1")
    case True
    then obtain q where q: "e \<in> set (X1 q)" by (auto simp: all_entries_def)
    obtain st' where st': "tlfu_Access item st = Some st'" "rearranged st2 X1 st' (touch e q X1)"
      using access_spec [OF X2 q] acc mem True by auto
    have mv: "moves st2 st'" using st'(2) by (simp add: rearranged_def)
    from moves_policy(4) [OF mv] f(2) have "weightedSize (policy st') = weightedSize (policy st)" by simp
    moreover have "same_rest st st'" using s2 same_restI [OF moves_state [OF mv]] by (simp add: same_rest_def)
    moreover have "pframe (heap st) (heap st')" using pframe_trans [OF fr1] mv by (simp add: moves_def)
    ultimately show ?thesis using rearranged_keeps [OF k2 J2(1) st'(2)] st'(1) q True J2(2) f fr by (auto simp: keeps_def)
  next
    case False
    then have "tlfu_Access item st = Some st2" using acc mem by simp
    then show ?thesis using k2 J2 f fr fr1 s2 False by (intro exI [of _ st2] exI [of _ X1]) (auto simp: keeps_def)
  qed
qed

lemma UpdateCost_spec:
  assumes k: "policy_ok st X" and e: "e \<in> set (X q)" "0 \<le> sint (policyWeight (heap st e) + d)"
    and st0: "st0 = st\<lparr>heap := reweigh e d (heap st)\<rparr>" "J st0"
  shows "\<exists>st' X'. tlfu_UpdateCost cb e d st0 = Some st' \<and> keeps st0 (all_entries X) st' X' \<and>
    weightedSize (policy st') \<le> capacity (policy st') \<and>
    (slt (capacity (policy st)) (policyWeight (heap st e) + d) \<longrightarrow> e \<notin> all_entries X')"
proof -
  define st1 where "st1 = recost q d st0"
  have k1: "policy_ok st1 X" using recost_ok [OF k e] by (simp add: st1_def st0)
  have I1: "policy_inv st1 X" "climber_ok (policy st1)" "nonneg (heap st1) X" using k1 by (simp_all add: policy_ok_def)
  note X1 = policy_inv_reps [OF I1(1)]
  have h1: "heap st1 = heap st0" "capacity (policy st1) = capacity (policy st0)" "hits (policy st1) = hits (policy st0)" "misses (policy st1) = misses (policy st0)"
    by (cases q; simp add: st1_def recost_def set_list_defs Let_def)+
  have pol1: "st1 = st0\<lparr>policy := policy st1\<rparr>" by (cases q) (simp_all add: st1_def recost_def set_list_defs Let_def)
  have "J (st0\<lparr>policy := policy st1\<rparr>)" "\<And>a. gone st0 a \<Longrightarrow> gone (st0\<lparr>policy := policy st1\<rparr>) a"
    using J_policy st0(2) by blast+
  then have J1: "J st1" "\<And>a. gone st0 a \<Longrightarrow> gone st1 a" by (simp_all only: pol1 [symmetric])
  have "in_queue p (flag (heap st0 e)) \<longleftrightarrow> p = q" for p
    using reps_in_queue [OF X1 e(1), of p] by (simp add: flags_def h1)
  note f = this [of QWindow] this [of QProbation] this [of QProtected]
  let ?acc = "if IsWindow (flag (heap st1 e)) then do { h \<leftarrow> MoveToFront (window (policy st1)) e (heap st1); Some (st1\<lparr>heap := h\<rparr>) }
      else do { (h, s) \<leftarrow> slru_access (slru (policy st1)) e (heap st1); Some (st1\<lparr>heap := h, policy := (policy st1)\<lparr>slru := s\<rparr>\<rparr>) }"
  let ?heavy = "slt (capacity (policy st)) (policyWeight (heap st e) + d)"
  have U: "tlfu_UpdateCost cb e d st0 = do { st \<leftarrow> (if ?heavy then tlfu_Remove cb e True st1 else ?acc);
      (if capacity (policy st) < weightedSize (policy st) then EvictEntries cb st else Some st) }"
    using f by (cases q) (simp_all add: tlfu_UpdateCost_def st1_def recost_def Let_def set_list_defs slru_updateCost_def st0 cong: if_cong)
  have "\<exists>st2 X2. (if ?heavy then tlfu_Remove cb e True st1 else ?acc) = Some st2 \<and> evicts st1 X st2 X2 \<and> (?heavy \<longrightarrow> e \<notin> all_entries X2)"
  proof (cases ?heavy)
    case True
    obtain us vs where "X q = us @ e # vs" using e(1) by (meson split_list)
    from Remove_spec [OF I1(1) J1(1) this] show ?thesis using True by auto
  next
    case False
    obtain st2 where "?acc = Some st2" "rearranged st1 X st2 (touch e q X)" using access_spec [OF X1 e(1)] by blast
    then show ?thesis using False rearranged_evicts [OF _ I1(1) J1(1)] by fastforce
  qed
  then obtain st2 X2 where s2: "(if ?heavy then tlfu_Remove cb e True st1 else ?acc) = Some st2" "evicts st1 X st2 X2" "?heavy \<longrightarrow> e \<notin> all_entries X2" by blast
  have I2: "policy_inv st2 X2" "J st2" using s2(2) by (simp_all add: evicts_def)
  have "climber_ok (policy st2)" using evicts_policy_ok [OF s2(2) I1(2,3)] by (simp add: policy_ok_def)
  then have w2: "0 \<le> sint (l_capacity (window (policy st2)))" by (simp add: climber_ok_def caps_ok_def)
  have "\<exists>st3 X3. (if capacity (policy st2) < weightedSize (policy st2) then EvictEntries cb st2 else Some st2) = Some st3 \<and>
      evicts st2 X2 st3 X3 \<and> weightedSize (policy st3) \<le> capacity (policy st3)"
    using EvictEntries_spec [OF I2 w2] evicts_refl [OF I2] by (auto simp: not_less)
  then obtain st3 X3 where s3: "(if capacity (policy st2) < weightedSize (policy st2) then EvictEntries cb st2 else Some st2) = Some st3"
      "evicts st2 X2 st3 X3" "weightedSize (policy st3) \<le> capacity (policy st3)" by blast
  note E = evicts_trans [OF s2(2) s3(2)]
  have "keeps st0 (all_entries X) st3 X3"
    unfolding keeps_def using evicts_policy_ok [OF E I1(2,3)] E J1(2) h1 by (auto simp: evicts_def pparams_def)
  moreover have "?heavy \<longrightarrow> e \<notin> all_entries X3" using s2(3) s3(2) by (auto simp: evicts_def)
  moreover have "tlfu_UpdateCost cb e d st0 = Some st3" unfolding U s2(1) using s3(1) by simp
  ultimately show ?thesis using s3(3) by blast
qed

end

end
