(* ===== verification/Clock.thy ===== *)
theory Clock
  imports Prelude
begin

text \<open>
  The clock of internal/clock/clock.go. Instants are integers (nanoseconds since the Unix
  epoch); the reading of the system clock is an argument \<open>t\<close>. \<open>time.Since\<close> is the
  difference saturated to an int64, as the standard library documents for \<open>Time.Sub\<close>. The
  cached time is one atomic word.
\<close>

abbreviation MaxInt64 :: i64 where "MaxInt64 \<equiv> 0x7FFFFFFFFFFFFFFF"
abbreviation MinInt64 :: i64 where "MinInt64 \<equiv> 0x8000000000000000"

record Clock =
  Start :: int
  c_now :: i64

definition clamp64 :: "int \<Rightarrow> i64" where
  "clamp64 d = (if sint MaxInt64 < d then MaxInt64 else if d < sint MinInt64 then MinInt64 else word_of_int d)"

definition NowNano :: "int \<Rightarrow> Clock \<Rightarrow> i64" where
  "NowNano t c = clamp64 (t - Start c)"

definition NowNanoCached :: "Clock \<Rightarrow> i64" where
  "NowNanoCached c = c_now c"

definition RefreshNowCache :: "int \<Rightarrow> Clock \<Rightarrow> Clock" where
  "RefreshNowCache t c = c\<lparr>c_now := NowNano t c\<rparr>"

definition SetNowCache :: "i64 \<Rightarrow> Clock \<Rightarrow> Clock" where
  "SetNowCache n c = c\<lparr>c_now := n\<rparr>"

definition saturatingAdd :: "i64 \<Rightarrow> i64 \<Rightarrow> i64" where
  "saturatingAdd a b =
     (let mx = MaxInt64; mn = MinInt64 in
      if slt 0 b \<and> slt (mx - b) a then mx
      else if slt b 0 \<and> slt a (mn - b) then mn
      else a + b)"

definition ExpireNano :: "int \<Rightarrow> i64 \<Rightarrow> Clock \<Rightarrow> i64" where
  "ExpireNano t ttl c = saturatingAdd (NowNano t c) ttl"

definition SetStart :: "i64 \<Rightarrow> Clock \<Rightarrow> Clock" where
  "SetStart ts c = c\<lparr>Start := sint ts\<rparr>"

lemma sint_MaxInt64: "sint MaxInt64 = 2 ^ 63 - 1" and sint_MinInt64: "sint MinInt64 = - (2 ^ 63)"
  by code_simp+

lemma sint_clamp64: "sint (clamp64 d) = max (- (2 ^ 63)) (min (2 ^ 63 - 1) d)"
  unfolding clamp64_def sint_MaxInt64 sint_MinInt64
  by (auto simp: sint_MaxInt64 sint_MinInt64 sint_word_of_int64)

text \<open>
  \<open>saturatingAdd\<close> is addition of the mathematical integers clamped to the int64 range:
  the guards never overflow themselves and catch every overflow of the sum.
\<close>

theorem saturatingAdd_clamps:
  "sint (saturatingAdd a b) = max (- (2 ^ 63)) (min (2 ^ 63 - 1) (sint a + sint b))"
proof -
  note r = sint_range64 [of a] sint_range64 [of b]
  have mx: "sint (MaxInt64 - b) = 2 ^ 63 - 1 - sint b" if "0 < sint b"
    using sint_sub64 [of MaxInt64 b] that r unfolding sint_MaxInt64 by linarith
  have mn: "sint (MinInt64 - b) = - (2 ^ 63) - sint b" if "sint b < 0"
    using sint_sub64 [of MinInt64 b] that r unfolding sint_MinInt64 by linarith
  consider "0 < sint b" "2 ^ 63 - 1 < sint a + sint b" | "sint b < 0" "sint a + sint b < - (2 ^ 63)"
    | "- (2 ^ 63) \<le> sint a + sint b" "sint a + sint b \<le> 2 ^ 63 - 1" using r by linarith
  then show ?thesis
  proof cases
    case 1
    then have "saturatingAdd a b = MaxInt64" using mx by (simp add: saturatingAdd_def slt_def)
    then have "sint (saturatingAdd a b) = 2 ^ 63 - 1" by (simp only: sint_MaxInt64)
    then show ?thesis using 1 by (simp add: max_def min_def)
  next
    case 2
    then have "saturatingAdd a b = MinInt64" using mn by (simp add: saturatingAdd_def slt_def)
    then have "sint (saturatingAdd a b) = - (2 ^ 63)" by (simp only: sint_MinInt64)
    then show ?thesis using 2 by (simp add: max_def min_def)
  next
    case 3
    then have "saturatingAdd a b = a + b" using mx mn by (auto simp: saturatingAdd_def slt_def Let_def)
    moreover have "sint (a + b) = sint a + sint b" using 3 by (intro sint_add64) linarith+
    ultimately have "sint (saturatingAdd a b) = sint a + sint b" by (simp only:)
    then show ?thesis using 3 by (simp add: max_def min_def)
  qed
qed

end
