(* ===== verification/Timer_Wheel.thy ===== *)
theory Timer_Wheel
  imports Tlfu Clock
begin

text \<open>
  The hierarchical timer wheel of internal/timerwheel.go: five levels of buckets, each an
  intrusive list over the wheel links of the entries. A state \<open>wstate\<close> extends the
  policy's state with the wheel and with the readings of the system clock, a stream.
  \<open>deschedule\<close> unlinks an entry without touching the list header, as in the source, so
  the headers' length and count are not part of the invariant.
\<close>

record TimerWheel =
  tw_clock :: Clock
  buckets :: "u64 list"
  spans :: "u64 list"
  shift :: "u64 list"
  wheel :: "List list list"
  nanos :: i64

record ('k, 'v) wstate = "('k, 'v) pstate" +
  timerwheel :: TimerWheel
  clk :: "nat \<Rightarrow> int"
  clk_pos :: nat

datatype RemoveReason = REMOVED | EVICTED | EXPIRED

definition nth_opt :: "'a list \<Rightarrow> nat \<Rightarrow> 'a option" where
  "nth_opt xs i = (if i < length xs then Some (xs ! i) else None)"

definition TrailingZeros :: "u64 \<Rightarrow> nat" where
  "TrailingZeros x = length (takeWhile (\<lambda>i. \<not> bit x i) [0..<64])"

definition wheel_buckets :: "u64 list" where
  "wheel_buckets = [64, 64, 32, 4, 1]"

definition wheel_spans :: "u64 list" where
  "wheel_spans =
     [next2Power 1000000000, next2Power 60000000000, next2Power 3600000000000,
      next2Power 86400000000000, next2Power 86400000000000 * 4, next2Power 86400000000000 * 4]"

definition wheel_shift :: "u64 list" where
  "wheel_shift = map (\<lambda>i. of_nat (TrailingZeros (wheel_spans ! i))) [0..<5]"

text \<open>The bucket lists of one level and of all levels; \<open>f x y\<close> is the address of a sentinel.\<close>

fun new_level :: "(nat \<Rightarrow> addr) \<Rightarrow> nat \<Rightarrow> nat \<Rightarrow> ('k::zero, 'v::zero) heap \<Rightarrow> ('k, 'v) heap \<times> List list" where
  "new_level f y 0 h = (h, [])"
| "new_level f y (Suc n) h =
     (let (h, l) = NewList 0 WHEEL_LIST (f y) h; (h, ls) = new_level f (Suc y) n h in (h, l # ls))"

fun new_wheel :: "(nat \<Rightarrow> nat \<Rightarrow> addr) \<Rightarrow> nat \<Rightarrow> u64 list \<Rightarrow> ('k::zero, 'v::zero) heap \<Rightarrow> ('k, 'v) heap \<times> List list list" where
  "new_wheel f x [] h = (h, [])"
| "new_wheel f x (b # bs) h =
     (let (h, ls) = new_level (f x) 0 (unat b) h; (h, lss) = new_wheel f (Suc x) bs h in (h, ls # lss))"

text \<open>\<open>start\<close> is \<open>time.Now()\<close> and \<open>t\<close> the reading behind the first \<open>NowNano\<close>.\<close>

definition NewTimerWheel :: "(nat \<Rightarrow> nat \<Rightarrow> addr) \<Rightarrow> int \<Rightarrow> int \<Rightarrow> ('k::zero, 'v::zero) heap \<Rightarrow> ('k, 'v) heap \<times> TimerWheel" where
  "NewTimerWheel f start t h =
     (let c = \<lparr>Start = start, c_now = 0\<rparr>; (h, w) = new_wheel f 0 wheel_buckets h
      in (h, \<lparr>tw_clock = c, buckets = wheel_buckets, spans = wheel_spans, shift = wheel_shift, wheel = w,
              nanos = NowNano t c\<rparr>))"

definition read_now :: "('k, 'v, 'z) wstate_scheme \<Rightarrow> i64 \<times> ('k, 'v, 'z) wstate_scheme" where
  "read_now st = (NowNano (clk st (clk_pos st)) (tw_clock (timerwheel st)), st\<lparr>clk_pos := clk_pos st + 1\<rparr>)"

subsection \<open>Scheduling\<close>

text \<open>The loop of \<open>findIndex\<close> with \<open>n\<close> rounds left at level \<open>i\<close>.\<close>

fun find_loop :: "TimerWheel \<Rightarrow> i64 \<Rightarrow> i64 \<Rightarrow> nat \<Rightarrow> nat \<Rightarrow> (nat \<times> nat) option" where
  "find_loop tw ex duration i 0 = Some (4, 0)"
| "find_loop tw ex duration i (Suc n) =
     do { sp \<leftarrow> nth_opt (spans tw) (i + 1);
          (if slt duration sp then
             do { sh \<leftarrow> nth_opt (shift tw) i;
                  b \<leftarrow> nth_opt (buckets tw) i;
                  let ticks = signed_drop_bit (unat sh) ex;
                  Some (i, unat (ticks AND (b - 1))) }
           else find_loop tw ex duration (i + 1) n) }"

definition findIndex :: "i64 \<Rightarrow> TimerWheel \<Rightarrow> (nat \<times> nat) option" where
  "findIndex ex tw = find_loop tw ex (ex - nanos tw) 0 5"

definition deschedule :: "addr \<Rightarrow> ('k, 'v) heap \<Rightarrow> ('k, 'v) heap option" where
  "deschedule e h =
     do { h \<leftarrow> modify_ptr (e_prev WHEEL_LIST (h e)) (setNext (e_next WHEEL_LIST (h e)) WHEEL_LIST) h;
          h \<leftarrow> modify_ptr (e_next WHEEL_LIST (h e)) (setPrev (e_prev WHEEL_LIST (h e)) WHEEL_LIST) h;
          Some (modify e (setPrev None WHEEL_LIST) (modify e (setNext None WHEEL_LIST) h)) }"

definition wheel_list :: "TimerWheel \<Rightarrow> nat \<Rightarrow> nat \<Rightarrow> List option" where
  "wheel_list tw x y = do { ls \<leftarrow> nth_opt (wheel tw) x; nth_opt ls y }"

definition set_wheel_list :: "nat \<Rightarrow> nat \<Rightarrow> List \<Rightarrow> TimerWheel \<Rightarrow> TimerWheel" where
  "set_wheel_list x y l tw = tw\<lparr>wheel := (wheel tw)[x := (wheel tw ! x)[y := l]]\<rparr>"

definition schedule :: "addr \<Rightarrow> ('k, 'v, 'z) wstate_scheme \<Rightarrow> ('k, 'v, 'z) wstate_scheme option" where
  "schedule e st =
     do { h \<leftarrow> (if m_wheelPrev (meta (heap st e)) \<noteq> None then deschedule e (heap st) else Some (heap st));
          (x, y) \<leftarrow> findIndex (expire (h e)) (timerwheel st);
          l \<leftarrow> wheel_list (timerwheel st) x y;
          (h, l) \<leftarrow> PushFront l e h;
          Some (st\<lparr>heap := h, timerwheel := set_wheel_list x y l (timerwheel st)\<rparr>) }"

subsection \<open>Advancing\<close>

text \<open>
  The body of the loop over a bucket, \<open>for entry != nil\<close>; \<open>remove\<close> is the callback, a
  state transformer.
\<close>

type_synonym ('k, 'v, 'z) remover = "addr \<Rightarrow> RemoveReason \<Rightarrow> ('k, 'v, 'z) wstate_scheme \<Rightarrow> ('k, 'v, 'z) wstate_scheme option"

definition expire_entry :: "('k, 'v, 'z) remover \<Rightarrow> addr option \<times> ('k, 'v, 'z) wstate_scheme
    \<Rightarrow> ((addr option \<times> ('k, 'v, 'z) wstate_scheme) + ('k, 'v, 'z) wstate_scheme) option" where
  "expire_entry remove = (\<lambda>(entry, st).
     case entry of
       None \<Rightarrow> Some (Inr st)
     | Some e \<Rightarrow> do {
         nx \<leftarrow> e_Next WHEEL_LIST (heap st) e;
         st \<leftarrow> (if sle (expire (heap st e)) (nanos (timerwheel st)) then
                  do { h \<leftarrow> deschedule e (heap st); remove e EXPIRED (st\<lparr>heap := h\<rparr>) }
                else schedule e st);
         Some (Inl (nx, st)) })"

definition expire_bucket :: "('k, 'v, 'z) remover \<Rightarrow> nat \<Rightarrow> nat \<Rightarrow> ('k, 'v, 'z) wstate_scheme \<Rightarrow> ('k, 'v, 'z) wstate_scheme option" where
  "expire_bucket remove x y st =
     do { l \<leftarrow> wheel_list (timerwheel st) x y;
          iterate (expire_entry remove) (Front l (heap st), st) }"

text \<open>The loop \<open>for i := start; i < end; i++\<close> with \<open>n = end - i\<close> rounds left.\<close>

fun expire_buckets :: "('k, 'v, 'z) remover \<Rightarrow> nat \<Rightarrow> u64 \<Rightarrow> i64 \<Rightarrow> nat \<Rightarrow> ('k, 'v, 'z) wstate_scheme \<Rightarrow> ('k, 'v, 'z) wstate_scheme option" where
  "expire_buckets remove x msk i 0 st = Some st"
| "expire_buckets remove x msk i (Suc n) st =
     do { st \<leftarrow> expire_bucket remove x (unat (i AND msk)) st; expire_buckets remove x msk (i + 1) n st }"

definition tw_expire :: "('k, 'v, 'z) remover \<Rightarrow> nat \<Rightarrow> i64 \<Rightarrow> i64 \<Rightarrow> ('k, 'v, 'z) wstate_scheme \<Rightarrow> ('k, 'v, 'z) wstate_scheme option" where
  "tw_expire remove x prevTicks delta st =
     do { b \<leftarrow> nth_opt (buckets (timerwheel st)) x;
          let msk = b - 1;
          let steps = min (1 + delta) b;
          let start = prevTicks AND msk;
          expire_buckets remove x msk start (nat (sint (start + steps) - sint start)) st }"

fun advance_levels :: "('k, 'v, 'z) remover \<Rightarrow> i64 \<Rightarrow> nat \<Rightarrow> nat \<Rightarrow> ('k, 'v, 'z) wstate_scheme \<Rightarrow> ('k, 'v, 'z) wstate_scheme option" where
  "advance_levels remove previous x 0 st = Some st"
| "advance_levels remove previous x (Suc n) st =
     do { sh \<leftarrow> nth_opt (shift (timerwheel st)) x;
          let prevTicks = signed_drop_bit (unat sh) previous;
          let currentTicks = signed_drop_bit (unat sh) (nanos (timerwheel st));
          (if sle currentTicks prevTicks then Some st
           else do { st \<leftarrow> tw_expire remove x prevTicks (currentTicks - prevTicks) st;
                     advance_levels remove previous (x + 1) n st }) }"

definition advance :: "('k, 'v, 'z) remover \<Rightarrow> i64 \<Rightarrow> ('k, 'v, 'z) wstate_scheme \<Rightarrow> ('k, 'v, 'z) wstate_scheme option" where
  "advance remove now st =
     (let (now, st) = (if now = 0 then read_now st else (now, st));
          previous = nanos (timerwheel st);
          st = st\<lparr>timerwheel := (timerwheel st)\<lparr>nanos := now\<rparr>\<rparr>
      in advance_levels remove previous 0 5 st)"

subsection \<open>The representation invariant\<close>

definition nb :: "nat \<Rightarrow> nat" where
  "nb x = [64, 64, 32, 4, 1] ! x"

definition wheel_shape :: "TimerWheel \<Rightarrow> bool" where
  "wheel_shape tw \<longleftrightarrow> buckets tw = wheel_buckets \<and> spans tw = wheel_spans \<and> shift tw = wheel_shift \<and>
     map length (wheel tw) = [64, 64, 32, 4, 1] \<and> (\<forall>ls\<in>set (wheel tw). \<forall>l\<in>set ls. l_listType l = WHEEL_LIST)"

definition wroots :: "TimerWheel \<Rightarrow> addr list" where
  "wroots tw = map l_root (concat (wheel tw))"

definition wroot :: "TimerWheel \<Rightarrow> nat \<Rightarrow> nat \<Rightarrow> addr" where
  "wroot tw x y = l_root (wheel tw ! x ! y)"

definition wreps :: "('k, 'v) heap \<Rightarrow> TimerWheel \<Rightarrow> (addr \<Rightarrow> addr list) \<Rightarrow> bool" where
  "wreps h tw R \<longleftrightarrow> wheel_shape tw \<and> distinct (wroots tw) \<and> hrings WHEEL_LIST h (set (wroots tw)) R \<and>
     (\<forall>a. a \<notin> set (wroots tw) \<longrightarrow> a \<notin> members (set (wroots tw)) R \<longrightarrow> prv WHEEL_LIST h a = None)"

text \<open>What the wheel does not touch.\<close>

definition wframe :: "('k, 'v) heap \<Rightarrow> ('k, 'v) heap \<Rightarrow> bool" where
  "wframe h h' \<longleftrightarrow> stripped WHEEL_LIST h h' \<and> flags h' = flags h"

lemma wframe_refl [simp]: "wframe h h"
  by (simp add: wframe_def)

lemma wframe_trans: "wframe h h' \<Longrightarrow> wframe h' h'' \<Longrightarrow> wframe h h''"
  unfolding wframe_def by (auto intro: stripped_trans)

lemma wframe_fields:
  assumes "wframe h h'"
  shows "key (h' a) = key (h a)" "evalue (h' a) = evalue (h a)" "weight (h' a) = weight (h a)"
    "policyWeight (h' a) = policyWeight (h a)" "expire (h' a) = expire (h a)"
    "nxt LIST_WINDOW h' = nxt LIST_WINDOW h" "prv LIST_WINDOW h' = prv LIST_WINDOW h" "flags h' = flags h"
proof -
  have s: "strip WHEEL_LIST (h' b) = strip WHEEL_LIST (h b)" for b using assms by (simp add: wframe_def stripped_def)
  show "key (h' a) = key (h a)" "evalue (h' a) = evalue (h a)" "weight (h' a) = weight (h a)"
    "policyWeight (h' a) = policyWeight (h a)" "expire (h' a) = expire (h a)"
    using strip_eq_fields [OF s [of a]] by simp_all
  show "nxt LIST_WINDOW h' = nxt LIST_WINDOW h" "prv LIST_WINDOW h' = prv LIST_WINDOW h"
    unfolding nxt_def prv_def using strip_wheel_policy [OF s, of LIST_WINDOW] by auto
  show "flags h' = flags h" using assms by (simp add: wframe_def)
qed

lemma wheel_mark [simp]: "mark WHEEL_LIST f = f" "unmark WHEEL_LIST f = f"
  by (simp_all add: mark_def unmark_def)

lemma deschedule_list_remove:
  assumes "l_listType l = WHEEL_LIST" shows "deschedule e h = map_option fst (list_remove l e h)"
proof -
  have *: "flag_update (unmark WHEEL_LIST) x = x" for x :: "('a, 'b) Entry" by (cases x) simp
  have "modify e (flag_update (unmark WHEEL_LIST)) h = h" for h :: "('a, 'b) heap"
    unfolding modify_def * by (rule fun_upd_triv)
  then show ?thesis
    by (cases "e_prev WHEEL_LIST (h e)"; cases "e_next WHEEL_LIST (modify (the (e_prev WHEEL_LIST (h e))) (setNext (e_next WHEEL_LIST (h e)) WHEEL_LIST) h e)")
      (simp_all add: deschedule_def list_remove_def assms modify_ptr_def Let_def)
qed

lemma wheel_list_spec:
  assumes "wheel_shape tw" "x < 5" "y < nb x"
  obtains l where "wheel_list tw x y = Some l" "wheel tw ! x ! y = l" "l_root l = wroot tw x y" "l_listType l = WHEEL_LIST"
    "l_root l \<in> set (wroots tw)" "x < length (wheel tw)" "y < length (wheel tw ! x)"
proof -
  have "length (map length (wheel tw)) = length [64, 64, 32, 4, 1 :: nat]" using assms(1) by (simp only: wheel_shape_def)
  then have len: "length (wheel tw) = 5" by simp
  have "map length (wheel tw) ! x = nb x" using assms(1) by (simp add: wheel_shape_def nb_def)
  then have ly: "y < length (wheel tw ! x)" using assms len by simp
  have "wheel tw ! x ! y \<in> set (wheel tw ! x)" "wheel tw ! x \<in> set (wheel tw)" using ly len assms(2) by simp_all
  moreover have "\<forall>ls\<in>set (wheel tw). \<forall>l\<in>set ls. l_listType l = WHEEL_LIST" using assms(1) unfolding wheel_shape_def by blast
  ultimately have "l_listType (wheel tw ! x ! y) = WHEEL_LIST" "wheel tw ! x ! y \<in> set (concat (wheel tw))" by auto
  then show ?thesis using that [of "wheel tw ! x ! y"] assms(2) ly len
    by (auto simp: wheel_list_def nth_opt_def wroot_def wroots_def)
qed

lemma wroot_in: "wheel_shape tw \<Longrightarrow> x < 5 \<Longrightarrow> y < nb x \<Longrightarrow> wroot tw x y \<in> set (wroots tw)"
  by (erule (2) wheel_list_spec) simp

lemma concat_update:
  assumes "x < length xss" "y < length (xss ! x)" "f z = f (xss ! x ! y)"
  shows "map f (concat (xss[x := (xss ! x)[y := z]])) = map f (concat xss)"
proof -
  have "map f ((xss ! x)[y := z]) = map f (xss ! x)" using assms(2,3) by (simp add: map_update list_update_same_conv)
  then have "map (map f) (xss[x := (xss ! x)[y := z]]) = map (map f) xss"
    using assms(1) by (simp add: map_update list_update_same_conv)
  then show ?thesis by (simp add: map_concat)
qed

lemma set_wheel_list_same:
  assumes "wheel_shape tw" "x < length (wheel tw)" "y < length (wheel tw ! x)"
    "l_root l = l_root (wheel tw ! x ! y)" "l_listType l = WHEEL_LIST"
  shows "wheel_shape (set_wheel_list x y l tw)" "wroots (set_wheel_list x y l tw) = wroots tw"
    "wroot (set_wheel_list x y l tw) = wroot tw" "nanos (set_wheel_list x y l tw) = nanos tw" "tw_clock (set_wheel_list x y l tw) = tw_clock tw"
proof -
  have "map length ((wheel tw)[x := (wheel tw ! x)[y := l]]) = map length (wheel tw)"
    using assms(2) by (simp add: map_update list_update_same_conv)
  moreover have "\<forall>ls\<in>set ((wheel tw)[x := (wheel tw ! x)[y := l]]). \<forall>l\<in>set ls. l_listType l = WHEEL_LIST"
  proof (intro ballI)
    fix ls k assume ls: "ls \<in> set ((wheel tw)[x := (wheel tw ! x)[y := l]])" and k: "k \<in> set ls"
    have sh: "\<forall>ls\<in>set (wheel tw). \<forall>l\<in>set ls. l_listType l = WHEEL_LIST" using assms(1) by (simp add: wheel_shape_def)
    have "ls \<in> set (wheel tw) \<or> ls = (wheel tw ! x)[y := l]" using ls set_update_subset_insert by fastforce
    then have "k \<in> \<Union> (set ` set (wheel tw)) \<or> k = l"
      using k set_update_subset_insert [of "wheel tw ! x" y l] nth_mem [OF assms(2)] by blast
    then show "l_listType k = WHEEL_LIST" using sh assms(5) by blast
  qed
  ultimately show "wheel_shape (set_wheel_list x y l tw)" using assms(1) by (simp add: wheel_shape_def set_wheel_list_def)
  show "wroots (set_wheel_list x y l tw) = wroots tw"
    unfolding wroots_def set_wheel_list_def using concat_update [OF assms(2,3), of l_root l] assms(4) by simp
  show "wroot (set_wheel_list x y l tw) = wroot tw"
    using assms(2-4) by (auto simp: wroot_def set_wheel_list_def fun_eq_iff nth_list_update)
qed (simp_all add: set_wheel_list_def)

subsection \<open>Placement\<close>

lemma wheel_consts:
  "wheel_spans = [2 ^ 30, 2 ^ 36, 2 ^ 42, 2 ^ 47, 2 ^ 49, 2 ^ 49]" "wheel_shift = [30, 36, 42, 47, 49]"
  by code_simp+

definition sh :: "nat \<Rightarrow> nat" where
  "sh x = [30, 36, 42, 47, 49] ! x"

text \<open>The tick of a time at a level, and the bucket that a tick falls into.\<close>

definition tick :: "nat \<Rightarrow> i64 \<Rightarrow> int" where
  "tick x t = sint t div 2 ^ sh x"

definition slot :: "nat \<Rightarrow> i64 \<Rightarrow> nat" where
  "slot x t = nat (tick x t mod int (nb x))"

lemma less_5: "x < (5::nat) \<longleftrightarrow> x = 0 \<or> x = 1 \<or> x = 2 \<or> x = 3 \<or> x = 4"
  by auto

lemma level_consts:
  assumes "x < 5" "wheel_shape tw"
  shows "nth_opt (shift tw) x = Some (of_nat (sh x))" "nth_opt (buckets tw) x = Some (of_nat (nb x))"
    "\<exists>m\<le>6. nb x = 2 ^ m" "sh x < 64" "nth_opt (spans tw) (x + 1) = Some (2 ^ [36, 42, 47, 49, 49] ! x)"
  using assms
  by (auto simp: less_5 wheel_shape_def wheel_consts wheel_buckets_def nth_opt_def nb_def sh_def
      intro: exI [of _ 6] exI [of _ 5] exI [of _ 2] exI [of _ 0])

lemma sint_tick: "sint (signed_drop_bit (sh x) t) = tick x t"
  by (simp add: sint_signed_drop_bit_eq drop_bit_eq_div tick_def)

lemma unat_slot:
  assumes "x < 5" "wheel_shape tw"
  shows "unat (signed_drop_bit (sh x) t AND (of_nat (nb x) - 1 :: u64)) = slot x t"
proof -
  obtain m where m: "m \<le> 6" "nb x = 2 ^ m" using level_consts(3) [OF assms] by blast
  define w where "w = signed_drop_bit (sh x) t"
  have "unat (of_nat (nb x) :: u64) = 2 ^ m" using m unat_exp2 [where 'a = 64, of m] by simp
  then have u: "unat (w AND (of_nat (nb x) - 1)) = unat w mod 2 ^ m" by (rule unat_and_pow2_minus_1)
  have "sint w mod 2 ^ m = uint w mod 2 ^ m"
  proof -
    have "sint w = (uint w :: int) \<or> sint w = uint w - 2 ^ 64" by (simp add: sint_uint64)
    moreover have "(2 ^ 64 :: int) = 2 ^ m * 2 ^ (64 - m)" using m(1) power_add [of "2::int" m "64 - m"] by simp
    ultimately show ?thesis by (metis mod_mult_self1 mult.commute diff_add_cancel)
  qed
  then have "int (unat w mod 2 ^ m) = sint w mod 2 ^ m" by (simp add: zmod_int)
  then show ?thesis using u m(2) sint_tick [of x t] by (simp add: slot_def w_def)
qed

lemma slot_lt: "x < 5 \<Longrightarrow> slot x t < nb x"
  by (auto simp: slot_def less_5 nb_def nat_less_iff)

text \<open>The level \<open>findIndex\<close> chooses.\<close>

definition level_of :: "i64 \<Rightarrow> nat" where
  "level_of d = (if slt d (2 ^ 36) then 0 else if slt d (2 ^ 42) then 1 else if slt d (2 ^ 47) then 2 else if slt d (2 ^ 49) then 3 else 4)"

lemma findIndex_spec:
  assumes "wheel_shape tw"
  shows "findIndex ex tw = Some (level_of (ex - nanos tw), slot (level_of (ex - nanos tw)) ex)"
proof -
  have step: "find_loop tw ex d x (Suc n) =
      (if slt d (2 ^ [36, 42, 47, 49, 49] ! x) then Some (x, slot x ex) else find_loop tw ex d (x + 1) n)" if "x < 5" for x n d
    using level_consts [OF that assms] unat_slot [OF that assms, of ex]
    by (simp add: unat_of_nat take_bit_eq_mod)
  have five: "(5::nat) = Suc (Suc (Suc (Suc (Suc 0))))" by simp
  have "slot 4 ex = 0" by (simp add: slot_def nb_def)
  then show ?thesis unfolding findIndex_def five
    by (simp add: step level_of_def numeral_2_eq_2 numeral_3_eq_3 del: find_loop.simps(2))
qed

lemma level_of_lt: "level_of d < 5"
  by (simp add: level_of_def)

subsection \<open>The operations on the representation\<close>

lemma deschedule_spec:
  assumes W: "wreps h tw R" and r: "r \<in> set (wroots tw)" and xs: "R r = us @ e # vs"
  shows "\<exists>h'. deschedule e h = Some h' \<and> wreps h' tw (R(r := us @ vs)) \<and> wframe h h'"
proof -
  let ?S = "set (wroots tw)"
  define l where "l = \<lparr>l_root = r, l_len = 0, l_count = 0, l_capacity = 0, l_listType = WHEEL_LIST\<rparr>"
  have H: "hrings (l_listType l) h ?S R" "l_root l \<in> ?S" "R (l_root l) = us @ e # vs" using W r xs by (simp_all add: wreps_def l_def)
  obtain h' where h': "list_remove l e h = Some (h', l\<lparr>l_len := l_len l - policyWeight (h e), l_count := l_count l - 1\<rparr>)"
    "hrings (l_listType l) h' ?S (R(l_root l := us @ vs))" "stripped (l_listType l) h h'"
    "flags h' = (flags h)(e := unmark (l_listType l) (flags h e))" "nxt (l_listType l) h' e = None" "prv (l_listType l) h' e = None"
    "\<forall>a. a \<notin> insert e (?S \<union> members ?S R) \<longrightarrow> prv (l_listType l) h' a = prv (l_listType l) h a"
    by (rule hrings_remove [OF H])
  have mem: "members ?S (R(r := us @ vs)) = members ?S R - {e}"
    using members_remove_one [OF hrings_rings [OF H(1)] r xs] .
  have "prv WHEEL_LIST h' a = None" if "a \<notin> ?S" "a \<notin> members ?S R - {e}" for a
  proof (cases "a = e")
    case True
    then show ?thesis using h'(6) by (simp add: l_def)
  next
    case False
    then have "prv WHEEL_LIST h' a = prv WHEEL_LIST h a" using h'(7) that by (simp add: l_def)
    moreover have "prv WHEEL_LIST h a = None" using W that False by (simp add: wreps_def)
    ultimately show ?thesis by simp
  qed
  then have "wreps h' tw (R(r := us @ vs))" using W h'(2) unfolding wreps_def mem by (simp add: l_def)
  moreover have "deschedule e h = Some h'" using deschedule_list_remove [of l e h] h'(1) by (simp add: l_def)
  moreover have "wframe h h'" using h'(3,4) by (simp add: wframe_def l_def)
  ultimately show ?thesis by blast
qed

lemma wreps_member:
  assumes "wreps h tw R" "a \<notin> set (wroots tw)"
  shows "m_wheelPrev (meta (h a)) \<noteq> None \<longleftrightarrow> a \<in> members (set (wroots tw)) R"
proof
  assume "a \<in> members (set (wroots tw)) R"
  then obtain r us vs where r: "r \<in> set (wroots tw)" "R r = us @ a # vs" by (rule membersE)
  have "ring (nxt WHEEL_LIST h) (prv WHEEL_LIST h) r (us @ a # vs)"
    using assms(1) in_rings [OF hrings_rings r(1)] r(2) unfolding wreps_def by metis
  then have "prv WHEEL_LIST h a \<noteq> None" using ring_neighbours(1) by fastforce
  then show "m_wheelPrev (meta (h a)) \<noteq> None" by (simp add: prv_def e_prev_def)
next
  assume "m_wheelPrev (meta (h a)) \<noteq> None"
  then have "prv WHEEL_LIST h a \<noteq> None" by (simp add: prv_def e_prev_def)
  then show "a \<in> members (set (wroots tw)) R" using assms by (auto simp: wreps_def)
qed

text \<open>Inserting an unlinked entry at the front of bucket \<open>(x, y)\<close>.\<close>

lemma wheel_push:
  assumes W: "wreps h tw R" and xy: "x < 5" "y < nb x"
    and e: "e \<notin> members (set (wroots tw)) R" "\<not> IsRoot (flags h e)"
  shows "\<exists>l h' l'. wheel_list tw x y = Some l \<and> PushFront l e h = Some (h', l') \<and>
    wreps h' (set_wheel_list x y l' tw) (R(wroot tw x y := e # R (wroot tw x y))) \<and> wframe h h' \<and>
    wroots (set_wheel_list x y l' tw) = wroots tw \<and> wroot (set_wheel_list x y l' tw) = wroot tw \<and>
    nanos (set_wheel_list x y l' tw) = nanos tw \<and> tw_clock (set_wheel_list x y l' tw) = tw_clock tw"
proof -
  let ?S = "set (wroots tw)" and ?r = "wroot tw x y"
  have shp: "wheel_shape tw" using W by (simp add: wreps_def)
  obtain l where l: "wheel_list tw x y = Some l" "wheel tw ! x ! y = l" "l_root l = ?r" "l_listType l = WHEEL_LIST"
    "l_root l \<in> ?S" "x < length (wheel tw)" "y < length (wheel tw ! x)" by (rule wheel_list_spec [OF shp xy])
  have H: "hrings (l_listType l) h ?S R" using W l(4) by (simp add: wreps_def)
  have es: "e \<notin> ?S" using H e(2) by (auto simp: hrings_def)
  define l' where "l' = l\<lparr>l_len := l_len l + policyWeight (h e), l_count := l_count l + 1\<rparr>"
  obtain h' where h': "list_insert l e (l_root l) h = Some (h', l')"
    "hrings (l_listType l) h' ?S (R(l_root l := [] @ e # R (l_root l)))" "stripped (l_listType l) h h'"
    "flags h' = (flags h)(e := mark (l_listType l) (flags h e))"
    "\<forall>a. a \<notin> insert e (?S \<union> members ?S R) \<longrightarrow> prv (l_listType l) h' a = prv (l_listType l) h a"
    unfolding l'_def by (rule hrings_insert [OF H l(5) _ es e, of "[]" "R (l_root l)"]) simp_all
  note same = set_wheel_list_same [OF shp l(6,7), of l', unfolded l(2)]
  have sm: "wheel_shape (set_wheel_list x y l' tw)" "wroots (set_wheel_list x y l' tw) = wroots tw"
    "wroot (set_wheel_list x y l' tw) = wroot tw" "nanos (set_wheel_list x y l' tw) = nanos tw" "tw_clock (set_wheel_list x y l' tw) = tw_clock tw"
    using same l(4) by (simp_all add: l'_def)
  have mem: "members ?S (R(?r := e # R ?r)) = insert e (members ?S R)"
    using members_insert_one [of ?r ?S R "[]" "R ?r" e] l(3,5) by simp
  have "wreps h' (set_wheel_list x y l' tw) (R(?r := e # R ?r))"
    unfolding wreps_def sm(2) mem using sm(1) W h'(2,5) l(3,4) by (auto simp: wreps_def)
  moreover have "wframe h h'" using h'(3,4) l(4) by (simp add: wframe_def)
  ultimately show ?thesis using l(1) h'(1) sm by (auto simp: PushFront_def)
qed

text \<open>Buckets have different sentinels.\<close>

lemma concat_nth_inj:
  assumes "distinct (concat xss)" "x < length xss" "y < length (xss ! x)" "x' < length xss" "y' < length (xss ! x')"
    and eq: "xss ! x ! y = xss ! x' ! y'"
  shows "x = x' \<and> y = y'"
  using assms
proof (induction xss arbitrary: x x')
  case (Cons xs xss)
  have dis: "distinct xs" "distinct (concat xss)" "set xs \<inter> set (concat xss) = {}" using Cons.prems(1) by simp_all
  have in2: "xss ! i ! j \<in> set (concat xss)" if "i < length xss" "j < length (xss ! i)" for i j
    using nth_mem [OF that(1)] nth_mem [OF that(2)] by auto
  show ?case
  proof (cases x; cases x')
    fix i j assume "x = Suc i" "x' = Suc j"
    then show ?thesis using Cons.IH [of i j] Cons.prems dis(2) by simp
  next
    fix j assume "x = 0" "x' = Suc j"
    then have "y < length xs" "j < length xss" "y' < length (xss ! j)" "xs ! y = xss ! j ! y'" using Cons.prems by simp_all
    then show ?thesis using dis(3) in2 [of j y'] nth_mem [of y xs] by (metis IntI empty_iff)
  next
    fix i assume "x = Suc i" "x' = 0"
    then have "y' < length xs" "i < length xss" "y < length (xss ! i)" "xss ! i ! y = xs ! y'" using Cons.prems by simp_all
    then show ?thesis using dis(3) in2 [of i y] nth_mem [of y' xs] by (metis IntI empty_iff)
  next
    assume "x = 0" "x' = 0"
    then show ?thesis using Cons.prems dis(1) by (simp add: nth_eq_iff_index_eq)
  qed
qed simp

lemma wroot_inj:
  assumes W: "wreps h tw R" and "x < 5" "y < nb x" "x' < 5" "y' < nb x'" and eq: "wroot tw x y = wroot tw x' y'"
  shows "x = x' \<and> y = y'"
proof -
  have shp: "wheel_shape tw" and d: "distinct (wroots tw)" using W by (simp_all add: wreps_def)
  obtain l :: List where l: "x < length (wheel tw)" "y < length (wheel tw ! x)" by (rule wheel_list_spec [OF shp assms(2,3)])
  obtain l' :: List where l': "x' < length (wheel tw)" "y' < length (wheel tw ! x')" by (rule wheel_list_spec [OF shp assms(4,5)])
  have "distinct (concat (map (map l_root) (wheel tw)))" using d by (simp add: wroots_def map_concat)
  then show ?thesis using concat_nth_inj [of "map (map l_root) (wheel tw)" x y x' y'] l l' eq by (simp add: wroot_def)
qed

lemma wroot_exists:
  assumes W: "wreps h tw R" and r: "r \<in> set (wroots tw)"
  obtains x y where "x < 5" "y < nb x" "r = wroot tw x y"
proof -
  have shp: "wheel_shape tw" using W by (simp add: wreps_def)
  have "length (map length (wheel tw)) = length [64, 64, 32, 4, 1 :: nat]" using shp by (simp only: wheel_shape_def)
  then have len: "length (wheel tw) = 5" by simp
  obtain ls l where "ls \<in> set (wheel tw)" "l \<in> set ls" "r = l_root l" using r by (auto simp: wroots_def)
  then obtain x y where xy: "x < length (wheel tw)" "ls = wheel tw ! x" "y < length ls" "l = ls ! y" by (metis in_set_conv_nth)
  have "map length (wheel tw) ! x = nb x" using shp by (simp add: wheel_shape_def nb_def)
  then have "y < nb x" using xy len by simp
  then show ?thesis using that [of x y] xy len \<open>r = l_root l\<close> by (simp add: wroot_def)
qed

lemma wreps_cong:
  assumes "\<And>r. r \<in> set (wroots tw) \<Longrightarrow> R' r = R r"
  shows "wreps h tw R' = wreps h tw R"
proof -
  have m: "members (set (wroots tw)) R' = members (set (wroots tw)) R" using assms by (auto simp: members_def)
  have "rings nx pv (set (wroots tw)) R' = rings nx pv (set (wroots tw)) R" for nx pv
    unfolding rings_def using assms by simp
  then show ?thesis by (simp add: wreps_def hrings_def m)
qed

lemma wreps_unlinked:
  assumes W: "wreps h tw R" and r: "r \<in> set (wroots tw)" and xs: "R r = us @ e # vs" and s: "s \<in> set (wroots tw)"
  shows "(R(r := us @ vs)) s = removeAll e (R s)"
proof -
  have H: "rings (nxt WHEEL_LIST h) (prv WHEEL_LIST h) (set (wroots tw)) R" using W by (simp add: wreps_def hrings_def)
  have "distinct (R r)" using rings_distinct [OF H r] .
  then have "removeAll e (R r) = us @ vs" by (auto simp: xs)
  moreover have "e \<notin> set (R s)" if "s \<noteq> r" using rings_unique [OF H s r, of e] that xs by auto
  ultimately show ?thesis by auto
qed

text \<open>Unlinking an entry that may or may not be linked.\<close>

lemma unschedule:
  assumes W: "wreps h tw R" and e: "e \<notin> set (wroots tw)"
  shows "\<exists>h'. (if m_wheelPrev (meta (h e)) \<noteq> None then deschedule e h else Some h) = Some h' \<and>
    wreps h' tw (\<lambda>r. removeAll e (R r)) \<and> wframe h h'"
proof (cases "e \<in> members (set (wroots tw)) R")
  case True
  then obtain r us vs where r: "r \<in> set (wroots tw)" "R r = us @ e # vs" by (rule membersE)
  obtain h' where h': "deschedule e h = Some h'" "wreps h' tw (R(r := us @ vs))" "wframe h h'" using deschedule_spec [OF W r] by blast
  have "wreps h' tw (\<lambda>r. removeAll e (R r))"
    using h'(2) wreps_cong [of tw "\<lambda>r. removeAll e (R r)" "R(r := us @ vs)" h'] wreps_unlinked [OF W r] by simp
  then show ?thesis using h' wreps_member [OF W e] True by auto
next
  case False
  have "wreps h tw (\<lambda>r. removeAll e (R r))"
    using W wreps_cong [of tw "\<lambda>r. removeAll e (R r)" R h] False by (auto simp: members_def)
  then show ?thesis using wreps_member [OF W e] False by auto
qed

text \<open>
  \<open>schedule\<close>: whatever bucket an entry was in, afterwards it is at the front of the bucket
  that \<open>findIndex\<close> gives for its expiration time, and in no other.
\<close>

lemma schedule_spec:
  assumes W: "wreps (heap st) (timerwheel st) R" and e: "\<not> IsRoot (flags (heap st) e)"
    and R0: "R0 = (\<lambda>r. removeAll e (R r))" and x: "x = level_of (expire (heap st e) - nanos (timerwheel st))"
    and y: "y = slot x (expire (heap st e))" and r: "r = wroot (timerwheel st) x y"
  shows "\<exists>h tw. schedule e st = Some (st\<lparr>heap := h, timerwheel := tw\<rparr>) \<and> wreps h tw (R0(r := e # R0 r)) \<and>
    wframe (heap st) h \<and> wroots tw = wroots (timerwheel st) \<and> wroot tw = wroot (timerwheel st) \<and>
    nanos tw = nanos (timerwheel st) \<and> tw_clock tw = tw_clock (timerwheel st)"
proof -
  let ?tw = "timerwheel st"
  have shp: "wheel_shape ?tw" using W by (simp add: wreps_def)
  have es: "e \<notin> set (wroots ?tw)" using W e by (auto simp: wreps_def hrings_def)
  obtain h1 where h1: "(if m_wheelPrev (meta (heap st e)) \<noteq> None then deschedule e (heap st) else Some (heap st)) = Some h1"
    "wreps h1 ?tw R0" "wframe (heap st) h1" using unschedule [OF W es] R0 by blast
  have f: "expire (h1 e) = expire (heap st e)" "\<not> IsRoot (flags h1 e)" using wframe_fields [OF h1(3)] e by simp_all
  have xy: "x < 5" "y < nb x" using x y level_of_lt slot_lt by auto
  have nm: "e \<notin> members (set (wroots ?tw)) R0" by (auto simp: R0 members_def)
  obtain l h2 l' where p: "wheel_list ?tw x y = Some l" "PushFront l e h1 = Some (h2, l')"
    "wreps h2 (set_wheel_list x y l' ?tw) (R0(r := e # R0 r))" "wframe h1 h2"
    "wroots (set_wheel_list x y l' ?tw) = wroots ?tw" "wroot (set_wheel_list x y l' ?tw) = wroot ?tw"
    "nanos (set_wheel_list x y l' ?tw) = nanos ?tw" "tw_clock (set_wheel_list x y l' ?tw) = tw_clock ?tw"
    using wheel_push [OF h1(2) xy nm f(2)] r by blast
  have "schedule e st = Some (st\<lparr>heap := h2, timerwheel := set_wheel_list x y l' ?tw\<rparr>)"
    using h1(1) p(1,2) findIndex_spec [OF shp] f(1) x y by (simp add: schedule_def)
  then show ?thesis using p wframe_trans [OF h1(3) p(4)] by blast
qed

end
