(* ===== verification/Wheel_Advance.thy ===== *)
theory Wheel_Advance
  imports Timer_Wheel
begin

text \<open>
  Correctness of \<open>TimerWheel.advance\<close>. The locale \<open>expiry_callback\<close> is the contract of
  the \<open>remove\<close> callback: it returns, keeps its own invariant \<open>K\<close> and does not touch the
  wheel. Under this contract \<open>advance\<close> ends, removes only entries whose time has come, and
  leaves every entry in a bucket that the next call will look at before the entry is
  overdue by more than one tick of the lowest level.
\<close>

text \<open>What the wheel reads of an entry.\<close>

definition wview :: "('k, 'v) heap \<Rightarrow> addr \<Rightarrow> addr option \<times> addr option \<times> bool \<times> i64" where
  "wview h a = (prv WHEEL_LIST h a, nxt WHEEL_LIST h a, IsRoot (flags h a), expire (h a))"

lemma wreps_wview:
  assumes "wview h' = wview h" shows "wreps h' tw R = wreps h tw R"
proof -
  have v: "prv WHEEL_LIST h' a = prv WHEEL_LIST h a" "nxt WHEEL_LIST h' a = nxt WHEEL_LIST h a" "IsRoot (flags h' a) = IsRoot (flags h a)" for a
    using fun_cong [OF assms, of a] by (simp_all add: wview_def)
  have "prv WHEEL_LIST h' = prv WHEEL_LIST h" "nxt WHEEL_LIST h' = nxt WHEEL_LIST h" using v by auto
  then show ?thesis by (simp add: wreps_def hrings_def v)
qed

text \<open>A time \<open>t\<close> is placed at level \<open>x\<close> no later than the wheel at time \<open>n\<close> will look there.\<close>

definition due_ok :: "i64 \<Rightarrow> nat \<Rightarrow> i64 \<Rightarrow> bool" where
  "due_ok n x t \<longleftrightarrow> (if x = 0 then tick 0 n \<le> tick 0 t else tick x n < tick x t)"

lemma tick_mono: "sint a \<le> sint b \<Longrightarrow> tick x a \<le> tick x b"
  by (simp add: tick_def zdiv_mono1)

lemma due_ok_tick0: "x < 5 \<Longrightarrow> due_ok n x t \<Longrightarrow> tick 0 n \<le> tick 0 t"
proof -
  assume x: "x < 5" and d: "due_ok n x t"
  show ?thesis
  proof (cases "x = 0")
    case False
    have "sint n < sint t" using d False unfolding due_ok_def tick_def by (metis (no_types) linorder_not_le zdiv_mono1 zero_less_numeral zero_less_power)
    then show ?thesis by (intro tick_mono) simp
  qed (use d in \<open>simp add: due_ok_def\<close>)
qed

lemma placed_due:
  assumes n: "0 \<le> sint n" "sint n < sint t"
  shows "due_ok n (level_of (t - n)) t"
proof -
  have d: "sint (t - n) = sint t - sint n"
    using n sint_range64 [of t] sint_range64 [of n] by (intro sint_sub64) linarith+
  have far: "tick x n < tick x t" if "sint n + 2 ^ sh x \<le> sint t" for x
  proof -
    have "sint n div 2 ^ sh x + 1 = (sint n + 2 ^ sh x) div 2 ^ sh x" by simp
    also have "\<dots> \<le> sint t div 2 ^ sh x" using that by (rule zdiv_mono1) simp
    finally show ?thesis by (simp add: tick_def)
  qed
  have s: "sint (2 ^ 36 :: i64) = 2 ^ 36" "sint (2 ^ 42 :: i64) = 2 ^ 42" "sint (2 ^ 47 :: i64) = 2 ^ 47" "sint (2 ^ 49 :: i64) = 2 ^ 49"
    by code_simp+
  have "due_ok n 0 t" using n tick_mono [of n t 0] by (simp add: due_ok_def)
  moreover have "due_ok n 1 t" if "\<not> slt (t - n) (2 ^ 36)" using that far [of 1] d s by (simp add: due_ok_def slt_def sh_def)
  moreover have "due_ok n 2 t" if "\<not> slt (t - n) (2 ^ 42)" using that far [of 2] d s by (simp add: due_ok_def slt_def sh_def)
  moreover have "due_ok n 3 t" if "\<not> slt (t - n) (2 ^ 47)" using that far [of 3] d s by (simp add: due_ok_def slt_def sh_def)
  moreover have "due_ok n 4 t" if "\<not> slt (t - n) (2 ^ 49)" using that far [of 4] d s by (simp add: due_ok_def slt_def sh_def)
  ultimately show ?thesis unfolding level_of_def by simp
qed

text \<open>
  The entries of the wheel during \<open>advance\<close> from time \<open>prev\<close> to time \<open>n\<close>: each is in its
  slot and due either with respect to \<open>n\<close>, or still with respect to \<open>prev\<close>, in a bucket
  not in \<open>D\<close> or among the entries \<open>todo\<close>.
\<close>

definition wheel_due :: "i64 \<Rightarrow> i64 \<Rightarrow> (addr \<Rightarrow> i64) \<Rightarrow> addr set \<Rightarrow> (nat \<times> nat) set \<Rightarrow> addr set \<Rightarrow> TimerWheel \<Rightarrow> (addr \<Rightarrow> addr list) \<Rightarrow> bool" where
  "wheel_due prev n ex L D todo tw R \<longleftrightarrow>
     (\<forall>x<5. \<forall>y<nb x. \<forall>e\<in>set (R (wroot tw x y)) - L. slot x (ex e) = y \<and>
        (due_ok n x (ex e) \<or> due_ok prev x (ex e) \<and> ((x, y) \<notin> D \<or> e \<in> todo)))"

text \<open>Arithmetic of the bucket loop.\<close>

lemma nb_pow2: "x < 5 \<Longrightarrow> \<exists>m\<le>6. nb x = 2 ^ m"
  by (auto simp: less_5 nb_def intro: exI [of _ 6] exI [of _ 5] exI [of _ 2] exI [of _ 0])

lemma nb_bounds: "x < 5 \<Longrightarrow> 1 \<le> nb x \<and> nb x \<le> 64"
  by (auto simp: less_5 nb_def)

lemma unat_mask_nb:
  assumes "x < 5" shows "unat (w AND (of_nat (nb x) - 1 :: u64)) = unat w mod nb x"
proof -
  obtain m where m: "m \<le> 6" "nb x = 2 ^ m" using nb_pow2 [OF assms] by blast
  have "unat (of_nat (nb x) :: u64) = 2 ^ m" using m unat_exp2 [where 'a = 64, of m] by simp
  then show ?thesis using unat_and_pow2_minus_1 m(2) by metis
qed

lemma tick_range:
  assumes "0 \<le> sint t" shows "0 \<le> tick x t" "x < 5 \<Longrightarrow> tick x t < 2 ^ 33"
proof -
  show "0 \<le> tick x t" using assms by (simp add: tick_def pos_imp_zdiv_nonneg_iff)
  assume x: "x < 5"
  then have "30 \<le> sh x" by (auto simp: less_5 sh_def)
  then have "(2::int) ^ 30 \<le> 2 ^ sh x" by (intro power_increasing) simp_all
  then have "sint t div 2 ^ sh x \<le> sint t div 2 ^ 30" using assms by (intro zdiv_mono2) simp_all
  also have "\<dots> < 2 ^ 33" using sint_range64 [of t] by (simp add: div_less_iff_less_mult) 
  finally show "tick x t < 2 ^ 33" by (simp add: tick_def)
qed

lemma sint_of_nat64: "m < 2 ^ 63 \<Longrightarrow> sint (of_nat m :: i64) = int m"
  using sint_eq_unat64 [of "of_nat m"] unat_eq_of_nat64 [of "of_nat m" m] by simp

text \<open>The number of rounds and the bucket of each.\<close>

lemma rounds:
  assumes x: "x < 5" and p: "0 \<le> sint prev" and n: "tick x prev < tick x n" "0 \<le> sint n"
    and pt: "pt = signed_drop_bit (sh x) prev" and ct: "ct = signed_drop_bit (sh x) n"
    and start: "start = pt AND (of_nat (nb x) - 1 :: u64)"
  shows "nat (sint (start + min (1 + (ct - pt)) (of_nat (nb x))) - sint start) = min (nat (1 + tick x n - tick x prev)) (nb x)"
    and "k < nb x \<Longrightarrow> unat ((start + of_nat k) AND (of_nat (nb x) - 1)) = nat ((tick x prev + int k) mod int (nb x))"
proof -
  define a b where "a = nat (tick x prev)" and "b = nat (tick x n)"
  have T: "tick x prev = int a" "tick x n = int b" "a < b" and small: "a < 2 ^ 33" "b < 2 ^ 33"
    using tick_range [OF p, of x] tick_range [OF n(2), of x] x n(1) by (simp_all add: a_def b_def nat_less_iff)
  have "sint pt = int a" "sint ct = int b" using T sint_tick by (simp_all add: pt ct)
  moreover have "word_of_int (sint pt) = pt" "word_of_int (sint ct) = ct" by simp_all
  ultimately have w: "pt = of_nat a" "ct = of_nat b" by simp_all
  have nb64: "1 \<le> nb x" "nb x \<le> 64" using nb_bounds [OF x] by simp_all
  define s where "s = a mod nb x"
  have s64: "s < 64" using nb64 mod_less_divisor [of "nb x" a] unfolding s_def by linarith
  have "unat start = s" unfolding start unat_mask_nb [OF x] s_def using w(1) small(1) by (simp add: unat_of_nat)
  moreover have "of_nat (unat start) = start" by simp
  ultimately have start': "start = of_nat s" by simp
  have d: "1 + (ct - pt) = of_nat (1 + (b - a))" using w T(3) by simp
  have u: "unat (of_nat (1 + (b - a)) :: u64) = 1 + (b - a)" "unat (of_nat (nb x) :: u64) = nb x"
    by (rule unat_eq_of_nat64 [OF refl], use small nb64 in simp)+
  have mn: "min (1 + (ct - pt)) (of_nat (nb x)) = of_nat (min (1 + (b - a)) (nb x))"
    unfolding d min_def word_le_nat_alt u by simp
  have N: "min (nat (1 + tick x n - tick x prev)) (nb x) = min (1 + (b - a)) (nb x)" using T by simp
  have "start + min (1 + (ct - pt)) (of_nat (nb x)) = of_nat (s + min (1 + (b - a)) (nb x))" unfolding mn start' by simp
  moreover have "s + min (1 + (b - a)) (nb x) < 2 ^ 63" "s < 2 ^ 63" using s64 nb64 by simp_all
  note sint_of_nat64 [OF this(1)] sint_of_nat64 [OF this(2)]
  ultimately have "sint (start + min (1 + (ct - pt)) (of_nat (nb x))) = int (s + min (1 + (b - a)) (nb x))"
    by (simp only:)
  moreover have "sint start = int s" unfolding start' by (rule sint_of_nat64) (use s64 in simp)
  ultimately show "nat (sint (start + min (1 + (ct - pt)) (of_nat (nb x))) - sint start) = min (nat (1 + tick x n - tick x prev)) (nb x)"
    unfolding N by simp
  assume k: "k < nb x"
  have "start + of_nat k = of_nat (s + k)" unfolding start' by simp
  then have "unat (start + of_nat k) = s + k" using s64 k nb64 by (intro unat_eq_of_nat64) auto
  then have "unat ((start + of_nat k) AND (of_nat (nb x) - 1)) = (a + k) mod nb x" unfolding unat_mask_nb [OF x] s_def by (simp add: mod_add_left_eq)
  then show "unat ((start + of_nat k) AND (of_nat (nb x) - 1)) = nat ((tick x prev + int k) mod int (nb x))"
    using T(1) by (metis nat_int of_nat_add zmod_int)
qed

text \<open>
  The wheel between two calls of \<open>advance\<close>: every entry outside \<open>L\<close> is placed with
  respect to \<open>nanos\<close>. The entries of \<open>L\<close> are those that were scheduled when their time
  had already passed.
\<close>

definition timely :: "addr set \<Rightarrow> ('k, 'v) heap \<Rightarrow> TimerWheel \<Rightarrow> (addr \<Rightarrow> addr list) \<Rightarrow> bool" where
  "timely L h tw R \<longleftrightarrow> (\<forall>x<5. \<forall>y<nb x. \<forall>e\<in>set (R (wroot tw x y)) - L.
     slot x (expire (h e)) = y \<and> due_ok (nanos tw) x (expire (h e)))"

lemma timely_tick0:
  assumes W: "wreps h tw R" and t: "timely L h tw R" and e: "e \<in> members (set (wroots tw)) R" "e \<notin> L"
  shows "tick 0 (nanos tw) \<le> tick 0 (expire (h e))"
proof -
  obtain r where r: "r \<in> set (wroots tw)" "e \<in> set (R r)" using e(1) by (auto simp: members_def)
  obtain x y where xy: "x < 5" "y < nb x" "r = wroot tw x y" by (rule wroot_exists [OF W r(1)])
  then have "due_ok (nanos tw) x (expire (h e))" using t r(2) e(2) unfolding timely_def by blast
  then show ?thesis using due_ok_tick0 xy(1) by blast
qed

locale expiry_callback =
  fixes remove :: "('k, 'v, 'z) remover" and K :: "('k, 'v, 'z) wstate_scheme \<Rightarrow> bool"
  assumes remove_runs: "K st \<Longrightarrow> \<not> IsRoot (flags (heap st) e) \<Longrightarrow> prv WHEEL_LIST (heap st) e = None \<Longrightarrow>
      sle (expire (heap st e)) (nanos (timerwheel st)) \<Longrightarrow>
      \<exists>st'. remove e EXPIRED st = Some st' \<and> K st' \<and> timerwheel st' = timerwheel st \<and> wview (heap st') = wview (heap st)"
    and K_frame: "K st \<Longrightarrow> wframe (heap st) h \<Longrightarrow> tw_clock tw = tw_clock (timerwheel st) \<Longrightarrow>
      K (st\<lparr>heap := h, timerwheel := tw, clk_pos := c\<rparr>)"
begin

lemma K_wheel: "K st \<Longrightarrow> wframe (heap st) h \<Longrightarrow> tw_clock tw = tw_clock (timerwheel st) \<Longrightarrow> K (st\<lparr>heap := h, timerwheel := tw\<rparr>)"
  using K_frame [of st h tw "clk_pos st"] by simp

definition advancing :: "i64 \<Rightarrow> i64 \<Rightarrow> (addr \<Rightarrow> i64) \<Rightarrow> addr set \<Rightarrow> addr set \<Rightarrow> (nat \<times> nat) set \<Rightarrow> addr set \<Rightarrow> TimerWheel
    \<Rightarrow> (addr \<Rightarrow> addr list) \<Rightarrow> ('k, 'v, 'z) wstate_scheme \<Rightarrow> bool" where
  "advancing prev n ex L M D todo tw0 R st \<longleftrightarrow>
     wreps (heap st) (timerwheel st) R \<and> K st \<and> wheel_due prev n ex L D todo (timerwheel st) R \<and>
     (\<forall>a. expire (heap st a) = ex a) \<and> nanos (timerwheel st) = n \<and>
     wroot (timerwheel st) = wroot tw0 \<and> wroots (timerwheel st) = wroots tw0 \<and>
     members (set (wroots tw0)) R \<subseteq> M \<and> (\<forall>e\<in>M - members (set (wroots tw0)) R. sle (ex e) n)"

lemma advancing_todo:
  "advancing prev n ex L M D todo tw0 R st \<Longrightarrow> todo \<subseteq> todo' \<Longrightarrow> advancing prev n ex L M D todo' tw0 R st"
  unfolding advancing_def wheel_due_def by blast

text \<open>One entry of a bucket: it is removed, or scheduled again.\<close>

lemma advancing_members:
  assumes A: "advancing prev n ex L M D todo tw0 R st" and W: "wreps h tw R'" "wroots tw = wroots tw0"
    and m: "members (set (wroots tw0)) R' = members (set (wroots tw0)) R \<or>
      members (set (wroots tw0)) R' = members (set (wroots tw0)) R - {e} \<and> sle (ex e) n"
  shows "members (set (wroots tw0)) R' \<subseteq> M" "\<forall>a\<in>M - members (set (wroots tw0)) R'. sle (ex a) n"
  using A m unfolding advancing_def by (elim conjE disjE; auto)+

lemma expire_due:
  assumes A: "advancing prev n ex L M D (insert e todo) tw0 R st" and e: "e \<in> members (set (wroots tw0)) R" and le: "sle (ex e) n"
  shows "\<exists>h st'. deschedule e (heap st) = Some h \<and> remove e EXPIRED (st\<lparr>heap := h\<rparr>) = Some st' \<and>
    advancing prev n ex L M D todo tw0 (\<lambda>r. removeAll e (R r)) st'"
proof -
  let ?tw = "timerwheel st" and ?S = "set (wroots tw0)" and ?R = "\<lambda>r. removeAll e (R r)"
  have W: "wreps (heap st) ?tw R" and k: "K st" and due: "wheel_due prev n ex L D (insert e todo) ?tw R" and ex: "\<forall>a. expire (heap st a) = ex a"
    and nn: "nanos ?tw = n" and rt: "wroot ?tw = wroot tw0" "wroots ?tw = wroots tw0" using A by (simp_all add: advancing_def)
  obtain r us vs where r: "r \<in> ?S" "R r = us @ e # vs" using e by (rule membersE)
  have root: "\<not> IsRoot (flags (heap st) e)" using W e unfolding wreps_def hrings_def rt by blast
  obtain h where h: "deschedule e (heap st) = Some h" "wreps h ?tw (R(r := us @ vs))" "wframe (heap st) h"
    using deschedule_spec [OF W, of r us e vs] r rt by auto
  have W1: "wreps h ?tw ?R"
    using h(2) wreps_cong [of ?tw ?R "R(r := us @ vs)" h] wreps_unlinked [OF W, of r us e vs] r rt by simp
  have f: "flags h = flags (heap st)" "\<And>a. expire (h a) = ex a" using wframe_fields [OF h(3)] ex by simp_all
  have "e \<notin> set (wroots ?tw)" "e \<notin> members (set (wroots ?tw)) ?R" using W root by (auto simp: wreps_def hrings_def members_def)
  then have nl: "prv WHEEL_LIST h e = None" using W1 by (simp add: wreps_def)
  let ?st = "st\<lparr>heap := h\<rparr>"
  have "K ?st" using K_wheel [OF k h(3), of ?tw] by simp
  then obtain st' where st': "remove e EXPIRED ?st = Some st'" "K st'" "timerwheel st' = ?tw" "wview (heap st') = wview h"
    using remove_runs [of ?st e] root nl f le nn by auto
  have W2: "wreps (heap st') ?tw ?R" using W1 wreps_wview [OF st'(4)] by simp
  have ex': "\<forall>a. expire (heap st' a) = ex a" using st'(4) f(2) by (simp add: wview_def fun_eq_iff)
  have due': "wheel_due prev n ex L D todo ?tw ?R" using due unfolding wheel_due_def by auto
  have "members ?S ?R = members ?S R - {e}" by (auto simp: members_def)
  note m = advancing_members [OF A W2 rt(2) disjI2 [OF conjI [OF this le]]]
  show ?thesis using h(1) st' W2 ex' due' nn rt m by (auto simp: advancing_def)
qed

lemma expire_later:
  assumes A: "advancing prev n ex L M D (insert e todo) tw0 R st" and e: "e \<in> members (set (wroots tw0)) R" and gt: "\<not> sle (ex e) n" and n0: "0 \<le> sint n"
  shows "\<exists>st' R'. schedule e st = Some st' \<and> advancing prev n ex L M D todo tw0 R' st' \<and>
    (\<forall>r. R' r = removeAll e (R r) \<or> R' r = e # removeAll e (R r))"
proof -
  let ?tw = "timerwheel st" and ?S = "set (wroots tw0)" and ?R = "\<lambda>r. removeAll e (R r)"
  have W: "wreps (heap st) ?tw R" and k: "K st" and due: "wheel_due prev n ex L D (insert e todo) ?tw R" and ex: "\<forall>a. expire (heap st a) = ex a"
    and nn: "nanos ?tw = n" and rt: "wroot ?tw = wroot tw0" "wroots ?tw = wroots tw0" using A by (simp_all add: advancing_def)
  have root: "\<not> IsRoot (flags (heap st) e)" using W e unfolding wreps_def hrings_def rt by blast
  define x where "x = level_of (ex e - n)"
  define y where "y = slot x (ex e)"
  define r where "r = wroot tw0 x y"
  have xy: "x < 5" "y < nb x" using level_of_lt slot_lt by (auto simp: x_def y_def)
  let ?R' = "?R(r := e # ?R r)"
  obtain h tw where s: "schedule e st = Some (st\<lparr>heap := h, timerwheel := tw\<rparr>)" "wreps h tw ?R'" "wframe (heap st) h"
    "wroots tw = wroots tw0" "wroot tw = wroot tw0" "nanos tw = n" "tw_clock tw = tw_clock ?tw"
    using schedule_spec [OF W root refl refl refl refl] ex nn rt by (auto simp: x_def y_def r_def)
  have ex': "\<forall>a. expire (h a) = ex a" using wframe_fields(5) [OF s(3)] ex by simp
  have k': "K (st\<lparr>heap := h, timerwheel := tw\<rparr>)" by (rule K_wheel [OF k s(3,7)])
  have ok: "due_ok n x (ex e)" unfolding x_def by (rule placed_due [OF n0]) (use gt in \<open>simp add: sle_def\<close>)
  have due': "wheel_due prev n ex L D todo tw ?R'"
    unfolding wheel_due_def
  proof (intro allI impI ballI)
    fix x' y' a assume x': "x' < 5" "y' < nb x'" and a: "a \<in> set (?R' (wroot tw x' y')) - L"
    show "slot x' (ex a) = y' \<and> (due_ok n x' (ex a) \<or> due_ok prev x' (ex a) \<and> ((x', y') \<notin> D \<or> a \<in> todo))"
    proof (cases "a = e")
      case True
      then have "wroot tw0 x' y' = r" using a s(5) by (auto split: if_splits)
      then have "x' = x \<and> y' = y" using wroot_inj [OF W x' xy] rt by (simp add: r_def)
      then show ?thesis using ok True by (simp add: y_def)
    next
      case False
      then have "a \<in> set (R (wroot ?tw x' y')) - L" using a s(5) rt by (auto split: if_splits)
      then show ?thesis using due x' False unfolding wheel_due_def by blast
    qed
  qed
  have "wroot ?tw x y \<in> set (wroots ?tw)" using W wroot_in [OF _ xy] by (simp add: wreps_def)
  then have rS: "r \<in> ?S" by (simp add: r_def rt)
  have m1: "members ?S ?R = members ?S R - {e}" by (auto simp: members_def)
  have m2: "members ?S ?R' = insert e (members ?S ?R)" using members_insert_one [OF rS, of ?R "[]" "?R r" e] by simp
  have "members ?S ?R' = members ?S R" unfolding m2 m1 by (rule insert_Diff [OF e])
  note m = advancing_members [OF A s(2,4) disjI1 [OF this]]
  have "advancing prev n ex L M D todo tw0 ?R' (st\<lparr>heap := h, timerwheel := tw\<rparr>)"
    using s k' due' ex' m by (simp add: advancing_def)
  then show ?thesis using s(1) by (auto intro!: exI [of _ ?R'])
qed

lemma wheel_due_bucket:
  assumes "wheel_due prev n ex L D {} tw R"
  shows "wheel_due prev n ex L (insert (x, y) D) (set (R (wroot tw x y))) tw R"
  using assms unfolding wheel_due_def by fastforce

lemma expire_bucket_spec:
  assumes A: "advancing prev n ex L M D {} tw0 R st" and n0: "0 \<le> sint n" and xy: "x < 5" "y < nb x"
  shows "\<exists>st' R'. expire_bucket remove x y st = Some st' \<and> advancing prev n ex L M (insert (x, y) D) {} tw0 R' st'"
proof -
  let ?r = "wroot tw0 x y" and ?D = "insert (x, y) D"
  have W: "wreps (heap st) (timerwheel st) R" and rt: "wroot (timerwheel st) = wroot tw0" "wroots (timerwheel st) = wroots tw0"
    using A by (simp_all add: advancing_def)
  have shp: "wheel_shape (timerwheel st)" using W by (simp add: wreps_def)
  obtain l where l: "wheel_list (timerwheel st) x y = Some l" "l_root l = ?r" "l_listType l = WHEEL_LIST" "?r \<in> set (wroots tw0)"
    using wheel_list_spec [OF shp xy] rt by metis
  have front: "Front l (heap st) = (case R ?r of [] \<Rightarrow> None | e # _ \<Rightarrow> Some e)"
    using Front_spec [of l "heap st" "set (wroots tw0)" R] W l rt by (simp add: wreps_def)
  let ?I = "\<lambda>(R1, vs) (entry, st1). advancing prev n ex L M ?D (set vs) tw0 R1 st1 \<and> (\<exists>us. R1 ?r = us @ vs) \<and>
    entry = (case vs of [] \<Rightarrow> None | e # _ \<Rightarrow> Some e)"
  have "\<exists>st'. iterate (expire_entry remove) (Front l (heap st), st) = Some st' \<and> (\<exists>R'. advancing prev n ex L M ?D {} tw0 R' st')"
  proof (rule iterate_total [where I = ?I and x = "(R, R ?r)" and m = "\<lambda>(R1, vs) _. length vs"])
    have "wheel_due prev n ex L ?D (set (R ?r)) (timerwheel st) R"
      using A wheel_due_bucket [of prev n ex L D "timerwheel st" R x y] rt by (simp add: advancing_def)
    then have "advancing prev n ex L M ?D (set (R ?r)) tw0 R st" using A by (simp add: advancing_def)
    then show "?I (R, R ?r) (Front l (heap st), st)" using front by auto
  next
    fix g s1 assume I: "?I g s1"
    obtain R1 vs entry st1 where g: "g = (R1, vs)" "s1 = (entry, st1)" by (cases g, cases s1)
    obtain us where us: "R1 ?r = us @ vs" using I g by auto
    have A1: "advancing prev n ex L M ?D (set vs) tw0 R1 st1" and en: "entry = (case vs of [] \<Rightarrow> None | e # _ \<Rightarrow> Some e)"
      using I g by simp_all
    have W1: "wreps (heap st1) (timerwheel st1) R1" and rt1: "wroots (timerwheel st1) = wroots tw0"
      and ex1: "\<And>a. expire (heap st1 a) = ex a" "nanos (timerwheel st1) = n" using A1 by (simp_all add: advancing_def)
    show "(\<exists>g' s'. expire_entry remove s1 = Some (Inl s') \<and> ?I g' s' \<and> (case g' of (R1, vs) \<Rightarrow> \<lambda>_. length vs) s' < (case g of (R1, vs) \<Rightarrow> \<lambda>_. length vs) s1) \<or>
      (\<exists>r. expire_entry remove s1 = Some (Inr r) \<and> (\<exists>R'. advancing prev n ex L M ?D {} tw0 R' r))"
    proof (cases vs)
      case Nil
      then show ?thesis using A1 en by (auto simp: expire_entry_def g)
    next
      case (Cons e vs')
      have H: "hrings WHEEL_LIST (heap st1) (set (wroots tw0)) R1" using W1 rt1 by (simp add: wreps_def)
      have e: "e \<in> members (set (wroots tw0)) R1" by (rule membersI [OF l(4)]) (simp add: us Cons)
      have nx: "e_Next WHEEL_LIST (heap st1) e = Some (case vs' of [] \<Rightarrow> None | n # _ \<Rightarrow> Some n)"
        using e_Next_spec [OF H l(4), of us e vs'] us Cons by simp
      have A2: "advancing prev n ex L M ?D (insert e (set vs')) tw0 R1 st1" using A1 Cons by simp
      have "distinct (R1 ?r)" using rings_distinct [OF hrings_rings [OF H] l(4)] .
      then have rm: "removeAll e (R1 ?r) = us @ vs'" using us Cons by auto
      have "\<exists>st2 R2. (if sle (expire (heap st1 e)) (nanos (timerwheel st1)) then do { h \<leftarrow> deschedule e (heap st1); remove e EXPIRED (st1\<lparr>heap := h\<rparr>) }
           else schedule e st1) = Some st2 \<and> advancing prev n ex L M ?D (set vs') tw0 R2 st2 \<and> (\<exists>us. R2 ?r = us @ vs')"
      proof (cases "sle (ex e) n")
        case True
        then show ?thesis using expire_due [OF A2 e True] ex1 rm by fastforce
      next
        case False
        obtain st2 R2 where s2: "schedule e st1 = Some st2" "advancing prev n ex L M ?D (set vs') tw0 R2 st2"
          "\<forall>r. R2 r = removeAll e (R1 r) \<or> R2 r = e # removeAll e (R1 r)" using expire_later [OF A2 e False n0] by blast
        have "R2 ?r = us @ vs' \<or> R2 ?r = (e # us) @ vs'" using spec [OF s2(3), of ?r] rm by simp
        then show ?thesis using s2(1,2) False ex1 by auto
      qed
      then obtain st2 R2 where "expire_entry remove s1 = Some (Inl (case vs' of [] \<Rightarrow> None | n # _ \<Rightarrow> Some n, st2))"
        "advancing prev n ex L M ?D (set vs') tw0 R2 st2" "\<exists>us. R2 ?r = us @ vs'"
        using nx Cons en by (auto simp: expire_entry_def g)
      then show ?thesis using Cons g
        by (intro disjI1 exI [of _ "(R2, vs')"] exI [of _ "(case vs' of [] \<Rightarrow> None | n # _ \<Rightarrow> Some n, st2)"]) simp
    qed
  qed
  then show ?thesis using l(1) by (auto simp: expire_bucket_def)
qed

lemma expire_buckets_spec:
  assumes "advancing prev n ex L M D {} tw0 R st" "0 \<le> sint n" and x: "x < 5"
  shows "\<exists>st' R'. expire_buckets remove x (of_nat (nb x) - 1) i N st = Some st' \<and>
    advancing prev n ex L M (D \<union> (\<lambda>k. (x, unat ((i + of_nat k) AND (of_nat (nb x) - 1)))) ` {..<N}) {} tw0 R' st'"
  using assms(1,2)
proof (induction N arbitrary: i D R st)
  case 0
  then show ?case by auto
next
  case (Suc N)
  let ?b = "\<lambda>w :: u64. (x, unat (w AND (of_nat (nb x) - 1)))"
  have "unat (i AND (of_nat (nb x) - 1)) < nb x" using unat_mask_nb [OF x] nb_bounds [OF x] by simp
  then obtain st1 R1 where s1: "expire_bucket remove x (unat (i AND (of_nat (nb x) - 1))) st = Some st1"
    "advancing prev n ex L M (insert (?b i) D) {} tw0 R1 st1"
    using expire_bucket_spec [OF Suc.prems x] by blast
  have im: "(\<lambda>k. ?b (i + of_nat k)) ` {..<Suc N} = insert (?b i) ((\<lambda>k. ?b (i + 1 + of_nat k)) ` {..<N})"
    unfolding lessThan_Suc_eq_insert_0 by (simp add: image_image add.assoc)
  show ?case using Suc.IH [OF s1(2) Suc.prems(2), of "i + 1"] s1(1) unfolding im by (simp add: insert_commute)
qed

lemma level_done:
  assumes A: "advancing prev n ex L M (D \<union> B) {} tw0 R st" and x: "x < 5"
    and B: "B = (\<lambda>k. (x, nat ((tick x prev + int k) mod int (nb x)))) ` {..<min (nat (1 + tick x n - tick x prev)) (nb x)}"
    and t: "tick x prev < tick x n"
  shows "advancing prev n ex L M (D \<union> {x} \<times> UNIV) {} tw0 R st"
proof -
  have "due_ok n x (ex e)" if o: "due_ok prev x (ex e)" and nB: "(x, slot x (ex e)) \<notin> B" for e
  proof (rule ccontr)
    assume no: "\<not> due_ok n x (ex e)"
    then have le: "tick x (ex e) \<le> tick x n" by (auto simp: due_ok_def split: if_splits)
    have ge: "tick x prev \<le> tick x (ex e)" using o by (auto simp: due_ok_def split: if_splits)
    define k where "k = nat ((tick x (ex e) - tick x prev) mod int (nb x))"
    have nbp: "0 < int (nb x)" using nb_bounds [OF x] by simp
    have "k < nb x" using nbp by (simp add: k_def nat_less_iff)
    moreover have "int k \<le> tick x (ex e) - tick x prev" using ge nbp by (simp add: k_def zmod_le_nonneg_dividend)
    then have "k < nat (1 + tick x n - tick x prev)" using le by linarith
    moreover have "(tick x prev + int k) mod int (nb x) = tick x (ex e) mod int (nb x)"
      using nbp by (simp add: k_def mod_add_right_eq)
    ultimately have "(x, slot x (ex e)) \<in> B" unfolding B slot_def by (intro image_eqI [of _ _ k]) auto
    with nB show False ..
  qed
  then have "wheel_due prev n ex L (D \<union> {x} \<times> UNIV) {} (timerwheel st) R"
    using A unfolding advancing_def wheel_due_def by fastforce
  then show ?thesis using A by (simp add: advancing_def)
qed

lemma tw_expire_spec:
  assumes A: "advancing prev n ex L M D {} tw0 R st" and x: "x < 5" and p: "0 \<le> sint prev" and n: "tick x prev < tick x n" "0 \<le> sint n"
    and pt: "pt = signed_drop_bit (sh x) prev" and ct: "ct = signed_drop_bit (sh x) n"
  shows "\<exists>st' R'. tw_expire remove x pt (ct - pt) st = Some st' \<and> advancing prev n ex L M (D \<union> {x} \<times> UNIV) {} tw0 R' st'"
proof -
  define start where "start = pt AND (of_nat (nb x) - 1 :: u64)"
  define N where "N = min (nat (1 + tick x n - tick x prev)) (nb x)"
  note r = rounds [OF x p n pt ct start_def]
  have shp: "wheel_shape (timerwheel st)" using A by (simp add: advancing_def wreps_def)
  obtain st' R' where s: "expire_buckets remove x (of_nat (nb x) - 1) start N st = Some st'"
    "advancing prev n ex L M (D \<union> (\<lambda>k. (x, unat ((start + of_nat k) AND (of_nat (nb x) - 1)))) ` {..<N}) {} tw0 R' st'"
    using expire_buckets_spec [OF A n(2) x] by blast
  have "(\<lambda>k. (x, unat ((start + of_nat k) AND (of_nat (nb x) - 1)))) ` {..<N} = (\<lambda>k. (x, nat ((tick x prev + int k) mod int (nb x)))) ` {..<N}"
    using r(2) by (intro image_cong) (simp_all add: N_def)
  then have "advancing prev n ex L M (D \<union> {x} \<times> UNIV) {} tw0 R' st'"
    using level_done [OF _ x _ n(1)] s(2) by (simp add: N_def)
  moreover have "tw_expire remove x pt (ct - pt) st = Some st'"
    using s(1) r(1) level_consts(2) [OF x shp] by (simp add: tw_expire_def N_def start_def)
  ultimately show ?thesis by blast
qed

lemma wheel_due_all:
  assumes "wheel_due prev n ex L (({..<x} \<times> UNIV)) {} tw R" and "\<And>x' t. x \<le> x' \<Longrightarrow> x' < 5 \<Longrightarrow> due_ok prev x' t \<Longrightarrow> due_ok n x' t"
  shows "wheel_due n n ex L {} {} tw R"
  using assms unfolding wheel_due_def by (metis SigmaI UNIV_I empty_iff lessThan_iff not_less)

lemma tick_coarser:
  assumes "x \<le> x'" "x' < 5" shows "tick x' t = tick x t div 2 ^ (sh x' - sh x)"
proof -
  have "x < 5" using assms by simp
  then have "sh x \<le> sh x'" using assms by (auto simp: less_5 sh_def)
  then have "(2::int) ^ sh x' = 2 ^ sh x * 2 ^ (sh x' - sh x)" by (simp add: power_add [symmetric])
  then show ?thesis by (simp add: tick_def zdiv_zmult2_eq)
qed

lemma advance_levels_spec:
  assumes "advancing prev n ex L M ({..<x} \<times> UNIV) {} tw0 R st" "x + N = 5" and p: "0 \<le> sint prev" "sint prev \<le> sint n"
  shows "\<exists>st' R'. advance_levels remove prev x N st = Some st' \<and> advancing n n ex L M {} {} tw0 R' st'"
  using assms(1,2)
proof (induction N arbitrary: x R st)
  case 0
  have "wheel_due n n ex L {} {} (timerwheel st) R"
    using 0 wheel_due_all [of prev n ex L x "timerwheel st" R] by (simp add: advancing_def)
  then show ?case using 0 by (auto simp: advancing_def)
next
  case (Suc N)
  have x: "x < 5" using Suc.prems by simp
  have shp: "wheel_shape (timerwheel st)" and nn: "nanos (timerwheel st) = n" using Suc.prems by (simp_all add: advancing_def wreps_def)
  note lc = level_consts(1,4) [OF x shp]
  have ush: "unat (of_nat (sh x) :: u64) = sh x" using lc(2) by (simp add: unat_of_nat)
  define pt ct where "pt = signed_drop_bit (sh x) prev" and "ct = signed_drop_bit (sh x) n"
  have le: "tick x prev \<le> tick x n" by (rule tick_mono [OF p(2)])
  show ?case
  proof (cases "tick x prev < tick x n")
    case True
    have n0: "0 \<le> sint n" using p by linarith
    obtain st1 R1 where s1: "tw_expire remove x pt (ct - pt) st = Some st1"
      "advancing prev n ex L M ({..<x} \<times> UNIV \<union> {x} \<times> UNIV) {} tw0 R1 st1"
      using tw_expire_spec [OF Suc.prems(1) x p(1) True n0 pt_def ct_def] by blast
    have "{..<x} \<times> UNIV \<union> {x} \<times> UNIV = {..<x + 1} \<times> (UNIV :: nat set)" by (auto simp: less_Suc_eq)
    then have "advancing prev n ex L M ({..<x + 1} \<times> UNIV) {} tw0 R1 st1" using s1(2) by simp
    from Suc.IH [OF this] obtain st' R' where "advance_levels remove prev (x + 1) N st1 = Some st'" "advancing n n ex L M {} {} tw0 R' st'"
      using Suc.prems(2) by auto
    moreover have "\<not> sle ct pt" using True by (simp add: sle_def sint_tick pt_def ct_def)
    ultimately show ?thesis using s1(1) lc(1) ush nn by (auto simp: pt_def ct_def)
  next
    case False
    then have eq: "tick x prev = tick x n" using le by simp
    have same: "tick x' prev = tick x' n" if "x \<le> x'" "x' < 5" for x' using tick_coarser [OF that] eq by simp
    have "due_ok n x' t" if "x \<le> x'" "x' < 5" "due_ok prev x' t" for x' t
      using same [OF that(1,2)] that(3) by (auto simp: due_ok_def split: if_splits)
    then have "wheel_due n n ex L {} {} (timerwheel st) R"
      using Suc.prems wheel_due_all [of prev n ex L x "timerwheel st" R] by (simp add: advancing_def)
    then have "advancing n n ex L M {} {} tw0 R st" using Suc.prems by (simp add: advancing_def)
    moreover have "sle ct pt" using eq by (simp add: sle_def sint_tick pt_def ct_def)
    ultimately show ?thesis using lc(1) ush nn by (auto simp: pt_def ct_def)
  qed
qed

lemma advance_spec:
  assumes W: "wreps (heap st) (timerwheel st) R" and t: "timely L (heap st) (timerwheel st) R" and k: "K st"
    and now': "now' = (if now = 0 then fst (read_now st) else now)"
    and p: "0 \<le> sint (nanos (timerwheel st))" "sint (nanos (timerwheel st)) \<le> sint now'"
  shows "\<exists>st' R'. advance remove now st = Some st' \<and> K st' \<and> wreps (heap st') (timerwheel st') R' \<and> timely L (heap st') (timerwheel st') R' \<and>
    nanos (timerwheel st') = now' \<and> wroots (timerwheel st') = wroots (timerwheel st) \<and>
    members (set (wroots (timerwheel st))) R' \<subseteq> members (set (wroots (timerwheel st))) R \<and>
    (\<forall>e\<in>members (set (wroots (timerwheel st))) R - members (set (wroots (timerwheel st))) R'. sle (expire (heap st e)) now') \<and>
    (\<forall>e. expire (heap st' e) = expire (heap st e))"
proof -
  let ?tw = "timerwheel st" and ?ex = "\<lambda>a. expire (heap st a)"
  let ?M = "members (set (wroots ?tw)) R"
  define st1 where "st1 = (if now = 0 then snd (read_now st) else st)"
  define tw1 where "tw1 = ?tw\<lparr>nanos := now'\<rparr>"
  define st2 where "st2 = st1\<lparr>timerwheel := tw1\<rparr>"
  have s1: "st1 = st\<lparr>clk_pos := clk_pos st1\<rparr>" by (simp add: st1_def read_now_def)
  have s2: "st2 = st\<lparr>heap := heap st, timerwheel := tw1, clk_pos := clk_pos st1\<rparr>" unfolding st2_def by (subst s1) simp
  have h2: "heap st2 = heap st" "timerwheel st2 = tw1" unfolding s2 by simp_all
  have adv: "advance remove now st = advance_levels remove (nanos ?tw) 0 5 st2"
    by (simp add: advance_def Let_def st2_def st1_def tw1_def now' read_now_def)
  have rt: "wroot tw1 = wroot ?tw" "wroots tw1 = wroots ?tw" by (simp_all add: tw1_def wroot_def wroots_def fun_eq_iff)
  have W2: "wreps (heap st2) tw1 R" using W by (simp add: wreps_def rt h2) (simp add: tw1_def wheel_shape_def)
  have k2: "K st2" unfolding s2 by (rule K_frame [OF k]) (simp_all add: tw1_def)
  have "wheel_due (nanos ?tw) now' ?ex L ({..<0} \<times> UNIV) {} tw1 R"
    using t unfolding timely_def wheel_due_def rt by auto
  then have A: "advancing (nanos ?tw) now' ?ex L ?M ({..<0} \<times> UNIV) {} ?tw R st2"
    using W2 k2 rt by (simp add: advancing_def h2 tw1_def)
  obtain st' R' where s': "advance_levels remove (nanos ?tw) 0 5 st2 = Some st'" "advancing now' now' ?ex L ?M {} {} ?tw R' st'"
    using advance_levels_spec [OF A _ p] by auto
  then have "timely L (heap st') (timerwheel st') R'" by (auto simp: advancing_def timely_def wheel_due_def)
  then show ?thesis using s' adv by (auto simp: advancing_def)
qed

end

end
