(* ===== verification/Read_Buffer.thy ===== *)
theory Read_Buffer
  imports Tlfu
begin

text \<open>
  The lossy read buffer of internal/buffer.go: a ring of 16 slots with monotone read and
  write counts. A pointer to \<open>PolicyBuffers\<close> is the single object of the buffer, so
  \<open>returned\<close> is a boolean: whether that object is available. Each operation runs without
  interference here; other goroutines may run between two operations, in particular
  between the \<open>Add\<close> that hands out the batch and the \<open>Free\<close> that gives it back. The theory
  Buffer_Races takes the operations apart into their atomic accesses.

  The abstract buffer is the list of pending items together with the availability of the
  batch; the ring refines it, for every value of the counts, wrap-around included.
\<close>

abbreviation buf_capacity :: nat where "buf_capacity \<equiv> 16"
abbreviation buf_mask :: u64 where "buf_mask \<equiv> 15"

record Buffer =
  b_head :: u64
  b_tail :: u64
  b_returned :: bool
  b_policyBuffers :: "ReadBufItem list"
  b_buffer :: "ReadBufItem option list"

definition NewBuffer :: Buffer where
  "NewBuffer = \<lparr>b_head = 0, b_tail = 0, b_returned = True, b_policyBuffers = [], b_buffer = replicate buf_capacity None\<rparr>"

text \<open>The loop that collects the published items, with \<open>n\<close> rounds left.\<close>

fun collect :: "nat \<Rightarrow> u64 \<Rightarrow> Buffer \<Rightarrow> u64 \<times> Buffer" where
  "collect 0 head b = (head, b)"
| "collect (Suc n) head b =
     (let index = unat (head AND buf_mask);
          b = (case b_buffer b ! index of None \<Rightarrow> b
               | Some v \<Rightarrow> b\<lparr>b_policyBuffers := b_policyBuffers b @ [v], b_buffer := (b_buffer b)[index := None]\<rparr>)
      in collect n (head + 1) b)"

definition buffer_Add :: "ReadBufItem \<Rightarrow> Buffer \<Rightarrow> Buffer \<times> ReadBufItem list option" where
  "buffer_Add n b =
     (let head = b_head b; tail = b_tail b; sz = tail - head in
      if of_nat buf_capacity \<le> sz then (b, None)
      else
        let b = b\<lparr>b_tail := tail + 1\<rparr>;
            index = unat (tail AND buf_mask);
            b = b\<lparr>b_buffer := (b_buffer b)[index := Some n]\<rparr>
        in if sz = of_nat buf_capacity - 1 then
             if \<not> b_returned b then (b, None)
             else
               let b = b\<lparr>b_returned := False\<rparr>;
                   (head, b) = collect buf_capacity head b;
                   b = b\<lparr>b_head := head\<rparr>
               in (b, Some (b_policyBuffers b))
           else (b, None))"

definition buffer_items :: "Buffer \<Rightarrow> ReadBufItem list" where
  "buffer_items b = List.map_filter id (b_buffer b)"

definition buffer_Free :: "Buffer \<Rightarrow> Buffer" where
  "buffer_Free b = b\<lparr>b_policyBuffers := [], b_returned := True\<rparr>"

text \<open>\<open>Clear\<close> spins until the batch is available: \<open>None\<close> while it is not.\<close>

definition buffer_Clear :: "Buffer \<Rightarrow> Buffer option" where
  "buffer_Clear b =
     (if b_returned b then
        let b = b\<lparr>b_returned := False, b_buffer := replicate buf_capacity None\<rparr>; b = buffer_Free b
        in Some (b\<lparr>b_tail := 0, b_head := 0\<rparr>)
      else None)"

subsection \<open>The abstract buffer\<close>

type_synonym abs_buffer = "ReadBufItem list \<times> bool"

definition abs_Add :: "ReadBufItem \<Rightarrow> abs_buffer \<Rightarrow> abs_buffer \<times> ReadBufItem list option" where
  "abs_Add x = (\<lambda>(xs, avail).
     if buf_capacity \<le> length xs then ((xs, avail), None)
     else if length xs = buf_capacity - 1 \<and> avail then (([], False), Some (xs @ [x]))
     else ((xs @ [x], avail), None))"

definition slot_of :: "u64 \<Rightarrow> nat \<Rightarrow> nat" where
  "slot_of head i = (unat head + i) mod buf_capacity"

text \<open>\<open>xs\<close> are the published items from \<open>head\<close> on; the other slots are empty.\<close>

definition buf_rep :: "Buffer \<Rightarrow> ReadBufItem list \<Rightarrow> bool" where
  "buf_rep b xs \<longleftrightarrow> length (b_buffer b) = buf_capacity \<and> length xs \<le> buf_capacity \<and> b_tail b = b_head b + of_nat (length xs) \<and>
     (\<forall>i<buf_capacity. b_buffer b ! slot_of (b_head b) i = (if i < length xs then Some (xs ! i) else None)) \<and>
     (b_returned b \<longrightarrow> b_policyBuffers b = [])"

lemma unat_mask16: "unat (w AND buf_mask) = unat w mod buf_capacity"
  using unat_and_pow2_minus_1 [of "16 :: u64" 4 w] by simp

lemma slot_of_word: "unat ((head + of_nat i) AND buf_mask) = slot_of head i"
proof -
  have "unat (head + of_nat i) mod 16 = (unat head + i) mod 16"
    by (simp add: unat_word_ariths unat_of_nat mod_mod_cancel mod_add_eq mod_add_right_eq)
  then show ?thesis by (simp add: unat_mask16 slot_of_def)
qed

lemma slot_of_inj:
  assumes "i < buf_capacity" "j < buf_capacity" "slot_of h i = slot_of h j" shows "i = j"
proof -
  have "int (unat h + i) mod 16 = int (unat h + j) mod 16"
    using arg_cong [OF assms(3), of int] unfolding slot_of_def by (simp only: of_nat_mod of_nat_numeral)
  then have "(int (unat h + i) - int (unat h)) mod 16 = (int (unat h + j) - int (unat h)) mod 16" by (rule mod_diff_cong) simp
  then show ?thesis using assms(1,2) by simp
qed

lemma slot_of_lt [simp]: "slot_of h i < buf_capacity"
  by (simp add: slot_of_def)

lemma slot_of_surj:
  assumes "s < buf_capacity" shows "\<exists>i<buf_capacity. slot_of h i = s"
proof -
  have "slot_of h ` {..<buf_capacity} = {..<buf_capacity}"
    by (rule endo_inj_surj) (auto intro: inj_onI slot_of_inj)
  then show ?thesis using assms by (metis imageE lessThan_iff)
qed

lemma slot_of_add: "slot_of (h + of_nat k) i = slot_of h (k + i)"
  unfolding slot_of_word [symmetric] by (simp add: add.assoc)

lemma slot_of_cycle: "slot_of (h + 16) i = slot_of h i"
  using slot_of_add [of h 16 i] unfolding slot_of_def by (simp only: of_nat_numeral add.left_commute [of "unat h" 16] mod_add_self1)

text \<open>Collecting a full ring empties it and appends its items in the order of the counts.\<close>

lemma collect_spec:
  assumes "length (b_buffer b) = buf_capacity" "length xs = buf_capacity" "k + n = buf_capacity"
    "\<And>i. i < buf_capacity \<Longrightarrow> b_buffer b ! slot_of h i = (if k \<le> i then Some (xs ! i) else None)"
  shows "\<exists>bf. collect n (h + of_nat k) b = (h + 16, b\<lparr>b_policyBuffers := b_policyBuffers b @ drop k xs, b_buffer := bf\<rparr>) \<and>
    length bf = buf_capacity \<and> (\<forall>i<buf_capacity. bf ! i = None)"
  using assms
proof (induction n arbitrary: k b)
  case 0
  have "b_buffer b ! s = None" if "s < buf_capacity" for s
    using slot_of_surj [OF that, of h] 0 by auto
  then show ?case using 0 by (intro exI [of _ "b_buffer b"]) simp
next
  case (Suc n)
  let ?s = "slot_of h k"
  define b' where "b' = b\<lparr>b_policyBuffers := b_policyBuffers b @ [xs ! k], b_buffer := (b_buffer b)[?s := None]\<rparr>"
  have k: "k < buf_capacity" using Suc.prems(3) by simp
  have run: "collect (Suc n) (h + of_nat k) b = collect n (h + of_nat (Suc k)) b'"
    using Suc.prems(4) [OF k] by (simp add: slot_of_word b'_def add_ac)
  have len: "length (b_buffer b') = buf_capacity" "Suc k + n = buf_capacity" using Suc.prems by (simp_all add: b'_def)
  have cells: "b_buffer b' ! slot_of h i = (if Suc k \<le> i then Some (xs ! i) else None)" if i: "i < buf_capacity" for i
  proof (cases "i = k")
    case True
    then show ?thesis using Suc.prems(1) by (simp add: b'_def)
  next
    case False
    then have "slot_of h i \<noteq> ?s" using slot_of_inj [OF i k] by blast
    then have "b_buffer b' ! slot_of h i = b_buffer b ! slot_of h i" by (simp add: b'_def)
    then show ?thesis using Suc.prems(4) [OF i] False by auto
  qed
  obtain bf where bf: "collect n (h + of_nat (Suc k)) b' = (h + 16, b'\<lparr>b_policyBuffers := b_policyBuffers b' @ drop (Suc k) xs, b_buffer := bf\<rparr>)"
    "length bf = buf_capacity" "\<forall>i<buf_capacity. bf ! i = None"
    using Suc.IH [OF len(1) Suc.prems(2) len(2) cells] by blast
  have "drop k xs = xs ! k # drop (Suc k) xs" using k Suc.prems(2) by (simp add: Cons_nth_drop_Suc)
  then show ?case using bf run by (auto simp: b'_def)
qed

text \<open>The ring refines the abstract buffer.\<close>

lemma sub_count: "n \<le> buf_capacity \<Longrightarrow> unat (h + of_nat n - h :: u64) = n"
  by (simp add: unat_eq_of_nat64)

lemma publish:
  assumes r: "buf_rep b xs" and l: "length xs < buf_capacity"
    and b': "b' = b\<lparr>b_tail := b_tail b + 1, b_buffer := (b_buffer b)[unat (b_tail b AND buf_mask) := Some x]\<rparr>"
  shows "buf_rep b' (xs @ [x])"
proof -
  have s: "unat (b_tail b AND buf_mask) = slot_of (b_head b) (length xs)" using r slot_of_word by (simp add: buf_rep_def)
  have "b_buffer b' ! slot_of (b_head b) i = (if i < length (xs @ [x]) then Some ((xs @ [x]) ! i) else None)" if "i < buf_capacity" for i
  proof -
    have cell: "b_buffer b ! slot_of (b_head b) i = (if i < length xs then Some (xs ! i) else None)" and len: "length (b_buffer b) = buf_capacity"
      using r that by (simp_all add: buf_rep_def)
    show ?thesis using that len cell slot_of_inj [OF that l, of "b_head b"] by (cases "i = length xs") (auto simp: b' s nth_append nth_list_update)
  qed
  then show ?thesis using r l by (simp add: buf_rep_def b')
qed

lemma buffer_Add_refines:
  assumes r: "buf_rep b xs"
  shows "\<exists>b' xs' res. buffer_Add x b = (b', res) \<and> buf_rep b' xs' \<and> abs_Add x (xs, b_returned b) = ((xs', b_returned b'), res)"
proof -
  let ?n = "length xs"
  define b1 where "b1 = b\<lparr>b_tail := b_tail b + 1, b_buffer := (b_buffer b)[unat (b_tail b AND buf_mask) := Some x]\<rparr>"
  have n: "?n \<le> buf_capacity" and t: "b_tail b - b_head b = of_nat ?n" using r by (simp_all add: buf_rep_def)
  have un: "unat (of_nat ?n :: u64) = ?n" using n by (simp add: unat_eq_of_nat64)
  have full: "(16 \<le> (of_nat ?n :: u64)) = (16 \<le> ?n)" using un by (simp add: word_le_nat_alt)
  have last: "((of_nat ?n :: u64) = 15) = (?n = 15)" using un unat_numeral [where 'a = 64, of "num.Bit1 (num.Bit1 (num.Bit1 num.One))"] by (auto simp: word_unat_eq_iff)
  show ?thesis
  proof (cases "?n = 15 \<and> b_returned b")
    case False
    show ?thesis
    proof (cases "16 \<le> ?n")
      case True
      then show ?thesis using r n by (auto simp: buffer_Add_def abs_Add_def t full)
    next
      case less: False
      have "buffer_Add x b = (b1, None)" using less False by (auto simp: buffer_Add_def t full last b1_def Let_def)
      moreover have "buf_rep b1 (xs @ [x])" using publish [OF r _ b1_def] less by simp
      ultimately show ?thesis using less False by (auto simp: abs_Add_def b1_def)
    qed
  next
    case True
    have r1: "buf_rep b1 (xs @ [x])" using publish [OF r _ b1_def] True by simp
    let ?b2 = "b1\<lparr>b_returned := False\<rparr>"
    obtain bf where bf: "collect 16 (b_head b + of_nat 0) ?b2 = (b_head b + 16, ?b2\<lparr>b_policyBuffers := b_policyBuffers ?b2 @ drop 0 (xs @ [x]), b_buffer := bf\<rparr>)"
      "length bf = buf_capacity" "\<forall>i<buf_capacity. bf ! i = None"
      using collect_spec [of ?b2 "xs @ [x]" 0 16 "b_head b"] r1 True by (auto simp: buf_rep_def b1_def)
    have pb: "b_policyBuffers b = []" using r True by (simp add: buf_rep_def)
    let ?b' = "?b2\<lparr>b_policyBuffers := xs @ [x], b_buffer := bf, b_head := b_head b + 16\<rparr>"
    have "buffer_Add x b = (?b', Some (xs @ [x]))"
      using True bf(1) pb by (simp add: buffer_Add_def t full last b1_def Let_def)
    moreover have "buf_rep ?b' []" using bf(2,3) r True by (simp add: buf_rep_def b1_def)
    moreover have "abs_Add x (xs, b_returned b) = (([], b_returned ?b'), Some (xs @ [x]))" using True by (simp add: abs_Add_def)
    ultimately show ?thesis by blast
  qed
qed

lemma buffer_Free_refines: "buf_rep b xs \<Longrightarrow> buf_rep (buffer_Free b) xs \<and> b_returned (buffer_Free b)"
  by (simp add: buf_rep_def buffer_Free_def)

lemma NewBuffer_rep: "buf_rep NewBuffer []"
  by (simp add: buf_rep_def NewBuffer_def)

subsection \<open>Sequences of additions\<close>

fun adds :: "('x \<Rightarrow> 's \<Rightarrow> 's \<times> 'r) \<Rightarrow> 'x list \<Rightarrow> 's \<Rightarrow> 's \<times> 'r list" where
  "adds f [] s = (s, [])"
| "adds f (x # xs) s = (let (s, r) = f x s; (s, rs) = adds f xs s in (s, r # rs))"

lemma adds_append: "adds f (xs @ ys) s = (let (s, rs) = adds f xs s; (s, rs') = adds f ys s in (s, rs @ rs'))"
  by (induction xs arbitrary: s) (simp_all add: split_beta Let_def)

lemma adds_refine:
  assumes "buf_rep b xs"
  shows "\<exists>b' xs' rs. adds buffer_Add ys b = (b', rs) \<and> buf_rep b' xs' \<and> adds abs_Add ys (xs, b_returned b) = ((xs', b_returned b'), rs)"
  using assms
proof (induction ys arbitrary: b xs)
  case (Cons y ys)
  obtain b1 xs1 r where 1: "buffer_Add y b = (b1, r)" "buf_rep b1 xs1" "abs_Add y (xs, b_returned b) = ((xs1, b_returned b1), r)"
    using buffer_Add_refines [OF Cons.prems] by blast
  from Cons.IH [OF 1(2)] show ?case using 1(1,3) by (auto simp: split_beta Let_def)
qed auto

lemma abs_adds_fill:
  "length xs + length ys \<le> 15 \<or> length xs + length ys \<le> 16 \<and> \<not> av \<Longrightarrow> adds abs_Add ys (xs, av) = ((xs @ ys, av), replicate (length ys) None)"
  by (induction ys arbitrary: xs) (auto simp: abs_Add_def)

lemma abs_adds_full: "16 \<le> length xs \<Longrightarrow> adds abs_Add ys (xs, av) = ((xs, av), replicate (length ys) None)"
  by (induction ys) (simp_all add: abs_Add_def)

lemma abs_adds_batch:
  assumes "length xs = 16" shows "adds abs_Add xs ([], True) = (([], False), replicate 15 None @ [Some xs])"
proof -
  obtain ys y where xs: "xs = ys @ [y]" "length ys = 15" using assms by (cases xs rule: rev_cases) auto
  then show ?thesis using abs_adds_fill [of "[]" ys True] by (simp add: adds_append abs_Add_def)
qed

text \<open>
  The read buffer hands out its items in batches, in order: from any empty buffer whose
  batch is available, and for every value of the counts including wrap-around, 15 additions
  return nothing, the 16th returns the 16 items in the order of the additions, and after
  \<open>Free\<close> the buffer is empty and available again.
\<close>

theorem read_buffer_batches:
  assumes "buf_rep b []" "b_returned b" "length xs = buf_capacity"
  shows "\<exists>b'. adds buffer_Add xs b = (b', replicate 15 None @ [Some xs]) \<and> buf_rep (buffer_Free b') [] \<and> b_returned (buffer_Free b')"
  using adds_refine [OF assms(1), of xs] abs_adds_batch [OF assms(3)] assms(2) buffer_Free_refines by fastforce

theorem read_buffer_batches_witness:
  "\<exists>b'. adds buffer_Add (replicate 16 \<lparr>rb_entry = Some 7, rb_hash = 3\<rparr>) NewBuffer =
     (b', replicate 15 None @ [Some (replicate 16 \<lparr>rb_entry = Some 7, rb_hash = 3\<rparr>)]) \<and>
     buf_rep (buffer_Free b') [] \<and> b_returned (buffer_Free b')"
  by (rule read_buffer_batches [OF NewBuffer_rep]) (simp_all add: NewBuffer_def)

text \<open>
  C36. A read buffer can stop for ever. When 16 more items arrive between the \<open>Add\<close> that
  hands out the batch and the \<open>Free\<close> that gives it back, the addition that fills the ring
  finds the batch taken and returns nothing; from then on the ring is full, so every
  addition is refused and the second batch is never delivered, although \<open>Free\<close> has made
  the batch available.
\<close>

theorem read_buffer_stuck:
  assumes "length xs = buf_capacity" "length ys = buf_capacity"
  shows "\<exists>b. adds buffer_Add (xs @ ys) NewBuffer = (b, replicate 15 None @ [Some xs] @ replicate 16 None) \<and>
    b_returned (buffer_Free b) \<and>
    (\<forall>zs. adds buffer_Add zs (buffer_Free b) = (buffer_Free b, replicate (length zs) None))"
proof -
  obtain b1 where 1: "adds buffer_Add xs NewBuffer = (b1, replicate 15 None @ [Some xs])" "buf_rep b1 []" "\<not> b_returned b1"
    using adds_refine [OF NewBuffer_rep, of xs] abs_adds_batch [OF assms(1)] by (auto simp: NewBuffer_def)
  obtain b2 where 2: "adds buffer_Add ys b1 = (b2, replicate 16 None)" "buf_rep b2 ys"
    using adds_refine [OF 1(2), of ys] abs_adds_fill [of "[]" ys False] 1(3) assms(2) by auto
  let ?b = "buffer_Free b2"
  have sz: "b_tail ?b - b_head ?b = 16" using 2(2) assms(2) by (simp add: buf_rep_def buffer_Free_def)
  have "adds buffer_Add zs ?b = (?b, replicate (length zs) None)" for zs
    by (induction zs) (simp_all add: buffer_Add_def sz)
  then show ?thesis using 1(1) 2(1) by (auto simp: adds_append buffer_Free_def)
qed

theorem read_buffer_stuck_witness:
  "\<exists>b. adds buffer_Add (replicate 16 \<lparr>rb_entry = Some 7, rb_hash = 3\<rparr> @ replicate 16 \<lparr>rb_entry = Some 8, rb_hash = 4\<rparr>) NewBuffer =
      (b, replicate 15 None @ [Some (replicate 16 \<lparr>rb_entry = Some 7, rb_hash = 3\<rparr>)] @ replicate 16 None) \<and>
    b_returned (buffer_Free b) \<and>
    (\<forall>zs. adds buffer_Add zs (buffer_Free b) = (buffer_Free b, replicate (length zs) None))"
  by (rule read_buffer_stuck) simp_all

end
