(* ===== verification/Bloom.thy ===== *)
theory Bloom
  imports Pow2 Go_Float
begin

text \<open>
  The Bloom filter of internal/bf/bf.go (the doorkeeper of a shard). The bit vector is a
  list of 64-bit words; an access out of its range fails (\<open>None\<close>). \<open>math.Log\<close> is the
  argument \<open>logf\<close>: the filter is well-formed whatever it returns. The conversions
  \<open>uint32(f)\<close> truncate modulo \<open>2 ^ 32\<close>, which is what they do for a value in the int64
  range.
\<close>

record Bloomfilter =
  Filter :: "u64 list"
  bf_M :: u32
  bf_K :: u32
  FalsePositiveRate :: rat
  bf_Capacity :: i64

definition newbv :: "u32 \<Rightarrow> u64 list" where
  "newbv sz = replicate (unat ((ucast (sz + 63) :: u64) div 64)) 0"

definition bv_get :: "u64 list \<Rightarrow> u32 \<Rightarrow> u64 option" where
  "bv_get b bt =
     (let shift = bt mod 64; idx = bt div 64 in
      if unat idx < length b then
        let bb = b ! unat idx; m = push_bit (unat shift) 1
        in Some (drop_bit (unat shift) (bb AND m))
      else None)"

definition bv_getset :: "u64 list \<Rightarrow> u32 \<Rightarrow> (u64 list \<times> u64) option" where
  "bv_getset b bt =
     (let shift = bt mod 64; idx = bt div 64 in
      if unat idx < length b then
        let bb = b ! unat idx; m = push_bit (unat shift) 1
        in Some (b[unat idx := b ! unat idx OR m], drop_bit (unat shift) (bb AND m))
      else None)"

definition probe :: "Bloomfilter \<Rightarrow> u64 \<Rightarrow> u32 \<Rightarrow> u32" where
  "probe d h i = (let h1 = ucast h :: u32; h2 = ucast (drop_bit 32 h) :: u32 in (h1 + (i * h2)) AND (bf_M d - 1))"

text \<open>The loops \<open>for i := uint32(0); i < d.K; i++\<close> with \<open>n = d.K - i\<close> rounds left.\<close>

fun exist_loop :: "Bloomfilter \<Rightarrow> u64 \<Rightarrow> nat \<Rightarrow> u32 \<Rightarrow> u64 \<Rightarrow> u64 option" where
  "exist_loop d h 0 i o' = Some o'"
| "exist_loop d h (Suc n) i o' =
     do { g \<leftarrow> bv_get (Filter d) (probe d h i); exist_loop d h n (i + 1) (o' AND g) }"

definition bf_Exist :: "u64 \<Rightarrow> Bloomfilter \<Rightarrow> bool option" where
  "bf_Exist h d = do { o' \<leftarrow> exist_loop d h (unat (bf_K d)) 0 1; Some (o' = 1) }"

fun insert_loop :: "Bloomfilter \<Rightarrow> u64 \<Rightarrow> nat \<Rightarrow> u32 \<Rightarrow> u64 \<Rightarrow> (Bloomfilter \<times> u64) option" where
  "insert_loop d h 0 i o' = Some (d, o')"
| "insert_loop d h (Suc n) i o' =
     do { (b, g) \<leftarrow> bv_getset (Filter d) (probe d h i);
          insert_loop (d\<lparr>Filter := b\<rparr>) h n (i + 1) (o' AND g) }"

definition bf_Insert :: "u64 \<Rightarrow> Bloomfilter \<Rightarrow> (Bloomfilter \<times> bool) option" where
  "bf_Insert h d = do { (d, o') \<leftarrow> insert_loop d h (unat (bf_K d)) 0 1; Some (d, o' = 1) }"

definition bf_Reset :: "Bloomfilter \<Rightarrow> Bloomfilter" where
  "bf_Reset d = d\<lparr>Filter := map (\<lambda>_. 0) (Filter d)\<rparr>"

text \<open>
  A capacity above \<open>2 ^ 31\<close> rounds to zero, and the division by it gives an infinite
  float64 whose conversion the language leaves unspecified: \<open>None\<close>.
\<close>

definition bf_EnsureCapacity :: "(rat \<Rightarrow> rat) \<Rightarrow> i64 \<Rightarrow> Bloomfilter \<Rightarrow> Bloomfilter option" where
  "bf_EnsureCapacity logf cap d =
     (if sle cap (bf_Capacity d) then Some d
      else
        let cap = ucast (nextPowerOfTwo (ucast cap)) :: i64;
            fcap = f64 (of_int (sint cap));
            bits = f64 (f64 (fcap * - logf (FalsePositiveRate d)) / f64 (logf 2 * logf 2));
            m = nextPowerOfTwo (word_of_int (trunc_rat bits));
            m = (if m < 1024 then 1024 else m)
        in if cap = 0 then None
           else
             let k = word_of_int (trunc_rat (f64 (f64 (f64 (7 / 10) * f64 (of_int (uint m))) / fcap)));
                 k = (if k < 2 then 2 else k)
             in Some (d\<lparr>bf_Capacity := cap, bf_M := m, Filter := newbv m, bf_K := k\<rparr>))"

definition bf_New :: "(rat \<Rightarrow> rat) \<Rightarrow> rat \<Rightarrow> Bloomfilter option" where
  "bf_New logf falsePositiveRate =
     bf_EnsureCapacity logf 320
       \<lparr>Filter = [], bf_M = 0, bf_K = 0, FalsePositiveRate = falsePositiveRate, bf_Capacity = 0\<rparr>"

definition bf_NewWithSize :: "u32 \<Rightarrow> Bloomfilter" where
  "bf_NewWithSize sz =
     (let m = nextPowerOfTwo (sz * 8)
      in \<lparr>Filter = newbv m, bf_M = m, bf_K = 0, FalsePositiveRate = 0, bf_Capacity = 0\<rparr>)"

subsection \<open>The filter as a set of bits\<close>

definition bit_at :: "u64 list \<Rightarrow> nat \<Rightarrow> bool" where
  "bit_at b j \<longleftrightarrow> bit (b ! (j div 64)) (j mod 64)"

definition bloom_wf :: "Bloomfilter \<Rightarrow> bool" where
  "bloom_wf d \<longleftrightarrow> (\<exists>m. 10 \<le> m \<and> m \<le> 31 \<and> unat (bf_M d) = 2 ^ m \<and> length (Filter d) = 2 ^ (m - 6)) \<and> 2 \<le> unat (bf_K d)"

definition probes :: "Bloomfilter \<Rightarrow> u64 \<Rightarrow> u32 \<Rightarrow> nat \<Rightarrow> nat set" where
  "probes d h i n = (\<lambda>k. unat (probe d h (i + of_nat k))) ` {..<n}"

lemma probes_Suc: "probes d h i (Suc n) = insert (unat (probe d h i)) (probes d h (i + 1) n)"
proof -
  have "{..<Suc n} = insert 0 (Suc ` {..<n})" by (rule lessThan_Suc_eq_insert_0)
  then have "probes d h i (Suc n) = insert (unat (probe d h (i + of_nat 0))) ((\<lambda>k. unat (probe d h (i + of_nat (Suc k)))) ` {..<n})"
    unfolding probes_def by (simp only: image_insert image_image)
  moreover have "i + of_nat (Suc k) = i + 1 + of_nat k" for k by simp
  ultimately show ?thesis by (simp only: probes_def) simp
qed

lemma probe_lt:
  assumes "bloom_wf d" shows "unat (probe d h i) < 64 * length (Filter d)"
proof -
  obtain m where m: "10 \<le> m" "unat (bf_M d) = 2 ^ m" "length (Filter d) = 2 ^ (m - 6)"
    using assms by (auto simp: bloom_wf_def)
  have "(2::nat) ^ m = 64 * 2 ^ (m - 6)" using m(1) power_add [of "2::nat" 6 "m - 6"] by simp
  then show ?thesis using unat_and_pow2_minus_1 [OF m(2)] m(3) by (simp add: probe_def Let_def)
qed

lemma unat_div_mod_64: "unat (w div 64 :: u32) = unat w div 64" "unat (w mod 64 :: u32) = unat w mod 64"
  by (simp_all add: unat_div unat_mod)

lemma bit_mask_one: "n < 64 \<Longrightarrow> drop_bit n (v AND push_bit n 1) = (of_bool (bit v n) :: u64)"
  by (rule bit_word_eqI) (auto simp: bit_simps)

lemma bv_get_spec: "unat w < 64 * length b \<Longrightarrow> bv_get b w = Some (of_bool (bit_at b (unat w)))"
proof -
  assume "unat w < 64 * length b"
  then have i: "unat w div 64 < length b" by (simp add: less_mult_imp_div_less mult.commute)
  have s: "unat w mod 64 < 64" by simp
  show ?thesis
    by (simp only: bv_get_def Let_def unat_div_mod_64 i if_True bit_mask_one [OF s] bit_at_def)
qed

lemma bv_getset_spec:
  assumes "unat w < 64 * length b"
  obtains b' where "bv_getset b w = Some (b', of_bool (bit_at b (unat w)))" "length b' = length b"
    "\<And>j. j < 64 * length b \<Longrightarrow> bit_at b' j \<longleftrightarrow> j = unat w \<or> bit_at b j"
proof -
  let ?i = "unat w div 64" and ?s = "unat w mod 64"
  let ?b = "b[?i := b ! ?i OR push_bit ?s 1]"
  have i: "?i < length b" using assms by (simp add: less_mult_imp_div_less mult.commute)
  have s: "?s < 64" by simp
  show ?thesis
  proof (rule that [of ?b])
    show "bv_getset b w = Some (?b, of_bool (bit_at b (unat w)))"
      by (simp only: bv_getset_def Let_def unat_div_mod_64 i if_True bit_mask_one [OF s] bit_at_def)
    fix j assume "j < 64 * length b"
    show "bit_at ?b j \<longleftrightarrow> j = unat w \<or> bit_at b j"
    proof (cases "j div 64 = ?i")
      case True
      then have "j = unat w \<longleftrightarrow> j mod 64 = ?s" using div_mult_mod_eq [of j 64] div_mult_mod_eq [of "unat w" 64] by metis
      then show ?thesis using True i by (auto simp: bit_at_def bit_simps)
    next
      case False
      then show ?thesis by (auto simp: bit_at_def)
    qed
  qed simp
qed

lemma and_of_bool: "(of_bool P AND of_bool Q :: u64) = of_bool (P \<and> Q)"
  by auto

lemma exist_loop_spec:
  "bloom_wf d \<Longrightarrow> exist_loop d h n i (of_bool P) = Some (of_bool (P \<and> (\<forall>j\<in>probes d h i n. bit_at (Filter d) j)))"
proof (induction n arbitrary: i P)
  case 0 then show ?case by (simp add: probes_def)
next
  case (Suc n)
  then show ?case by (simp add: bv_get_spec probe_lt and_of_bool probes_Suc)
qed

lemma Exist_spec:
  assumes "bloom_wf d"
  shows "bf_Exist h d = Some (\<forall>j\<in>probes d h 0 (unat (bf_K d)). bit_at (Filter d) j)"
  using exist_loop_spec [OF assms, of h "unat (bf_K d)" 0 True] by (simp add: bf_Exist_def)

lemma insert_loop_spec:
  assumes "bloom_wf d"
  shows "\<exists>b. insert_loop d h n i (of_bool P) = Some (d\<lparr>Filter := b\<rparr>, of_bool (P \<and> (\<forall>j\<in>probes d h i n. bit_at (Filter d) j)))
    \<and> length b = length (Filter d) \<and> (\<forall>j<64 * length b. bit_at b j \<longleftrightarrow> j \<in> probes d h i n \<or> bit_at (Filter d) j)"
  using assms
proof (induction n arbitrary: i P d)
  case 0
  then show ?case by (auto simp: probes_def intro!: exI [of _ "Filter d"])
next
  case (Suc n)
  obtain b1 where b1: "bv_getset (Filter d) (probe d h i) = Some (b1, of_bool (bit_at (Filter d) (unat (probe d h i))))"
    "length b1 = length (Filter d)"
    and bb: "\<And>j. j < 64 * length (Filter d) \<Longrightarrow> bit_at b1 j \<longleftrightarrow> j = unat (probe d h i) \<or> bit_at (Filter d) j"
    using bv_getset_spec [OF probe_lt [OF Suc.prems], of h i] by metis
  let ?d = "d\<lparr>Filter := b1\<rparr>"
  have wf: "bloom_wf ?d" using Suc.prems b1(2) by (simp add: bloom_wf_def)
  have pr: "probes ?d = probes d" by (simp add: probes_def probe_def fun_eq_iff)
  have lt: "\<forall>j\<in>probes d h (i + 1) n. j < 64 * length (Filter d)" using probe_lt [OF Suc.prems] by (auto simp: probes_def)
  obtain b where b: "insert_loop ?d h n (i + 1) (of_bool (P \<and> bit_at (Filter d) (unat (probe d h i)))) =
      Some (?d\<lparr>Filter := b\<rparr>, of_bool ((P \<and> bit_at (Filter d) (unat (probe d h i))) \<and> (\<forall>j\<in>probes ?d h (i + 1) n. bit_at b1 j)))"
    "length b = length b1" "\<forall>j<64 * length b. bit_at b j \<longleftrightarrow> j \<in> probes ?d h (i + 1) n \<or> bit_at b1 j"
    using Suc.IH [OF wf, of "i + 1" "P \<and> bit_at (Filter d) (unat (probe d h i))"] by auto
  have "(P \<and> bit_at (Filter d) (unat (probe d h i))) \<and> (\<forall>j\<in>probes ?d h (i + 1) n. bit_at b1 j)
      \<longleftrightarrow> P \<and> (\<forall>j\<in>probes d h i (Suc n). bit_at (Filter d) j)"
    using lt bb by (auto simp: pr probes_Suc)
  then have "insert_loop d h (Suc n) i (of_bool P) =
      Some (d\<lparr>Filter := b\<rparr>, of_bool (P \<and> (\<forall>j\<in>probes d h i (Suc n). bit_at (Filter d) j)))"
    using b(1) by (simp add: b1 and_of_bool)
  moreover have "\<forall>j<64 * length b. bit_at b j \<longleftrightarrow> j \<in> probes d h i (Suc n) \<or> bit_at (Filter d) j"
    using b(2,3) b1(2) bb by (auto simp: pr probes_Suc)
  ultimately show ?case using b(2) b1(2) by auto
qed

lemma Insert_spec:
  assumes "bloom_wf d"
  shows "\<exists>d' r. bf_Insert h d = Some (d', r) \<and> bf_Exist h d = Some r \<and> bloom_wf d' \<and> bf_Exist h d' = Some True \<and>
    (\<forall>g. bf_Exist g d = Some True \<longrightarrow> bf_Exist g d' = Some True)"
proof -
  let ?K = "unat (bf_K d)"
  obtain b where b: "insert_loop d h ?K 0 1 = Some (d\<lparr>Filter := b\<rparr>, of_bool (\<forall>j\<in>probes d h 0 ?K. bit_at (Filter d) j))"
    "length b = length (Filter d)" "\<forall>j<64 * length b. bit_at b j \<longleftrightarrow> j \<in> probes d h 0 ?K \<or> bit_at (Filter d) j"
    using insert_loop_spec [OF assms, of h ?K 0 True] by auto
  let ?d = "d\<lparr>Filter := b\<rparr>"
  have wf: "bloom_wf ?d" using assms b(2) by (simp add: bloom_wf_def)
  have pr: "probes ?d = probes d" by (simp add: probes_def probe_def fun_eq_iff)
  have lt: "j < 64 * length b" if "j \<in> probes d g 0 n" for j g n
    using probe_lt [OF assms] that b(2) by (auto simp: probes_def)
  have ex: "bf_Exist g ?d = Some (\<forall>j\<in>probes d g 0 ?K. j \<in> probes d h 0 ?K \<or> bit_at (Filter d) j)" for g
    using Exist_spec [OF wf, of g] b(3) lt by (simp add: pr)
  show ?thesis
    using b(1) wf ex Exist_spec [OF assms] by (auto simp: bf_Insert_def)
qed

lemma Reset_spec:
  assumes "bloom_wf d" shows "bloom_wf (bf_Reset d)" "bf_Exist h (bf_Reset d) = Some False"
proof -
  show wf: "bloom_wf (bf_Reset d)" using assms by (simp add: bloom_wf_def bf_Reset_def)
  have "0 < unat (bf_K d)" using assms by (simp add: bloom_wf_def)
  then have "unat (probe (bf_Reset d) h (0 + of_nat 0)) \<in> probes (bf_Reset d) h 0 (unat (bf_K d))" unfolding probes_def by (intro imageI) simp
  moreover have "\<not> bit_at (Filter (bf_Reset d)) (unat (probe (bf_Reset d) h (0 + of_nat 0)))"
    using probe_lt [OF wf, of h "0 + of_nat 0"] by (simp add: bit_at_def bf_Reset_def less_mult_imp_div_less mult.commute)
  ultimately show "bf_Exist h (bf_Reset d) = Some False" unfolding Exist_spec [OF wf] by (auto simp: bf_Reset_def)
qed

text \<open>Rounding any 32-bit number gives a power of two, or zero when it wraps.\<close>

lemma nextPowerOfTwo_cases: "nextPowerOfTwo x = 0 \<or> (\<exists>m\<le>31. unat (nextPowerOfTwo x) = 2 ^ m)"
proof -
  have "covers 32 (x - 1) (nextPowerOfTwo x - 1)" using covers_32 [of "x - 1"] by (simp add: nextPowerOfTwo_def Let_def)
  then obtain m where m: "m \<le> 32" "nextPowerOfTwo x - 1 = mask m" using covers_full [of 32 "x - 1"] by auto
  then have e: "nextPowerOfTwo x = 2 ^ m" by (simp add: mask_eq_exp_minus_1)
  show ?thesis
  proof (cases "m = 32")
    case True then show ?thesis using e by simp
  next
    case False
    then have "m \<le> 31" using m(1) by simp
    moreover have "unat (2 ^ m :: u32) = 2 ^ m" by (rule unat_exp2) (use \<open>m \<le> 31\<close> in simp)
    ultimately show ?thesis using e by auto
  qed
qed

lemma at_least_1024:
  assumes "m = (if nextPowerOfTwo x < 1024 then 1024 else nextPowerOfTwo x)"
  shows "\<exists>k. 10 \<le> k \<and> k \<le> 31 \<and> unat m = 2 ^ k"
proof (cases "nextPowerOfTwo x < 1024")
  case True then show ?thesis using assms by (intro exI [of _ 10]) simp
next
  case False
  then obtain k where k: "k \<le> 31" "unat (nextPowerOfTwo x) = 2 ^ k" using nextPowerOfTwo_cases [of x] by auto
  have "(2::nat) ^ 10 \<le> 2 ^ k" using False k(2) by (simp add: word_less_nat_alt)
  then have "10 \<le> k" by (rule power_le_imp_le_exp [rotated]) simp
  then show ?thesis using False k assms by auto
qed

lemma unat_ucast_up: "unat (ucast (w :: u32) :: u64) = unat w"
proof -
  have "unat w < 2 ^ 32" using unsigned_less [of w] by simp
  then show ?thesis by (simp add: unsigned_ucast_eq take_bit_eq_mod)
qed

lemma length_newbv:
  assumes "10 \<le> k" "k \<le> 31" "unat m = 2 ^ k" shows "length (newbv m) = 2 ^ (k - 6)"
proof -
  have "(2::nat) ^ k \<le> 2 ^ 31" by (rule power_increasing) (use assms in simp_all)
  then have "unat (m + 63) = 2 ^ k + 63" using assms(3) by (simp add: unat_word_ariths)
  moreover have "unat ((ucast (m + 63) :: u64) div 64) = unat (m + 63) div 64" by (simp add: unat_div unat_ucast_up)
  moreover have "(2::nat) ^ k = 64 * 2 ^ (k - 6)" using assms(1) power_add [of "2::nat" 6 "k - 6"] by simp
  ultimately show ?thesis by (simp add: newbv_def)
qed

lemma EnsureCapacity_wf:
  assumes "nextPowerOfTwo (ucast cap) \<noteq> 0" "sle cap (bf_Capacity d) \<longrightarrow> bloom_wf d"
  shows "\<exists>d'. bf_EnsureCapacity logf cap d = Some d' \<and> bloom_wf d' \<and> (sle cap (bf_Capacity d) \<longrightarrow> d' = d) \<and>
    (\<not> sle cap (bf_Capacity d) \<longrightarrow> (\<forall>h. bf_Exist h d' = Some False))"
proof (cases "sle cap (bf_Capacity d)")
  case True
  then show ?thesis using assms(2) by (simp add: bf_EnsureCapacity_def)
next
  case False
  define cap' :: i64 where "cap' = ucast (nextPowerOfTwo (ucast cap))"
  have c0: "cap' \<noteq> 0"
  proof -
    have "unat cap' = unat (nextPowerOfTwo (ucast cap))" unfolding cap'_def by (rule unat_ucast_up)
    then show ?thesis using assms(1) by (metis unat_0_iff unsigned_0)
  qed
  obtain x k where E: "bf_EnsureCapacity logf cap d =
      Some (d\<lparr>bf_Capacity := cap', bf_M := (if nextPowerOfTwo x < 1024 then 1024 else nextPowerOfTwo x),
        Filter := newbv (if nextPowerOfTwo x < 1024 then 1024 else nextPowerOfTwo x), bf_K := (if k < 2 then 2 else k)\<rparr>)"
    using False c0 by (simp add: bf_EnsureCapacity_def Let_def flip: cap'_def)
  define m where "m = (if nextPowerOfTwo x < 1024 then 1024 else nextPowerOfTwo x)"
  define d' where "d' = d\<lparr>bf_Capacity := cap', bf_M := m, Filter := newbv m, bf_K := (if k < 2 then 2 else k)\<rparr>"
  obtain j where j: "10 \<le> j" "j \<le> 31" "unat m = 2 ^ j" using at_least_1024 [OF m_def] by blast
  have k: "2 \<le> unat (if k < 2 then 2 else k)" by (auto simp: word_less_nat_alt)
  have wf: "bloom_wf d'"
    unfolding bloom_wf_def using j k length_newbv [OF j] by (auto simp: d'_def)
  have "bf_Reset d' = d'" by (simp add: bf_Reset_def d'_def newbv_def map_replicate_const)
  then have "\<forall>h. bf_Exist h d' = Some False" using Reset_spec(2) [OF wf] by simp
  then show ?thesis using E wf False by (simp add: d'_def m_def)
qed

subsection \<open>The interface of a membership filter\<close>

fun insert_all :: "('h \<Rightarrow> 's \<Rightarrow> ('s \<times> bool) option) \<Rightarrow> 'h list \<Rightarrow> 's \<Rightarrow> 's option" where
  "insert_all f [] d = Some d"
| "insert_all f (h # hs) d = do { (d, _) \<leftarrow> f h d; insert_all f hs d }"

locale membership_filter =
  fixes ins :: "'h \<Rightarrow> 's \<Rightarrow> ('s \<times> bool) option" and exist :: "'h \<Rightarrow> 's \<Rightarrow> bool option"
    and wf :: "'s \<Rightarrow> bool"
  assumes ins_law: "wf d \<Longrightarrow> \<exists>d' r. ins h d = Some (d', r) \<and> exist h d = Some r \<and> wf d' \<and> exist h d' = Some True \<and>
    (\<forall>g. exist g d = Some True \<longrightarrow> exist g d' = Some True)"
begin

lemma insert_all_keeps:
  "wf d \<Longrightarrow> \<exists>d'. insert_all ins hs d = Some d' \<and> wf d' \<and> (\<forall>g. exist g d = Some True \<longrightarrow> exist g d' = Some True)"
proof (induction hs arbitrary: d)
  case (Cons h hs)
  obtain d1 r where "ins h d = Some (d1, r)" "wf d1" "\<forall>g. exist g d = Some True \<longrightarrow> exist g d1 = Some True"
    using ins_law [OF Cons.prems] by blast
  then show ?case using Cons.IH [of d1] by auto
qed simp

lemma no_false_negatives:
  "wf d \<Longrightarrow> \<exists>d'. insert_all ins hs d = Some d' \<and> wf d' \<and> (\<forall>h\<in>set hs. exist h d' = Some True)"
proof (induction hs arbitrary: d)
  case (Cons h hs)
  obtain d1 r where d1: "ins h d = Some (d1, r)" "wf d1" "exist h d1 = Some True" using ins_law [OF Cons.prems] by blast
  then show ?case using Cons.IH [of d1] insert_all_keeps [of d1 hs] by auto
qed simp

end

interpretation bloom: membership_filter bf_Insert bf_Exist bloom_wf
  by unfold_locales (rule Insert_spec)

lemma bf_New_wf: "\<exists>d. bf_New logf rate = Some d \<and> bloom_wf d \<and> (\<forall>h. bf_Exist h d = Some False)"
proof -
  have "nextPowerOfTwo (ucast (320 :: i64)) \<noteq> 0" "\<not> sle (320 :: i64) 0" by code_simp+
  then show ?thesis
    using EnsureCapacity_wf [of 320 "\<lparr>Filter = [], bf_M = 0, bf_K = 0, FalsePositiveRate = rate, bf_Capacity = 0\<rparr>" logf]
    by (auto simp: bf_New_def)
qed

text \<open>
  C35. The doorkeeper has no false negatives: after any sequence of \<open>Insert\<close>s into a new
  filter every inserted hash is reported by \<open>Exist\<close>, whatever the false positive rate and
  the rounding of the logarithm; no bit access is out of range.
\<close>

theorem bloom_no_false_negatives:
  "\<exists>d0 d. bf_New logf rate = Some d0 \<and> insert_all bf_Insert hs d0 = Some d \<and> (\<forall>h\<in>set hs. bf_Exist h d = Some True)"
proof -
  obtain d0 where "bf_New logf rate = Some d0" "bloom_wf d0" using bf_New_wf by blast
  then show ?thesis using bloom.no_false_negatives [of d0 hs] by auto
qed

lemma bloom_no_false_negatives_witness:
  "\<exists>d0 d. bf_New (\<lambda>x. if x = 2 then 69 / 100 else - 46 / 10) (1 / 100) = Some d0 \<and>
     insert_all bf_Insert [3, 5] d0 = Some d \<and> bf_Exist 3 d = Some True \<and> bf_Exist 5 d = Some True"
  using bloom_no_false_negatives [of "\<lambda>x. if x = 2 then 69 / 100 else - 46 / 10" "1 / 100" "[3, 5]"] by auto

text \<open>
  \<open>Insert\<close> returns whether the hash was already reported, keeps the filter
  well-formed, and \<open>Reset\<close> makes the filter report nothing.
\<close>

theorem bloom_insert_reset:
  assumes "bloom_wf d"
  shows "\<exists>d' r. bf_Insert h d = Some (d', r) \<and> bf_Exist h d = Some r \<and> bloom_wf d' \<and>
    bloom_wf (bf_Reset d') \<and> (\<forall>g. bf_Exist g (bf_Reset d') = Some False)"
  using Insert_spec [OF assms, of h] Reset_spec by blast

lemma bloom_insert_reset_witness:
  "\<exists>d d' r. bf_New (\<lambda>x. if x = 2 then 69 / 100 else - 46 / 10) (1 / 100) = Some d \<and> bf_Insert 3 d = Some (d', r) \<and>
     bf_Exist 3 (bf_Reset d') = Some False"
  using bloom_insert_reset bf_New_wf by metis

end
