(* ===== verification/Store.thy ===== *)
theory Store
  imports Tlfu_Evict Wheel_Advance Read_Buffer Bloom "HOL-Library.AList"
begin

text \<open>
  The store of internal/store.go: shards with their hash maps and doorkeepers, the
  removal path and the event handler of the maintenance goroutine. The state extends the
  policy's and the wheel's. A hash map is an association list with distinct keys. Each
  definition is the body of a critical section (under the shard's or the policy's mutex)
  and is atomic here. Entries are allocated at increasing addresses; \<open>sync.Pool\<close> may
  return any pooled entry or a new one, which the stream \<open>pool_pick\<close> decides. The calls of
  the removal listener are recorded in \<open>notified\<close>.
\<close>

record 'k Shard =
  hashmap :: "('k \<times> addr) list"
  dookeeper :: "Bloomfilter option"
  s_counter :: u64
  s_closed :: bool

record WriteBufItem =
  wb_entry :: "addr option"
  wb_costChange :: i64
  wb_code :: code
  wb_rechedule :: bool
  wb_fromNVM :: bool
  wb_hash :: u64

record SecondaryCacheItem =
  sc_entry :: addr
  sc_reason :: RemoveReason
  sc_shard :: nat

record ('k, 'v) store = "('k, 'v) wstate" +
  s_hasher :: "'k \<Rightarrow> u64"
  shards :: "'k Shard list"
  shardCount :: u64
  st_cap :: u64
  doorkeeper :: bool
  logf :: "rat \<Rightarrow> rat"
  entryPool :: "addr list option"
  pool_pick :: "nat \<Rightarrow> nat"
  pool_pos :: nat
  next_addr :: addr
  removalListener :: bool
  notified :: "('k \<times> 'v \<times> RemoveReason) list"
  secondaryCache :: bool
  secondaryCacheBuf :: "SecondaryCacheItem list"
  probability :: rat
  rg :: "nat \<Rightarrow> rat"
  rg_pos :: nat
  writeChan :: "WriteBufItem list"
  st_closed :: bool
  stripedBuffer :: "Buffer list"
  mask :: u32

subsection \<open>Shards\<close>

definition NewShard :: "(rat \<Rightarrow> rat) \<Rightarrow> bool \<Rightarrow> 'k Shard option" where
  "NewShard lg dk =
     do { d \<leftarrow> (if dk then map_option Some (bf_New lg (f64 (1 / 100))) else Some None);
          Some \<lparr>hashmap = [], dookeeper = d, s_counter = 0, s_closed = False\<rparr> }"

definition shard_set :: "(rat \<Rightarrow> rat) \<Rightarrow> 'k \<Rightarrow> addr \<Rightarrow> 'k Shard \<Rightarrow> 'k Shard option" where
  "shard_set lg k e s =
     (if s_closed s then Some s
      else
        let s = s\<lparr>hashmap := AList.update k e (hashmap s)\<rparr> in
        case dookeeper s of None \<Rightarrow> Some s
        | Some d \<Rightarrow>
            let ds = 20 * of_nat (length (hashmap s)) in
            if slt (bf_Capacity d) ds then
              do { d \<leftarrow> bf_EnsureCapacity lg ds d; Some (s\<lparr>dookeeper := Some d\<rparr>) }
            else Some s)"

definition shard_get :: "'k \<Rightarrow> 'k Shard \<Rightarrow> addr option" where
  "shard_get k s = (if s_closed s then None else map_of (hashmap s) k)"

definition shard_delete :: "('k, 'v) heap \<Rightarrow> addr \<Rightarrow> 'k Shard \<Rightarrow> 'k Shard \<times> bool" where
  "shard_delete h e s =
     (if s_closed s then (s, False)
      else case map_of (hashmap s) (key (h e)) of
             None \<Rightarrow> (s, False)
           | Some e' \<Rightarrow> if e' = e then (s\<lparr>hashmap := AList.delete (key (h e')) (hashmap s)\<rparr>, True) else (s, False))"

definition shard_len :: "'k Shard \<Rightarrow> nat" where
  "shard_len s = length (hashmap s)"

definition index :: "'k \<Rightarrow> ('k, 'v, 'z) store_scheme \<Rightarrow> u64 \<times> nat" where
  "index k st = (let base = s_hasher st k in (base, unat (base AND (shardCount st - 1))))"

definition set_shard :: "nat \<Rightarrow> 'k Shard \<Rightarrow> ('k, 'v, 'z) store_scheme \<Rightarrow> ('k, 'v, 'z) store_scheme" where
  "set_shard i s st = st\<lparr>shards := (shards st)[i := s]\<rparr>"

subsection \<open>Removal\<close>

text \<open>\<open>v0\<close> is the zero value of the value type.\<close>

definition postDelete :: "addr \<Rightarrow> ('k, 'v::zero, 'z) store_scheme \<Rightarrow> ('k, 'v, 'z) store_scheme" where
  "postDelete e st =
     (case entryPool st of None \<Rightarrow> st
      | Some p \<Rightarrow> st\<lparr>heap := modify e (\<lambda>x. x\<lparr>evalue := 0, flag := zero_flag\<rparr>) (heap st), entryPool := Some (e # p)\<rparr>)"

definition notify :: "'k \<Rightarrow> 'v \<Rightarrow> RemoveReason \<Rightarrow> ('k, 'v, 'z) store_scheme \<Rightarrow> ('k, 'v, 'z) store_scheme" where
  "notify k v r st = (if removalListener st then st\<lparr>notified := notified st @ [(k, v, r)]\<rparr> else st)"

text \<open>The offer of an evicted entry to the secondary cache's queue; the flag tells whether it was taken.\<close>

definition offer_secondary :: "addr \<Rightarrow> RemoveReason \<Rightarrow> nat \<Rightarrow> ('k, 'v, 'z) store_scheme \<Rightarrow> ('k, 'v, 'z) store_scheme \<times> bool" where
  "offer_secondary e reason i st =
     (if reason = EVICTED \<and> \<not> IsFromNVM (flag (heap st e)) \<and> secondaryCache st then
        let (rn, st) = (if probability st < 1 then (rg st (rg_pos st), st\<lparr>rg_pos := rg_pos st + 1\<rparr>) else (1, st)) in
        if rn \<le> probability st \<and> length (secondaryCacheBuf st) < 256 then
          (st\<lparr>secondaryCacheBuf := secondaryCacheBuf st @ [\<lparr>sc_entry = e, sc_reason = reason, sc_shard = i\<rparr>]\<rparr>, True)
        else (st, False)
      else (st, False))"

text \<open>The end of \<open>removeEntry\<close>: from the hash map, with the listener and the pool.\<close>

definition remove_from_map :: "addr \<Rightarrow> RemoveReason \<Rightarrow> nat \<Rightarrow> ('k, 'v::zero, 'z) store_scheme \<Rightarrow> ('k, 'v, 'z) store_scheme" where
  "remove_from_map e reason i st =
     (let (s, deleted) = shard_delete (heap st) e (shards st ! i); st = set_shard i s st in
      if deleted then
        postDelete e (notify (key (heap st e)) (evalue (heap st e)) reason st)
      else st)"

text \<open>The \<open>switch reason\<close> of \<open>removeEntry\<close>, after the entry has left the policy and the wheel.\<close>

definition removed_by :: "addr \<Rightarrow> RemoveReason \<Rightarrow> nat \<Rightarrow> ('k, 'v::zero, 'z) store_scheme \<Rightarrow> ('k, 'v, 'z) store_scheme" where
  "removed_by e reason i st =
     (if reason = REMOVED then
        let st = st\<lparr>heap := modify e (flag_update (SetDeleted True)) (heap st)\<rparr>
        in notify (key (heap st e)) (evalue (heap st e)) reason st
      else
        let (st, taken) = offer_secondary e reason i st
        in if taken then st else remove_from_map e reason i st)"

text \<open>\<open>policy.Remove(entry, false)\<close> does not use the callback, so any will do for it.\<close>

definition no_callback :: "('k, 'v, 'z) callback" where
  "no_callback e st = None"

definition removeEntry :: "addr \<Rightarrow> RemoveReason \<Rightarrow> ('k, 'v::zero, 'z) store_scheme \<Rightarrow> ('k, 'v, 'z) store_scheme option" where
  "removeEntry e reason st =
     (let st = st\<lparr>heap := modify e (flag_update (SetRemoved True)) (heap st)\<rparr>;
          i = snd (index (key (heap st e)) st);
          (now, st) = (if reason = EXPIRED then read_now st else (0, st)) in
      if i < length (shards st) then
        if reason = EXPIRED \<and> slt now (expire (heap st e)) then Some st
        else do {
          st \<leftarrow> (if m_prev (meta (heap st e)) \<noteq> None then tlfu_Remove no_callback e False st else Some st);
          h \<leftarrow> (if m_wheelPrev (meta (heap st e)) \<noteq> None then deschedule e (heap st) else Some (heap st));
          Some (removed_by e reason i (st\<lparr>heap := h\<rparr>)) }
      else None)"

end
