(* ===== verification/Store_Ops.thy ===== *)
theory Store_Ops
  imports Store
begin

text \<open>
  The operations of internal/store.go on top of the removal path: writing to a shard, the
  events sent to the policy, their handling by the maintenance goroutine, reading, and the
  clock tick. Sending to \<open>writeChan\<close> appends to it; that a send on a full channel waits is
  not part of the model.
\<close>

subsection \<open>Reading\<close>

text \<open>\<open>getFromShard\<close>: the entry, the value read (zero unless found) and whether it was found.\<close>

definition getFromShard :: "'k \<Rightarrow> nat \<Rightarrow> ('k, 'v::zero, 'z) store_scheme \<Rightarrow> (addr option \<times> 'v \<times> bool) \<times> ('k, 'v, 'z) store_scheme" where
  "getFromShard k i st =
     (case shard_get k (shards st ! i) of
        None \<Rightarrow> ((None, 0, False), st)
      | Some e \<Rightarrow>
          let ex = expire (heap st e);
              nowCached = NowNanoCached (tw_clock (timerwheel st));
              (expired, st) =
                (if ex \<noteq> 0 then
                   if sle (ex - nowCached) 0 then (True, st)
                   else if slt (ex - nowCached) 30000000000 then
                     let (now, st) = read_now st in (sle (ex - now) 0, st)
                   else (False, st)
                 else (False, st))
          in if expired then ((Some e, 0, False), st) else ((Some e, evalue (heap st e), True), st))"

text \<open>A random number of \<open>xruntime.Fastrand\<close>, from the stream of the state.\<close>

definition next_rnd :: "('k, 'v, 'z) pstate_scheme \<Rightarrow> u32 \<times> ('k, 'v, 'z) pstate_scheme" where
  "next_rnd st = (rnd st (rnd_pos st), st\<lparr>rnd_pos := rnd_pos st + 1\<rparr>)"

text \<open>\<open>hits.Add(1)\<close> and \<open>misses.Add(1)\<close>; the stripe is drawn at random.\<close>

definition count_hit :: "('k, 'v, 'z) pstate_scheme \<Rightarrow> ('k, 'v, 'z) pstate_scheme option" where
  "count_hit st =
     (let (idx, st) = next_rnd st
      in do { c \<leftarrow> counter_Add idx 1 (hits (policy st)); Some (st\<lparr>policy := (policy st)\<lparr>hits := c\<rparr>\<rparr>) })"

definition count_miss :: "('k, 'v, 'z) pstate_scheme \<Rightarrow> ('k, 'v, 'z) pstate_scheme option" where
  "count_miss st =
     (let (idx, st) = next_rnd st
      in do { c \<leftarrow> counter_Add idx 1 (misses (policy st)); Some (st\<lparr>policy := (policy st)\<lparr>misses := c\<rparr>\<rparr>) })"

definition getReadBufferIdx :: "('k, 'v, 'z) store_scheme \<Rightarrow> nat \<times> ('k, 'v, 'z) store_scheme" where
  "getReadBufferIdx st = (let (r, st) = next_rnd st in (unat (r AND mask st), st))"

text \<open>The body of the loop of \<open>drainRead\<close>, and the loop.\<close>

definition drainRead_item :: "ReadBufItem \<Rightarrow> ('k, 'v, 'z) store_scheme \<Rightarrow> ('k, 'v, 'z) store_scheme option" where
  "drainRead_item item st =
     (case rb_entry item of None \<Rightarrow> None
      | Some e \<Rightarrow>
          if entryPool st \<noteq> None \<and> s_hasher st (key (heap st e)) \<noteq> rb_hash item then Some st
          else if IsRemoved (flag (heap st e)) then Some st
          else tlfu_Access item st)"

fun drainRead :: "ReadBufItem list \<Rightarrow> ('k, 'v, 'z) store_scheme \<Rightarrow> ('k, 'v, 'z) store_scheme option" where
  "drainRead [] st = Some st"
| "drainRead (item # buf) st = do { st \<leftarrow> drainRead_item item st; drainRead buf st }"

text \<open>The end of a hit: the access is recorded in one stripe, and a full stripe is drained.\<close>

definition record_access :: "addr option \<Rightarrow> u64 \<Rightarrow> ('k, 'v, 'z) store_scheme \<Rightarrow> ('k, 'v, 'z) store_scheme option" where
  "record_access e h st =
     (let (idx, st) = getReadBufferIdx st in
      if idx < length (stripedBuffer st) then
        let (b, pb) = buffer_Add \<lparr>rb_entry = e, rb_hash = h\<rparr> (stripedBuffer st ! idx);
            st = st\<lparr>stripedBuffer := (stripedBuffer st)[idx := b]\<rparr>
        in case pb of None \<Rightarrow> Some st
           | Some items \<Rightarrow> do { st \<leftarrow> drainRead items st;
               Some (st\<lparr>stripedBuffer := (stripedBuffer st)[idx := buffer_Free (stripedBuffer st ! idx)]\<rparr>) }
      else None)"

definition store_Get :: "'k \<Rightarrow> ('k, 'v::zero, 'z) store_scheme \<Rightarrow> (('v \<times> bool) \<times> ('k, 'v, 'z) store_scheme) option" where
  "store_Get k st =
     (let (h, i) = index k st in
      if i < length (shards st) then
        let ((e, v, ok), st) = getFromShard k i st in
        if ok then do { st \<leftarrow> count_hit st; st \<leftarrow> record_access e h st; Some ((v, True), st) }
        else do { st \<leftarrow> count_miss st; Some ((v, False), st) }
      else None)"

subsection \<open>Writing to a shard\<close>

record setShardResult =
  sr_entry :: "addr option"
  sr_oldCost :: i64
  sr_exists :: bool
  sr_success :: bool
  sr_reschedule :: bool

definition alloc :: "('k::zero, 'v::zero, 'z) store_scheme \<Rightarrow> addr \<times> ('k, 'v, 'z) store_scheme" where
  "alloc st = (next_addr st, st\<lparr>heap := (heap st)(next_addr st := zero_entry), next_addr := next_addr st + 1\<rparr>)"

definition pool_Get :: "addr list \<Rightarrow> ('k::zero, 'v::zero, 'z) store_scheme \<Rightarrow> addr \<times> ('k, 'v, 'z) store_scheme" where
  "pool_Get p st =
     (let j = pool_pick st (pool_pos st); st = st\<lparr>pool_pos := pool_pos st + 1\<rparr> in
      if j < length p then (p ! j, st\<lparr>entryPool := Some (take j p @ drop (Suc j) p)\<rparr>) else alloc st)"

definition pool_Put :: "addr \<Rightarrow> ('k, 'v, 'z) store_scheme \<Rightarrow> ('k, 'v, 'z) store_scheme" where
  "pool_Put e st = st\<lparr>entryPool := map_option (\<lambda>p. e # p) (entryPool st)\<rparr>"

definition takeEntry :: "'k \<Rightarrow> ('k::zero, 'v::zero, 'z) store_scheme \<Rightarrow> addr \<times> ('k, 'v, 'z) store_scheme" where
  "takeEntry k st =
     (case entryPool st of None \<Rightarrow> alloc st
      | Some p \<Rightarrow>
          let (e, st) = pool_Get p st in
          if key (heap st e) = k then alloc (pool_Put e st) else (e, st))"

definition doorkeeper_check :: "u64 \<Rightarrow> 'k Shard \<Rightarrow> (bool \<times> 'k Shard) option" where
  "doorkeeper_check h s =
     do { d \<leftarrow> dookeeper s;
          let (d, c) = (if bf_Capacity d < s_counter s then (bf_Reset d, 0) else (d, s_counter s));
          (d, hit) \<leftarrow> bf_Insert h d;
          Some (hit, s\<lparr>dookeeper := Some d, s_counter := (if hit then c else c + 1)\<rparr>) }"

definition setShardWithoutLock :: "nat \<Rightarrow> u64 \<Rightarrow> 'k \<Rightarrow> 'v \<Rightarrow> i64 \<Rightarrow> i64 \<Rightarrow> ('k::zero, 'v::zero, 'z) store_scheme
    \<Rightarrow> (setShardResult \<times> ('k, 'v, 'z) store_scheme) option" where
  "setShardWithoutLock i h k v cost ex st =
     (let result = \<lparr>sr_entry = None, sr_oldCost = 0, sr_exists = False, sr_success = True, sr_reschedule = False\<rparr> in
      if s_closed (shards st ! i) then Some (result, st)
      else case shard_get k (shards st ! i) of
        Some e \<Rightarrow>
          let old = expire (heap st e);
              st = (if slt 0 ex then st\<lparr>heap := modify e (expire_update (\<lambda>_. ex)) (heap st)\<rparr> else st);
              oldw = weight (heap st e);
              st = st\<lparr>heap := modify e (\<lambda>x. x\<lparr>evalue := v, weight := cost\<rparr>) (heap st)\<rparr>
          in Some (result\<lparr>sr_entry := Some e, sr_exists := True, sr_reschedule := slt 0 ex \<and> old \<noteq> ex, sr_oldCost := oldw\<rparr>, st)
      | None \<Rightarrow>
          do { (admitted, s) \<leftarrow> (if doorkeeper st then doorkeeper_check h (shards st ! i) else Some (True, shards st ! i));
               let st = set_shard i s st;
               (if \<not> admitted then Some (result\<lparr>sr_success := False\<rparr>, st)
                else
                  let (e, st) = takeEntry k st;
                      st = st\<lparr>heap := modify e (\<lambda>x. x\<lparr>key := k, evalue := v, expire := ex, weight := cost, policyWeight := 0\<rparr>) (heap st)\<rparr>
                  in do { s \<leftarrow> shard_set (logf st) k e (shards st ! i);
                          Some (result\<lparr>sr_entry := Some e\<rparr>, set_shard i s st) }) })"

definition send :: "WriteBufItem \<Rightarrow> ('k, 'v, 'z) store_scheme \<Rightarrow> ('k, 'v, 'z) store_scheme" where
  "send item st = st\<lparr>writeChan := writeChan st @ [item]\<rparr>"

definition policyNewEntry :: "u64 \<Rightarrow> i64 \<Rightarrow> addr \<Rightarrow> bool \<Rightarrow> ('k, 'v, 'z) store_scheme \<Rightarrow> ('k, 'v, 'z) store_scheme" where
  "policyNewEntry h cost e fromNVM =
     send \<lparr>wb_entry = Some e, wb_costChange = cost, wb_code = NEW, wb_rechedule = False, wb_fromNVM = fromNVM, wb_hash = h\<rparr>"

definition policyUpdateEntry :: "addr \<Rightarrow> u64 \<Rightarrow> i64 \<Rightarrow> i64 \<Rightarrow> bool \<Rightarrow> ('k, 'v, 'z) store_scheme \<Rightarrow> ('k, 'v, 'z) store_scheme" where
  "policyUpdateEntry e h cost old resched =
     send \<lparr>wb_entry = Some e, wb_costChange = cost - old, wb_code = UPDATE, wb_rechedule = resched, wb_fromNVM = False, wb_hash = h\<rparr>"

definition toPolicy :: "setShardResult \<Rightarrow> u64 \<Rightarrow> i64 \<Rightarrow> bool \<Rightarrow> ('k, 'v, 'z) store_scheme \<Rightarrow> ('k, 'v, 'z) store_scheme" where
  "toPolicy r h cost nvmClean st =
     (case sr_entry r of None \<Rightarrow> st
      | Some e \<Rightarrow> if sr_exists r then policyUpdateEntry e h cost (sr_oldCost r) (sr_reschedule r) st
                else policyNewEntry h cost e nvmClean st)"

definition setInternal :: "'k \<Rightarrow> 'v \<Rightarrow> i64 \<Rightarrow> i64 \<Rightarrow> bool \<Rightarrow> ('k::zero, 'v::zero, 'z) store_scheme
    \<Rightarrow> (bool \<times> ('k, 'v, 'z) store_scheme) option" where
  "setInternal k v cost ex nvmClean st =
     (let (h, i) = index k st in
      if i < length (shards st) then
        do { (r, st) \<leftarrow> setShardWithoutLock i h k v cost ex st;
             Some (sr_success r, toPolicy r h cost nvmClean st) }
      else None)"

text \<open>\<open>costf\<close> is the cost function given to the builder.\<close>

definition store_Set :: "('v \<Rightarrow> i64) \<Rightarrow> 'k \<Rightarrow> 'v \<Rightarrow> i64 \<Rightarrow> i64 \<Rightarrow> ('k::zero, 'v::zero, 'z) store_scheme
    \<Rightarrow> (bool \<times> ('k, 'v, 'z) store_scheme) option" where
  "store_Set costf k v cost ttl st =
     (let cost = (if cost = 0 then costf v else cost) in
      if slt (st_cap st) cost then Some (False, st)
      else
        let (ex, st) = (if ttl \<noteq> 0 then (ExpireNano (clk st (clk_pos st)) ttl (tw_clock (timerwheel st)), st\<lparr>clk_pos := clk_pos st + 1\<rparr>)
                        else (0, st))
        in setInternal k v cost ex False st)"

definition store_Delete :: "'k \<Rightarrow> ('k, 'v, 'z) store_scheme \<Rightarrow> ('k, 'v, 'z) store_scheme option" where
  "store_Delete k st =
     (let (h, i) = index k st in
      if i < length (shards st) then
        case shard_get k (shards st ! i) of None \<Rightarrow> Some st
        | Some e \<Rightarrow>
            let st = set_shard i (fst (shard_delete (heap st) e (shards st ! i))) st
            in Some (send \<lparr>wb_entry = Some e, wb_costChange = 0, wb_code = REMOVE, wb_rechedule = False, wb_fromNVM = False, wb_hash = h\<rparr> st)
      else None)"

subsection \<open>The maintenance goroutine\<close>

definition sinkNew :: "addr \<Rightarrow> WriteBufItem \<Rightarrow> ('k, 'v::zero, 'z) store_scheme \<Rightarrow> ('k, 'v, 'z) store_scheme option" where
  "sinkNew e item st =
     (let st = st\<lparr>heap := modify e (flag_update (SetRemoved False)) (heap st)\<rparr>;
          ex = expire (heap st e);
          (now, st) = (if ex \<noteq> 0 then read_now st else (0, st)) in
      if ex \<noteq> 0 \<and> sle ex now then removeEntry e EXPIRED st
      else do {
        st \<leftarrow> (if ex \<noteq> 0 then schedule e st else Some st);
        (sk, _) \<leftarrow> sk_Add (wb_hash item) (sketch (policy st));
        let st = st\<lparr>policy := (policy st)\<lparr>sketch := sk\<rparr>, heap := reweigh e (wb_costChange item) (heap st)\<rparr>;
        tlfu_Set (\<lambda>a. removeEntry a EVICTED) e st })"

definition sinkUpdate :: "addr \<Rightarrow> WriteBufItem \<Rightarrow> ('k, 'v::zero, 'z) store_scheme \<Rightarrow> ('k, 'v, 'z) store_scheme option" where
  "sinkUpdate e item st =
     (if entryPool st \<noteq> None \<and> s_hasher st (key (heap st e)) \<noteq> wb_hash item then Some st
      else
        let st = st\<lparr>heap := reweigh e (wb_costChange item) (heap st)\<rparr> in
        do { st \<leftarrow> (if wb_rechedule item then schedule e st else Some st);
             (if m_prev (meta (heap st e)) = None then Some st
              else if wb_costChange item \<noteq> 0 then tlfu_UpdateCost (\<lambda>a. removeEntry a EVICTED) e (wb_costChange item) st
              else Some st) })"

definition sinkWrite :: "WriteBufItem \<Rightarrow> ('k, 'v::zero, 'z) store_scheme \<Rightarrow> ('k, 'v, 'z) store_scheme option" where
  "sinkWrite item st =
     (case wb_entry item of None \<Rightarrow> Some st
      | Some e \<Rightarrow>
          if IsDeleted (flag (heap st e)) then Some st
          else
            let st = (if wb_code item = REMOVE then st\<lparr>heap := modify e (flag_update (SetDeleted True)) (heap st)\<rparr> else st);
                st = (if wb_fromNVM item then st\<lparr>heap := modify e (flag_update (SetFromNVM True)) (heap st)\<rparr> else st)
            in if IsRemoved (flag (heap st e)) \<and> wb_code item \<noteq> NEW then Some st
               else (case wb_code item of
                 NEW \<Rightarrow> sinkNew e item st
               | REMOVE \<Rightarrow> removeEntry e REMOVED st
               | EVICTE \<Rightarrow> removeEntry e EVICTED st
               | UPDATE \<Rightarrow> sinkUpdate e item st
               | WAIT \<Rightarrow> Some st))"

text \<open>\<open>drainWrite\<close> handles a batch in order; \<open>wait\<close> counts the \<open>WAIT\<close> events to answer.\<close>

fun drainWrite :: "WriteBufItem list \<Rightarrow> nat \<Rightarrow> ('k, 'v::zero, 'z) store_scheme \<Rightarrow> (('k, 'v, 'z) store_scheme \<times> nat) option" where
  "drainWrite [] wait st = Some (st, wait)"
| "drainWrite (item # buf) wait st =
     (if wb_code item = WAIT then drainWrite buf (wait + 1) st
      else do { st \<leftarrow> sinkWrite item st; drainWrite buf wait st })"

text \<open>The ticker branch of \<open>maintenance\<close>.\<close>

definition maintenance_tick :: "('k, 'v::zero, 'z) store_scheme \<Rightarrow> ('k, 'v, 'z) store_scheme option" where
  "maintenance_tick st =
     (let st = st\<lparr>timerwheel := (timerwheel st)\<lparr>tw_clock := RefreshNowCache (clk st (clk_pos st)) (tw_clock (timerwheel st))\<rparr>,
                  clk_pos := clk_pos st + 1\<rparr>
      in if st_closed st then Some st else advance removeEntry 0 st)"

subsection \<open>Whole-store reads\<close>

definition store_Len :: "('k, 'v, 'z) store_scheme \<Rightarrow> nat" where
  "store_Len st = sum_list (map shard_len (shards st))"

definition EstimatedSize :: "('k, 'v, 'z) store_scheme \<Rightarrow> i64" where
  "EstimatedSize st = Len (window (policy st)) + Len (protected (slru (policy st))) + Len (probation (slru (policy st)))"

definition store_Close :: "('k, 'v, 'z) store_scheme \<Rightarrow> ('k, 'v, 'z) store_scheme" where
  "store_Close st = st\<lparr>shards := map (\<lambda>s. s\<lparr>s_closed := True, hashmap := []\<rparr>) (shards st), st_closed := True\<rparr>"

definition store_Stats :: "('k, 'v, 'z) store_scheme \<Rightarrow> Stats" where
  "store_Stats st = newStats (counter_Value (hits (policy st))) (counter_Value (misses (policy st)))"

end
