(* ===== verification/Policy_Size.thy ===== *)
theory Policy_Size
  imports Tlfu_Evict
begin

text \<open>
  The true size of the policy: the sum of the weights of its entries as a natural number.
  The counters of the code are 64-bit words; as long as the true size is below \<open>2 ^ 64\<close>
  the counter \<open>weightedSize\<close> is exact, and one operation cannot leave that range.
\<close>

definition tsize :: "('k, 'v) heap \<Rightarrow> (pqueue \<Rightarrow> addr list) \<Rightarrow> nat" where
  "tsize h X = sum_list (map (\<lambda>e. unat (policyWeight (h e))) (X QWindow @ X QProbation @ X QProtected))"

lemma wsum_unat: "wsum h xs = of_nat (sum_list (map (\<lambda>e. unat (policyWeight (h e))) xs))"
  by (induction xs) simp_all

lemma total_tsize: "total h X = of_nat (tsize h X)"
  by (simp add: total_def tsize_def wsum_unat)

lemma reps_lists:
  assumes "reps h T X"
  shows "distinct (X QWindow @ X QProbation @ X QProtected)" "set (X QWindow @ X QProbation @ X QProtected) = all_entries X"
    "entry_count X = card (all_entries X)"
proof -
  have d: "set (X p) \<inter> set (X q) = {}" if "p \<noteq> q" for p q using reps_disjoint [OF assms] that by blast
  show dis: "distinct (X QWindow @ X QProbation @ X QProtected)" 
    using reps_distinct [OF assms] d [of QWindow QProbation] d [of QWindow QProtected] d [of QProbation QProtected] by auto
  show s: "set (X QWindow @ X QProbation @ X QProtected) = all_entries X" by (auto simp: all_entries_def UNIV_pqueue)
  show "entry_count X = card (all_entries X)" using distinct_card [OF dis] s by (simp add: entry_count_def)
qed

lemma tsize_sum: "reps h T X \<Longrightarrow> tsize h X = (\<Sum>e\<in>all_entries X. unat (policyWeight (h e)))"
  unfolding tsize_def using reps_lists [of h T X] by (metis sum_list_distinct_conv_sum_set)

lemma finite_entries [simp]: "finite (all_entries X)"
  by (simp add: all_entries_def UNIV_pqueue)

lemma tsize_le:
  assumes "reps h' T' X'" "reps h T X" "all_entries X' \<subseteq> insert e (all_entries X)"
    "\<And>a. a \<noteq> e \<Longrightarrow> policyWeight (h' a) = policyWeight (h a)"
  shows "tsize h' X' \<le> tsize h X + unat (policyWeight (h' e))"
proof -
  let ?w = "\<lambda>h a. unat (policyWeight (h a))"
  have "tsize h' X' \<le> (\<Sum>a\<in>insert e (all_entries X - {e}). ?w h' a)"
    unfolding tsize_sum [OF assms(1)] using assms(3) by (intro sum_mono2) auto
  also have "\<dots> = (\<Sum>a\<in>all_entries X - {e}. ?w h' a) + ?w h' e" by (subst sum.insert) auto
  also have "(\<Sum>a\<in>all_entries X - {e}. ?w h' a) = (\<Sum>a\<in>all_entries X - {e}. ?w h a)"
    using assms(4) by (intro sum.cong) auto
  also have "\<dots> \<le> tsize h X" unfolding tsize_sum [OF assms(2)] by (intro sum_mono2) auto
  finally show ?thesis by simp
qed

lemma tsize_subset:
  assumes "reps h' T' X'" "reps h T X" "all_entries X' \<subseteq> all_entries X" "\<And>a. policyWeight (h' a) = policyWeight (h a)"
  shows "tsize h' X' \<le> tsize h X"
  unfolding tsize_sum [OF assms(1)] tsize_sum [OF assms(2)] using assms(3,4) by (simp add: sum_mono2)

lemma weightedSize_exact:
  assumes "policy_ok st X" "tsize (heap st) X < 2 ^ 64"
  shows "unat (weightedSize (policy st)) = tsize (heap st) X"
  using assms unat_eq_of_nat64 [of "of_nat (tsize (heap st) X)" "tsize (heap st) X"]
  by (simp add: policy_ok_def policy_inv_def total_tsize)

lemma policy_ok_parts:
  assumes "policy_ok st X"
  shows "reps (heap st) (plist (policy st)) X" "unat (capacity (policy st)) < 2 ^ 63"
    "e \<in> all_entries X \<Longrightarrow> 0 \<le> sint (policyWeight (heap st e))" "sketch_wf (sketch (policy st))"
  using assms by (simp_all add: policy_ok_def policy_inv_def climber_ok_def nonneg_def)

lemma nonneg_unat: "0 \<le> sint (w :: i64) \<Longrightarrow> unat w < 2 ^ 63"
  by (simp only: sint_nonneg64)

lemma tsize_cong: "(\<And>a. a \<in> all_entries X \<Longrightarrow> policyWeight (h' a) = policyWeight (h a)) \<Longrightarrow> tsize h' X = tsize h X"
  unfolding tsize_def by (intro arg_cong [of _ _ sum_list] map_cong) (auto simp: all_entriesI)

text \<open>The size after an operation that adds or reweighs one entry and then evicts.\<close>

lemma size_within:
  assumes k: "policy_ok st X" "tsize (heap st) X \<le> unat (capacity (policy st))"
    and k': "policy_ok st' X'" "weightedSize (policy st') \<le> capacity (policy st')" "capacity (policy st') = capacity (policy st)"
    and e: "all_entries X' \<subseteq> insert e (all_entries X)" "\<And>a. a \<noteq> e \<Longrightarrow> policyWeight (heap st' a) = policyWeight (heap st a)"
      "0 \<le> sint (policyWeight (heap st' e))"
  shows "tsize (heap st') X' \<le> unat (capacity (policy st'))"
proof -
  have "tsize (heap st') X' \<le> tsize (heap st) X + unat (policyWeight (heap st' e))"
    by (rule tsize_le [OF policy_ok_parts(1) [OF k'(1)] policy_ok_parts(1) [OF k(1)] e(1,2)])
  also have "\<dots> < 2 ^ 63 + 2 ^ 63" using k(2) policy_ok_parts(2) [OF k(1)] nonneg_unat [OF e(3)] by linarith
  finally have "tsize (heap st') X' < 2 ^ 64" by simp
  then show ?thesis using weightedSize_exact [OF k'(1)] k'(2) by (simp add: word_le_nat_alt)
qed

end
