(* ===== verification/Store_Removal.thy ===== *)
theory Store_Removal
  imports Store_Ops Policy_Size
begin

text \<open>
  The removal path of the store keeps the store's invariant, which makes \<open>removeEntry\<close>
  the callback that the policy and the timer wheel rely on: the two interface locales are
  interpreted for it.
\<close>

definition shard_inv :: "('k, 'v, 'z) store_scheme \<Rightarrow> nat \<Rightarrow> bool" where
  "shard_inv st i \<longleftrightarrow> (let s = shards st ! i in distinct (map fst (hashmap s)) \<and> (s_closed s \<longrightarrow> hashmap s = []) \<and>
     (\<forall>(k, e)\<in>set (hashmap s). key (heap st e) = k \<and> snd (index k st) = i \<and> \<not> IsRoot (flags (heap st) e)))"

definition map_inv :: "('k, 'v, 'z) store_scheme \<Rightarrow> bool" where
  "map_inv st \<longleftrightarrow> (\<exists>m<64. unat (shardCount st) = 2 ^ m) \<and> length (shards st) = unat (shardCount st) \<and>
     (\<forall>i<length (shards st). shard_inv st i)"

definition unmapped :: "('k, 'v, 'z) store_scheme \<Rightarrow> addr \<Rightarrow> bool" where
  "unmapped st e \<longleftrightarrow> (\<forall>s\<in>set (shards st). e \<notin> snd ` set (hashmap s))"

text \<open>An evicted entry has left the hash maps or waits in the queue of the secondary cache.\<close>

definition gone_from_store :: "('k, 'v, 'z) store_scheme \<Rightarrow> addr \<Rightarrow> bool" where
  "gone_from_store st e \<longleftrightarrow> unmapped st e \<or> e \<in> sc_entry ` set (secondaryCacheBuf st)"

definition store_side :: "('k, 'v, 'z) store_scheme \<Rightarrow> bool" where
  "store_side st \<longleftrightarrow> map_inv st \<and> (\<exists>R. wreps (heap st) (timerwheel st) R)"

lemma index_lt: "map_inv st \<Longrightarrow> snd (index k st) < length (shards st)"
proof -
  assume "map_inv st"
  then obtain m where m: "unat (shardCount st) = 2 ^ m" "length (shards st) = 2 ^ m" by (auto simp: map_inv_def)
  show ?thesis using unat_and_pow2_minus_1 [OF m(1), of "s_hasher st k"] m(2) by (simp add: index_def Let_def)
qed

lemma map_inv_cong:
  assumes "map_inv st" "shards st' = shards st" "shardCount st' = shardCount st" "s_hasher st' = s_hasher st"
    "\<And>a. key (heap st' a) = key (heap st a)" "\<And>a. IsRoot (flags (heap st') a) = IsRoot (flags (heap st) a)"
  shows "map_inv st'"
  using assms by (simp add: map_inv_def shard_inv_def index_def Let_def)

lemma unmapped_cong: "shards st' = shards st \<Longrightarrow> unmapped st' = unmapped st"
  by (simp add: unmapped_def fun_eq_iff)

text \<open>Deleting from the map of the entry's own shard.\<close>

lemma shard_delete_spec:
  assumes M: "map_inv st" and i: "i = snd (index (key (heap st e)) st)"
    and d: "shard_delete (heap st) e (shards st ! i) = (s, deleted)"
  shows "map_inv (set_shard i s st)" "unmapped (set_shard i s st) e" "unmapped st a \<Longrightarrow> unmapped (set_shard i s st) a"
    "deleted \<longleftrightarrow> shard_get (key (heap st e)) (shards st ! i) = Some e"
    "shard_get k s = (if deleted \<and> k = key (heap st e) then None else shard_get k (shards st ! i))"
proof -
  have il: "i < length (shards st)" unfolding i by (rule index_lt [OF M])
  let ?s = "shards st ! i" and ?k = "key (heap st e)"
  have inv: "distinct (map fst (hashmap ?s))" "s_closed ?s \<Longrightarrow> hashmap ?s = []"
    and ent: "\<And>k a. (k, a) \<in> set (hashmap ?s) \<Longrightarrow> key (heap st a) = k \<and> snd (index k st) = i \<and> \<not> IsRoot (flags (heap st) a)"
    using M il by (auto simp: map_inv_def shard_inv_def Let_def)
  have sub: "set (hashmap s) \<subseteq> set (hashmap ?s)" "s_closed s = s_closed ?s" "distinct (map fst (hashmap s))"
    using d inv(1) by (auto simp: shard_delete_def AList.delete_eq distinct_map_filter split: if_splits option.splits)
  have ne: "(k, e) \<notin> set (hashmap s)" for k
    using d ent [of k e] map_of_is_SomeI [OF inv(1), of k e] inv(2)
    by (auto simp: shard_delete_def AList.delete_eq split: if_splits option.splits)
  have nth: "shards (set_shard i s st) ! j = (if j = i then s else shards st ! j)" if "j < length (shards st)" for j
    using that il by (simp add: set_shard_def nth_list_update)
  have eq: "heap (set_shard i s st) = heap st" "index k (set_shard i s st) = index k st" "length (shards (set_shard i s st)) = length (shards st)"
    "shardCount (set_shard i s st) = shardCount st" for k
    by (simp_all add: set_shard_def index_def)
  have "shard_inv (set_shard i s st) j" if "j < length (shards st)" for j
  proof (cases "j = i")
    case True
    then show ?thesis unfolding shard_inv_def Let_def eq nth [OF that] using sub ent inv(2) by auto
  next
    case False
    then show ?thesis using M that nth [OF that] unfolding map_inv_def shard_inv_def Let_def eq by simp
  qed
  then show "map_inv (set_shard i s st)" using M by (simp add: map_inv_def eq)
  have other: "e \<notin> snd ` set (hashmap (shards st ! j))" if "j < length (shards st)" "j \<noteq> i" for j
    using M that i by (force simp: map_inv_def shard_inv_def Let_def)
  show "unmapped (set_shard i s st) e" unfolding unmapped_def
  proof
    fix t assume "t \<in> set (shards (set_shard i s st))"
    then obtain j where "j < length (shards st)" "t = (if j = i then s else shards st ! j)" using nth eq(3) by (metis in_set_conv_nth)
    then show "e \<notin> snd ` set (hashmap t)" using ne other [of j] by (cases "j = i") auto
  qed
  show "unmapped (set_shard i s st) a" if "unmapped st a"
    using that sub(1) il set_update_subset_insert [of "shards st" i s] nth_mem [OF il]
    by (fastforce simp: unmapped_def set_shard_def)
  show "deleted \<longleftrightarrow> shard_get ?k ?s = Some e"
    using d by (auto simp: shard_delete_def shard_get_def split: if_splits option.splits)
  show "shard_get k s = (if deleted \<and> k = ?k then None else shard_get k ?s)"
    using d by (auto simp: shard_delete_def shard_get_def AList.delete_conv' split: if_splits option.splits)
qed

text \<open>What the policy and the wheel see is not changed by the store's own flags and values.\<close>

definition same_links :: "('k, 'v) heap \<Rightarrow> ('k, 'v) heap \<Rightarrow> bool" where
  "same_links h h' \<longleftrightarrow> pview h' = pview h \<and> wview h' = wview h \<and> (\<forall>a. key (h' a) = key (h a))"

lemma same_links_refl [simp]: "same_links h h"
  by (simp add: same_links_def)

lemma same_links_trans: "same_links a b \<Longrightarrow> same_links b c \<Longrightarrow> same_links a c"
  by (simp add: same_links_def)

lemma same_links_modify:
  assumes "\<And>x. policyWeight (f x) = policyWeight x" "\<And>x. meta (f x) = meta x" "\<And>x. key (f x) = key x" "\<And>x. expire (f x) = expire x"
    "IsRoot (flag (f (h e))) = IsRoot (flag (h e))" "\<And>q. in_queue q (flag (f (h e))) = in_queue q (flag (h e))"
  shows "same_links h (modify e f h)"
  using assms by (auto simp: same_links_def pview_def wview_def modify_def nxt_def prv_def e_next_def e_prev_def flags_def fun_eq_iff)

lemma same_links_flag:
  "same_links h (modify e (flag_update (SetRemoved b)) h)" "same_links h (modify e (flag_update (SetDeleted b)) h)"
  "same_links h (modify e (flag_update (SetFromNVM b)) h)"
  by (rule same_links_modify; simp; case_tac q; simp)+

subsection \<open>What maintenance may change\<close>

text \<open>
  The guarantee that every step of the maintenance side gives to the clients: from \<open>st0\<close> to
  \<open>st\<close> bindings may only disappear, an entry still bound has its value, and the fields the
  clients own are untouched. Flags are only ever set, unless entries are pooled.
\<close>

definition shard_evolves :: "'k Shard \<Rightarrow> 'k Shard \<Rightarrow> bool" where
  "shard_evolves s0 s \<longleftrightarrow> dookeeper s = dookeeper s0 \<and> s_counter s = s_counter s0 \<and> s_closed s = s_closed s0 \<and>
     (\<forall>k e. map_of (hashmap s) k = Some e \<longrightarrow> map_of (hashmap s0) k = Some e) \<and> set (hashmap s) \<subseteq> set (hashmap s0) \<and>
     length (hashmap s) \<le> length (hashmap s0)"

definition client_fields where
  "client_fields st = (shardCount st, s_hasher st, next_addr st, writeChan st, st_closed st, stripedBuffer st, mask st, st_cap st,
     doorkeeper st, logf st, removalListener st, length (shards st))"

definition entry_evolves :: "bool \<Rightarrow> ('k, 'v) Entry \<Rightarrow> ('k, 'v) Entry \<Rightarrow> bool" where
  "entry_evolves pooled x0 x \<longleftrightarrow> key x = key x0 \<and> weight x = weight x0 \<and> expire x = expire x0 \<and> IsRoot (flag x) = IsRoot (flag x0) \<and>
     (\<not> pooled \<longrightarrow> evalue x = evalue x0 \<and> (IsRemoved (flag x0) \<longrightarrow> IsRemoved (flag x)) \<and> (IsDeleted (flag x0) \<longrightarrow> IsDeleted (flag x)))"

definition evolves :: "('k, 'v, 'z) store_scheme \<Rightarrow> ('k, 'v, 'z) store_scheme \<Rightarrow> bool" where
  "evolves st0 st \<longleftrightarrow> client_fields st = client_fields st0 \<and> (entryPool st0 = None \<longleftrightarrow> entryPool st = None) \<and>
     (\<forall>i<length (shards st0). shard_evolves (shards st0 ! i) (shards st ! i)) \<and>
     (\<forall>a. entry_evolves (entryPool st0 \<noteq> None) (heap st0 a) (heap st a)) \<and>
     (\<forall>a. \<not> unmapped st a \<longrightarrow> evalue (heap st a) = evalue (heap st0 a))"

lemma shard_evolves_refl [simp]: "shard_evolves s s"
  by (simp add: shard_evolves_def)

lemma evolves_refl [simp]: "evolves st st"
  by (simp add: evolves_def entry_evolves_def)

lemma evolves_unmapped:
  assumes "evolves st0 st" "unmapped st0 a" shows "unmapped st a"
proof -
  have l: "length (shards st) = length (shards st0)" using assms(1) by (simp add: evolves_def client_fields_def)
  have "a \<notin> snd ` set (hashmap (shards st ! i))" if "i < length (shards st)" for i
  proof -
    have "shard_evolves (shards st0 ! i) (shards st ! i)" "a \<notin> snd ` set (hashmap (shards st0 ! i))"
      using assms that l nth_mem [of i "shards st0"] by (simp_all add: evolves_def unmapped_def)
    then show ?thesis unfolding shard_evolves_def by (meson image_mono subsetD)
  qed
  then show ?thesis unfolding unmapped_def by (metis in_set_conv_nth)
qed

lemma evolves_trans:
  assumes "evolves a b" "evolves b c" shows "evolves a c"
proof -
  have "shard_evolves (shards a ! i) (shards c ! i)" if "i < length (shards a)" for i
  proof -
    have "length (shards b) = length (shards a)" using assms by (simp add: evolves_def client_fields_def)
    then have "shard_evolves (shards a ! i) (shards b ! i)" "shard_evolves (shards b ! i) (shards c ! i)"
      using assms that by (simp_all add: evolves_def)
    then show ?thesis unfolding shard_evolves_def by auto
  qed
  moreover have "evalue (heap c x) = evalue (heap a x)" if "\<not> unmapped c x" for x
    using that assms evolves_unmapped [OF assms(2), of x] by (auto simp: evolves_def)
  ultimately show ?thesis using assms by (auto simp: evolves_def entry_evolves_def)
qed

definition removal :: "('k, 'v, 'z) store_scheme \<Rightarrow> addr \<Rightarrow> ('k, 'v, 'z) store_scheme \<Rightarrow> bool" where
  "removal st e st' \<longleftrightarrow> evolves st st' \<and> (entryPool st = None \<longrightarrow> IsRemoved (flags (heap st') e))"

text \<open>A step that leaves the maps alone.\<close>

lemma evolves_heap:
  assumes "client_fields st' = client_fields st" "entryPool st' = entryPool st" "shards st' = shards st"
    "\<And>a. entry_evolves False (heap st a) (heap st' a)"
  shows "evolves st st'"
proof -
  have "entry_evolves b (heap st a) (heap st' a)" "evalue (heap st' a) = evalue (heap st a)" for a b
    using assms(4) [of a] by (simp_all add: entry_evolves_def)
  then show ?thesis using assms(1-3) by (simp add: evolves_def)
qed

lemma entry_evolves_frame:
  "pframe h h' \<Longrightarrow> entry_evolves b (h a) (h' a)" "wframe h h' \<Longrightarrow> entry_evolves b (h a) (h' a)"
proof -
  show "entry_evolves b (h a) (h' a)" if "pframe h h'"
    using pframe_fields(1-5,8,9) [OF that, of a] that by (simp add: entry_evolves_def flags_def pframe_def store_flags_def)
  show "entry_evolves b (h a) (h' a)" if "wframe h h'"
    using wframe_fields(1-5) [OF that, of a] fun_cong [OF wframe_fields(8) [OF that], of a] by (simp add: entry_evolves_def flags_def)
qed

lemma evolves_pframe: "pframe (heap st) h \<Longrightarrow> evolves st (st\<lparr>heap := h, policy := t, rnd_pos := n\<rparr>)"
  by (rule evolves_heap) (simp_all add: client_fields_def entry_evolves_frame)

lemma evolves_wframe: "wframe (heap st) h \<Longrightarrow> evolves st (st\<lparr>heap := h, timerwheel := tw, clk_pos := c\<rparr>)"
  by (rule evolves_heap) (simp_all add: client_fields_def entry_evolves_frame)

subsection \<open>The end of a removal\<close>

definition no_queue :: "('k, 'v) heap \<Rightarrow> addr \<Rightarrow> bool" where
  "no_queue h e \<longleftrightarrow> \<not> IsRoot (flags h e) \<and> (\<forall>q. \<not> in_queue q (flags h e))"

text \<open>What the rest of \<open>removeEntry\<close> keeps of the state.\<close>

definition settles :: "('k, 'v, 'z) store_scheme \<Rightarrow> ('k, 'v, 'z) store_scheme \<Rightarrow> bool" where
  "settles st st' \<longleftrightarrow> map_inv st' \<and> same_links (heap st) (heap st') \<and> policy st' = policy st \<and> timerwheel st' = timerwheel st \<and>
     evolves st st' \<and> set (secondaryCacheBuf st) \<subseteq> set (secondaryCacheBuf st')"

lemma map_inv_same_links:
  assumes "map_inv st" "same_links (heap st) (heap st')" "shards st' = shards st" "shardCount st' = shardCount st" "s_hasher st' = s_hasher st"
  shows "map_inv st'"
proof (rule map_inv_cong [OF assms(1,3-5)])
  fix a
  show "key (heap st' a) = key (heap st a)" using assms(2) by (simp add: same_links_def)
  have "wview (heap st') a = wview (heap st) a" using assms(2) by (simp add: same_links_def)
  then show "IsRoot (flags (heap st') a) = IsRoot (flags (heap st) a)" by (simp add: wview_def)
qed

lemma same_links_postDelete:
  "no_queue h e \<Longrightarrow> same_links h (modify e (\<lambda>x. x\<lparr>evalue := 0, flag := zero_flag\<rparr>) h)"
  by (rule same_links_modify; simp add: no_queue_def flags_def; case_tac q; simp)

lemma shard_delete_evolves: "shard_delete h e s = (s', d) \<Longrightarrow> shard_evolves s s'"
proof -
  assume d: "shard_delete h e s = (s', d)"
  have sub: "set (AList.delete k xs) \<subseteq> set xs" and "length (AList.delete k xs) \<le> length xs" for k and xs :: "('a \<times> addr) list"
    by (auto simp: AList.delete_eq)
  then show ?thesis using d by (auto simp: shard_delete_def shard_evolves_def AList.delete_conv' dest: subsetD [OF sub] split: if_splits option.splits)
qed

lemma remove_from_map_evolves:
  assumes M: "map_inv st" and i: "i = snd (index (key (heap st e)) st)" and q: "no_queue (heap st) e"
  shows "evolves st (remove_from_map e reason i st)"
proof -
  obtain s deleted where d: "shard_delete (heap st) e (shards st ! i) = (s, deleted)" by fastforce
  note D = shard_delete_spec [OF M i d]
  let ?st = "set_shard i s st" and ?st' = "remove_from_map e reason i st"
  have f: "client_fields ?st' = client_fields st" "shards ?st' = (shards st)[i := s]" "entryPool ?st' = None \<longleftrightarrow> entryPool st = None"
    by (auto simp: remove_from_map_def d postDelete_def notify_def set_shard_def Let_def client_fields_def split: option.split)
  have h: "heap ?st' = (if entryPool st \<noteq> None \<and> deleted then modify e (\<lambda>x. x\<lparr>evalue := 0, flag := zero_flag\<rparr>) (heap st) else heap st)"
    by (auto simp: remove_from_map_def d postDelete_def notify_def set_shard_def Let_def split: option.split)
  have "unmapped ?st' e" using D(2) f(2) by (simp add: unmapped_def set_shard_def)
  then have "evalue (heap ?st' a) = evalue (heap st a)" if "\<not> unmapped ?st' a" for a using that by (auto simp: h modify_def)
  moreover have "entry_evolves (entryPool st \<noteq> None) (heap st a) (heap ?st' a)" for a
    using q by (auto simp: h modify_def entry_evolves_def no_queue_def flags_def)
  moreover have "shard_evolves (shards st ! j) (shards ?st' ! j)" if "j < length (shards st)" for j
    using shard_delete_evolves [OF d] that by (cases "j = i") (simp_all add: f(2))
  ultimately show ?thesis using f by (simp add: evolves_def)
qed

lemma remove_from_map_spec:
  assumes M: "map_inv st" and i: "i = snd (index (key (heap st e)) st)" and q: "no_queue (heap st) e"
  shows "settles st (remove_from_map e reason i st)" "unmapped (remove_from_map e reason i st) e"
    "secondaryCacheBuf (remove_from_map e reason i st) = secondaryCacheBuf st"
proof -
  obtain s deleted where d: "shard_delete (heap st) e (shards st ! i) = (s, deleted)" by fastforce
  note D = shard_delete_spec [OF M i d]
  let ?st = "set_shard i s st" and ?st' = "remove_from_map e reason i st"
  have f: "shards ?st' = shards ?st" "shardCount ?st' = shardCount ?st" "s_hasher ?st' = s_hasher ?st" "policy ?st' = policy st"
    "timerwheel ?st' = timerwheel st" "secondaryCacheBuf ?st' = secondaryCacheBuf st"
    by (simp_all add: remove_from_map_def d postDelete_def notify_def set_shard_def Let_def split: option.split)
  have l: "same_links (heap ?st) (heap ?st')"
    using same_links_postDelete [OF q] by (simp add: remove_from_map_def d postDelete_def notify_def set_shard_def Let_def split: option.split)
  show "settles st ?st'"
    unfolding settles_def using map_inv_same_links [OF D(1) l f(1-3)] l f remove_from_map_evolves [OF M i q] by (simp add: set_shard_def)
  show "unmapped ?st' e" using D(2) unmapped_cong [OF f(1)] by simp
  show "secondaryCacheBuf ?st' = secondaryCacheBuf st" by (rule f)
qed

lemma offer_secondary_spec:
  assumes "offer_secondary e reason i st = (st', taken)"
  shows "heap st' = heap st" "policy st' = policy st" "timerwheel st' = timerwheel st" "shards st' = shards st" "shardCount st' = shardCount st"
    "s_hasher st' = s_hasher st" "set (secondaryCacheBuf st) \<subseteq> set (secondaryCacheBuf st')"
    "taken \<Longrightarrow> reason = EVICTED \<and> e \<in> sc_entry ` set (secondaryCacheBuf st')"
    "client_fields st' = client_fields st" "entryPool st' = entryPool st"
  using assms by (auto simp: offer_secondary_def Let_def client_fields_def split: if_splits)

lemma settles_trans: "settles a b \<Longrightarrow> settles b c \<Longrightarrow> settles a c"
  using same_links_trans [of "heap a" "heap b" "heap c"] evolves_trans [of a b c] by (auto simp: settles_def)

lemma settles_frame:
  assumes "map_inv st" "same_links (heap st) (heap st')" "policy st' = policy st" "timerwheel st' = timerwheel st" "shards st' = shards st"
    "client_fields st' = client_fields st" "entryPool st' = entryPool st" "set (secondaryCacheBuf st) \<subseteq> set (secondaryCacheBuf st')"
    "\<And>a. entry_evolves False (heap st a) (heap st' a)"
  shows "settles st st'"
  using assms map_inv_same_links [OF assms(1,2,5)] evolves_heap [of st' st] by (simp add: settles_def client_fields_def)

lemma entry_evolves_flag:
  "entry_evolves False (h a) (modify e (flag_update (SetRemoved True)) h a)" "entry_evolves False (h a) (modify e (flag_update (SetDeleted True)) h a)"
  "entry_evolves False (h a) (modify e (flag_update (SetFromNVM True)) h a)" "entry_evolves False (h a) (h a)"
  by (simp_all add: entry_evolves_def modify_def)

lemma removed_by_spec:
  assumes M: "map_inv st" and i: "i = snd (index (key (heap st e)) st)" and q: "no_queue (heap st) e"
  shows "settles st (removed_by e reason i st)" "reason \<noteq> REMOVED \<Longrightarrow> gone_from_store (removed_by e reason i st) e"
proof -
  obtain st1 taken where o: "offer_secondary e reason i st = (st1, taken)" by fastforce
  note O = offer_secondary_spec [OF o]
  have s1: "settles st st1" by (rule settles_frame [OF M]) (use O in \<open>simp_all add: entry_evolves_flag\<close>)
  have M1: "map_inv st1" "i = snd (index (key (heap st1 e)) st1)" "no_queue (heap st1) e"
    using s1 i q O by (simp_all add: settles_def index_def)
  note R = remove_from_map_spec [OF M1, of reason]
  show "settles st (removed_by e reason i st)"
  proof (cases "reason = REMOVED")
    case True
    have "settles st (notify k v r (st\<lparr>heap := modify e (flag_update (SetDeleted True)) (heap st)\<rparr>))" for k v r
      by (rule settles_frame [OF M]) (simp_all add: notify_def same_links_flag client_fields_def entry_evolves_flag)
    then show ?thesis by (simp add: removed_by_def True Let_def)
  next
    case False
    then show ?thesis using s1 settles_trans [OF s1 R(1)] by (simp add: removed_by_def o)
  qed
  show "gone_from_store (removed_by e reason i st) e" if "reason \<noteq> REMOVED"
    using that O(8) R(2) by (auto simp: removed_by_def o gone_from_store_def)
qed

text \<open>Taking an entry out of the policy, if it is there.\<close>

definition kept_params :: "'k TinyLfu \<Rightarrow> 'k TinyLfu \<Rightarrow> bool" where
  "kept_params t' t \<longleftrightarrow> capacity t' = capacity t \<and> hits t' = hits t \<and> misses t' = misses t"

lemma kept_params_trans: "kept_params a b \<Longrightarrow> kept_params b c \<Longrightarrow> kept_params a c"
  by (simp add: kept_params_def)

lemma Remove_quiet:
  assumes k: "policy_ok st X" and e: "\<not> IsRoot (flags (heap st) e)"
  shows "\<exists>h t. (if m_prev (meta (heap st e)) \<noteq> None then tlfu_Remove cb e False st else Some st) = Some (st\<lparr>heap := h, policy := t\<rparr>) \<and>
    policy_ok (st\<lparr>heap := h, policy := t\<rparr>) (\<lambda>q. removeAll e (X q)) \<and> pframe (heap st) h \<and> no_queue h e \<and> kept_params t (policy st)"
proof -
  have I: "policy_inv st X" "climber_ok (policy st)" "nonneg (heap st) X" using k by (simp_all add: policy_ok_def)
  note X = policy_inv_reps [OF I(1)]
  have er: "e \<notin> roots (plist (policy st))" using reps_root [OF X] e by blast
  show ?thesis
  proof (cases "e \<in> all_entries X")
    case True
    then obtain q us vs where xs: "X q = us @ e # vs" by (rule all_entriesE)
    let ?Y = "X(q := us @ vs)"
    have "distinct (us @ e # vs)" using reps_distinct [OF X, of q] by (simp only: xs)
    then have "removeAll e (X q) = us @ vs" by (auto simp: xs)
    moreover have "removeAll e (X p) = X p" if "p \<noteq> q" for p
      using reps_disjoint [OF X, of e p q] that xs by (intro removeAll_id) auto
    ultimately have Y: "?Y = (\<lambda>q. removeAll e (X q))" by (auto simp: fun_eq_iff)
    obtain h t where R: "tlfu_Remove cb e False st = Some (st\<lparr>heap := h, policy := t\<rparr>)"
      "policy_inv (st\<lparr>heap := h, policy := t\<rparr>) ?Y" "pframe (heap st) h" "detached h e" "\<not> IsRoot (flags h e)"
      "all_entries X = insert e (all_entries ?Y)" "pparams t = pparams (policy st)"
      using Remove_body [OF I(1) xs refl, of cb False] by auto
    have "nonneg h ?Y" using I(3) R(6) pframe_fields(4) [OF R(3)] by (auto simp: nonneg_def)
    then have "policy_ok (st\<lparr>heap := h, policy := t\<rparr>) ?Y"
      using R(2) I(2) climber_ok_pparams [OF R(7)] by (simp add: policy_ok_def)
    moreover have "kept_params t (policy st)" using R(7) by (simp add: pparams_def kept_params_def)
    ultimately show ?thesis using R(1,3,4,5) reps_member [OF X er] True unfolding Y by (auto simp: no_queue_def detached_def)
  next
    case False
    then have "removeAll e (X p) = X p" for p by (intro removeAll_id) (auto simp: all_entries_def)
    moreover have "detached (heap st) e" using X False er by (auto simp: reps_def reps_ring_def)
    ultimately show ?thesis using reps_member [OF X er] False k e
      by (auto intro!: exI [of _ "heap st"] exI [of _ "policy st"] simp: no_queue_def detached_def kept_params_def)
  qed
qed

lemma pframe_wview: "pframe h h' \<Longrightarrow> wview h' = wview h"
  by (simp add: wview_def fun_eq_iff pframe_fields)

lemma wframe_pview: "wframe h h' \<Longrightarrow> pview h' = pview h"
  by (simp add: pview_def fun_eq_iff wframe_fields)

lemma wframe_no_queue: "wframe h h' \<Longrightarrow> no_queue h' e = no_queue h e"
  by (simp add: no_queue_def wframe_fields)

lemma policy_ok_pview:
  assumes "pview h' = pview (heap st)" "policy_ok st X" shows "policy_ok (st\<lparr>heap := h'\<rparr>) X"
proof -
  have "policyWeight (h' a) = policyWeight (heap st a)" for a using fun_cong [OF assms(1), of a] by (simp add: pview_def)
  then show ?thesis using assms total_cong [of h' "heap st" X] by (simp add: policy_ok_def policy_inv_def nonneg_def reps_cong [OF assms(1)])
qed

lemma policy_ok_cong: "heap st' = heap st \<Longrightarrow> policy st' = policy st \<Longrightarrow> policy_ok st' X = policy_ok st X"
  by (simp add: policy_ok_def policy_inv_def)

lemma policy_ok_view:
  assumes "policy_ok (st\<lparr>heap := h, policy := t\<rparr>) X" "pview h' = pview h"
  shows "policy_ok (st\<lparr>heap := h', policy := t\<rparr>) X"
  using policy_ok_pview [of h' "st\<lparr>heap := h, policy := t\<rparr>" X] assms
    policy_ok_cong [of "st\<lparr>heap := h', policy := t\<rparr>" "st\<lparr>heap := h, policy := t, heap := h'\<rparr>" X] by simp

lemma policy_step:
  fixes st st1 :: "('k, 'v, 'z) pstate_scheme"
  assumes k: "policy_ok st X" and e: "\<not> IsRoot (flags (heap st) e)" and v: "pview (heap st1) = pview (heap st)" "policy st1 = policy st"
  shows "\<exists>h t. (if m_prev (meta (heap st1 e)) \<noteq> None then tlfu_Remove cb e False st1 else Some st1) = Some (st1\<lparr>heap := h, policy := t\<rparr>) \<and>
    pframe (heap st1) h \<and> no_queue h e \<and> policy_ok (st\<lparr>heap := h, policy := t\<rparr>) (\<lambda>q. removeAll e (X q)) \<and> kept_params t (policy st) \<and>
    (\<forall>a. policyWeight (h a) = policyWeight (heap st a))"
proof -
  let ?X = "\<lambda>q. removeAll e (X q)"
  have "policy_ok (st\<lparr>heap := heap st1\<rparr>) X" by (rule policy_ok_pview [OF v(1) k])
  then have k1: "policy_ok st1 X" using policy_ok_cong [of st1 "st\<lparr>heap := heap st1\<rparr>" X] v(2) by simp
  have "\<not> IsRoot (flags (heap st1) e)" using fun_cong [OF v(1), of e] e by (simp add: pview_def)
  from Remove_quiet [OF k1 this, of cb] obtain h t where
    R: "(if m_prev (meta (heap st1 e)) \<noteq> None then tlfu_Remove cb e False st1 else Some st1) = Some (st1\<lparr>heap := h, policy := t\<rparr>)"
    "policy_ok (st1\<lparr>heap := h, policy := t\<rparr>) ?X" "pframe (heap st1) h" "no_queue h e" "kept_params t (policy st1)" by blast
  have "policy_ok (st\<lparr>heap := h, policy := t\<rparr>) ?X"
    using R(2) policy_ok_cong [of "st1\<lparr>heap := h, policy := t\<rparr>" "st\<lparr>heap := h, policy := t\<rparr>" ?X] by simp
  moreover have "policyWeight (h a) = policyWeight (heap st a)" for a
    using pframe_fields(4) [OF R(3), of a] fun_cong [OF v(1), of a] by (simp add: pview_def)
  ultimately show ?thesis using R v(2) by auto
qed

lemma policyWeight_pview: "pview h' = pview h \<Longrightarrow> policyWeight (h' a) = policyWeight (h a)"
  by (drule fun_cong [of _ _ a]) (simp add: pview_def)

subsection \<open>The whole of removeEntry\<close>

text \<open>
  One lemma for all callers: \<open>Q\<close> is what the policy step leaves of heap and policy, \<open>P\<close>
  what the wheel step leaves of the heap.
\<close>

lemma removeEntry_steps:
  fixes st :: "('k, 'v::zero, 'z) store_scheme"
  assumes M: "map_inv st" and e: "\<not> IsRoot (flags (heap st) e)" and early: "reason = EXPIRED \<longrightarrow> sle (expire (heap st e)) (fst (read_now st))"
    and Rm: "\<And>st1 :: ('k, 'v, 'z) store_scheme. pview (heap st1) = pview (heap st) \<Longrightarrow> policy st1 = policy st \<Longrightarrow>
      \<exists>h t. (if m_prev (meta (heap st1 e)) \<noteq> None then tlfu_Remove no_callback e False st1 else Some st1) = Some (st1\<lparr>heap := h, policy := t\<rparr>) \<and>
        pframe (heap st1) h \<and> no_queue h e \<and> Q h t"
    and D: "\<And>h. wview h = wview (heap st) \<Longrightarrow> \<exists>h'. (if m_wheelPrev (meta (h e)) \<noteq> None then deschedule e h else Some h) = Some h' \<and>
        wframe h h' \<and> P h'"
    and P: "\<And>h h'. P h \<Longrightarrow> wview h' = wview h \<Longrightarrow> P h'" and Q: "\<And>h h' t. Q h t \<Longrightarrow> pview h' = pview h \<Longrightarrow> Q h' t"
  shows "\<exists>st'. removeEntry e reason st = Some st' \<and> map_inv st' \<and> P (heap st') \<and> Q (heap st') (policy st') \<and> timerwheel st' = timerwheel st \<and>
    (reason \<noteq> REMOVED \<longrightarrow> gone_from_store st' e) \<and> (\<forall>a. gone_from_store st a \<longrightarrow> gone_from_store st' a) \<and> removal st e st'"
proof -
  define st0 where "st0 = st\<lparr>heap := modify e (flag_update (SetRemoved True)) (heap st)\<rparr>"
  define st1 where "st1 = (if reason = EXPIRED then st0\<lparr>clk_pos := clk_pos st + 1\<rparr> else st0)"
  have l1: "same_links (heap st) (heap st1)" by (simp add: st1_def st0_def same_links_flag)
  have s1: "settles st st1" by (rule settles_frame [OF M l1]) (simp_all add: st1_def st0_def client_fields_def entry_evolves_flag)
  have f1: "shards st1 = shards st" "policy st1 = policy st" "shardCount st1 = shardCount st" "s_hasher st1 = s_hasher st"
    "secondaryCacheBuf st1 = secondaryCacheBuf st" "timerwheel st1 = timerwheel st" by (simp_all add: st1_def st0_def)
  have v: "pview (heap st1) = pview (heap st)" "wview (heap st1) = wview (heap st)" "key (heap st1 e) = key (heap st e)" using l1 by (simp_all add: same_links_def)
  obtain h t where R: "(if m_prev (meta (heap st1 e)) \<noteq> None then tlfu_Remove no_callback e False st1 else Some st1) = Some (st1\<lparr>heap := h, policy := t\<rparr>)"
    "pframe (heap st1) h" "no_queue h e" "Q h t" using Rm [OF v(1) f1(2)] by blast
  define st2 where "st2 = st1\<lparr>heap := h, policy := t\<rparr>"
  have "wview h = wview (heap st)" using pframe_wview [OF R(2)] v(2) by simp
  then obtain h' where W: "(if m_wheelPrev (meta (h e)) \<noteq> None then deschedule e h else Some h) = Some h'" "wframe h h'" "P h'" using D by blast
  define st3 where "st3 = st2\<lparr>heap := h'\<rparr>"
  define i where "i = snd (index (key (heap st e)) st)"
  have i: "i < length (shards st)" unfolding i_def by (rule index_lt [OF M])
  have M1: "map_inv st1" using s1 by (simp add: settles_def)
  have M3: "map_inv st3"
    by (rule map_inv_cong [OF M1]) (simp_all add: st3_def st2_def wframe_fields [OF W(2)] pframe_fields [OF R(2)])
  have i3: "i = snd (index (key (heap st3 e)) st3)"
    by (simp add: i_def index_def f1 st3_def st2_def v(3) wframe_fields [OF W(2)] pframe_fields [OF R(2)])
  have q3: "no_queue (heap st3) e" using R(3) wframe_no_queue [OF W(2)] by (simp add: st3_def)
  note B = removed_by_spec [OF M3 i3 q3, of reason]
  let ?st' = "removed_by e reason i st3"
  have run: "removeEntry e reason st = Some ?st'"
  proof -
    have ex: "\<not> (reason = EXPIRED \<and> slt (fst (read_now st0)) (expire (heap st1 e)))"
      using early fun_cong [OF v(2), of e] by (auto simp: read_now_def st0_def wview_def sle_def slt_def)
    have "removeEntry e reason st = (if i < length (shards st1) then
        if reason = EXPIRED \<and> slt (fst (read_now st0)) (expire (heap st1 e)) then Some st1
        else do { st \<leftarrow> (if m_prev (meta (heap st1 e)) \<noteq> None then tlfu_Remove no_callback e False st1 else Some st1);
          h \<leftarrow> (if m_wheelPrev (meta (heap st e)) \<noteq> None then deschedule e (heap st) else Some (heap st));
          Some (removed_by e reason i (st\<lparr>heap := h\<rparr>)) } else None)"
      by (simp add: removeEntry_def st0_def st1_def i_def read_now_def index_def Let_def modify_def)
    then show ?thesis using i f1(1) ex R(1) W(1) by (cases "m_wheelPrev (meta (h e))") (simp_all add: st3_def st2_def)
  qed
  have h3: "heap st3 = h'" "policy st3 = t" "timerwheel st3 = timerwheel st" "shards st3 = shards st" "secondaryCacheBuf st3 = secondaryCacheBuf st"
    by (simp_all add: st3_def st2_def f1)
  have L: "pview (heap ?st') = pview h'" "wview (heap ?st') = wview h'" "policy ?st' = t" "timerwheel ?st' = timerwheel st" "map_inv ?st'"
    using B(1) h3 by (simp_all add: settles_def same_links_def)
  have "evolves st1 st2" using evolves_pframe [OF R(2), where t = t and n = "rnd_pos st1"] by (simp add: st2_def)
  moreover have "evolves st2 st3" using evolves_wframe [of st2 h', where tw = "timerwheel st2" and c = "clk_pos st2"] W(2) by (simp add: st3_def st2_def)
  ultimately have ev1: "evolves st1 ?st'" using evolves_trans B(1) unfolding settles_def by meson
  have ev: "evolves st ?st'" using evolves_trans [OF _ ev1] s1 by (simp add: settles_def)
  have "IsRemoved (flag (heap st1 e))" "entryPool st1 = entryPool st" by (simp_all add: st1_def st0_def modify_def)
  then have rm: "removal st e ?st'" using ev ev1 by (auto simp: removal_def evolves_def entry_evolves_def flags_def)
  have g: "gone_from_store ?st' a" if "gone_from_store st a" for a
    using that B(1) h3 evolves_unmapped [OF ev] by (auto simp: gone_from_store_def settles_def)
  have "Q (heap ?st') (policy ?st')" unfolding L(3) by (rule Q [OF R(4)]) (simp add: L(1) wframe_pview [OF W(2)])
  moreover have "P (heap ?st')" by (rule P [OF W(3) L(2)])
  ultimately show ?thesis using run L B(2) g rm by auto
qed

lemma removeEntry_spec:
  fixes st :: "('k, 'v::zero, 'z) store_scheme"
  assumes M: "map_inv st" and k: "policy_ok st X" and W: "wreps (heap st) (timerwheel st) R"
    and e: "\<not> IsRoot (flags (heap st) e)" and early: "reason = EXPIRED \<longrightarrow> sle (expire (heap st e)) (fst (read_now st))"
  shows "\<exists>st'. removeEntry e reason st = Some st' \<and> map_inv st' \<and> policy_ok st' (\<lambda>q. removeAll e (X q)) \<and>
    wreps (heap st') (timerwheel st') (\<lambda>r. removeAll e (R r)) \<and> timerwheel st' = timerwheel st \<and>
    kept_params (policy st') (policy st) \<and> (\<forall>a. policyWeight (heap st' a) = policyWeight (heap st a)) \<and>
    (reason \<noteq> REMOVED \<longrightarrow> gone_from_store st' e) \<and> (\<forall>a. gone_from_store st a \<longrightarrow> gone_from_store st' a) \<and> removal st e st'"
proof -
  let ?X = "\<lambda>q. removeAll e (X q)" and ?R = "\<lambda>r. removeAll e (R r)" and ?tw = "timerwheel st"
  let ?Q = "\<lambda>h t. policy_ok (st\<lparr>heap := h, policy := t\<rparr>) ?X \<and> kept_params t (policy st) \<and>
    (\<forall>a. policyWeight (h a) = policyWeight (heap st a))"
  have es: "e \<notin> set (wroots ?tw)" using W e by (auto simp: wreps_def hrings_def)
  have "\<exists>st'. removeEntry e reason st = Some st' \<and> map_inv st' \<and> wreps (heap st') ?tw ?R \<and> ?Q (heap st') (policy st') \<and> timerwheel st' = timerwheel st \<and>
    (reason \<noteq> REMOVED \<longrightarrow> gone_from_store st' e) \<and> (\<forall>a. gone_from_store st a \<longrightarrow> gone_from_store st' a) \<and> removal st e st'"
  proof (rule removeEntry_steps [OF M e early])
    fix st1 :: "('k, 'v, 'z) store_scheme" assume v: "pview (heap st1) = pview (heap st)" "policy st1 = policy st"
    show "\<exists>h t. (if m_prev (meta (heap st1 e)) \<noteq> None then tlfu_Remove no_callback e False st1 else Some st1) = Some (st1\<lparr>heap := h, policy := t\<rparr>) \<and>
        pframe (heap st1) h \<and> no_queue h e \<and> ?Q h t" by (rule policy_step [OF k e v])
  next
    fix h :: "('k, 'v) heap" assume v: "wview h = wview (heap st)"
    show "\<exists>h'. (if m_wheelPrev (meta (h e)) \<noteq> None then deschedule e h else Some h) = Some h' \<and> wframe h h' \<and> wreps h' ?tw ?R"
      using unschedule [OF W [folded wreps_wview [OF v]] es] by blast
  next
    fix h h' :: "('k, 'v) heap" and t assume "?Q h t" "pview h' = pview h"
    then show "?Q h' t" using policy_ok_view policyWeight_pview by metis
  next
    fix h h' :: "('k, 'v) heap" assume "wreps h ?tw ?R" "wview h' = wview h"
    then show "wreps h' ?tw ?R" using wreps_wview by blast
  qed
  then obtain st' where st': "removeEntry e reason st = Some st'" "map_inv st'" "wreps (heap st') ?tw ?R" "?Q (heap st') (policy st')"
    "timerwheel st' = timerwheel st" "reason \<noteq> REMOVED \<longrightarrow> gone_from_store st' e" "\<forall>a. gone_from_store st a \<longrightarrow> gone_from_store st' a" "removal st e st'" by blast
  have "policy_ok st' ?X" using st'(4) policy_ok_cong [of st' "st\<lparr>heap := heap st', policy := policy st'\<rparr>" ?X] by simp
  then show ?thesis using st' by auto
qed

text \<open>\<open>removeEntry\<close> is the callback the policy relies on.\<close>

definition wheel_links :: "('k, 'v) heap \<Rightarrow> ('k, 'v) heap \<Rightarrow> bool" where
  "wheel_links h0 h \<longleftrightarrow> (\<forall>a. prv WHEEL_LIST h a \<noteq> None \<longrightarrow> prv WHEEL_LIST h0 a \<noteq> None)"

lemma wheel_linked:
  fixes h h' :: "('k, 'v) heap"
  assumes W: "wreps h tw R" "wreps h' tw' R'" "wroots tw' = wroots tw" "members (set (wroots tw)) R' \<subseteq> E \<union> members (set (wroots tw)) R"
    and a: "prv WHEEL_LIST h' a \<noteq> None" "a \<notin> E"
  shows "prv WHEEL_LIST h a \<noteq> None"
proof (cases "a \<in> set (wroots tw)")
  case True
  then have "ring (nxt WHEEL_LIST h) (prv WHEEL_LIST h) a (R a)" using W(1) by (simp add: wreps_def hrings_def rings_def)
  then show ?thesis using ring_ends(2) by force
next
  case False
  have m: "prv WHEEL_LIST g a \<noteq> None \<longleftrightarrow> m_wheelPrev (meta (g a)) \<noteq> None" for g :: "('k, 'v) heap" by (simp add: prv_def e_prev_def)
  have "a \<in> members (set (wroots tw)) R'" using a m wreps_member [OF W(2)] False W(3) by metis
  then show ?thesis using W(4) a(2) m wreps_member [OF W(1) False] by blast
qed

lemma wheel_links_members:
  assumes W: "wreps h tw R" "wreps h' tw' R'" "wroots tw' = wroots tw" "members (set (wroots tw)) R' \<subseteq> members (set (wroots tw)) R"
  shows "wheel_links h h'"
  unfolding wheel_links_def using wheel_linked [OF W(1-3), of "{}"] W(4) by simp

text \<open>What the callback of the policy maintains, relative to the state at the start of the handler.\<close>

definition maintains :: "('k, 'v, 'z) store_scheme \<Rightarrow> ('k, 'v, 'z) store_scheme \<Rightarrow> bool" where
  "maintains st0 st \<longleftrightarrow> store_side st \<and> evolves st0 st \<and> wheel_links (heap st0) (heap st)"

lemma store_side_pframe:
  "store_side st \<Longrightarrow> pframe (heap st) h \<Longrightarrow> store_side (st\<lparr>heap := h, policy := t, rnd_pos := n\<rparr>)"
  unfolding store_side_def
proof (elim conjE exE, intro conjI)
  fix R assume a: "map_inv st" "wreps (heap st) (timerwheel st) R" "pframe (heap st) h"
  show "map_inv (st\<lparr>heap := h, policy := t, rnd_pos := n\<rparr>)" by (rule map_inv_cong [OF a(1)]) (simp_all add: pframe_fields [OF a(3)])
  show "\<exists>R. wreps (heap (st\<lparr>heap := h, policy := t, rnd_pos := n\<rparr>)) (timerwheel (st\<lparr>heap := h, policy := t, rnd_pos := n\<rparr>)) R"
    using a(2) wreps_wview [OF pframe_wview [OF a(3)]] by auto
qed

lemma maintains_pframe:
  assumes "maintains st0 st" "pframe (heap st) h" shows "maintains st0 (st\<lparr>heap := h, policy := t, rnd_pos := n\<rparr>)"
  using assms store_side_pframe [OF _ assms(2)] evolves_trans [OF _ evolves_pframe [OF assms(2)], of st0] pframe_fields(7) [OF assms(2)]
  by (simp add: maintains_def wheel_links_def)

interpretation evict: eviction_callback "\<lambda>e. removeEntry e EVICTED" "maintains st0" gone_from_store for st0
proof
  fix st :: "('a, 'b::zero, 'c) store_scheme" and e
  assume J: "maintains st0 st" and e: "\<not> IsRoot (flags (heap st) e)" "detached (heap st) e"
  then obtain R where M: "map_inv st" and W: "wreps (heap st) (timerwheel st) R" by (auto simp: maintains_def store_side_def)
  let ?tw = "timerwheel st" and ?P = "\<lambda>h. (\<exists>R. wreps h (timerwheel st) R) \<and> wheel_links (heap st) h" and ?Q = "\<lambda>h t. t = policy st \<and> pview h = pview (heap st)"
  have es: "e \<notin> set (wroots ?tw)" using W e by (auto simp: wreps_def hrings_def)
  have "\<exists>st'. removeEntry e EVICTED st = Some st' \<and> map_inv st' \<and> ?P (heap st') \<and> ?Q (heap st') (policy st') \<and> timerwheel st' = timerwheel st \<and>
    (EVICTED \<noteq> REMOVED \<longrightarrow> gone_from_store st' e) \<and> (\<forall>a. gone_from_store st a \<longrightarrow> gone_from_store st' a) \<and> removal st e st'"
  proof (rule removeEntry_steps [OF M e(1)])
    fix st1 :: "('a, 'b, 'c) store_scheme" assume v: "pview (heap st1) = pview (heap st)" "policy st1 = policy st"
    have "m_prev (meta (heap st1 e)) = None" "no_queue (heap st1) e"
      using fun_cong [OF v(1), of e] e by (simp_all add: pview_def detached_def prv_def e_prev_def no_queue_def fun_eq_iff)
    then show "\<exists>h t. (if m_prev (meta (heap st1 e)) \<noteq> None then tlfu_Remove no_callback e False st1 else Some st1) = Some (st1\<lparr>heap := h, policy := t\<rparr>) \<and>
        pframe (heap st1) h \<and> no_queue h e \<and> ?Q h t"
      using v by (auto intro!: exI [of _ "heap st1"] exI [of _ "policy st1"])
  next
    fix h :: "('a, 'b) heap" assume v: "wview h = wview (heap st)"
    show "\<exists>h'. (if m_wheelPrev (meta (h e)) \<noteq> None then deschedule e h else Some h) = Some h' \<and> wframe h h' \<and> ?P h'"
    proof -
      obtain h' where h': "(if m_wheelPrev (meta (h e)) \<noteq> None then deschedule e h else Some h) = Some h'" "wreps h' ?tw (\<lambda>r. removeAll e (R r))" "wframe h h'"
        using unschedule [OF W [folded wreps_wview [OF v]] es] by blast
      have "wheel_links (heap st) h'" by (rule wheel_links_members [OF W h'(2) refl]) (auto simp: members_def)
      then show ?thesis using h' by blast
    qed
  next
    fix h h' :: "('a, 'b) heap" assume P: "?P h" and v: "wview h' = wview h"
    have "prv WHEEL_LIST h' = prv WHEEL_LIST h" using v by (auto simp: wview_def fun_eq_iff)
    then show "?P h'" using P wreps_wview [OF v] by (simp add: wheel_links_def)
  qed simp_all
  then show "\<exists>st'. removeEntry e EVICTED st = Some st' \<and> maintains st0 st' \<and> policy st' = policy st \<and> pview (heap st') = pview (heap st) \<and>
        gone_from_store st' e \<and> (\<forall>a. gone_from_store st a \<longrightarrow> gone_from_store st' a)"
    using J evolves_trans [of st0 st] by (auto simp: maintains_def removal_def store_side_def wheel_links_def)
qed (simp_all add: maintains_pframe gone_from_store_def unmapped_def)

text \<open>\<open>removeEntry\<close> is the callback the timer wheel relies on.\<close>

definition policy_side :: "('k, 'v, 'z) store_scheme \<Rightarrow> bool" where
  "policy_side st \<longleftrightarrow> map_inv st \<and> (\<exists>X. policy_ok st X \<and> tsize (heap st) X \<le> unat (capacity (policy st)))"

lemma policy_side_wframe:
  "policy_side st \<Longrightarrow> wframe (heap st) h \<Longrightarrow> policy_side (st\<lparr>heap := h, timerwheel := tw, clk_pos := c\<rparr>)"
  unfolding policy_side_def
proof (elim conjE exE, intro conjI)
  fix X assume a: "map_inv st" "policy_ok st X" "wframe (heap st) h" "tsize (heap st) X \<le> unat (capacity (policy st))"
  show "map_inv (st\<lparr>heap := h, timerwheel := tw, clk_pos := c\<rparr>)" by (rule map_inv_cong [OF a(1)]) (simp_all add: wframe_fields [OF a(3)])
  let ?st = "st\<lparr>heap := h, timerwheel := tw, clk_pos := c\<rparr>"
  have "tsize h X = tsize (heap st) X" by (intro tsize_cong wframe_fields [OF a(3)])
  then show "\<exists>X. policy_ok ?st X \<and> tsize (heap ?st) X \<le> unat (capacity (policy ?st))"
    using a(4) policy_ok_pview [OF wframe_pview [OF a(3)] a(2)] policy_ok_cong [of "st\<lparr>heap := h, timerwheel := tw, clk_pos := c\<rparr>" "st\<lparr>heap := h\<rparr>" X] by auto
qed

lemma removeEntry_refreshed:
  assumes "slt (fst (read_now st)) (expire (heap st e))" "map_inv st"
  shows "removeEntry e EXPIRED st = Some (st\<lparr>heap := modify e (flag_update (SetRemoved True)) (heap st), clk_pos := clk_pos st + 1\<rparr>)"
  using assms index_lt [OF assms(2), of "key (heap st e)"] by (simp add: removeEntry_def read_now_def index_def Let_def modify_def)

text \<open>No entry enters the policy.\<close>

definition leaves :: "('k, 'v) heap \<Rightarrow> ('k, 'v) heap \<Rightarrow> bool" where
  "leaves h0 h \<longleftrightarrow> (\<forall>a. \<not> IsRoot (flags h0 a) \<longrightarrow> m_prev (meta (h a)) \<noteq> None \<longrightarrow> m_prev (meta (h0 a)) \<noteq> None)"

lemma leaves_refl [simp]: "leaves h h"
  by (simp add: leaves_def)

lemma leaves_trans: "leaves a b \<Longrightarrow> leaves b c \<Longrightarrow> (\<And>x. IsRoot (flags b x) = IsRoot (flags a x)) \<Longrightarrow> leaves a c"
  by (simp add: leaves_def)

lemma policy_ok_member:
  assumes "policy_ok st X" "\<not> IsRoot (flags (heap st) a)" shows "m_prev (meta (heap st a)) \<noteq> None \<longleftrightarrow> a \<in> all_entries X"
  using assms reps_member [OF policy_ok_parts(1) [OF assms(1)], of a] reps_root [OF policy_ok_parts(1) [OF assms(1)], of a] by blast

lemma leaves_policy:
  assumes "policy_ok st X" "policy_ok st' X'" "all_entries X' \<subseteq> all_entries X" "\<And>x. IsRoot (flags (heap st') x) = IsRoot (flags (heap st) x)"
  shows "leaves (heap st) (heap st')"
  using assms policy_ok_member [OF assms(1)] policy_ok_member [OF assms(2)] by (auto simp: leaves_def)

lemma evolves_root: "evolves st st' \<Longrightarrow> IsRoot (flags (heap st') a) = IsRoot (flags (heap st) a)"
  by (simp add: evolves_def entry_evolves_def flags_def)

definition ticks :: "('k, 'v, 'z) store_scheme \<Rightarrow> ('k, 'v, 'z) store_scheme \<Rightarrow> bool" where
  "ticks st0 st \<longleftrightarrow> policy_side st \<and> evolves st0 st \<and> kept_params (policy st) (policy st0) \<and> leaves (heap st0) (heap st) \<and>
     (\<forall>a. policyWeight (heap st a) = policyWeight (heap st0 a))"

lemma ticks_trans:
  assumes "ticks st0 st" "policy_side st'" "evolves st st'" "kept_params (policy st') (policy st)" "leaves (heap st) (heap st')"
    "\<And>a. policyWeight (heap st' a) = policyWeight (heap st a)"
  shows "ticks st0 st'"
  using assms evolves_trans [of st0 st st'] leaves_trans [of "heap st0" "heap st" "heap st'"] evolves_root [of st0 st]
    kept_params_trans [of "policy st'" "policy st" "policy st0"] by (simp add: ticks_def)

lemma ticks_wframe:
  assumes "ticks st0 st" "wframe (heap st) h" shows "ticks st0 (st\<lparr>heap := h, timerwheel := tw, clk_pos := c\<rparr>)"
proof (rule ticks_trans [OF assms(1)])
  have "m_prev (meta (h a)) = m_prev (meta (heap st a))" for a
    using fun_cong [OF wframe_fields(7) [OF assms(2)], of a] by (simp add: prv_def e_prev_def)
  then show "leaves (heap st) (heap (st\<lparr>heap := h, timerwheel := tw, clk_pos := c\<rparr>))" by (simp add: leaves_def)
qed (use assms policy_side_wframe [OF _ assms(2)] evolves_wframe [OF assms(2)] wframe_fields(4) [OF assms(2)] in \<open>simp_all add: ticks_def kept_params_def\<close>)

interpretation wheel: expiry_callback removeEntry "ticks st0" for st0
proof
  fix st :: "('a, 'b::zero, 'c) store_scheme" and e
  assume K: "ticks st0 st" and e: "\<not> IsRoot (flags (heap st) e)" "prv WHEEL_LIST (heap st) e = None"
  then obtain X where M: "map_inv st" and k: "policy_ok st X" and sz: "tsize (heap st) X \<le> unat (capacity (policy st))"
    by (auto simp: ticks_def policy_side_def)
  let ?X = "\<lambda>q. removeAll e (X q)"
  let ?Q = "\<lambda>h t. policy_ok (st\<lparr>heap := h, policy := t\<rparr>) ?X \<and> kept_params t (policy st) \<and>
    (\<forall>a. policyWeight (h a) = policyWeight (heap st a))"
  show "\<exists>st'. removeEntry e EXPIRED st = Some st' \<and> ticks st0 st' \<and> timerwheel st' = timerwheel st \<and> wview (heap st') = wview (heap st)"
  proof (cases "slt (fst (read_now st)) (expire (heap st e))")
    case True
    let ?h = "modify e (flag_update (SetRemoved True)) (heap st)"
    let ?st = "st\<lparr>heap := ?h, clk_pos := clk_pos st + 1\<rparr>"
    have l: "same_links (heap st) ?h" by (rule same_links_flag)
    have "map_inv ?st" by (rule map_inv_same_links [OF M]) (simp_all add: l)
    moreover have "policy_ok ?st X" using policy_ok_pview [of ?h st X] k l policy_ok_cong [of ?st "st\<lparr>heap := ?h\<rparr>" X] by (simp add: same_links_def)
    moreover have "tsize ?h X = tsize (heap st) X" by (intro tsize_cong) (simp add: modify_def)
    ultimately have "policy_side ?st" using sz by (auto simp: policy_side_def)
    moreover have "evolves st ?st" by (rule evolves_heap) (simp_all add: client_fields_def entry_evolves_flag)
    ultimately have "ticks st0 ?st" by (intro ticks_trans [OF K]) (simp_all add: kept_params_def leaves_def modify_def)
    then show ?thesis using removeEntry_refreshed [OF True M] l by (simp add: same_links_def)
  next
    case False
    have "\<exists>st'. removeEntry e EXPIRED st = Some st' \<and> map_inv st' \<and> wview (heap st') = wview (heap st) \<and> ?Q (heap st') (policy st') \<and> timerwheel st' = timerwheel st \<and>
      (EXPIRED \<noteq> REMOVED \<longrightarrow> gone_from_store st' e) \<and> (\<forall>a. gone_from_store st a \<longrightarrow> gone_from_store st' a) \<and> removal st e st'"
    proof (rule removeEntry_steps [OF M e(1)])
      fix st1 :: "('a, 'b, 'c) store_scheme" assume v: "pview (heap st1) = pview (heap st)" "policy st1 = policy st"
      show "\<exists>h t. (if m_prev (meta (heap st1 e)) \<noteq> None then tlfu_Remove no_callback e False st1 else Some st1) = Some (st1\<lparr>heap := h, policy := t\<rparr>) \<and>
        pframe (heap st1) h \<and> no_queue h e \<and> ?Q h t" using policy_step [OF k e(1) v] by blast
    next
      fix h :: "('a, 'b) heap" assume v: "wview h = wview (heap st)"
      have "m_wheelPrev (meta (h e)) = None" using e(2) fun_cong [OF v, of e] by (simp add: wview_def prv_def e_prev_def)
      then show "\<exists>h'. (if m_wheelPrev (meta (h e)) \<noteq> None then deschedule e h else Some h) = Some h' \<and> wframe h h' \<and> wview h' = wview (heap st)"
        using v by simp
    next
      fix h h' :: "('a, 'b) heap" and t assume "?Q h t" "pview h' = pview h"
      then show "?Q h' t" using policy_ok_view policyWeight_pview by metis
    qed (use False in \<open>simp_all add: sle_def slt_def\<close>)
    then obtain st' where st': "removeEntry e EXPIRED st = Some st'" "map_inv st'" "wview (heap st') = wview (heap st)" "?Q (heap st') (policy st')"
      "timerwheel st' = timerwheel st" "removal st e st'" by blast
    have k': "policy_ok st' ?X" using st'(4) policy_ok_cong [of st' "st\<lparr>heap := heap st', policy := policy st'\<rparr>" ?X] by simp
    have "tsize (heap st') ?X \<le> tsize (heap st) X"
      by (rule tsize_subset [OF policy_ok_parts(1) [OF k'] policy_ok_parts(1) [OF k]]) (use st'(4) in \<open>auto simp: all_entries_def\<close>)
    then have "policy_side st'" using st' k' sz by (auto simp: policy_side_def kept_params_def)
    moreover have ev: "evolves st st'" using st'(6) by (simp add: removal_def)
    moreover have "leaves (heap st) (heap st')" by (rule leaves_policy [OF k k' _ evolves_root [OF ev]]) (auto simp: all_entries_def)
    ultimately have "ticks st0 st'" using st'(4) by (intro ticks_trans [OF K]) simp_all
    then show ?thesis using st' by auto
  qed
qed (rule ticks_wframe)

end
