(* ===== verification/Store_Invariant.thy ===== *)
theory Store_Invariant
  imports Store_Removal
begin

text \<open>
  The invariant of the store as a whole and its preservation by the handlers of the
  maintenance goroutine. The hash maps, the policy's lists and the wheel's rings are well
  formed at once, and the true sum of the weights of the entries in the policy, a natural
  number, is within the capacity: the wrapping counters of the code never hide an
  overflow.
\<close>

definition store_inv :: "('k, 'v, 'z) store_scheme \<Rightarrow> (pqueue \<Rightarrow> addr list) \<Rightarrow> bool" where
  "store_inv st X \<longleftrightarrow> map_inv st \<and> policy_ok st X \<and> (\<exists>R. wreps (heap st) (timerwheel st) R) \<and>
     tsize (heap st) X \<le> unat (capacity (policy st))"

subsection \<open>Frames\<close>

lemma store_inv_cong:
  assumes "store_inv st X" "heap st' = heap st" "policy st' = policy st" "timerwheel st' = timerwheel st" "shards st' = shards st"
    "shardCount st' = shardCount st" "s_hasher st' = s_hasher st"
  shows "store_inv st' X"
  using assms map_inv_cong [of st st'] policy_ok_cong [of st' st X] by (simp add: store_inv_def)

text \<open>Writing flags or values that neither the policy nor the wheel reads.\<close>

lemma store_inv_links:
  assumes I: "store_inv st X" and l: "same_links (heap st) h"
  shows "store_inv (st\<lparr>heap := h\<rparr>) X"
proof -
  have v: "pview h = pview (heap st)" "wview h = wview (heap st)" using l by (simp_all add: same_links_def)
  have "policyWeight (h a) = policyWeight (heap st a)" for a using fun_cong [OF v(1), of a] by (simp add: pview_def)
  then have "tsize h X = tsize (heap st) X" by (intro tsize_cong)
  moreover have "map_inv (st\<lparr>heap := h\<rparr>)" using I l map_inv_same_links [of st "st\<lparr>heap := h\<rparr>"] by (simp add: store_inv_def)
  ultimately show ?thesis using I policy_ok_pview [OF v(1)] wreps_wview [OF v(2)] by (simp add: store_inv_def)
qed

text \<open>Moving entries between the buckets of the wheel.\<close>

lemma store_inv_wheel:
  assumes I: "store_inv st X" and f: "wframe (heap st) h" and W: "wreps h tw R"
  shows "store_inv (st\<lparr>heap := h, timerwheel := tw\<rparr>) X"
proof -
  let ?st = "st\<lparr>heap := h, timerwheel := tw\<rparr>"
  have "map_inv ?st" using I map_inv_cong [of st ?st] wframe_fields [OF f] by (simp add: store_inv_def)
  moreover have "policy_ok ?st X"
    using I policy_ok_pview [OF wframe_pview [OF f]] policy_ok_cong [of ?st "st\<lparr>heap := h\<rparr>" X] by (simp add: store_inv_def)
  moreover have "tsize h X = tsize (heap st) X" by (intro tsize_cong wframe_fields [OF f])
  ultimately show ?thesis using I W by (auto simp: store_inv_def)
qed

definition enters :: "addr set \<Rightarrow> ('k, 'v) heap \<Rightarrow> ('k, 'v) heap \<Rightarrow> bool" where
  "enters E h h' \<longleftrightarrow> (\<forall>a. a \<notin> E \<longrightarrow> prv WHEEL_LIST h' a \<noteq> None \<longrightarrow> prv WHEEL_LIST h a \<noteq> None)"

lemma schedule_enters:
  assumes W: "wreps (heap st) (timerwheel st) R" and e: "\<not> IsRoot (flags (heap st) e)"
  shows "\<exists>h tw R'. schedule e st = Some (st\<lparr>heap := h, timerwheel := tw\<rparr>) \<and> wreps h tw R' \<and> wframe (heap st) h \<and> enters {e} (heap st) h"
proof -
  from schedule_spec [OF W e refl refl refl refl] obtain h tw where
    s: "schedule e st = Some (st\<lparr>heap := h, timerwheel := tw\<rparr>)" "wframe (heap st) h" "wroots tw = wroots (timerwheel st)" and
    W': "wreps h tw ((\<lambda>r. removeAll e (R r))(wroot (timerwheel st) (level_of (expire (heap st e) - nanos (timerwheel st)))
      (slot (level_of (expire (heap st e) - nanos (timerwheel st))) (expire (heap st e))) := e # removeAll e (R
      (wroot (timerwheel st) (level_of (expire (heap st e) - nanos (timerwheel st))) (slot (level_of (expire (heap st e) - nanos (timerwheel st))) (expire (heap st e)))))))"
    (is "wreps h tw ?R") by blast
  have "members (set (wroots (timerwheel st))) ?R \<subseteq> {e} \<union> members (set (wroots (timerwheel st))) R"
    by (auto simp: members_def split: if_splits)
  then have "enters {e} (heap st) h" unfolding enters_def using wheel_linked [OF W W' s(3)] by blast
  then show ?thesis using s W' by blast
qed

lemma schedule_inv:
  assumes I: "store_inv st X" and e: "\<not> IsRoot (flags (heap st) e)"
  shows "\<exists>h tw. schedule e st = Some (st\<lparr>heap := h, timerwheel := tw\<rparr>) \<and> store_inv (st\<lparr>heap := h, timerwheel := tw\<rparr>) X \<and> wframe (heap st) h \<and> enters {e} (heap st) h"
proof -
  obtain R where W: "wreps (heap st) (timerwheel st) R" using I by (auto simp: store_inv_def)
  from schedule_enters [OF W e] show ?thesis using store_inv_wheel [OF I] by blast
qed

text \<open>The weight of an entry outside the policy does not matter to it.\<close>

lemma reps_reweigh_outside:
  assumes "reps h T X" "e \<notin> all_entries X" shows "reps (reweigh e d h) T X"
proof -
  obtain R where R: "reps_ring h T X R" using assms(1) by (auto simp: reps_def)
  have "e \<notin> set (X q)" for q using assms(2) by (auto simp: all_entries_def)
  then have "wsum (reweigh e d h) (X q) = wsum h (X q)" for q
    by (simp add: wsum_reweigh [OF reps_distinct [OF assms(1)]])
  then have "reps_ring (reweigh e d h) T X R" using R by (simp add: reps_ring_def header_ok_def hrings_def detached_def)
  then show ?thesis by (auto simp: reps_def)
qed

lemma wview_reweigh [simp]: "wview (reweigh e d h) = wview h"
  by (simp add: wview_def reweigh_def modify_def fun_eq_iff nxt_def prv_def e_next_def e_prev_def flags_def)

lemma store_inv_reweigh:
  assumes I: "store_inv st X" and e: "e \<notin> all_entries X"
  shows "store_inv (st\<lparr>heap := reweigh e d (heap st)\<rparr>) X"
proof -
  let ?h = "reweigh e d (heap st)"
  have k: "policy_ok st X" using I by (simp add: store_inv_def)
  have eq: "policyWeight (?h a) = policyWeight (heap st a)" if "a \<in> all_entries X" for a using that e by auto
  have "total ?h X = total (heap st) X" "tsize ?h X = tsize (heap st) X"
    using tsize_cong [of X ?h "heap st"] eq by (simp_all add: total_tsize)
  moreover have "nonneg ?h X" using k eq by (simp add: policy_ok_def nonneg_def)
  moreover have "map_inv (st\<lparr>heap := ?h\<rparr>)" using I map_inv_cong [of st "st\<lparr>heap := ?h\<rparr>"] by (simp add: store_inv_def)
  ultimately show ?thesis
    using I reps_reweigh_outside [OF policy_ok_parts(1) [OF k] e] wreps_wview [OF wview_reweigh, of e d "heap st"]
    by (auto simp: store_inv_def policy_ok_def policy_inv_def)
qed

lemma store_inv_sketch:
  assumes I: "store_inv st X" and "sketch_wf sk"
  shows "store_inv (st\<lparr>policy := (policy st)\<lparr>sketch := sk\<rparr>\<rparr>) X"
proof -
  let ?st = "st\<lparr>policy := (policy st)\<lparr>sketch := sk\<rparr>\<rparr>"
  have "map_inv ?st" using I map_inv_cong [of st ?st] by (simp add: store_inv_def)
  moreover have "policy_ok ?st X" using I assms(2) evict.policy_ok_frame [of st X "(policy st)\<lparr>sketch := sk\<rparr>"] by (simp add: store_inv_def)
  ultimately show ?thesis using I by (simp add: store_inv_def)
qed

subsection \<open>Handlers\<close>

text \<open>
  What the handling of an event for the entries \<open>E\<close> does to the rest of the store: it
  evolves, no other entry enters the wheel or changes its weight, and the counters stay.
\<close>

definition handled :: "addr set \<Rightarrow> ('k, 'v, 'z) store_scheme \<Rightarrow> ('k, 'v, 'z) store_scheme \<Rightarrow> bool" where
  "handled E st st' \<longleftrightarrow> evolves st st' \<and> enters E (heap st) (heap st') \<and>
     (\<forall>a. a \<notin> E \<longrightarrow> policyWeight (heap st' a) = policyWeight (heap st a)) \<and> kept_params (policy st') (policy st)"

lemma handled_refl [simp]: "handled E st st"
  by (simp add: handled_def kept_params_def enters_def)

lemma handled_trans: "handled E a b \<Longrightarrow> handled E b c \<Longrightarrow> handled E a c"
  unfolding handled_def enters_def using evolves_trans [of a b c] kept_params_trans [of "policy c" "policy b" "policy a"] by auto

lemma handled_mono: "handled E a b \<Longrightarrow> E \<subseteq> F \<Longrightarrow> handled F a b"
  unfolding handled_def enters_def by auto

lemma handled_heap:
  assumes "client_fields st' = client_fields st" "entryPool st' = entryPool st" "shards st' = shards st"
    "\<And>a. entry_evolves False (heap st a) (heap st' a)" "kept_params (policy st') (policy st)"
    "\<And>a. a \<notin> E \<Longrightarrow> prv WHEEL_LIST (heap st') a = prv WHEEL_LIST (heap st) a" "\<And>a. a \<notin> E \<Longrightarrow> policyWeight (heap st' a) = policyWeight (heap st a)"
  shows "handled E st st'"
  unfolding handled_def enters_def using assms(5-7) evolves_heap [OF assms(1-4)] by simp

lemma entry_evolves_reweigh: "entry_evolves b (h a) (reweigh e d h a)"
  by (simp add: entry_evolves_def reweigh_def modify_def)

lemma handled_wheel:
  assumes "wframe (heap st) h" "enters E (heap st) h" shows "handled E st (st\<lparr>heap := h, timerwheel := tw\<rparr>)"
proof -
  have "evolves st (st\<lparr>heap := h, timerwheel := tw\<rparr>)" by (rule evolves_heap) (simp_all add: client_fields_def entry_evolves_frame assms(1))
  then show ?thesis using assms wframe_fields(4) [OF assms(1)] by (simp add: handled_def kept_params_def)
qed

lemma handled_keeps:
  assumes "evict.keeps st st F st' X'" shows "handled {} st st'"
  using assms by (simp add: evict.keeps_def maintains_def handled_def enters_def wheel_links_def kept_params_def)

lemma store_inv_parts:
  assumes "store_inv st X"
  shows "policy_ok st X" "store_side st" "map_inv st" "tsize (heap st) X \<le> unat (capacity (policy st))"
  using assms by (simp_all add: store_inv_def store_side_def)

lemma maintains_refl: "store_inv st X \<Longrightarrow> maintains st st"
  by (simp add: maintains_def store_side_def store_inv_def wheel_links_def)

lemma keeps_store_inv:
  assumes I: "store_inv st X" and k: "evict.keeps st0 st1 E st' X'" and E: "E \<subseteq> insert e (all_entries X)"
    and w: "weightedSize (policy st') \<le> capacity (policy st')" "capacity (policy st1) = capacity (policy st)"
    and h: "\<And>a. a \<noteq> e \<Longrightarrow> policyWeight (heap st1 a) = policyWeight (heap st a)" "0 \<le> sint (policyWeight (heap st1 e))"
  shows "store_inv st' X'"
proof -
  have k': "policy_ok st' X'" "store_side st'" "capacity (policy st') = capacity (policy st)" "all_entries X' \<subseteq> insert e (all_entries X)"
    "\<And>a. policyWeight (heap st' a) = policyWeight (heap st1 a)"
    using k E w(2) by (auto simp: evict.keeps_def maintains_def)
  have "tsize (heap st') X' \<le> unat (capacity (policy st'))"
    by (rule size_within [OF store_inv_parts(1,4) [OF I] k'(1) w(1) k'(3,4)]) (simp_all add: k'(5) h)
  then show ?thesis using k'(1,2) by (simp add: store_inv_def store_side_def)
qed

text \<open>Removal: the entry leaves everything, or the call returns early because it was refreshed.\<close>

lemma removeEntry_inv:
  assumes I: "store_inv st X" and e: "\<not> IsRoot (flags (heap st) e)"
  shows "\<exists>st' X'. removeEntry e reason st = Some st' \<and> store_inv st' X' \<and> all_entries X' \<subseteq> all_entries X \<and>
    (\<forall>a\<in>all_entries X - all_entries X'. a = e) \<and> handled {} st st' \<and> removal st e st'"
proof (cases "reason = EXPIRED \<and> slt (fst (read_now st)) (expire (heap st e))")
  case True
  let ?h = "modify e (flag_update (SetRemoved True)) (heap st)"
  let ?st = "st\<lparr>heap := ?h, clk_pos := clk_pos st + 1\<rparr>"
  have "store_inv (st\<lparr>heap := ?h\<rparr>) X" by (rule store_inv_links [OF I same_links_flag(1)])
  then have "store_inv ?st X" by (rule store_inv_cong) simp_all
  moreover have h: "handled {} st ?st"
    by (rule handled_heap) (simp_all add: client_fields_def entry_evolves_flag kept_params_def heap_simps, simp add: modify_def)
  moreover have "removal st e ?st" using h by (simp add: removal_def handled_def flags_def modify_def)
  ultimately show ?thesis using removeEntry_refreshed [of st e] True store_inv_parts(3) [OF I] by auto
next
  case False
  let ?X = "\<lambda>q. removeAll e (X q)"
  obtain R where W: "wreps (heap st) (timerwheel st) R" using I by (auto simp: store_inv_def)
  have early: "reason = EXPIRED \<longrightarrow> sle (expire (heap st e)) (fst (read_now st))" using False by (auto simp: slt_not_sle)
  obtain st' where st': "removeEntry e reason st = Some st'" "map_inv st'" "policy_ok st' ?X" "wreps (heap st') (timerwheel st') (\<lambda>r. removeAll e (R r))"
    "kept_params (policy st') (policy st)" "\<And>a. policyWeight (heap st' a) = policyWeight (heap st a)" "removal st e st'" "timerwheel st' = timerwheel st"
    using removeEntry_spec [OF store_inv_parts(3,1) [OF I] W e early] by blast
  have s: "all_entries ?X = all_entries X - {e}" by (auto simp: all_entries_def)
  have "tsize (heap st') ?X \<le> tsize (heap st) X"
    by (rule tsize_subset [OF policy_ok_parts(1) [OF st'(3)] policy_ok_parts(1) [OF store_inv_parts(1) [OF I]]]) (use s st'(6) in auto)
  then have "store_inv st' ?X" using st' store_inv_parts(4) [OF I] by (auto simp: store_inv_def kept_params_def)
  moreover have "wheel_links (heap st) (heap st')" by (rule wheel_links_members [OF W st'(4)]) (auto simp: st'(8) members_def)
  then have "handled {} st st'" using st'(5-7) by (simp add: handled_def enters_def removal_def wheel_links_def)
  ultimately show ?thesis using st'(1,7) s by blast
qed

lemma store_inv_member:
  assumes "store_inv st X" "\<not> IsRoot (flags (heap st) e)"
  shows "m_prev (meta (heap st e)) \<noteq> None \<longleftrightarrow> e \<in> all_entries X"
proof -
  note X = policy_ok_parts(1) [OF store_inv_parts(1) [OF assms(1)]]
  have "e \<notin> roots (plist (policy st))" using reps_root [OF X] assms(2) by blast
  then show ?thesis by (rule reps_member [OF X])
qed

lemma meta_policy_wframe: "wframe h h' \<Longrightarrow> m_prev (meta (h' a)) = m_prev (meta (h a))"
  using fun_cong [OF wframe_fields(7), of h h' a] by (simp add: prv_def e_prev_def)

text \<open>The second half of the handling of \<open>NEW\<close>: the sketch, the weight and \<open>policy.Set\<close>.\<close>

lemma new_inv:
  assumes I: "store_inv st X" and e: "\<not> IsRoot (flags (heap st) e)" "m_prev (meta (heap st e)) = None"
    and w: "0 \<le> sint (policyWeight (heap st e) + d)" and n: "entry_count X < 2 ^ 45"
  shows "\<exists>st' X'. do { (sk, _) \<leftarrow> sk_Add hsh (sketch (policy st));
        let st = st\<lparr>policy := (policy st)\<lparr>sketch := sk\<rparr>, heap := reweigh e d (heap st)\<rparr>;
        tlfu_Set (\<lambda>a. removeEntry a EVICTED) e st } = Some st' \<and> store_inv st' X' \<and>
    all_entries X' \<subseteq> insert e (all_entries X) \<and> (\<forall>a\<in>insert e (all_entries X) - all_entries X'. gone_from_store st' a) \<and>
    handled {e} st st' \<and> policyWeight (heap st' e) = policyWeight (heap st e) + d"
proof -
  obtain sk r where sk: "sk_Add hsh (sketch (policy st)) = Some (sk, r)" "sketch_wf sk"
    using Add_spec [of "sketch (policy st)" hsh] policy_ok_parts(4) [OF store_inv_parts(1) [OF I]] by metis
  define st1 where "st1 = st\<lparr>policy := (policy st)\<lparr>sketch := sk\<rparr>, heap := reweigh e d (heap st)\<rparr>"
  have out: "e \<notin> all_entries X" using store_inv_member [OF I e(1)] e(2) by simp
  have "store_inv (st\<lparr>policy := (policy st)\<lparr>sketch := sk\<rparr>\<rparr>) X" by (rule store_inv_sketch [OF I sk(2)])
  from store_inv_reweigh [OF this out, of d] have I1: "store_inv st1 X" by (simp add: st1_def)
  have f: "m_prev (meta (heap st1 e)) = None" "\<not> IsRoot (flags (heap st1) e)" "0 \<le> sint (policyWeight (heap st1 e))"
    "capacity (policy st1) = capacity (policy st)" using e w by (simp_all add: st1_def)
  obtain st' X' where S: "tlfu_Set (\<lambda>a. removeEntry a EVICTED) e st1 = Some st'" "evict.keeps st1 st1 (insert e (all_entries X)) st' X'"
    "weightedSize (policy st') \<le> capacity (policy st')"
    using evict.Set_spec [OF store_inv_parts(1) [OF I1] maintains_refl [OF I1] f(1-3) n] by blast
  have "store_inv st' X'"
    by (rule keeps_store_inv [OF I S(2) _ S(3) f(4), of e]) (use f(3) in \<open>simp_all add: st1_def\<close>)
  moreover have "handled {e} st st1" by (rule handled_heap) (simp_all add: st1_def client_fields_def kept_params_def entry_evolves_reweigh)
  then have "handled {e} st st'" using handled_trans handled_mono [OF handled_keeps [OF S(2)]] by blast
  moreover have "policyWeight (heap st' e) = policyWeight (heap st e) + d" using S(2) by (simp add: evict.keeps_def st1_def)
  ultimately show ?thesis using S sk(1) by (auto simp: st1_def evict.keeps_def)
qed

lemma sinkNew_inv:
  assumes I: "store_inv st X" and e: "\<not> IsRoot (flags (heap st) e)" "m_prev (meta (heap st e)) = None"
    and w: "0 \<le> sint (policyWeight (heap st e) + wb_costChange item)" and n: "entry_count X < 2 ^ 45"
  shows "\<exists>st' X'. sinkNew e item st = Some st' \<and> store_inv st' X' \<and>
    all_entries X' \<subseteq> insert e (all_entries X) \<and> (\<forall>a\<in>all_entries X - all_entries X'. gone_from_store st' a) \<and>
    handled {e} (st\<lparr>heap := modify e (flag_update (SetRemoved False)) (heap st)\<rparr>) st' \<and>
    (entryPool st = None \<longrightarrow> IsRemoved (flags (heap st') e) \<or> policyWeight (heap st' e) = policyWeight (heap st e) + wb_costChange item)"
proof -
  let ?h = "modify e (flag_update (SetRemoved False)) (heap st)" and ?ex = "expire (heap st e)"
  define st1 where "st1 = (if ?ex \<noteq> 0 then st\<lparr>heap := ?h, clk_pos := clk_pos st + 1\<rparr> else st\<lparr>heap := ?h\<rparr>)"
  define now where "now = (if ?ex \<noteq> 0 then fst (read_now st) else 0)"
  have "store_inv (st\<lparr>heap := ?h\<rparr>) X" by (rule store_inv_links [OF I same_links_flag(1)])
  then have I1: "store_inv st1 X" by (rule store_inv_cong) (simp_all add: st1_def)
  have e1: "\<not> IsRoot (flags (heap st1) e)" "m_prev (meta (heap st1 e)) = None" "policyWeight (heap st1 e) = policyWeight (heap st e)"
    using e by (simp_all add: st1_def flags_def modify_def)
  have H1: "handled {e} (st\<lparr>heap := ?h\<rparr>) st1" by (rule handled_heap) (simp_all add: st1_def client_fields_def kept_params_def entry_evolves_def)
  have run: "sinkNew e item st = (if ?ex \<noteq> 0 \<and> sle ?ex now then removeEntry e EXPIRED st1
      else do { st \<leftarrow> (if ?ex \<noteq> 0 then schedule e st1 else Some st1);
        (sk, _) \<leftarrow> sk_Add (wb_hash item) (sketch (policy st));
        let st = st\<lparr>policy := (policy st)\<lparr>sketch := sk\<rparr>, heap := reweigh e (wb_costChange item) (heap st)\<rparr>;
        tlfu_Set (\<lambda>a. removeEntry a EVICTED) e st })"
    by (simp add: sinkNew_def Let_def st1_def now_def read_now_def modify_def)
  show ?thesis
  proof (cases "?ex \<noteq> 0 \<and> sle ?ex now")
    case True
    have "e \<notin> all_entries X" using store_inv_member [OF I e(1)] e(2) by simp
    moreover obtain st' X' where r: "removeEntry e EXPIRED st1 = Some st'" "store_inv st' X'" "all_entries X' \<subseteq> all_entries X"
      "\<forall>a\<in>all_entries X - all_entries X'. a = e" "handled {} st1 st'" "removal st1 e st'" using removeEntry_inv [OF I1 e1(1), of EXPIRED] by blast
    moreover have "handled {e} (st\<lparr>heap := ?h\<rparr>) st'" using handled_trans [OF H1 handled_mono [OF r(5)]] by simp
    moreover have "entryPool st1 = entryPool st" by (simp add: st1_def)
    ultimately show ?thesis using run True by (intro exI [of _ st'] exI [of _ X']) (auto simp: removal_def)
  next
    case False
    obtain h tw where s: "(if ?ex \<noteq> 0 then schedule e st1 else Some st1) = Some (st1\<lparr>heap := h, timerwheel := tw\<rparr>)"
      "store_inv (st1\<lparr>heap := h, timerwheel := tw\<rparr>) X" "wframe (heap st1) h" "enters {e} (heap st1) h"
      using schedule_inv [OF I1 e1(1)] I1 that [where h = "heap st1" and tw = "timerwheel st1"] by (cases "?ex = 0") (auto simp: enters_def)
    let ?st = "st1\<lparr>heap := h, timerwheel := tw\<rparr>"
    have e2: "\<not> IsRoot (flags (heap ?st) e)" "m_prev (meta (heap ?st e)) = None"
      "0 \<le> sint (policyWeight (heap ?st e) + wb_costChange item)"
      using e1 w wframe_fields [OF s(3)] meta_policy_wframe [OF s(3)] by simp_all
    have r: "sinkNew e item st = do { (sk, _) \<leftarrow> sk_Add (wb_hash item) (sketch (policy ?st));
        let st = ?st\<lparr>policy := (policy ?st)\<lparr>sketch := sk\<rparr>, heap := reweigh e (wb_costChange item) (heap ?st)\<rparr>;
        tlfu_Set (\<lambda>a. removeEntry a EVICTED) e st }"
      unfolding run if_not_P [OF False] s(1) by simp
    obtain st' X' where N: "sinkNew e item st = Some st'" "store_inv st' X'" "all_entries X' \<subseteq> insert e (all_entries X)"
      "\<forall>a\<in>insert e (all_entries X) - all_entries X'. gone_from_store st' a" "handled {e} ?st st'"
      "policyWeight (heap st' e) = policyWeight (heap ?st e) + wb_costChange item"
      using new_inv [OF s(2) e2 n, of "wb_hash item", folded r] by blast
    have "handled {e} (st\<lparr>heap := ?h\<rparr>) st'" using handled_trans [OF handled_trans [OF H1 handled_wheel [OF s(3,4)]] N(5)] .
    moreover have "policyWeight (heap st' e) = policyWeight (heap st e) + wb_costChange item" using N(6) wframe_fields(4) [OF s(3)] e1(3) by simp
    ultimately show ?thesis using N(1-4) by (intro exI [of _ st'] exI [of _ X']) simp
  qed
qed

text \<open>The handling of \<open>UPDATE\<close>: the weight is changed first, the policy follows.\<close>

lemma reweigh_inverse [simp]: "reweigh e d (reweigh e (- d) h) = h" "reweigh e 0 h = h"
proof -
  have "policyWeight_update (\<lambda>w. w) x = x" for x :: "('a, 'b) Entry" by (cases x) simp
  then show "reweigh e d (reweigh e (- d) h) = h" "reweigh e 0 h = h" by (auto simp: reweigh_def modify_def comp_def)
qed

lemma pview_reweigh: "pview h' = pview (reweigh e d h) \<Longrightarrow> pview (reweigh e (- d) h') = pview h"
  by (auto simp: pview_def fun_eq_iff split: if_splits)

text \<open>Rescheduling does not interfere with the pending change of the weight.\<close>

lemma reschedule_reweighed:
  assumes I: "store_inv st X" and e: "\<not> IsRoot (flags (heap st) e)" and st1: "st1 = st\<lparr>heap := reweigh e d (heap st)\<rparr>"
  shows "\<exists>h tw. (if b then schedule e st1 else Some st1) = Some (st1\<lparr>heap := h, timerwheel := tw\<rparr>) \<and> wframe (heap st1) h \<and> enters {e} (heap st1) h \<and>
    store_side (st1\<lparr>heap := h, timerwheel := tw\<rparr>) \<and> store_inv (st\<lparr>heap := reweigh e (- d) h, timerwheel := tw\<rparr>) X"
proof -
  obtain R where W: "wreps (heap st1) (timerwheel st1) R"
    using I wreps_wview [OF wview_reweigh, of e d "heap st"] by (auto simp: store_inv_def st1)
  have e1: "\<not> IsRoot (flags (heap st1) e)" using e by (simp add: st1)
  obtain h tw R' where s: "(if b then schedule e st1 else Some st1) = Some (st1\<lparr>heap := h, timerwheel := tw\<rparr>)" "wframe (heap st1) h" "wreps h tw R'"
    "enters {e} (heap st1) h"
    using schedule_enters [OF W e1] W that [where h = "heap st1" and tw = "timerwheel st1"] by (cases b) (auto simp: enters_def)
  let ?g = "reweigh e (- d) h"
  let ?u = "st\<lparr>heap := ?g, timerwheel := tw\<rparr>" and ?st2 = "st1\<lparr>heap := h, timerwheel := tw\<rparr>"
  have pv: "pview ?g = pview (heap st)" using wframe_pview [OF s(2)] by (intro pview_reweigh) (simp add: st1)
  have f: "key (h a) = key (heap st a)" "IsRoot (flags h a) = IsRoot (flags (heap st) a)" for a
    using wframe_fields(1,8) [OF s(2)] by (simp_all add: st1)
  have M: "map_inv ?st2" "map_inv ?u"
    using map_inv_cong [OF store_inv_parts(3) [OF I], of ?st2] map_inv_cong [OF store_inv_parts(3) [OF I], of ?u] f by (simp_all add: st1)
  have "policy_ok (st\<lparr>heap := ?g\<rparr>) X" by (rule policy_ok_pview [OF pv store_inv_parts(1) [OF I]])
  then have k: "policy_ok ?u X" using policy_ok_cong [of ?u "st\<lparr>heap := ?g\<rparr>" X] by simp
  have "tsize ?g X = tsize (heap st) X" by (intro tsize_cong policyWeight_pview [OF pv])
  then have "store_inv ?u X" using M(2) k s(3) store_inv_parts(4) [OF I] wreps_wview [OF wview_reweigh, of e "- d" h]
    by (auto simp: store_inv_def)
  moreover have "store_side ?st2" using M(1) s(3) by (auto simp: store_side_def)
  ultimately show ?thesis using s by blast
qed

lemma sinkUpdate_inv:
  assumes I: "store_inv st X" and e: "\<not> IsRoot (flags (heap st) e)"
    and w: "0 \<le> sint (policyWeight (heap st e) + wb_costChange item)"
  shows "\<exists>st' X'. sinkUpdate e item st = Some st' \<and> store_inv st' X' \<and>
    all_entries X' \<subseteq> all_entries X \<and> (\<forall>a\<in>all_entries X - all_entries X'. gone_from_store st' a) \<and>
    handled {e} st st' \<and> (entryPool st = None \<longrightarrow> policyWeight (heap st' e) = policyWeight (heap st e) + wb_costChange item)"
proof (cases "entryPool st \<noteq> None \<and> s_hasher st (key (heap st e)) \<noteq> wb_hash item")
  case True
  then show ?thesis using I by (auto simp: sinkUpdate_def)
next
  case False
  let ?d = "wb_costChange item"
  define st1 where "st1 = st\<lparr>heap := reweigh e ?d (heap st)\<rparr>"
  obtain h tw where s: "(if wb_rechedule item then schedule e st1 else Some st1) = Some (st1\<lparr>heap := h, timerwheel := tw\<rparr>)"
    "wframe (heap st1) h" "store_side (st1\<lparr>heap := h, timerwheel := tw\<rparr>)" "store_inv (st\<lparr>heap := reweigh e (- ?d) h, timerwheel := tw\<rparr>) X"
    "enters {e} (heap st1) h"
    using reschedule_reweighed [OF I e st1_def] by blast
  define st2 where "st2 = st1\<lparr>heap := h, timerwheel := tw\<rparr>"
  define u where "u = st\<lparr>heap := reweigh e (- ?d) h, timerwheel := tw\<rparr>"
  have u: "store_inv u X" using s(4) by (simp add: u_def)
  have st2: "st2 = u\<lparr>heap := reweigh e ?d (heap u)\<rparr>" by (simp add: st2_def st1_def u_def)
  have eu: "\<not> IsRoot (flags (heap u) e)" "m_prev (meta (heap st2 e)) = m_prev (meta (heap u e))"
    using wframe_fields(8) [OF s(2)] e by (simp_all add: u_def st1_def st2_def)
  have run: "sinkUpdate e item st = (if m_prev (meta (heap st2 e)) = None then Some st2
      else if ?d \<noteq> 0 then tlfu_UpdateCost (\<lambda>a. removeEntry a EVICTED) e ?d st2 else Some st2)"
    unfolding sinkUpdate_def if_not_P [OF False] Let_def st1_def [symmetric] s(1) by (simp add: st2_def)
  note mem = store_inv_member [OF u eu(1)]
  have "handled {e} st st1" by (rule handled_heap) (simp_all add: st1_def client_fields_def kept_params_def entry_evolves_reweigh)
  then have H2: "handled {e} st st2" unfolding st2_def by (rule handled_trans) (rule handled_wheel [OF s(2,5)])
  have pw2: "policyWeight (heap st2 e) = policyWeight (heap st e) + ?d" using wframe_fields(4) [OF s(2), of e] by (simp add: st2_def st1_def)
  show ?thesis
  proof (cases "m_prev (meta (heap u e)) = None \<or> ?d = 0")
    case True
    then have "store_inv st2 X" using u store_inv_reweigh [OF u, of e ?d] mem unfolding st2 by auto
    then show ?thesis using run True eu(2) H2 pw2 by auto
  next
    case False
    then obtain q where q: "e \<in> set (X q)" using mem by (auto simp: all_entries_def)
    have w2: "0 \<le> sint (policyWeight (heap u e) + ?d)" using w wframe_fields(4) [OF s(2), of e] by (simp add: u_def st1_def)
    obtain st' X' where U: "tlfu_UpdateCost (\<lambda>a. removeEntry a EVICTED) e ?d st2 = Some st'" "evict.keeps st2 st2 (all_entries X) st' X'"
      "weightedSize (policy st') \<le> capacity (policy st')"
      using evict.UpdateCost_spec [OF store_inv_parts(1) [OF u] q w2 st2, of st2] s(3) by (auto simp: st2_def maintains_def wheel_links_def)
    have "store_inv st' X'"
      by (rule keeps_store_inv [OF u U(2) _ U(3), of e]) (use w2 in \<open>auto simp: st2\<close>)
    moreover have "handled {e} st st'" using handled_trans [OF H2 handled_mono [OF handled_keeps [OF U(2)]]] by simp
    ultimately show ?thesis using U run False eu(2) pw2 by (auto simp: evict.keeps_def)
  qed
qed

text \<open>
  What the handler of an event relies on, unless the event is for a deleted or removed
  entry and dropped: the sender is a shard operation.
\<close>

definition event_ok :: "('k, 'v, 'z) store_scheme \<Rightarrow> WriteBufItem \<Rightarrow> bool" where
  "event_ok st item \<longleftrightarrow> (\<forall>e. wb_entry item = Some e \<longrightarrow> \<not> IsRoot (flags (heap st) e) \<and>
     (\<not> IsDeleted (flags (heap st) e) \<longrightarrow>
       (wb_code item = NEW \<longrightarrow> m_prev (meta (heap st e)) = None \<and> 0 \<le> sint (policyWeight (heap st e) + wb_costChange item)) \<and>
       (wb_code item = UPDATE \<longrightarrow> \<not> IsRemoved (flags (heap st) e) \<longrightarrow> 0 \<le> sint (policyWeight (heap st e) + wb_costChange item))))"

text \<open>A \<open>NEW\<close> event starts the entry's life in the policy: the removed flag is cleared first.\<close>

definition renewed :: "WriteBufItem \<Rightarrow> addr \<Rightarrow> ('k, 'v, 'z) store_scheme \<Rightarrow> ('k, 'v, 'z) store_scheme" where
  "renewed item e st = (if wb_code item = NEW then st\<lparr>heap := modify e (flag_update (SetRemoved False)) (heap st)\<rparr> else st)"

lemma sinkWrite_inv:
  fixes st :: "('k, 'v::zero, 'z) store_scheme"
  assumes I: "store_inv st X" and ok: "event_ok st item" and n: "entry_count X < 2 ^ 45" and Some: "wb_entry item = Some e"
  shows "\<exists>st' X'. sinkWrite item st = Some st' \<and> store_inv st' X' \<and> handled {e} (renewed item e st) st' \<and>
    (\<forall>a\<in>all_entries X' - all_entries X. wb_code item = NEW \<and> a = e) \<and>
    (\<forall>a\<in>all_entries X - all_entries X'. gone_from_store st' a \<or> a = e) \<and>
    (entryPool st = None \<longrightarrow> wb_costChange item = 0 \<or> wb_code item = NEW \<or> wb_code item = UPDATE \<longrightarrow>
      IsRemoved (flags (heap st') e) \<or> IsDeleted (flags (heap st') e) \<or> policyWeight (heap st' e) = policyWeight (heap st e) + wb_costChange item)"
proof -
  define st1 where "st1 = (if wb_code item = REMOVE then st\<lparr>heap := modify e (flag_update (SetDeleted True)) (heap st)\<rparr> else st)"
  define st2 where "st2 = (if wb_fromNVM item then st1\<lparr>heap := modify e (flag_update (SetFromNVM True)) (heap st1)\<rparr> else st1)"
  have "store_inv st1 X" using I store_inv_links [OF I same_links_flag(2)] by (simp add: st1_def)
  then have I2: "store_inv st2 X" using store_inv_links [of st1 X, OF _ same_links_flag(3)] by (simp add: st2_def)
  have eq: "m_prev (meta (heap st2 a)) = m_prev (meta (heap st a))" "policyWeight (heap st2 a) = policyWeight (heap st a)"
    "IsRoot (flags (heap st2) a) = IsRoot (flags (heap st) a)" "IsRemoved (flags (heap st2) a) = IsRemoved (flags (heap st) a)" for a
    by (simp_all add: st2_def st1_def modify_def flags_def)
  have H: "handled E st st2" for E
    by (rule handled_heap) (simp_all add: st2_def st1_def client_fields_def kept_params_def entry_evolves_def modify_def prv_def e_prev_def)
  let ?post = "\<lambda>r. \<exists>st' X'. r = Some st' \<and> store_inv st' X' \<and> handled {e} (renewed item e st) st' \<and>
    (\<forall>a\<in>all_entries X' - all_entries X. wb_code item = NEW \<and> a = e) \<and>
    (\<forall>a\<in>all_entries X - all_entries X'. gone_from_store st' a \<or> a = e) \<and>
    (entryPool st = None \<longrightarrow> wb_costChange item = 0 \<or> wb_code item = NEW \<or> wb_code item = UPDATE \<longrightarrow>
      IsRemoved (flags (heap st') e) \<or> IsDeleted (flags (heap st') e) \<or> policyWeight (heap st' e) = policyWeight (heap st e) + wb_costChange item)"
  have run: "sinkWrite item st = (if IsDeleted (flag (heap st e)) then Some st
      else if IsRemoved (flag (heap st2 e)) \<and> wb_code item \<noteq> NEW then Some st2
      else (case wb_code item of NEW \<Rightarrow> sinkNew e item st2 | REMOVE \<Rightarrow> removeEntry e REMOVED st2
        | EVICTE \<Rightarrow> removeEntry e EVICTED st2 | UPDATE \<Rightarrow> sinkUpdate e item st2 | WAIT \<Rightarrow> Some st2))"
    by (simp only: sinkWrite_def Some option.case Let_def st1_def st2_def)
  have ok2: "\<not> IsRoot (flags (heap st2) e)"
    "wb_code item = NEW \<Longrightarrow> \<not> IsDeleted (flag (heap st e)) \<Longrightarrow> m_prev (meta (heap st2 e)) = None"
    "wb_code item = NEW \<Longrightarrow> \<not> IsDeleted (flag (heap st e)) \<Longrightarrow> 0 \<le> sint (policyWeight (heap st2 e) + wb_costChange item)"
    "wb_code item = UPDATE \<Longrightarrow> \<not> IsDeleted (flag (heap st e)) \<Longrightarrow> \<not> IsRemoved (flag (heap st2 e)) \<Longrightarrow> 0 \<le> sint (policyWeight (heap st2 e) + wb_costChange item)"
    using ok Some eq [of e] by (auto simp: event_ok_def flags_def)
  have pool: "entryPool st2 = entryPool st" by (simp add: st2_def st1_def)
  have Hr: "handled {e} (renewed item e st) st"
    by (rule handled_heap) (simp_all add: renewed_def client_fields_def kept_params_def entry_evolves_def modify_def prv_def e_prev_def)
  have Hn: "handled {e} (renewed item e st) (st2\<lparr>heap := modify e (flag_update (SetRemoved False)) (heap st2)\<rparr>)" if "wb_code item = NEW"
    by (rule handled_heap) (use that in \<open>simp_all add: renewed_def st2_def st1_def client_fields_def kept_params_def entry_evolves_def modify_def prv_def e_prev_def\<close>)
  note H2 = handled_trans [OF Hr H]
  have rm: "?post (removeEntry e r st2)" for r
  proof -
    obtain st' X' where R: "removeEntry e r st2 = Some st'" "store_inv st' X'" "all_entries X' \<subseteq> all_entries X"
      "\<forall>a\<in>all_entries X - all_entries X'. a = e" "handled {} st2 st'" "removal st2 e st'" using removeEntry_inv [OF I2 ok2(1), of r] by blast
    have "handled {e} (renewed item e st) st'" using handled_trans [OF H2 handled_mono [OF R(5)]] by simp
    then show ?thesis using R pool by (intro exI [of _ st'] exI [of _ X']) (auto simp: removal_def)
  qed
  have nw: "?post (sinkNew e item st2)" if c: "wb_code item = NEW" and d: "\<not> IsDeleted (flag (heap st e))"
  proof -
    obtain st' X' where R: "sinkNew e item st2 = Some st'" "store_inv st' X'" "all_entries X' \<subseteq> insert e (all_entries X)"
      "\<forall>a\<in>all_entries X - all_entries X'. gone_from_store st' a" "handled {e} (st2\<lparr>heap := modify e (flag_update (SetRemoved False)) (heap st2)\<rparr>) st'"
      "entryPool st2 = None \<longrightarrow> IsRemoved (flags (heap st') e) \<or> policyWeight (heap st' e) = policyWeight (heap st2 e) + wb_costChange item"
      using sinkNew_inv [OF I2 ok2(1) ok2(2) [OF c d] ok2(3) [OF c d] n] by (elim exE conjE) (rule that)
    show ?thesis using R handled_trans [OF Hn [OF c] R(5)] pool eq(2) c by (intro exI [of _ st'] exI [of _ X']) auto
  qed
  have up: "?post (sinkUpdate e item st2)" if c: "wb_code item = UPDATE" and d: "\<not> IsDeleted (flag (heap st e))" "\<not> IsRemoved (flag (heap st2 e))"
  proof -
    obtain st' X' where R: "sinkUpdate e item st2 = Some st'" "store_inv st' X'" "all_entries X' \<subseteq> all_entries X"
      "\<forall>a\<in>all_entries X - all_entries X'. gone_from_store st' a" "handled {e} st2 st'"
      "entryPool st2 = None \<longrightarrow> policyWeight (heap st' e) = policyWeight (heap st2 e) + wb_costChange item"
      using sinkUpdate_inv [OF I2 ok2(1) ok2(4) [OF c d]] by (elim exE conjE) (rule that)
    show ?thesis using R handled_trans [OF H2 R(5)] pool eq(2) by (intro exI [of _ st'] exI [of _ X']) auto
  qed
  have same: "?post (Some st)" if "IsDeleted (flag (heap st e))" using I Hr that by (auto simp: flags_def)
  have same2: "?post (Some st2)" if "IsRemoved (flag (heap st2 e)) \<or> wb_code item = WAIT"
    using I2 H2 that eq(2) by (auto simp: flags_def intro!: exI [of _ X])
  have "?post (case wb_code item of NEW \<Rightarrow> sinkNew e item st2 | REMOVE \<Rightarrow> removeEntry e REMOVED st2
        | EVICTE \<Rightarrow> removeEntry e EVICTED st2 | UPDATE \<Rightarrow> sinkUpdate e item st2 | WAIT \<Rightarrow> Some st2)"
    if d: "\<not> IsDeleted (flag (heap st e))" "\<not> (IsRemoved (flag (heap st2 e)) \<and> wb_code item \<noteq> NEW)"
  proof (cases "wb_code item")
    case NEW then show ?thesis using nw [OF NEW d(1)] by (simp only: code.case)
  next
    case REMOVE then show ?thesis using rm [of REMOVED] by (simp only: code.case)
  next
    case EVICTE then show ?thesis using rm [of EVICTED] by (simp only: code.case)
  next
    case UPDATE then show ?thesis using up [OF UPDATE d(1)] d(2) by (simp only: code.case) simp
  next
    case WAIT then show ?thesis using same2 by (simp only: code.case) simp
  qed
  then show ?thesis unfolding run using same same2 by (simp only: split: if_split) blast
qed

end
