(* ===== verification/Store_Client.thy ===== *)
theory Store_Client
  imports Store_Invariant
begin

text \<open>
  The client operations and the remaining handlers: draining reads, the clock tick, and
  reading, writing, deleting and closing through the hash maps. Each keeps the invariant of
  the store; reads and writes meet the contract of a map.
\<close>

subsection \<open>Draining reads\<close>

text \<open>The entries of the read buffers are entries of the cache, not sentinels.\<close>

definition reads_valid :: "('k, 'v) heap \<Rightarrow> ReadBufItem list \<Rightarrow> bool" where
  "reads_valid h items \<longleftrightarrow> (\<forall>x\<in>set items. \<exists>e. rb_entry x = Some e \<and> \<not> IsRoot (flags h e))"

text \<open>Reads change only the policy: its fields and its part of the entries.\<close>

definition policy_only :: "('k, 'v, 'z) pstate_scheme \<Rightarrow> ('k, 'v, 'z) pstate_scheme \<Rightarrow> bool" where
  "policy_only st st' \<longleftrightarrow> same_rest st st' \<and> pframe (heap st) (heap st') \<and>
     hits (policy st') = hits (policy st) \<and> misses (policy st') = misses (policy st)"

lemma policy_only_refl [simp]: "policy_only st st"
  by (simp add: policy_only_def same_rest_def)

lemma policy_only_trans: "policy_only a b \<Longrightarrow> policy_only b c \<Longrightarrow> policy_only a c"
  unfolding policy_only_def same_rest_def using pframe_trans [of "heap a" "heap b" "heap c"] by simp

lemma policy_only_fields:
  fixes st st' :: "('k, 'v, 'z) store_scheme"
  assumes "policy_only st st'"
  shows "shards st' = shards st" "shardCount st' = shardCount st" "s_hasher st' = s_hasher st" "stripedBuffer st' = stripedBuffer st"
    "mask st' = mask st" "timerwheel st' = timerwheel st" "clk st' = clk st" "st_closed st' = st_closed st"
    "key (heap st' a) = key (heap st a)" "evalue (heap st' a) = evalue (heap st a)" "expire (heap st' a) = expire (heap st a)"
    "IsRoot (flags (heap st') a) = IsRoot (flags (heap st) a)" "hits (policy st') = hits (policy st)" "misses (policy st') = misses (policy st)"
proof -
  obtain h t where eq: "st' = st\<lparr>heap := h, policy := t\<rparr>" using same_restD assms unfolding policy_only_def by blast
  show "shards st' = shards st" "shardCount st' = shardCount st" "s_hasher st' = s_hasher st" "stripedBuffer st' = stripedBuffer st"
    "mask st' = mask st" "timerwheel st' = timerwheel st" "clk st' = clk st" "st_closed st' = st_closed st"
    by (simp_all add: eq)
  show "key (heap st' a) = key (heap st a)" "evalue (heap st' a) = evalue (heap st a)" "expire (heap st' a) = expire (heap st a)"
    "IsRoot (flags (heap st') a) = IsRoot (flags (heap st) a)" "hits (policy st') = hits (policy st)" "misses (policy st') = misses (policy st)"
    using assms by (simp_all add: policy_only_def pframe_fields)
qed

lemma reads_valid_policy_only: "policy_only st st' \<Longrightarrow> reads_valid (heap st') items = reads_valid (heap st) items"
  using pframe_fields(8) [of "heap st" "heap st'"] by (simp add: reads_valid_def policy_only_def)

lemma all_entries_touch:
  assumes e: "e \<in> set (X q)" shows "all_entries (touch e q X) = all_entries X"
proof -
  have "x = e \<or> x \<in> set (remove1 e xs) \<longleftrightarrow> x = e \<or> x \<in> set xs" for x xs by (induction xs) auto
  then have "x \<in> all_entries (touch e q X) \<longleftrightarrow> x \<in> all_entries X" for x using e by (cases q; cases "x = e") (auto simp: all_entries_simp)
  then show ?thesis by blast
qed

lemma size_ok:
  assumes I: "store_inv st X" shows "weightedSize (policy st) \<le> capacity (policy st)"
proof -
  have "tsize (heap st) X < 2 ^ 64" using store_inv_parts(4) [OF I] policy_ok_parts(2) [OF store_inv_parts(1) [OF I]] by simp
  then show ?thesis using weightedSize_exact [OF store_inv_parts(1) [OF I]] store_inv_parts(4) [OF I] by (simp add: word_le_nat_alt)
qed

lemma Access_inv:
  fixes st :: "('k, 'v::zero, 'z) store_scheme"
  assumes I: "store_inv st X" and e: "rb_entry item = Some e" "\<not> IsRoot (flags (heap st) e)"
  shows "\<exists>st' X'. tlfu_Access item st = Some st' \<and> store_inv st' X' \<and> all_entries X' = all_entries X \<and>
    weightedSize (policy st') = weightedSize (policy st) \<and> policy_only st st' \<and> capacity (policy st') = capacity (policy st)"
proof -
  obtain st' X1 X' where A: "tlfu_Access item st = Some st'" "evict.keeps st st (all_entries X) st' X'"
    "weightedSize (policy st') = weightedSize (policy st)" "all_entries X1 = all_entries X" "policy_only st st'"
    "if e \<in> all_entries X1 then \<exists>q. e \<in> set (X1 q) \<and> X' = touch e q X1 else X' = X1"
    using evict.Access_spec [OF store_inv_parts(1) [OF I] maintains_refl [OF I] e] unfolding policy_only_def by (auto simp: evict.keeps_def)
  have k: "policy_ok st' X'" "store_side st'" "capacity (policy st') = capacity (policy st)"
    "\<And>a. policyWeight (heap st' a) = policyWeight (heap st a)" using A(2) by (simp_all add: evict.keeps_def maintains_def)
  have all: "all_entries X' = all_entries X" using A(4,6) all_entries_touch by (auto split: if_splits)
  have "tsize (heap st') X' \<le> tsize (heap st) X"
    by (rule tsize_subset [OF policy_ok_parts(1) [OF k(1)] policy_ok_parts(1) [OF store_inv_parts(1) [OF I]]]) (simp_all add: all k(4))
  then have "store_inv st' X'" using k store_inv_parts(4) [OF I] by (simp add: store_inv_def store_side_def)
  then show ?thesis using A all by (auto simp: evict.keeps_def)
qed

lemma drainRead_item_inv:
  fixes st :: "('k, 'v::zero, 'z) store_scheme"
  assumes I: "store_inv st X" and e: "rb_entry item = Some e" "\<not> IsRoot (flags (heap st) e)"
  shows "\<exists>st' X'. drainRead_item item st = Some st' \<and> store_inv st' X' \<and> all_entries X' = all_entries X \<and>
    weightedSize (policy st') = weightedSize (policy st) \<and> policy_only st st' \<and> capacity (policy st') = capacity (policy st)"
proof (cases "(entryPool st \<noteq> None \<and> s_hasher st (key (heap st e)) \<noteq> rb_hash item) \<or> IsRemoved (flag (heap st e))")
  case True
  then have "drainRead_item item st = Some st" by (auto simp: drainRead_item_def e(1))
  then show ?thesis using I by (intro exI [of _ st] exI [of _ X]) simp
next
  case False
  then have "drainRead_item item st = tlfu_Access item st" by (auto simp: drainRead_item_def e(1))
  then show ?thesis using Access_inv [OF I e] by simp
qed

lemma drainRead_inv:
  fixes st :: "('k, 'v::zero, 'z) store_scheme"
  assumes "store_inv st X" "reads_valid (heap st) buf"
  shows "\<exists>st' X'. drainRead buf st = Some st' \<and> store_inv st' X' \<and> all_entries X' = all_entries X \<and>
    weightedSize (policy st') = weightedSize (policy st) \<and> policy_only st st' \<and> capacity (policy st') = capacity (policy st)"
  using assms
proof (induction buf arbitrary: st X)
  case (Cons item buf)
  obtain e where e: "rb_entry item = Some e" "\<not> IsRoot (flags (heap st) e)" using Cons.prems(2) by (auto simp: reads_valid_def)
  obtain st1 X1 where 1: "drainRead_item item st = Some st1" "store_inv st1 X1" "all_entries X1 = all_entries X"
    "weightedSize (policy st1) = weightedSize (policy st)" "policy_only st st1" "capacity (policy st1) = capacity (policy st)"
    using drainRead_item_inv [OF Cons.prems(1) e] by blast
  have "reads_valid (heap st1) buf" using Cons.prems(2) reads_valid_policy_only [OF 1(5)] by (simp add: reads_valid_def)
  from Cons.IH [OF 1(2) this] show ?case using 1 policy_only_trans [OF 1(5)] by fastforce
qed auto

subsection \<open>The clock tick\<close>

lemma maintenance_tick_inv:
  fixes st :: "('k, 'v::zero, 'z) store_scheme"
  assumes I: "store_inv st X" and live: "\<not> st_closed st"
    and now: "now = NowNano (clk st (clk_pos st + 1)) (tw_clock (timerwheel st))" "now \<noteq> 0"
    and mono: "0 \<le> sint (nanos (timerwheel st))" "sint (nanos (timerwheel st)) \<le> sint now"
  shows "\<exists>st' X'. maintenance_tick st = Some st' \<and> store_inv st' X' \<and> nanos (timerwheel st') = now \<and> handled {} st st' \<and> leaves (heap st) (heap st')"
proof -
  define tw where "tw = (timerwheel st)\<lparr>tw_clock := RefreshNowCache (clk st (clk_pos st)) (tw_clock (timerwheel st))\<rparr>"
  define st1 where "st1 = st\<lparr>timerwheel := tw, clk_pos := clk_pos st + 1\<rparr>"
  obtain R where W: "wreps (heap st) (timerwheel st) R" using I by (auto simp: store_inv_def)
  then have W1: "wreps (heap st1) (timerwheel st1) R" by (simp add: st1_def tw_def wreps_def wheel_shape_def wroots_def)
  have f: "nanos (timerwheel st1) = nanos (timerwheel st)" "fst (read_now st1) = now" "wroots (timerwheel st1) = wroots (timerwheel st)"
    by (simp_all add: st1_def tw_def read_now_def now RefreshNowCache_def NowNano_def wroots_def)
  have "policy_side st" using I by (auto simp: store_inv_def policy_side_def)
  then have "ticks st st" by (simp add: ticks_def kept_params_def)
  then have k: "ticks st st1" using ticks_wframe [of st st "heap st", where tw = tw and c = "clk_pos st + 1"] by (simp add: st1_def)
  have t: "timely UNIV (heap st1) (timerwheel st1) R" by (simp add: timely_def)
  obtain st' R' where a: "advance removeEntry 0 st1 = Some st'" "ticks st st'" "wreps (heap st') (timerwheel st') R'" "nanos (timerwheel st') = now"
    "wroots (timerwheel st') = wroots (timerwheel st1)" "members (set (wroots (timerwheel st1))) R' \<subseteq> members (set (wroots (timerwheel st1))) R"
    using wheel.advance_spec [OF W1 t k refl, of 0] mono f by auto
  then have "\<exists>X'. store_inv st' X'" by (auto simp: ticks_def policy_side_def store_inv_def)
  moreover have "wheel_links (heap st) (heap st')" by (rule wheel_links_members [OF W a(3)]) (use a(5,6) f(3) in simp_all)
  then have "handled {} st st'" using a(2) by (simp add: handled_def enters_def wheel_links_def ticks_def)
  moreover have "maintenance_tick st = Some st'" using a(1) live by (simp add: maintenance_tick_def st1_def tw_def)
  ultimately show ?thesis using a(2,4) by (auto simp: ticks_def)
qed

subsection \<open>Reading\<close>

text \<open>The read side of the store: the stripes of the read buffer and of the two counters.\<close>

definition reads_ok :: "('k, 'v, 'z) store_scheme \<Rightarrow> bool" where
  "reads_ok st \<longleftrightarrow> (\<exists>m. length (stripedBuffer st) = 2 ^ m \<and> unat (mask st + 1) = 2 ^ m) \<and>
     (\<forall>b\<in>set (stripedBuffer st). \<exists>xs. buf_rep b xs \<and> reads_valid (heap st) xs) \<and>
     counter_wf (hits (policy st)) \<and> counter_wf (misses (policy st))"

text \<open>What a read leaves alone.\<close>

definition read_only :: "('k, 'v, 'z) store_scheme \<Rightarrow> ('k, 'v, 'z) store_scheme \<Rightarrow> bool" where
  "read_only st st' \<longleftrightarrow> pframe (heap st) (heap st') \<and> shards st' = shards st \<and> shardCount st' = shardCount st \<and> s_hasher st' = s_hasher st \<and>
     entryPool st' = entryPool st \<and> next_addr st' = next_addr st \<and> writeChan st' = writeChan st \<and> doorkeeper st' = doorkeeper st \<and>
     timerwheel st' = timerwheel st \<and> st_closed st' = st_closed st \<and> st_cap st' = st_cap st \<and> logf st' = logf st \<and>
     capacity (policy st') = capacity (policy st)"

lemma read_only_trans: "read_only a b \<Longrightarrow> read_only b c \<Longrightarrow> read_only a c"
  using pframe_trans [of "heap a" "heap b" "heap c"] by (simp add: read_only_def)

lemma store_inv_counter:
  assumes "store_inv st X" "t = (policy st)\<lparr>hits := c, misses := c'\<rparr>"
  shows "store_inv (st\<lparr>policy := t, rnd_pos := n\<rparr>) X"
proof -
  let ?st = "st\<lparr>policy := t\<rparr>"
  have k: "policy_ok st X" using assms by (simp add: store_inv_def)
  have "plist t = plist (policy st)" by (simp add: assms(2) fun_eq_iff pqueue_all)
  then have "policy_ok ?st X" using evict.policy_ok_frame [of st X t] k policy_ok_parts(4) [OF k] by (simp add: assms(2))
  moreover have "map_inv ?st" using assms map_inv_cong [of st ?st] by (simp add: store_inv_def)
  ultimately have "store_inv ?st X" using assms by (simp add: store_inv_def)
  then show ?thesis by (rule store_inv_cong) simp_all
qed

lemma record_access_inv:
  fixes st :: "('k, 'v::zero, 'z) store_scheme"
  assumes I: "store_inv st X" and r: "reads_ok st" and e: "\<not> IsRoot (flags (heap st) e)"
  shows "\<exists>st' X'. record_access (Some e) h st = Some st' \<and> store_inv st' X' \<and> reads_ok st' \<and> all_entries X' = all_entries X \<and>
    read_only st st' \<and> weightedSize (policy st') = weightedSize (policy st)"
proof -
  let ?item = "\<lparr>rb_entry = Some e, rb_hash = h\<rparr>"
  define idx where "idx = unat (rnd st (rnd_pos st) AND mask st)"
  define st1 where "st1 = st\<lparr>rnd_pos := rnd_pos st + 1\<rparr>"
  obtain m where m: "length (stripedBuffer st) = 2 ^ m" "unat (mask st + 1) = 2 ^ m" using r by (auto simp: reads_ok_def)
  have idx: "idx < length (stripedBuffer st)"
    using unat_and_pow2_minus_1 [OF m(2), of "rnd st (rnd_pos st)"] m(1) by (simp add: idx_def)
  let ?b = "stripedBuffer st ! idx"
  have "?b \<in> set (stripedBuffer st)" using idx by simp
  then obtain xs where xs: "buf_rep ?b xs" "reads_valid (heap st) xs" using r by (auto simp: reads_ok_def)
  obtain b' xs' res where b': "buffer_Add ?item ?b = (b', res)" "buf_rep b' xs'" "abs_Add ?item (xs, b_returned ?b) = ((xs', b_returned b'), res)"
    using buffer_Add_refines [OF xs(1)] by blast
  have v: "reads_valid (heap st) xs'" "\<And>items. res = Some items \<Longrightarrow> reads_valid (heap st) items"
    using b'(3) xs(2) e by (auto simp: abs_Add_def reads_valid_def split: if_splits)
  define st2 where "st2 = st1\<lparr>stripedBuffer := (stripedBuffer st)[idx := b']\<rparr>"
  have I2: "store_inv st2 X" using I by (rule store_inv_cong) (simp_all add: st2_def st1_def)
  have ok: "reads_ok st3" if s3: "stripedBuffer st3 = (stripedBuffer st)[idx := b3]" "buf_rep b3 xs'" "mask st3 = mask st"
    "\<And>items. reads_valid (heap st3) items = reads_valid (heap st) items" "hits (policy st3) = hits (policy st)" "misses (policy st3) = misses (policy st)"
    for st3 :: "('k, 'v, 'z) store_scheme" and b3
    using r v(1) s3 m set_update_subset_insert [of "stripedBuffer st" idx b3] by (auto simp: reads_ok_def)
  have run: "record_access (Some e) h st = (case res of None \<Rightarrow> Some st2
      | Some items \<Rightarrow> do { st \<leftarrow> drainRead items st2;
          Some (st\<lparr>stripedBuffer := (stripedBuffer st)[idx := buffer_Free (stripedBuffer st ! idx)]\<rparr>) })"
    using idx b'(1) by (cases res) (simp_all add: record_access_def getReadBufferIdx_def next_rnd_def idx_def [symmetric] st2_def st1_def Let_def)
  show ?thesis
  proof (cases res)
    case None
    have "reads_ok st2" by (rule ok [OF _ b'(2)]) (simp_all add: st2_def st1_def)
    then show ?thesis using run None I2 by (auto simp: st2_def st1_def read_only_def)
  next
    case (Some items)
    have "reads_valid (heap st2) items" using v(2) [OF Some] by (simp add: st2_def st1_def)
    then obtain st3 X3 where d: "drainRead items st2 = Some st3" "store_inv st3 X3" "all_entries X3 = all_entries X"
      "weightedSize (policy st3) = weightedSize (policy st2)" "policy_only st2 st3" "capacity (policy st3) = capacity (policy st2)"
      using drainRead_inv [OF I2] by blast
    note f = policy_only_fields [OF d(5)]
    let ?st' = "st3\<lparr>stripedBuffer := (stripedBuffer st3)[idx := buffer_Free (stripedBuffer st3 ! idx)]\<rparr>"
    have "store_inv ?st' X3" using d(2) by (rule store_inv_cong) simp_all
    moreover have "reads_ok ?st'"
      by (rule ok [of _ "buffer_Free b'"]) (use idx f d b'(2) buffer_Free_refines reads_valid_policy_only [OF d(5)] in \<open>simp_all add: st2_def st1_def\<close>)
    moreover have "read_only st ?st'"
    proof -
      obtain h t where "st3 = st2\<lparr>heap := h, policy := t\<rparr>" using same_restD d(5) unfolding policy_only_def by blast
      then show ?thesis using d(5,6) by (simp add: read_only_def policy_only_def st2_def st1_def)
    qed
    ultimately show ?thesis using run Some d by (auto simp: st2_def st1_def)
  qed
qed

lemma getFromShard_state:
  assumes "getFromShard k i st = ((e, v, ok), st')"
  shows "\<exists>n. st' = st\<lparr>clk_pos := n\<rparr>" "e = shard_get k (shards st ! i)" "ok \<Longrightarrow> \<exists>a. e = Some a \<and> v = evalue (heap st a)" "\<not> ok \<Longrightarrow> v = 0"
proof -
  show "\<exists>n. st' = st\<lparr>clk_pos := n\<rparr>"
  proof (cases "clk_pos st' = clk_pos st")
    case True
    then show ?thesis using assms by (intro exI [of _ "clk_pos st"]) (auto simp: getFromShard_def read_now_def Let_def split: option.splits if_splits)
  next
    case False
    then show ?thesis using assms by (intro exI [of _ "clk_pos st + 1"]) (auto simp: getFromShard_def read_now_def Let_def split: option.splits if_splits)
  qed
  show "e = shard_get k (shards st ! i)" "ok \<Longrightarrow> \<exists>a. e = Some a \<and> v = evalue (heap st a)" "\<not> ok \<Longrightarrow> v = 0"
    using assms by (cases "shard_get k (shards st ! i)"; auto simp: getFromShard_def read_now_def Let_def split: if_splits)+
qed

lemma mapped_not_root:
  assumes "map_inv st" "shard_get k (shards st ! i) = Some e" "i < length (shards st)"
  shows "\<not> IsRoot (flags (heap st) e)" "key (heap st e) = k"
proof -
  have "(k, e) \<in> set (hashmap (shards st ! i))" using assms(2) by (auto simp: shard_get_def split: if_splits dest: map_of_SomeD)
  then show "\<not> IsRoot (flags (heap st) e)" "key (heap st e) = k"
    using assms(1,3) by (auto simp: map_inv_def shard_inv_def Let_def)
qed

lemma count_inv:
  assumes I: "store_inv st X" and r: "reads_ok st"
  shows "\<exists>st'. count_hit st = Some st' \<and> store_inv st' X \<and> reads_ok st' \<and> heap st' = heap st \<and> read_only st st' \<and>
      weightedSize (policy st') = weightedSize (policy st) \<and> counter_Value (hits (policy st')) = counter_Value (hits (policy st)) + 1"
    "\<exists>st'. count_miss st = Some st' \<and> store_inv st' X \<and> reads_ok st' \<and> heap st' = heap st \<and> read_only st st' \<and>
      weightedSize (policy st') = weightedSize (policy st) \<and> counter_Value (misses (policy st')) = counter_Value (misses (policy st)) + 1"
proof -
  have wf: "counter_wf (hits (policy st))" "counter_wf (misses (policy st))" using r by (simp_all add: reads_ok_def)
  let ?i = "rnd st (rnd_pos st)" and ?n = "rnd_pos st + 1"
  obtain c where c: "counter_Add ?i 1 (hits (policy st)) = Some c" "counter_wf c" "counter_Value c = counter_Value (hits (policy st)) + 1"
    using counter_Add_spec [OF wf(1)] by blast
  obtain d where d: "counter_Add ?i 1 (misses (policy st)) = Some d" "counter_wf d" "counter_Value d = counter_Value (misses (policy st)) + 1"
    using counter_Add_spec [OF wf(2)] by blast
  let ?h = "st\<lparr>policy := (policy st)\<lparr>hits := c\<rparr>, rnd_pos := ?n\<rparr>" and ?m = "st\<lparr>policy := (policy st)\<lparr>misses := d\<rparr>, rnd_pos := ?n\<rparr>"
  have "store_inv ?h X" using store_inv_counter [OF I, where c = c and c' = "misses (policy st)" and n = ?n] by simp
  moreover have "reads_ok ?h" using r c(2) by (simp add: reads_ok_def)
  moreover have "count_hit st = Some ?h" using c(1) by (simp add: count_hit_def next_rnd_def)
  ultimately show "\<exists>st'. count_hit st = Some st' \<and> store_inv st' X \<and> reads_ok st' \<and> heap st' = heap st \<and> read_only st st' \<and>
      weightedSize (policy st') = weightedSize (policy st) \<and> counter_Value (hits (policy st')) = counter_Value (hits (policy st)) + 1"
    using c(3) by (simp add: read_only_def)
  have "store_inv ?m X" using store_inv_counter [OF I, where c = "hits (policy st)" and c' = d and n = ?n] by simp
  moreover have "reads_ok ?m" using r d(2) by (simp add: reads_ok_def)
  moreover have "count_miss st = Some ?m" using d(1) by (simp add: count_miss_def next_rnd_def)
  ultimately show "\<exists>st'. count_miss st = Some st' \<and> store_inv st' X \<and> reads_ok st' \<and> heap st' = heap st \<and> read_only st st' \<and>
      weightedSize (policy st') = weightedSize (policy st) \<and> counter_Value (misses (policy st')) = counter_Value (misses (policy st)) + 1"
    using d(3) by (simp add: read_only_def)
qed

lemma Get_inv:
  fixes st :: "('k, 'v::zero, 'z) store_scheme"
  assumes I: "store_inv st X" and r: "reads_ok st"
  shows "\<exists>st' X'. store_Get k st = Some (snd (fst (getFromShard k (snd (index k st)) st)), st') \<and> store_inv st' X' \<and> reads_ok st' \<and>
    all_entries X' = all_entries X \<and> read_only st st' \<and> weightedSize (policy st') = weightedSize (policy st)"
proof -
  define i h where "i = snd (index k st)" and "h = fst (index k st)"
  have ix: "index k st = (h, i)" by (simp add: i_def h_def)
  have i: "i < length (shards st)" unfolding i_def by (rule index_lt [OF store_inv_parts(3) [OF I]])
  obtain e v ok st1 where g: "getFromShard k i st = ((e, v, ok), st1)" by (metis prod.collapse)
  note G = getFromShard_state [OF g]
  obtain n where s1: "st1 = st\<lparr>clk_pos := n\<rparr>" using G(1) by blast
  have I1: "store_inv st1 X" using I by (rule store_inv_cong) (simp_all add: s1)
  have r1: "reads_ok st1" using r by (simp add: reads_ok_def s1)
  have run: "store_Get k st = (if ok then do { st \<leftarrow> count_hit st1; st \<leftarrow> record_access e h st; Some ((v, True), st) }
      else do { st \<leftarrow> count_miss st1; Some ((v, False), st) })"
    using i by (simp add: store_Get_def ix g)
  show ?thesis
  proof (cases ok)
    case False
    then show ?thesis using run g count_inv(2) [OF I1 r1] by (auto simp: s1 ix read_only_def)
  next
    case True
    then obtain a where a: "e = Some a" "shard_get k (shards st ! i) = Some a" using G(2,3) by auto
    obtain st2 where c: "count_hit st1 = Some st2" "store_inv st2 X" "reads_ok st2" "heap st2 = heap st" "read_only st st2"
      "weightedSize (policy st2) = weightedSize (policy st)" using count_inv(1) [OF I1 r1] by (auto simp: s1 read_only_def)
    have "\<not> IsRoot (flags (heap st2) a)" using mapped_not_root [OF store_inv_parts(3) [OF I] a(2) i] c(4) by simp
    then show ?thesis using record_access_inv [OF c(2,3), of a h] run True a c g read_only_trans [OF c(5)] by (auto simp: ix)
  qed
qed

end
