(* ===== verification/Store_Writes.thy ===== *)
theory Store_Writes
  imports Store_Client
begin

text \<open>
  Writing through the hash maps. The abstract view of the store is the finite map from keys
  to values, \<open>lookup\<close>; \<open>Set\<close>, \<open>Delete\<close> and \<open>Close\<close> act on it as on a map, and each sends
  the event that brings the policy up to date.
\<close>

definition entry_at :: "('k, 'v, 'z) store_scheme \<Rightarrow> 'k \<Rightarrow> addr option" where
  "entry_at st k = shard_get k (shards st ! snd (index k st))"

definition lookup :: "('k, 'v, 'z) store_scheme \<Rightarrow> 'k \<Rightarrow> 'v option" where
  "lookup st k = map_option (\<lambda>e. evalue (heap st e)) (entry_at st k)"

text \<open>An entry that no structure of the store refers to.\<close>

definition unlinked :: "('k, 'v) Entry \<Rightarrow> bool" where
  "unlinked x \<longleftrightarrow> \<not> IsRoot (flag x) \<and> m_prev (meta x) = None \<and> m_wheelPrev (meta x) = None"

definition fresh :: "('k, 'v, 'z) store_scheme \<Rightarrow> addr \<Rightarrow> bool" where
  "fresh st e \<longleftrightarrow> unlinked (heap st e) \<and> unmapped st e"

text \<open>Where new entries come from: unused addresses and the pool.\<close>

definition supply_ok :: "('k, 'v, 'z) store_scheme \<Rightarrow> bool" where
  "supply_ok st \<longleftrightarrow> (\<forall>a\<ge>next_addr st. fresh st a) \<and>
     (\<forall>p. entryPool st = Some p \<longrightarrow> distinct p \<and> (\<forall>e\<in>set p. e < next_addr st \<and> fresh st e))"

subsection \<open>Overwriting an unlinked entry\<close>

lemma unlinked_links: "unlinked x \<Longrightarrow> \<not> IsRoot (flag x) \<and> e_prev LIST_WINDOW x = None \<and> e_prev WHEEL_LIST x = None"
  by (simp add: unlinked_def e_prev_def)

lemma reps_overwrite:
  assumes X: "reps h T X" and e: "unlinked (h e)" and x: "unlinked x" "\<And>q. \<not> in_queue q (flag x)"
  shows "reps (h(e := x)) T X" "e \<notin> all_entries X"
proof -
  obtain R where R: "reps_ring h T X R" using X by (auto simp: reps_def)
  note D = reps_ringD [OF R]
  have er: "e \<notin> roots T" using reps_root [OF X] unlinked_links [OF e] by (auto simp: flags_def)
  show ne: "e \<notin> all_entries X" using reps_member [OF X er] e by (simp add: unlinked_def)
  have H: "hrings LIST_WINDOW h (roots T) R" using R by (simp add: reps_ring_def)
  have m: "e \<notin> members (roots T) R" using ne D(6) by simp
  have "rings (nxt LIST_WINDOW (h(e := x))) (prv LIST_WINDOW (h(e := x))) (roots T) R = rings (nxt LIST_WINDOW h) (prv LIST_WINDOW h) (roots T) R"
    by (rule rings_cong) (use er m in \<open>auto simp: nxt_def prv_def members_def\<close>)
  then have "hrings LIST_WINDOW (h(e := x)) (roots T) R" using H er m by (auto simp: hrings_def flags_def)
  moreover have "header_ok (h(e := x)) q (T q) (X q)" for q
  proof -
    have "e \<notin> set (X q)" using ne by (auto simp: all_entries_def)
    then have "map (\<lambda>a. policyWeight ((h(e := x)) a)) (X q) = map (\<lambda>a. policyWeight (h a)) (X q)" by auto
    then have "wsum (h(e := x)) (X q) = wsum h (X q)" unfolding wsum_def by (simp only:)
    then show ?thesis using D(4) [of q] \<open>e \<notin> set (X q)\<close> by (auto simp: header_ok_def flags_def)
  qed
  moreover have "detached (h(e := x)) a" if "a \<notin> roots T" "a \<notin> all_entries X" for a
    using D(7) [OF that] x unlinked_links [OF x(1)] by (cases "a = e") (auto simp: detached_def prv_def flags_def)
  ultimately have "reps_ring (h(e := x)) T X R" using R by (auto simp: reps_ring_def)
  then show "reps (h(e := x)) T X" by (auto simp: reps_def)
qed

lemma wreps_overwrite:
  assumes W: "wreps h tw R" and e: "unlinked (h e)" and x: "unlinked x"
  shows "wreps (h(e := x)) tw R"
proof -
  let ?S = "set (wroots tw)"
  have H: "hrings WHEEL_LIST h ?S R" and none: "\<And>a. a \<notin> ?S \<Longrightarrow> a \<notin> members ?S R \<Longrightarrow> prv WHEEL_LIST h a = None"
    using W by (simp_all add: wreps_def)
  have er: "e \<notin> ?S" using H unlinked_links [OF e] by (auto simp: hrings_def flags_def)
  have m: "e \<notin> members ?S R" using wreps_member [OF W er] e by (simp add: unlinked_def)
  have "rings (nxt WHEEL_LIST (h(e := x))) (prv WHEEL_LIST (h(e := x))) ?S R = rings (nxt WHEEL_LIST h) (prv WHEEL_LIST h) ?S R"
    by (rule rings_cong) (use er m in \<open>auto simp: nxt_def prv_def members_def\<close>)
  then have "hrings WHEEL_LIST (h(e := x)) ?S R" using H er m by (auto simp: hrings_def flags_def)
  moreover have "prv WHEEL_LIST (h(e := x)) a = None" if "a \<notin> ?S" "a \<notin> members ?S R" for a
    using none [OF that] unlinked_links [OF x] by (simp add: prv_def)
  ultimately show ?thesis using W by (simp add: wreps_def)
qed

lemma map_inv_overwrite:
  assumes M: "map_inv st" and e: "unmapped st e" shows "map_inv (st\<lparr>heap := (heap st)(e := x)\<rparr>)"
proof -
  have "shard_inv (st\<lparr>heap := (heap st)(e := x)\<rparr>) i" if i: "i < length (shards st)" for i
  proof -
    have "e \<notin> snd ` set (hashmap (shards st ! i))" using e i by (simp add: unmapped_def)
    then have "\<And>k a. (k, a) \<in> set (hashmap (shards st ! i)) \<Longrightarrow> a \<noteq> e" by force
    moreover have "shard_inv st i" using M i by (simp add: map_inv_def)
    ultimately show ?thesis by (fastforce simp: shard_inv_def Let_def index_def flags_def)
  qed
  then show ?thesis using M by (simp add: map_inv_def)
qed

lemma store_inv_overwrite:
  assumes I: "store_inv st X" and e: "fresh st e" and x: "unlinked x" "\<And>q. \<not> in_queue q (flag x)"
  shows "store_inv (st\<lparr>heap := (heap st)(e := x)\<rparr>) X"
proof -
  let ?h = "(heap st)(e := x)"
  have k: "policy_ok st X" using I by (simp add: store_inv_def)
  have u: "unlinked (heap st e)" "unmapped st e" using e by (simp_all add: fresh_def)
  note O = reps_overwrite [OF policy_ok_parts(1) [OF k] u(1) x]
  have eq: "policyWeight (?h a) = policyWeight (heap st a)" if "a \<in> all_entries X" for a using that O(2) by auto
  have ts: "tsize ?h X = tsize (heap st) X" by (rule tsize_cong) (rule eq)
  have "nonneg ?h X" using k eq by (simp add: policy_ok_def nonneg_def)
  then have "policy_ok (st\<lparr>heap := ?h\<rparr>) X" using k O(1) ts by (simp add: policy_ok_def policy_inv_def total_tsize)
  moreover obtain R where "wreps (heap st) (timerwheel st) R" using I by (auto simp: store_inv_def)
  then have "wreps ?h (timerwheel st) R" using u(1) x(1) by (rule wreps_overwrite)
  ultimately show ?thesis using I ts map_inv_overwrite [OF _ u(2)] by (auto simp: store_inv_def)
qed

subsection \<open>Taking an entry\<close>

definition pool_has :: "('k, 'v, 'z) store_scheme \<Rightarrow> addr \<Rightarrow> bool" where
  "pool_has st e \<longleftrightarrow> (\<exists>p. entryPool st = Some p \<and> e \<in> set p)"

text \<open>The entry is fresh and no longer in the supply, and nothing that is in use has changed.\<close>

definition takes :: "('k, 'v, 'z) store_scheme \<Rightarrow> (pqueue \<Rightarrow> addr list) \<Rightarrow> addr \<times> ('k, 'v, 'z) store_scheme \<Rightarrow> bool" where
  "takes st X r \<longleftrightarrow> (case r of (e, st') \<Rightarrow>
     store_inv st' X \<and> supply_ok st' \<and> fresh st e \<and> e < next_addr st' \<and> \<not> pool_has st' e \<and> (\<forall>a. fresh st' a = fresh st a) \<and>
     (\<exists>h n q p. st' = st\<lparr>heap := h, next_addr := n, entryPool := q, pool_pos := p\<rparr>) \<and>
     next_addr st \<le> next_addr st' \<and> (\<forall>a<next_addr st. heap st' a = heap st a))"

lemma zero_entry_fresh: "unlinked zero_entry" "\<not> in_queue q (flag zero_entry)"
  by (simp add: unlinked_def zero_entry_def) (cases q; simp add: zero_entry_def)

lemma fresh_update [simp]:
  "fresh (st\<lparr>entryPool := q\<rparr>) = fresh st" "fresh (st\<lparr>pool_pos := n\<rparr>) = fresh st" "fresh (st\<lparr>next_addr := a\<rparr>) = fresh st"
  "fresh (st\<lparr>clk_pos := n\<rparr>) = fresh st" "fresh (st\<lparr>writeChan := w\<rparr>) = fresh st"
  by (simp_all add: fresh_def unmapped_def fun_eq_iff)

lemma alloc_takes:
  assumes I: "store_inv st X" and s: "supply_ok st" shows "takes st X (alloc st)"
proof -
  let ?e = "next_addr st"
  let ?st = "st\<lparr>heap := (heap st)(?e := zero_entry), next_addr := Suc ?e\<rparr>"
  have f: "fresh st ?e" using s by (simp add: supply_ok_def)
  have "store_inv (st\<lparr>heap := (heap st)(?e := zero_entry)\<rparr>) X" by (rule store_inv_overwrite [OF I f zero_entry_fresh])
  then have "store_inv ?st X" by (rule store_inv_cong) simp_all
  moreover have fr: "fresh ?st = fresh st" unfolding fun_eq_iff using f by (auto simp: fresh_def unmapped_def zero_entry_fresh)
  moreover have "supply_ok ?st" "\<not> pool_has ?st ?e" using s unfolding supply_ok_def fr by (auto simp: pool_has_def less_Suc_eq)
  moreover have "\<exists>h n q p. ?st = st\<lparr>heap := h, next_addr := n, entryPool := q, pool_pos := p\<rparr>"
    by (intro exI [of _ "heap ?st"] exI [of _ "next_addr ?st"] exI [of _ "entryPool st"] exI [of _ "pool_pos st"]) simp
  ultimately show ?thesis using f by (auto simp: takes_def alloc_def)
qed

lemma takeEntry_pool: "entryPool st = None \<Longrightarrow> entryPool (snd (takeEntry k st)) = None" and takeEntry_next: "next_addr st \<le> next_addr (snd (takeEntry k st))"
  by (auto simp: takeEntry_def alloc_def pool_Get_def pool_Put_def Let_def split: option.splits if_splits)

lemma takes_from:
  assumes t: "takes st1 X r" and eq: "st1 = st\<lparr>heap := h, next_addr := n, entryPool := q, pool_pos := p\<rparr>"
    and "\<And>a. fresh st1 a = fresh st a" "\<And>a. a < next_addr st \<Longrightarrow> heap st1 a = heap st a" "next_addr st \<le> next_addr st1"
  shows "takes st X r"
proof -
  obtain e st' where r: "r = (e, st')" by (cases r)
  obtain h' n' q' p' where "st' = st1\<lparr>heap := h', next_addr := n', entryPool := q', pool_pos := p'\<rparr>" using t by (auto simp: takes_def r)
  then have "st' = st\<lparr>heap := h', next_addr := n', entryPool := q', pool_pos := p'\<rparr>" by (simp add: eq)
  then have "\<exists>h n q p. st' = st\<lparr>heap := h, next_addr := n, entryPool := q, pool_pos := p\<rparr>" by blast
  then show ?thesis using t assms(3-5) unfolding takes_def r by simp
qed

lemma pool_Get_takes:
  assumes I: "store_inv st X" and s: "supply_ok st" and p: "entryPool st = Some p" shows "takes st X (pool_Get p st)"
proof -
  let ?j = "pool_pick st (pool_pos st)" and ?n = "pool_pos st + 1"
  show ?thesis
  proof (cases "?j < length p")
    case True
    let ?q = "take ?j p @ drop (Suc ?j) p"
    let ?st = "st\<lparr>pool_pos := ?n, entryPool := Some ?q\<rparr>"
    have "p = take ?j p @ p ! ?j # drop (Suc ?j) p" using True by (rule id_take_nth_drop)
    moreover have "distinct p" using s p by (simp add: supply_ok_def)
    ultimately have q: "distinct ?q" "p ! ?j \<notin> set ?q" "set ?q \<subseteq> set p"
      using distinct_append [of "take ?j p" "p ! ?j # drop (Suc ?j) p"] set_take_subset [of ?j p] set_drop_subset [of "Suc ?j" p] by auto
    have I': "store_inv ?st X" using I by (rule store_inv_cong) simp_all
    have s': "supply_ok ?st" "\<not> pool_has ?st (p ! ?j)" "fresh st (p ! ?j)" "p ! ?j < next_addr st"
      using s p q True by (auto simp: supply_ok_def pool_has_def)
    have "\<exists>h n q p. ?st = st\<lparr>heap := h, next_addr := n, entryPool := q, pool_pos := p\<rparr>"
      by (intro exI [of _ "heap st"] exI [of _ "next_addr st"] exI [of _ "Some ?q"] exI [of _ ?n]) simp
    then show ?thesis using True I' s' by (simp add: takes_def pool_Get_def Let_def)
  next
    case False
    have I': "store_inv (st\<lparr>pool_pos := ?n\<rparr>) X" using I by (rule store_inv_cong) simp_all
    have s': "supply_ok (st\<lparr>pool_pos := ?n\<rparr>)" using s by (simp add: supply_ok_def fresh_def unmapped_def)
    show ?thesis using False takes_from [OF alloc_takes [OF I' s'], where st = st and h = "heap st" and n = "next_addr st" and q = "entryPool st" and p = ?n]
      by (simp add: pool_Get_def fresh_def unmapped_def)
  qed
qed

lemma takeEntry_takes:
  assumes I: "store_inv st X" and s: "supply_ok st" shows "takes st X (takeEntry k st)"
proof (cases "entryPool st")
  case None
  then show ?thesis using alloc_takes [OF I s] by (simp add: takeEntry_def)
next
  case (Some p)
  obtain e st1 where g: "pool_Get p st = (e, st1)" by (cases "pool_Get p st")
  have t: "takes st X (e, st1)" using pool_Get_takes [OF I s Some] g by simp
  show ?thesis
  proof (cases "key (heap st1 e) = k")
    case True
    let ?st = "pool_Put e st1"
    obtain h n q p where st1: "st1 = st\<lparr>heap := h, next_addr := n, entryPool := q, pool_pos := p\<rparr>" using t by (auto simp: takes_def)
    then have st2: "?st = st\<lparr>heap := h, next_addr := n, entryPool := map_option ((#) e) q, pool_pos := p\<rparr>" by (simp add: pool_Put_def)
    have I': "store_inv ?st X" by (rule store_inv_cong [of st1]) (use t in \<open>simp_all add: takes_def pool_Put_def\<close>)
    have fr: "fresh ?st = fresh st" using t by (simp add: pool_Put_def takes_def fun_eq_iff)
    have "supply_ok st1" "e < next_addr st1" "\<not> pool_has st1 e" "fresh st e" "fresh st1 = fresh st" using t by (simp_all add: takes_def fun_eq_iff)
    then have "supply_ok ?st" unfolding supply_ok_def fr by (auto simp: pool_Put_def pool_has_def)
    note a = alloc_takes [OF I' this]
    have "heap ?st a = heap st a" if "a < next_addr st" for a using t that by (simp add: takes_def pool_Put_def)
    moreover have "next_addr st \<le> next_addr ?st" using t by (simp add: takes_def pool_Put_def)
    ultimately show ?thesis using takes_from [OF a st2] fr g Some True by (simp add: takeEntry_def)
  next
    case False
    then show ?thesis using t Some g by (simp add: takeEntry_def)
  qed
qed

subsection \<open>Changing a shard\<close>

lemma entry_at_set_shard:
  assumes "i < length (shards st)"
  shows "entry_at (set_shard i s st) k = (if snd (index k st) = i then shard_get k s else entry_at st k)"
  using assms by (simp add: entry_at_def set_shard_def index_def nth_list_update)

lemma store_inv_map:
  assumes "store_inv st X" "map_inv (set_shard i s st)" shows "store_inv (set_shard i s st) X"
  using assms policy_ok_cong [of "set_shard i s st" st X] by (simp add: store_inv_def set_shard_def)

text \<open>Rewriting the filter and its counter leaves the map as it is.\<close>

lemma refilter:
  assumes I: "store_inv st X" and i: "i < length (shards st)"
    and s: "hashmap s = hashmap (shards st ! i)" "s_closed s = s_closed (shards st ! i)"
  shows "store_inv (set_shard i s st) X" "entry_at (set_shard i s st) = entry_at st" "fresh (set_shard i s st) = fresh st"
proof -
  have sg: "shard_get k s = shard_get k (shards st ! i)" for k by (simp add: shard_get_def s)
  show "entry_at (set_shard i s st) = entry_at st" unfolding fun_eq_iff entry_at_set_shard [OF i] by (simp add: sg entry_at_def)
  have "map_inv (set_shard i s st)"
    using store_inv_parts(3) [OF I] s i by (auto simp: map_inv_def shard_inv_def Let_def set_shard_def index_def nth_list_update)
  then show "store_inv (set_shard i s st) X" by (rule store_inv_map [OF I])
  have "map hashmap ((shards st)[i := s]) = map hashmap (shards st)" using i s(1) by (simp add: map_update list_update_same_conv)
  then have "hashmap ` set ((shards st)[i := s]) = hashmap ` set (shards st)" by (metis set_map)
  moreover have "unmapped st a \<longleftrightarrow> (\<forall>m\<in>hashmap ` set (shards st). a \<notin> snd ` set m)" for a and st :: "('a, 'b, 'c) store_scheme"
    by (simp add: unmapped_def)
  ultimately have "unmapped (set_shard i s st) a = unmapped st a" for a by (simp only: set_shard_def) simp
  then show "fresh (set_shard i s st) = fresh st" by (simp add: fresh_def fun_eq_iff) (simp add: set_shard_def)
qed

text \<open>Binding a key to an entry.\<close>

lemma set_AList_update: "set (AList.update k e xs) \<subseteq> insert (k, e) (set xs)"
  by (induction xs) auto

lemma rebind:
  assumes I: "store_inv st X" and i: "i = snd (index k st)" and e: "key (heap st e) = k" "\<not> IsRoot (flags (heap st) e)"
    and s: "hashmap s = AList.update k e (hashmap (shards st ! i))" "\<not> s_closed s" "\<not> s_closed (shards st ! i)"
  shows "store_inv (set_shard i s st) X" "entry_at (set_shard i s st) = (entry_at st)(k \<mapsto> e)"
    "a \<noteq> e \<Longrightarrow> fresh st a \<Longrightarrow> fresh (set_shard i s st) a"
proof -
  have il: "i < length (shards st)" unfolding i by (rule index_lt [OF store_inv_parts(3) [OF I]])
  have "shard_get k' s = ((entry_at st)(k \<mapsto> e)) k'" if "snd (index k' st) = i" for k'
    using that s by (simp add: shard_get_def entry_at_def AList.update_conv')
  moreover have "k' \<noteq> k" if "snd (index k' st) \<noteq> i" for k' using that i by auto
  ultimately show "entry_at (set_shard i s st) = (entry_at st)(k \<mapsto> e)" by (auto simp: entry_at_set_shard [OF il] fun_eq_iff)
  have inv: "shard_inv st j" if "j < length (shards st)" for j using store_inv_parts(3) [OF I] that by (simp add: map_inv_def)
  have sub: "set (hashmap s) \<subseteq> insert (k, e) (set (hashmap (shards st ! i)))" unfolding s(1) by (rule set_AList_update)
  have eq: "heap (set_shard i s st) = heap st" "index k' (set_shard i s st) = index k' st" "shardCount (set_shard i s st) = shardCount st"
    "length (shards (set_shard i s st)) = length (shards st)" "j < length (shards st) \<Longrightarrow> shards (set_shard i s st) ! j = (if j = i then s else shards st ! j)"
    for k' j by (simp_all add: set_shard_def index_def nth_list_update)
  have "shard_inv (set_shard i s st) j" if j: "j < length (shards st)" for j
  proof (cases "j = i")
    case True
    have "distinct (map fst (hashmap s))" using inv [OF il] unfolding s(1) by (simp add: AList.distinct_update shard_inv_def Let_def)
    then show ?thesis using inv [OF il] sub e i s(2) True unfolding shard_inv_def Let_def eq(1,2) eq(5) [OF j] by auto
  next
    case False
    then show ?thesis using inv [OF j] unfolding shard_inv_def Let_def eq(1,2) eq(5) [OF j] by simp
  qed
  then have "map_inv (set_shard i s st)" using store_inv_parts(3) [OF I] by (simp add: map_inv_def eq)
  then show "store_inv (set_shard i s st) X" by (rule store_inv_map [OF I])
  show "fresh (set_shard i s st) a" if a: "a \<noteq> e" "fresh st a"
  proof -
    have "unmapped (set_shard i s st) a" unfolding unmapped_def
    proof
      fix t assume "t \<in> set (shards (set_shard i s st))"
      then have "t = s \<or> t \<in> set (shards st)" using set_update_subset_insert [of "shards st" i s] by (auto simp: set_shard_def)
      moreover have m: "a \<notin> snd ` set (hashmap t)" if "t \<in> set (shards st)" for t using a(2) that by (simp add: fresh_def unmapped_def)
      moreover have "a \<notin> snd ` set (hashmap s)" using m [OF nth_mem [OF il]] sub a(1) by auto
      ultimately show "a \<notin> snd ` set (hashmap t)" by blast
    qed
    then show ?thesis using a by (simp add: fresh_def eq)
  qed
qed

subsection \<open>Changing an entry in use\<close>

lemma store_inv_value:
  assumes I: "store_inv st X" and f: "\<And>x. policyWeight (f x) = policyWeight x" "\<And>x. meta (f x) = meta x" "\<And>x. key (f x) = key x"
    "\<And>x. flag (f x) = flag x"
  shows "store_inv (st\<lparr>heap := modify e f (heap st)\<rparr>) X"
proof -
  let ?h = "modify e f (heap st)"
  have l: "nxt lt ?h = nxt lt (heap st)" "prv lt ?h = prv lt (heap st)" "flags ?h = flags (heap st)" for lt
    using f by (simp_all add: nxt_def prv_def e_next_def e_prev_def flags_def modify_def fun_eq_iff)
  have w: "policyWeight (?h a) = policyWeight (heap st a)" "key (?h a) = key (heap st a)" for a using f by (simp_all add: modify_def)
  have pv: "pview ?h = pview (heap st)" by (simp add: pview_def fun_eq_iff l w)
  have "wreps ?h tw R = wreps (heap st) tw R" for tw R by (simp add: wreps_def hrings_def l)
  moreover have "map_inv (st\<lparr>heap := ?h\<rparr>)" using store_inv_parts(3) [OF I] map_inv_cong [of st "st\<lparr>heap := ?h\<rparr>"] by (simp add: l w)
  moreover have "tsize ?h X = tsize (heap st) X" by (rule tsize_cong) (rule w)
  ultimately show ?thesis using I policy_ok_pview [OF pv] by (simp add: store_inv_def)
qed

lemma mapped_distinct:
  assumes M: "map_inv st" and "entry_at st k = Some e" "entry_at st k' = Some e" shows "k = k'"
  using assms(2,3) mapped_not_root(2) [OF M _ index_lt [OF M]] unfolding entry_at_def by metis

lemma mapped_not_fresh:
  assumes M: "map_inv st" and k: "entry_at st k = Some e" shows "\<not> fresh st e"
proof -
  have "(k, e) \<in> set (hashmap (shards st ! snd (index k st)))"
    using k by (auto simp: entry_at_def shard_get_def split: if_splits dest: map_of_SomeD)
  then have "e \<in> snd ` set (hashmap (shards st ! snd (index k st)))" by force
  then show ?thesis using nth_mem [OF index_lt [OF M, of k]] by (auto simp: fresh_def unmapped_def)
qed

text \<open>The shard's filters are well formed, and no map is so large that growing its filter overflows.\<close>

definition doors_ok :: "('k, 'v, 'z) store_scheme \<Rightarrow> bool" where
  "doors_ok st \<longleftrightarrow> (\<forall>s\<in>set (shards st). (doorkeeper st \<longrightarrow> dookeeper s \<noteq> None) \<and> (\<forall>d. dookeeper s = Some d \<longrightarrow> bloom_wf d))"

definition roomy :: "('k, 'v, 'z) store_scheme \<Rightarrow> bool" where
  "roomy st \<longleftrightarrow> (\<forall>s\<in>set (shards st). 20 * Suc (length (hashmap s)) \<le> 2 ^ 31)"

lemma doorkeeper_check_spec:
  assumes "dookeeper s = Some d" "bloom_wf d"
  shows "\<exists>hit s' d'. doorkeeper_check h s = Some (hit, s') \<and> hashmap s' = hashmap s \<and> s_closed s' = s_closed s \<and>
    dookeeper s' = Some d' \<and> bloom_wf d'"
proof -
  define d0 where "d0 = (if bf_Capacity d < s_counter s then bf_Reset d else d)"
  have "bloom_wf d0" using assms(2) Reset_spec(1) by (simp add: d0_def)
  then obtain d' r where "bf_Insert h d0 = Some (d', r)" "bloom_wf d'" using Insert_spec by blast
  then show ?thesis using assms(1) by (auto simp: doorkeeper_check_def d0_def Let_def split: if_splits)
qed

lemma length_AList_update: "0 < length (AList.update k e xs) \<and> length (AList.update k e xs) \<le> Suc (length xs)"
  by (induction xs) auto

lemma unat_ucast_of_nat: "n < 2 ^ 32 \<Longrightarrow> unat (ucast (of_nat n :: i64) :: u32) = n"
  by (simp add: unsigned_ucast_eq unsigned_of_nat take_bit_eq_mod)

lemma shard_set_spec:
  assumes s: "\<not> s_closed s" "\<forall>d. dookeeper s = Some d \<longrightarrow> bloom_wf d" and n: "20 * Suc (length (hashmap s)) \<le> 2 ^ 31"
  shows "\<exists>s'. shard_set lg k e s = Some s' \<and> hashmap s' = AList.update k e (hashmap s) \<and> \<not> s_closed s' \<and>
    (dookeeper s = None \<longleftrightarrow> dookeeper s' = None) \<and> (\<forall>d. dookeeper s' = Some d \<longrightarrow> bloom_wf d)"
proof -
  let ?m = "AList.update k e (hashmap s)" and ?s = "s\<lparr>hashmap := AList.update k e (hashmap s)\<rparr>"
  let ?ds = "20 * of_nat (length ?m) :: i64"
  have l: "0 < length ?m" "length ?m \<le> Suc (length (hashmap s))" using length_AList_update by auto
  then have b: "0 < 20 * length ?m" "20 * length ?m \<le> 2 ^ 31" using n by simp_all
  have u: "unat (ucast ?ds :: u32) = 20 * length ?m" using unat_ucast_of_nat [of "20 * length ?m"] b(2) by simp
  then have "ucast ?ds \<noteq> (0 :: u32)" using b(1) by (metis less_irrefl unsigned_0)
  then have "\<exists>m. unat (nextPowerOfTwo (ucast ?ds)) = 2 ^ m" using bfpow.power [of "ucast ?ds"] u b(2) by auto
  then have nz: "nextPowerOfTwo (ucast ?ds) \<noteq> 0" by auto
  show ?thesis
  proof (cases "dookeeper s")
    case None
    then have "shard_set lg k e s = Some ?s" using s(1) by (simp add: shard_set_def)
    then show ?thesis using None s(1) by simp
  next
    case (Some d)
    show ?thesis
    proof (cases "slt (bf_Capacity d) ?ds")
      case True
      obtain d' where "bf_EnsureCapacity lg ?ds d = Some d'" "bloom_wf d'" using EnsureCapacity_wf [OF nz] s(2) Some by blast
      then show ?thesis using Some s(1) True by (simp add: shard_set_def)
    next
      case False
      then have "shard_set lg k e s = Some ?s" using s(1) Some by (simp add: shard_set_def)
      then show ?thesis using Some s by simp
    qed
  qed
qed

subsection \<open>Set\<close>

text \<open>What a client's write leaves alone.\<close>

definition keeps_rest :: "('k, 'v, 'z) store_scheme \<Rightarrow> ('k, 'v, 'z) store_scheme \<Rightarrow> bool" where
  "keeps_rest st st' \<longleftrightarrow> policy st' = policy st \<and> stripedBuffer st' = stripedBuffer st \<and> mask st' = mask st \<and> timerwheel st' = timerwheel st \<and>
     s_hasher st' = s_hasher st \<and> shardCount st' = shardCount st \<and> (entryPool st = None \<longrightarrow> entryPool st' = None) \<and> st_closed st' = st_closed st \<and>
     next_addr st \<le> next_addr st' \<and> (\<forall>a. IsRoot (flags (heap st') a) = IsRoot (flags (heap st) a))"

lemma keeps_rest_trans: "keeps_rest a b \<Longrightarrow> keeps_rest b c \<Longrightarrow> keeps_rest a c"
  by (auto simp: keeps_rest_def)

text \<open>The key is bound to \<open>e\<close>, which holds the value and the cost; every other key is as before.\<close>

definition written :: "('k, 'v, 'z) store_scheme \<Rightarrow> (pqueue \<Rightarrow> addr list) \<Rightarrow> 'k \<Rightarrow> 'v \<Rightarrow> i64 \<Rightarrow> i64 \<Rightarrow> addr \<Rightarrow> ('k, 'v, 'z) store_scheme \<Rightarrow> bool" where
  "written st X k v cost ex e st' \<longleftrightarrow> store_inv st' X \<and> supply_ok st' \<and> doors_ok st' \<and> entry_at st' = (entry_at st)(k \<mapsto> e) \<and>
     lookup st' = (lookup st)(k \<mapsto> v) \<and> weight (heap st' e) = cost \<and> writeChan st' = writeChan st \<and> keeps_rest st st' \<and>
     (\<forall>a. a \<noteq> e \<longrightarrow> a < next_addr st \<longrightarrow> heap st' a = heap st a) \<and>
     (if entry_at st k = None then fresh st e \<and> e < next_addr st' \<and> (entryPool st = None \<longrightarrow> e = next_addr st) \<and> policyWeight (heap st' e) = 0 \<and> m_prev (meta (heap st' e)) = None \<and>
        expire (heap st' e) = ex
      else expire (heap st' e) = (if slt 0 ex then ex else expire (heap st e)) \<and> policyWeight (heap st' e) = policyWeight (heap st e) \<and> meta (heap st' e) = meta (heap st e) \<and> flag (heap st' e) = flag (heap st e))"

lemma entry_at_key: "map_inv st \<Longrightarrow> entry_at st k = Some e \<Longrightarrow> key (heap st e) = k"
  using index_lt [of st k] by (auto simp: map_inv_def shard_inv_def entry_at_def shard_get_def Let_def split: if_splits dest: map_of_SomeD)

lemma entry_at_mapped:
  assumes "map_inv st" "entry_at st k = Some e" shows "\<not> unmapped st e"
proof -
  let ?s = "shards st ! snd (index k st)"
  have "(k, e) \<in> set (hashmap ?s)" using assms(2) by (auto simp: entry_at_def shard_get_def split: if_splits dest: map_of_SomeD)
  then have "e \<in> snd ` set (hashmap ?s)" by force
  then show ?thesis using nth_mem [OF index_lt [OF assms(1), of k]] by (auto simp: unmapped_def)
qed

lemma lookup_upd:
  assumes "entry_at st' = (entry_at st)(k \<mapsto> e)" "evalue (heap st' e) = v"
    "\<And>k' a. k' \<noteq> k \<Longrightarrow> entry_at st k' = Some a \<Longrightarrow> evalue (heap st' a) = evalue (heap st a)"
  shows "lookup st' = (lookup st)(k \<mapsto> v)"
proof
  fix k' show "lookup st' k' = ((lookup st)(k \<mapsto> v)) k'"
    using assms by (cases "entry_at st k'") (auto simp: lookup_def)
qed

lemma setShard_existing:
  fixes st :: "('k::zero, 'v::zero, 'z) store_scheme"
  assumes I: "store_inv st X" and s: "supply_ok st" and d: "doors_ok st" and k: "entry_at st k = Some e" and i: "i = snd (index k st)"
  shows "\<exists>r st'. setShardWithoutLock i h k v cost ex st = Some (r, st') \<and> written st X k v cost ex e st' \<and>
    sr_entry r = Some e \<and> sr_exists r \<and> sr_success r \<and> sr_oldCost r = weight (heap st e)"
proof -
  define f where "f = (\<lambda>x :: ('k, 'v) Entry. x\<lparr>expire := (if slt 0 ex then ex else expire x), evalue := v, weight := cost\<rparr>)"
  define st' where "st' = st\<lparr>heap := modify e f (heap st)\<rparr>"
  have c: "shard_get k (shards st ! i) = Some e" using k i by (simp add: entry_at_def)
  then have "\<not> s_closed (shards st ! i)" by (auto simp: shard_get_def)
  then obtain r where r: "setShardWithoutLock i h k v cost ex st = Some (r, st')" "sr_entry r = Some e" "sr_exists r" "sr_success r"
    "sr_oldCost r = weight (heap st e)"
    using c by (auto simp: setShardWithoutLock_def Let_def st'_def f_def modify_def)
  have I': "store_inv st' X" unfolding st'_def by (rule store_inv_value [OF I]) (simp_all add: f_def)
  note M = store_inv_parts(3) [OF I]
  have fr: "fresh st' = fresh st" by (simp add: fresh_def unlinked_def unmapped_def st'_def modify_def f_def fun_eq_iff)
  have at: "entry_at st' = (entry_at st)(k \<mapsto> e)" using k by (auto simp: entry_at_def st'_def index_def fun_eq_iff)
  have "lookup st' = (lookup st)(k \<mapsto> v)"
    by (rule lookup_upd [OF at]) (use mapped_distinct [OF M k] in \<open>auto simp: st'_def modify_def f_def\<close>)
  moreover have "supply_ok st'" using s unfolding supply_ok_def fr by (simp add: st'_def)
  moreover have "doors_ok st'" using d by (simp add: doors_ok_def st'_def)
  moreover have "weight (heap st' e) = cost" "writeChan st' = writeChan st" "policyWeight (heap st' e) = policyWeight (heap st e)"
    "meta (heap st' e) = meta (heap st e)" "flag (heap st' e) = flag (heap st e)" "\<forall>a. a \<noteq> e \<longrightarrow> heap st' a = heap st a"
    "keeps_rest st st'" "expire (heap st' e) = (if slt 0 ex then ex else expire (heap st e))"
    by (simp_all add: st'_def f_def modify_def keeps_rest_def flags_def)
  ultimately show ?thesis using r I' at k by (intro exI [of _ r] exI [of _ st']) (simp add: written_def)
qed

text \<open>A new key: the filter first.\<close>

lemma admission:
  assumes I: "store_inv st X" and s: "supply_ok st" and d: "doors_ok st" and i: "i < length (shards st)"
  shows "\<exists>adm s'. (if doorkeeper st then doorkeeper_check h (shards st ! i) else Some (True, shards st ! i)) = Some (adm, s') \<and>
    (\<not> adm \<longrightarrow> doorkeeper st) \<and> hashmap s' = hashmap (shards st ! i) \<and> s_closed s' = s_closed (shards st ! i) \<and>
    store_inv (set_shard i s' st) X \<and> supply_ok (set_shard i s' st) \<and> doors_ok (set_shard i s' st) \<and>
    entry_at (set_shard i s' st) = entry_at st \<and> fresh (set_shard i s' st) = fresh st"
proof -
  let ?s = "shards st ! i"
  have di: "doorkeeper st \<longrightarrow> dookeeper ?s \<noteq> None" "\<And>d. dookeeper ?s = Some d \<Longrightarrow> bloom_wf d"
    using d i nth_mem [of i "shards st"] by (auto simp: doors_ok_def)
  obtain adm s' where a: "(if doorkeeper st then doorkeeper_check h ?s else Some (True, ?s)) = Some (adm, s')"
    "\<not> adm \<longrightarrow> doorkeeper st" "hashmap s' = hashmap ?s" "s_closed s' = s_closed ?s"
    "doorkeeper st \<longrightarrow> dookeeper s' \<noteq> None" "\<forall>d. dookeeper s' = Some d \<longrightarrow> bloom_wf d"
  proof (cases "doorkeeper st")
    case True
    then obtain d where "dookeeper ?s = Some d" "bloom_wf d" using di by auto
    from doorkeeper_check_spec [OF this, of h] True that show ?thesis by fastforce
  next
    case False
    then show ?thesis using that [of True ?s] di by simp
  qed
  note f = refilter [OF I i a(3,4)]
  have "supply_ok (set_shard i s' st)" using s unfolding supply_ok_def f(3) by (simp add: set_shard_def)
  moreover have "doors_ok (set_shard i s' st)"
    using d a(5,6) set_update_subset_insert [of "shards st" i s'] by (auto simp: doors_ok_def set_shard_def)
  ultimately show ?thesis using a f by blast
qed

lemma fresh_no_queue:
  assumes I: "store_inv st X" and e: "fresh st e" shows "\<not> in_queue q (flag (heap st e))"
proof -
  obtain R where R: "reps_ring (heap st) (plist (policy st)) X R" using policy_ok_parts(1) [OF store_inv_parts(1) [OF I]] by (auto simp: reps_def)
  have r: "\<not> IsRoot (flags (heap st) e)" "m_prev (meta (heap st e)) = None" using e by (simp_all add: fresh_def unlinked_def flags_def)
  then have "e \<notin> roots (plist (policy st))" "e \<notin> all_entries X"
    using reps_root [OF policy_ok_parts(1) [OF store_inv_parts(1) [OF I]]] store_inv_member [OF I] by blast+
  then have "detached (heap st) e" using reps_ringD(7) [OF R] by blast
  then show ?thesis by (simp add: detached_def flags_def)
qed

text \<open>Then the entry, which is filled in and bound to the key.\<close>

lemma bind_new:
  fixes st :: "('k::zero, 'v::zero, 'z) store_scheme"
  assumes I: "store_inv st X" and s: "supply_ok st" and d: "doors_ok st" and rm: "20 * Suc (length (hashmap (shards st ! i))) \<le> 2 ^ 31"
    and k: "entry_at st k = None" and i: "i = snd (index k st)" and c: "\<not> s_closed (shards st ! i)"
    and t: "takeEntry k st = (e, st1)"
    and st2: "st2 = st1\<lparr>heap := modify e (\<lambda>x. x\<lparr>key := k, evalue := v, expire := ex, weight := cost, policyWeight := 0\<rparr>) (heap st1)\<rparr>"
  shows "\<exists>s'. shard_set (logf st2) k e (shards st2 ! i) = Some s' \<and> written st X k v cost ex e (set_shard i s' st2)"
proof -
  have T: "takes st X (e, st1)" using takeEntry_takes [OF I s, of k] t by simp
  obtain h n q p where st1: "st1 = st\<lparr>heap := h, next_addr := n, entryPool := q, pool_pos := p\<rparr>" using T by (auto simp: takes_def)
  have T': "store_inv st1 X" "supply_ok st1" "fresh st e" "e < next_addr st1" "\<not> pool_has st1 e" "fresh st1 = fresh st"
    "\<And>a. a < next_addr st \<Longrightarrow> heap st1 a = heap st a" using T by (auto simp: takes_def)
  have il: "i < length (shards st)" unfolding i by (rule index_lt [OF store_inv_parts(3) [OF I]])
  let ?x = "(heap st1 e)\<lparr>key := k, evalue := v, expire := ex, weight := cost, policyWeight := 0\<rparr>"
  have h2: "heap st2 = (heap st1)(e := ?x)" "st2 = st1\<lparr>heap := (heap st1)(e := ?x)\<rparr>" by (simp_all add: st2 modify_def)
  have fe: "fresh st1 e" using T'(3,6) by simp
  have x: "unlinked ?x" "\<not> in_queue q' (flag ?x)" for q'
    using fe fresh_no_queue [OF T'(1) fe] by (simp_all add: fresh_def unlinked_def)
  have I2: "store_inv st2 X" unfolding h2(2) by (rule store_inv_overwrite [OF T'(1) fe x])
  have f2: "key (heap st2 e) = k" "\<not> IsRoot (flags (heap st2) e)" "policyWeight (heap st2 e) = 0" "m_prev (meta (heap st2 e)) = None"
    "weight (heap st2 e) = cost" "evalue (heap st2 e) = v" "\<And>a. a \<noteq> e \<Longrightarrow> heap st2 a = heap st1 a" "expire (heap st2 e) = ex"
    using x(1) by (simp_all add: h2(1) unlinked_def flags_def)
  have eq: "shards st2 = shards st" "index k' st2 = index k' st" "entry_at st2 = entry_at st" "writeChan st2 = writeChan st" "doorkeeper st2 = doorkeeper st"
    "next_addr st2 = next_addr st1" "entryPool st2 = entryPool st1" for k'
    by (simp_all add: h2(2) st1 index_def entry_at_def fun_eq_iff)
  have fr2: "fresh st2 = fresh st"
    using T'(6) fe x(1) unfolding fresh_def fun_eq_iff unmapped_def eq h2(1) by (auto simp: st1)
  have "\<forall>d. dookeeper (shards st ! i) = Some d \<longrightarrow> bloom_wf d" using d nth_mem [OF il] by (auto simp: doors_ok_def)
  from shard_set_spec [OF c this rm, of "logf st2" k e] obtain s' where s': "shard_set (logf st2) k e (shards st2 ! i) = Some s'"
    "hashmap s' = AList.update k e (hashmap (shards st2 ! i))" "\<not> s_closed s'" "dookeeper (shards st ! i) = None \<longleftrightarrow> dookeeper s' = None"
    "\<forall>d. dookeeper s' = Some d \<longrightarrow> bloom_wf d" unfolding eq(1) by (elim exE conjE)
  have i2: "i = snd (index k st2)" "\<not> s_closed (shards st2 ! i)" using i c by (simp_all add: eq)
  note B = rebind [OF I2 i2(1) f2(1,2) s'(2,3) i2(2)]
  let ?st = "set_shard i s' st2"
  have hs: "heap ?st = heap st2" "writeChan ?st = writeChan st" "next_addr ?st = next_addr st1" "entryPool ?st = entryPool st1"
    by (simp_all add: set_shard_def eq)
  have fr: "fresh ?st a" if "a \<noteq> e" "fresh st a" for a using B(3) that fr2 by simp
  have "supply_ok ?st" using T'(2,4,5) fr unfolding supply_ok_def hs T'(6) pool_has_def by (auto, metis)
  moreover have "doors_ok ?st"
    using d s'(4,5) nth_mem [OF il] set_update_subset_insert [of "shards st" i s'] by (auto simp: doors_ok_def set_shard_def eq)
  moreover have "lookup ?st = (lookup st)(k \<mapsto> v)"
  proof (rule lookup_upd)
    show "entry_at ?st = (entry_at st)(k \<mapsto> e)" using B(2) eq(3) by simp
    show "evalue (heap ?st e) = v" by (simp add: hs f2)
    fix k' a assume "entry_at st k' = Some a"
    then have "\<not> fresh st a" by (rule mapped_not_fresh [OF store_inv_parts(3) [OF I]])
    then have "a \<noteq> e" "a < next_addr st" using T'(3) s by (auto simp: supply_ok_def not_le [symmetric])
    then show "evalue (heap ?st a) = evalue (heap st a)" using T'(7) f2(7) by (simp add: hs)
  qed
  moreover have fr': "heap st2 a = heap st a" if "\<not> fresh st a" for a
  proof -
    have "a \<noteq> e" "a < next_addr st" using that T'(3) s by (auto simp: supply_ok_def not_le [symmetric])
    then show ?thesis using T'(7) f2(7) by simp
  qed
  moreover have "entryPool st = None \<longrightarrow> e = next_addr st" using t by (auto simp: takeEntry_def alloc_def)
  moreover have "keeps_rest st ?st"
  proof -
    have "IsRoot (flags (heap st2) a) = IsRoot (flags (heap st) a)" for a
    proof (cases "fresh st a")
      case True
      then have "fresh st2 a" by (simp add: fr2)
      then show ?thesis using True by (simp add: fresh_def unlinked_def flags_def)
    qed (simp add: fr' flags_def)
    moreover have "entryPool st = None \<longrightarrow> entryPool st1 = None" "next_addr st \<le> next_addr st1"
      using takeEntry_pool [of st k] takeEntry_next [of st k] t by simp_all
    ultimately show ?thesis by (simp add: keeps_rest_def hs) (simp add: set_shard_def h2(2) st1)
  qed
  ultimately have "written st X k v cost ex e ?st" using B(1,2) eq(3) T'(3,4,7) k by (simp add: written_def hs f2)
  then show ?thesis using s'(1) by blast
qed

text \<open>A write that is refused.\<close>

definition quiet :: "('k, 'v, 'z) store_scheme \<Rightarrow> (pqueue \<Rightarrow> addr list) \<Rightarrow> ('k, 'v, 'z) store_scheme \<Rightarrow> bool" where
  "quiet st X st' \<longleftrightarrow> store_inv st' X \<and> supply_ok st' \<and> doors_ok st' \<and> entry_at st' = entry_at st \<and> heap st' = heap st \<and>
     writeChan st' = writeChan st \<and> next_addr st' = next_addr st \<and> keeps_rest st st'"

lemma quiet_lookup: "quiet st X st' \<Longrightarrow> lookup st' = lookup st"
  by (simp add: quiet_def lookup_def fun_eq_iff)

lemma setShard_new:
  fixes st :: "('k::zero, 'v::zero, 'z) store_scheme"
  assumes I: "store_inv st X" and s: "supply_ok st" and d: "doors_ok st" and rm: "roomy st"
    and k: "entry_at st k = None" and i: "i = snd (index k st)" and c: "\<not> s_closed (shards st ! i)"
  shows "\<exists>r st'. setShardWithoutLock i h k v cost ex st = Some (r, st') \<and> \<not> sr_exists r \<and>
    (if sr_success r then \<exists>e. written st X k v cost ex e st' \<and> sr_entry r = Some e
     else doorkeeper st \<and> sr_entry r = None \<and> quiet st X st')"
proof -
  have il: "i < length (shards st)" unfolding i by (rule index_lt [OF store_inv_parts(3) [OF I]])
  obtain adm s' where a: "(if doorkeeper st then doorkeeper_check h (shards st ! i) else Some (True, shards st ! i)) = Some (adm, s')"
    "\<not> adm \<longrightarrow> doorkeeper st" "hashmap s' = hashmap (shards st ! i)" "s_closed s' = s_closed (shards st ! i)"
    "store_inv (set_shard i s' st) X" "supply_ok (set_shard i s' st)" "doors_ok (set_shard i s' st)"
    "entry_at (set_shard i s' st) = entry_at st" "fresh (set_shard i s' st) = fresh st"
    using admission [OF I s d il, of h] by blast
  define st1 where "st1 = set_shard i s' st"
  let ?r = "\<lparr>sr_entry = None, sr_oldCost = 0, sr_exists = False, sr_success = True, sr_reschedule = False\<rparr>"
  have g: "shard_get k (shards st ! i) = None" using k i by (simp add: entry_at_def)
  obtain e st2 where t: "takeEntry k st1 = (e, st2)" by (cases "takeEntry k st1")
  define st3 where "st3 = st2\<lparr>heap := modify e (\<lambda>x. x\<lparr>key := k, evalue := v, expire := ex, weight := cost, policyWeight := 0\<rparr>) (heap st2)\<rparr>"
  have run: "setShardWithoutLock i h k v cost ex st = (if \<not> adm then Some (?r\<lparr>sr_success := False\<rparr>, st1)
      else do { s \<leftarrow> shard_set (logf st3) k e (shards st3 ! i); Some (?r\<lparr>sr_entry := Some e\<rparr>, set_shard i s st3) })"
    using c g t unfolding setShardWithoutLock_def Let_def a(1) by (simp add: st1_def [symmetric] st3_def)
  show ?thesis
  proof (cases adm)
    case False
    have "quiet st X st1" using a by (simp add: quiet_def st1_def) (simp add: set_shard_def keeps_rest_def)
    then show ?thesis using run a False by simp
  next
    case True
    have eq: "shards st1 ! i = s'" "index k' st1 = index k' st" "lookup st1 = lookup st" "writeChan st1 = writeChan st" "heap st1 = heap st" for k'
      using il a(8) by (simp_all add: st1_def set_shard_def index_def lookup_def fun_eq_iff)
    have rm1: "20 * Suc (length (hashmap (shards st1 ! i))) \<le> 2 ^ 31" using rm nth_mem [OF il] a(3) by (simp add: roomy_def eq)
    have p: "entry_at st1 k = None" "i = snd (index k st1)" "\<not> s_closed (shards st1 ! i)" unfolding eq using k i c a(4) a(8) [folded st1_def] by simp_all
    obtain s2 where B: "shard_set (logf st3) k e (shards st3 ! i) = Some s2" "written st1 X k v cost ex e (set_shard i s2 st3)"
      using bind_new [OF a(5-7) [folded st1_def] rm1 p t st3_def] by blast
    have "keeps_rest st st1" "fresh st1 = fresh st" "entry_at st1 = entry_at st" "next_addr st1 = next_addr st" "entryPool st1 = entryPool st" using a(8,9) by (simp_all add: st1_def set_shard_def keeps_rest_def)
    then have "written st X k v cost ex e (set_shard i s2 st3)" using B(2) keeps_rest_trans [of st st1] k unfolding written_def by (simp add: eq)
    then show ?thesis using run True B(1) by simp
  qed
qed

text \<open>
  \<open>Set\<close>: the outcome on every path. A value that costs more than the capacity and a key that
  the doorkeeper has not seen are refused; on a closed shard the call reports success and
  does nothing; otherwise the key is bound to the value and one event is sent.
\<close>

definition closed_at :: "('k, 'v, 'z) store_scheme \<Rightarrow> 'k \<Rightarrow> bool" where
  "closed_at st k \<longleftrightarrow> s_closed (shards st ! snd (index k st))"

definition set_cost :: "('v \<Rightarrow> i64) \<Rightarrow> 'v \<Rightarrow> i64 \<Rightarrow> i64" where
  "set_cost costf v cost = (if cost = 0 then costf v else cost)"

definition set_expiry :: "('k, 'v, 'z) store_scheme \<Rightarrow> i64 \<Rightarrow> i64" where
  "set_expiry st ttl = (if ttl \<noteq> 0 then ExpireNano (clk st (clk_pos st)) ttl (tw_clock (timerwheel st)) else 0)"

definition sent :: "('k, 'v, 'z) store_scheme \<Rightarrow> 'k \<Rightarrow> i64 \<Rightarrow> bool \<Rightarrow> addr \<Rightarrow> WriteBufItem \<Rightarrow> bool" where
  "sent st k cost nvm e item \<longleftrightarrow> wb_entry item = Some e \<and> wb_hash item = s_hasher st k \<and> wb_fromNVM item = (nvm \<and> entry_at st k = None) \<and>
     (case entry_at st k of None \<Rightarrow> wb_code item = NEW \<and> wb_costChange item = cost
      | Some a \<Rightarrow> a = e \<and> wb_code item = UPDATE \<and> wb_costChange item = cost - weight (heap st e))"

lemma send_view:
  "entry_at (send item st) = entry_at st" "lookup (send item st) = lookup st" "heap (send item st) = heap st" "fresh (send item st) = fresh st"
proof -
  show at: "entry_at (send item st) = entry_at st" by (simp add: fun_eq_iff entry_at_def send_def index_def)
  show h: "heap (send item st) = heap st" by (simp add: send_def)
  show "lookup (send item st) = lookup st" unfolding lookup_def at h ..
  show "fresh (send item st) = fresh st" by (simp add: send_def)
qed

lemma written_send:
  assumes "written st X k v cost ex e st'"
  shows "store_inv (send item st') X" "supply_ok (send item st')" "doors_ok (send item st')" "lookup (send item st') = (lookup st)(k \<mapsto> v)"
    "entry_at (send item st') = (entry_at st)(k \<mapsto> e)" "writeChan (send item st') = writeChan st @ [item]"
proof -
  have w: "store_inv st' X" "supply_ok st'" "doors_ok st'" "entry_at st' = (entry_at st)(k \<mapsto> e)" "lookup st' = (lookup st)(k \<mapsto> v)"
    "writeChan st' = writeChan st" using assms by (simp_all add: written_def)
  show "store_inv (send item st') X" using w(1) by (rule store_inv_cong) (simp_all add: send_def)
  show "supply_ok (send item st')" "doors_ok (send item st')" using w(2,3) by (simp_all add: send_def supply_ok_def doors_ok_def)
  show "entry_at (send item st') = (entry_at st)(k \<mapsto> e)" "lookup (send item st') = (lookup st)(k \<mapsto> v)" using w(4,5) by (simp_all add: send_view)
  show "writeChan (send item st') = writeChan st @ [item]" using w(6) by (simp add: send_def)
qed

text \<open>The two outcomes of a write, as one predicate of the result.\<close>

definition set_outcome :: "('k, 'v, 'z) store_scheme \<Rightarrow> (pqueue \<Rightarrow> addr list) \<Rightarrow> 'k \<Rightarrow> 'v \<Rightarrow> i64 \<Rightarrow> i64 \<Rightarrow> bool \<Rightarrow> bool \<Rightarrow> ('k, 'v, 'z) store_scheme \<Rightarrow> bool" where
  "set_outcome st X k v cost ex nvm ok st' \<longleftrightarrow>
     (if ok \<and> \<not> closed_at st k
      then \<exists>e item st1. written st X k v cost ex e st1 \<and> sent st k cost nvm e item \<and> st' = send item st1
      else quiet st X st')"

lemma quiet_refl: "store_inv st X \<Longrightarrow> supply_ok st \<Longrightarrow> doors_ok st \<Longrightarrow> quiet st X st"
  by (simp add: quiet_def keeps_rest_def)

lemma setInternal_spec:
  fixes st :: "('k::zero, 'v::zero, 'z) store_scheme"
  assumes I: "store_inv st X" and s: "supply_ok st" and d: "doors_ok st" and rm: "roomy st"
  shows "\<exists>ok st'. setInternal k v cost ex nvm st = Some (ok, st') \<and> set_outcome st X k v cost ex nvm ok st' \<and>
    (\<not> ok \<longrightarrow> doorkeeper st \<and> lookup st k = None)"
proof -
  define i h where "i = snd (index k st)" and "h = fst (index k st)"
  have ix: "index k st = (h, i)" "h = s_hasher st k" by (simp_all add: i_def h_def index_def Let_def)
  have il: "i < length (shards st)" unfolding i_def by (rule index_lt [OF store_inv_parts(3) [OF I]])
  have run: "setInternal k v cost ex nvm st = do { (r, st) \<leftarrow> setShardWithoutLock i h k v cost ex st;
      Some (sr_success r, toPolicy r h cost nvm st) }" using il by (simp add: setInternal_def ix)
  show ?thesis
  proof (cases "closed_at st k")
    case True
    then have "setInternal k v cost ex nvm st = Some (True, st)"
      unfolding run by (simp add: setShardWithoutLock_def closed_at_def i_def toPolicy_def)
    then show ?thesis using True quiet_refl [OF I s d] by (intro exI [of _ True] exI [of _ st]) (simp add: set_outcome_def)
  next
    case False
    then have c: "\<not> s_closed (shards st ! i)" by (simp add: closed_at_def i_def)
    show ?thesis
    proof (cases "entry_at st k")
      case (Some e)
      obtain r st1 where r: "setShardWithoutLock i h k v cost ex st = Some (r, st1)" "written st X k v cost ex e st1"
        "sr_entry r = Some e" "sr_exists r" "sr_success r" "sr_oldCost r = weight (heap st e)"
        using setShard_existing [OF I s d Some i_def] by blast
      let ?item = "\<lparr>wb_entry = Some e, wb_costChange = cost - sr_oldCost r, wb_code = UPDATE, wb_rechedule = sr_reschedule r, wb_fromNVM = False, wb_hash = h\<rparr>"
      have "setInternal k v cost ex nvm st = Some (True, send ?item st1)"
        unfolding run by (simp add: r toPolicy_def policyUpdateEntry_def)
      moreover have "sent st k cost nvm e ?item" by (simp add: sent_def Some ix(2) r(6))
      ultimately show ?thesis using r(2) False unfolding set_outcome_def by (intro exI [of _ True] exI [of _ "send ?item st1"]) auto
    next
      case None
      obtain r st1 where r: "setShardWithoutLock i h k v cost ex st = Some (r, st1)" "\<not> sr_exists r"
        "if sr_success r then \<exists>e. written st X k v cost ex e st1 \<and> sr_entry r = Some e else doorkeeper st \<and> sr_entry r = None \<and> quiet st X st1"
        using setShard_new [OF I s d rm None i_def c] by blast
      show ?thesis
      proof (cases "sr_success r")
        case True
        then obtain e where e: "written st X k v cost ex e st1" "sr_entry r = Some e" using r(3) by auto
        let ?item = "\<lparr>wb_entry = Some e, wb_costChange = cost, wb_code = NEW, wb_rechedule = False, wb_fromNVM = nvm, wb_hash = h\<rparr>"
        have "setInternal k v cost ex nvm st = Some (True, send ?item st1)"
          unfolding run using r(2) by (simp add: r(1) e(2) True toPolicy_def policyNewEntry_def)
        moreover have "sent st k cost nvm e ?item" by (simp add: sent_def None ix(2))
        ultimately show ?thesis using e(1) False unfolding set_outcome_def by (intro exI [of _ True] exI [of _ "send ?item st1"]) auto
      next
        case F: False
        have "setInternal k v cost ex nvm st = Some (False, st1)" unfolding run using r(3) by (simp add: r(1) F toPolicy_def)
        moreover have "lookup st k = None" using None by (simp add: lookup_def)
        ultimately show ?thesis using r(3) F by (intro exI [of _ False] exI [of _ st1]) (simp add: set_outcome_def)
      qed
    qed
  qed
qed

lemma store_Set_spec:
  fixes st :: "('k::zero, 'v::zero, 'z) store_scheme"
  assumes I: "store_inv st X" and s: "supply_ok st" and d: "doors_ok st" and rm: "roomy st"
  shows "\<exists>ok st' n. store_Set costf k v cost ttl st = Some (ok, st') \<and> set_outcome (st\<lparr>clk_pos := n\<rparr>) X k v (set_cost costf v cost) (set_expiry st ttl) False ok st' \<and>
    (\<not> ok \<longrightarrow> slt (st_cap st) (set_cost costf v cost) \<or> doorkeeper st \<and> lookup st k = None) \<and>
    (slt (st_cap st) (set_cost costf v cost) \<longrightarrow> \<not> ok)"
proof (cases "slt (st_cap st) (set_cost costf v cost)")
  case True
  then have "store_Set costf k v cost ttl st = Some (False, st)" by (simp add: store_Set_def set_cost_def)
  then show ?thesis using quiet_refl [OF I s d] True by (intro exI [of _ False] exI [of _ st] exI [of _ "clk_pos st"]) (simp add: set_outcome_def)
next
  case False
  define ex where "ex = set_expiry st ttl"
  define n where "n = (if ttl \<noteq> 0 then clk_pos st + 1 else clk_pos st)"
  let ?st = "st\<lparr>clk_pos := n\<rparr>"
  have run: "store_Set costf k v cost ttl st = setInternal k v (set_cost costf v cost) ex False ?st"
    using False by (simp add: store_Set_def set_cost_def ex_def set_expiry_def n_def Let_def)
  have I': "store_inv ?st X" using I by (rule store_inv_cong) simp_all
  have "lookup ?st = lookup st" by (simp add: lookup_def entry_at_def index_def fun_eq_iff)
  moreover have s': "supply_ok ?st" "doors_ok ?st" "roomy ?st" using s d rm by (simp_all add: supply_ok_def doors_ok_def roomy_def)
  moreover obtain ok st' where "setInternal k v (set_cost costf v cost) ex False ?st = Some (ok, st')"
    "set_outcome ?st X k v (set_cost costf v cost) ex False ok st'" "\<not> ok \<longrightarrow> doorkeeper ?st \<and> lookup ?st k = None"
    using setInternal_spec [OF I' s'] by blast
  ultimately show ?thesis unfolding run using False by (intro exI [of _ ok] exI [of _ st'] exI [of _ n]) (simp add: ex_def)
qed

subsection \<open>Delete and Close\<close>

lemma Delete_spec:
  assumes I: "store_inv st X" and s: "supply_ok st" and d: "doors_ok st"
  shows "\<exists>st'. store_Delete k st = Some st' \<and> store_inv st' X \<and> doors_ok st' \<and> lookup st' = (lookup st)(k := None) \<and>
    entry_at st' = (entry_at st)(k := None) \<and> heap st' = heap st \<and> next_addr st' = next_addr st \<and> keeps_rest st st' \<and> supply_ok st' \<and>
    (\<exists>item. writeChan st' = (if entry_at st k = None then writeChan st else writeChan st @ [item]) \<and>
       wb_entry item = entry_at st k \<and> wb_code item = REMOVE \<and> wb_costChange item = 0)"
proof -
  define i h where "i = snd (index k st)" and "h = fst (index k st)"
  have ix: "index k st = (h, i)" by (simp add: i_def h_def)
  note M = store_inv_parts(3) [OF I]
  have il: "i < length (shards st)" unfolding i_def by (rule index_lt [OF M])
  have g: "shard_get k (shards st ! i) = entry_at st k" by (simp add: entry_at_def i_def)
  show ?thesis
  proof (cases "entry_at st k")
    case None
    then have "store_Delete k st = Some st" "(entry_at st)(k := None) = entry_at st" "(lookup st)(k := None) = lookup st"
      using il g by (auto simp: store_Delete_def ix lookup_def)
    then show ?thesis using I s d None by (auto simp: keeps_rest_def intro: exI [of _ "\<lparr>wb_entry = None, wb_costChange = 0, wb_code = REMOVE, wb_rechedule = False, wb_fromNVM = False, wb_hash = 0\<rparr>"])
  next
    case (Some e)
    obtain s' del where sd: "shard_delete (heap st) e (shards st ! i) = (s', del)" by (cases "shard_delete (heap st) e (shards st ! i)")
    have key: "key (heap st e) = k" using mapped_not_root(2) [OF M _ il] g Some by simp
    note D = shard_delete_spec [OF M _ sd]
    have ik: "i = snd (index (key (heap st e)) st)" by (simp add: key i_def)
    let ?item = "\<lparr>wb_entry = Some e, wb_costChange = 0, wb_code = REMOVE, wb_rechedule = False, wb_fromNVM = False, wb_hash = h\<rparr>"
    let ?st = "send ?item (set_shard i s' st)"
    have run: "store_Delete k st = Some ?st" using il g Some sd by (simp add: store_Delete_def ix)
    have del: "del" using D(4) [OF ik] g Some by (simp add: key)
    have I1: "store_inv (set_shard i s' st) X" by (rule store_inv_map [OF I D(1) [OF ik]])
    then have "store_inv ?st X" by (rule store_inv_cong) (simp_all add: send_def)
    moreover have at: "entry_at ?st = (entry_at st)(k := None)"
    proof
      fix k'
      have "entry_at ?st k' = (if snd (index k' st) = i then shard_get k' s' else entry_at st k')"
        unfolding entry_at_set_shard [OF il, symmetric] by (simp add: entry_at_def send_def index_def)
      also have "\<dots> = ((entry_at st)(k := None)) k'" using D(5) [OF ik, of k'] del by (auto simp: key entry_at_def i_def)
      finally show "entry_at ?st k' = ((entry_at st)(k := None)) k'" .
    qed
    moreover have "lookup ?st = (lookup st)(k := None)" unfolding lookup_def at by (auto simp: fun_eq_iff send_def set_shard_def)
    moreover have "fresh ?st a" if "fresh st a" for a using that D(3) [OF ik, of a] by (simp add: fresh_def send_def unmapped_def set_shard_def)
    then have "supply_ok ?st" using s by (auto simp: supply_ok_def send_def set_shard_def)
    moreover have "dookeeper s' = dookeeper (shards st ! i)" using sd by (auto simp: shard_delete_def split: if_splits option.splits)
    then have "doors_ok ?st" using d nth_mem [OF il] set_update_subset_insert [of "shards st" i s'] by (auto simp: doors_ok_def send_def set_shard_def)
    moreover have "keeps_rest st ?st" "heap ?st = heap st" "next_addr ?st = next_addr st" "writeChan ?st = writeChan st @ [?item]"
      by (simp_all add: keeps_rest_def send_def set_shard_def)
    ultimately show ?thesis using run Some by (intro exI [of _ ?st]) (auto intro!: exI [of _ ?item])
  qed
qed

lemma Close_spec:
  assumes I: "store_inv st X"
  shows "store_inv (store_Close st) X" "entry_at (store_Close st) = Map.empty" "lookup (store_Close st) = Map.empty" "closed_at (store_Close st) k"
    "heap (store_Close st) = heap st" "fresh st a \<Longrightarrow> fresh (store_Close st) a"
proof -
  note M = store_inv_parts(3) [OF I]
  have ix: "index k' (store_Close st) = index k' st" "heap (store_Close st) = heap st" for k' by (simp_all add: store_Close_def index_def)
  have nth: "shards (store_Close st) ! snd (index k' st) = (shards st ! snd (index k' st))\<lparr>s_closed := True, hashmap := []\<rparr>" for k'
    using index_lt [OF M, of k'] by (simp add: store_Close_def)
  show "entry_at (store_Close st) = Map.empty" by (simp add: fun_eq_iff entry_at_def ix nth shard_get_def)
  then show "lookup (store_Close st) = Map.empty" by (simp add: fun_eq_iff lookup_def)
  show "closed_at (store_Close st) k" by (simp add: closed_at_def ix nth)
  show "heap (store_Close st) = heap st" by (rule ix)
  show "fresh (store_Close st) a" if "fresh st a" using that by (simp add: fresh_def ix) (simp add: store_Close_def unmapped_def)
  have "map_inv (store_Close st)" using M by (auto simp: map_inv_def shard_inv_def store_Close_def)
  then show "store_inv (store_Close st) X" using I policy_ok_cong [of "store_Close st" st X] by (simp add: store_inv_def ix) (simp add: store_Close_def)
qed

subsection \<open>Reading what was written\<close>

text \<open>
  A read compares the expiration time with the cached time first and reads the clock only
  close to it: that is exact as long as the cached time is at most thirty seconds old.
\<close>

lemma getFromShard_exact:
  assumes e: "entry_at st k = Some e" and ex: "0 \<le> sint (expire (heap st e))"
    and now: "now = fst (read_now st)" and cached: "cached = NowNanoCached (tw_clock (timerwheel st))"
    and c: "0 \<le> sint cached" "sint cached \<le> sint now" "sint now < sint cached + 30000000000"
  shows "fst (getFromShard k (snd (index k st)) st) =
    (if expire (heap st e) = 0 \<or> sint now < sint (expire (heap st e)) then (Some e, evalue (heap st e), True) else (Some e, 0, False))"
proof -
  let ?ex = "expire (heap st e)"
  have g: "shard_get k (shards st ! snd (index k st)) = Some e" using e by (simp add: entry_at_def)
  have d: "sint (?ex - cached) = sint ?ex - sint cached" "sint (?ex - now) = sint ?ex - sint now"
    using sint_sub64 [of ?ex cached] sint_sub64 [of ?ex now] ex c sint_range64 [of ?ex] sint_range64 [of cached] sint_range64 [of now] by auto
  have s: "sle (?ex - cached) 0 \<longleftrightarrow> sint ?ex \<le> sint cached" "slt (?ex - cached) 30000000000 \<longleftrightarrow> sint ?ex - sint cached < 30000000000"
    "sle (?ex - now) 0 \<longleftrightarrow> sint ?ex \<le> sint now"
    by (simp_all add: sle_def slt_def d)
  have n: "read_now st = (now, st\<lparr>clk_pos := clk_pos st + 1\<rparr>)" by (simp add: now read_now_def)
  show ?thesis using c by (auto simp: getFromShard_def g Let_def n s simp flip: cached)
qed

end
