(* ===== verification/Store_New.thy ===== *)
theory Store_New
  imports Store_Writes
begin

text \<open>
  The construction of a store, \<open>NewStore\<close> of internal/store.go, and the proof that a new
  store satisfies the invariant. What the code takes from its surroundings is one record,
  \<open>runtime\<close>: the hash function, the logarithm of the filters, the number of processors,
  the start time, and the streams of clock readings and random draws. Sentinels of the
  lists are allocated first: three for the policy, then those of the wheel.
\<close>

record 'v StoreOptions =
  MaxSize :: i64
  Doorkeeper :: bool
  EntryPool :: bool
  Listener :: bool
  Cost :: "('v \<Rightarrow> i64) option"
  SecondaryCache :: bool
  Workers :: i64
  Probability :: rat

record 'k runtime =
  rt_hasher :: "'k \<Rightarrow> u64"
  rt_log :: "rat \<Rightarrow> rat"
  GOMAXPROCS :: nat
  NumCPU :: nat
  rt_start :: int
  rt_clock :: "nat \<Rightarrow> int"
  rt_fastrand :: "nat \<Rightarrow> u32"
  rt_rand :: "nat \<Rightarrow> rat"
  rt_pool :: "nat \<Rightarrow> nat"

definition Parallelism :: "'k runtime \<Rightarrow> u32" where
  "Parallelism rt =
     (let maxProcs = of_nat (GOMAXPROCS rt); numCPU = of_nat (NumCPU rt)
      in if maxProcs < numCPU then maxProcs else numCPU)"

text \<open>The package variables set by \<open>init\<close>.\<close>

definition RoundedParallelism :: "'k runtime \<Rightarrow> nat" where
  "RoundedParallelism rt = unat (RoundUpPowerOf2 (Parallelism rt))"

definition StripedBufferSize :: "'k runtime \<Rightarrow> nat" where
  "StripedBufferSize rt = 4 * RoundedParallelism rt"

text \<open>The loop that doubles the shard count, and the two limits after it.\<close>

function shard_loop :: "nat \<Rightarrow> nat \<Rightarrow> nat" where
  "shard_loop procs n = (if 0 < n \<and> n < procs * 2 then shard_loop procs (n * 2) else n)"
  by pat_completeness auto
termination by (relation "measure (\<lambda>(procs, n). procs * 2 - n)") auto

declare shard_loop.simps [simp del]

definition shard_count :: "nat \<Rightarrow> nat" where
  "shard_count procs =
     (let n = shard_loop procs 1; n = (if n < 16 then 16 else n) in if 128 < n then 128 else n)"

definition costfn :: "'v StoreOptions \<Rightarrow> 'v \<Rightarrow> i64" where
  "costfn opt = (case Cost opt of None \<Rightarrow> (\<lambda>v. 1) | Some f \<Rightarrow> f)"

fun new_shards :: "(rat \<Rightarrow> rat) \<Rightarrow> bool \<Rightarrow> nat \<Rightarrow> 'k Shard list option" where
  "new_shards lg dk 0 = Some []"
| "new_shards lg dk (Suc n) = do { s \<leftarrow> NewShard lg dk; ss \<leftarrow> new_shards lg dk n; Some (s # ss) }"

definition sentinel :: "nat \<Rightarrow> nat \<Rightarrow> addr" where
  "sentinel x y = 3 + 64 * x + y"

definition first_addr :: addr where
  "first_addr = 260"

text \<open>
  The clock is read for the start, for \<open>nanos\<close> and to refresh the cached time: the last two
  are the first readings of the stream.
\<close>

definition NewStore :: "'k::zero runtime \<Rightarrow> 'v::zero StoreOptions \<Rightarrow> ('k, 'v) store option" where
  "NewStore rt opt =
     do { (h, t) \<leftarrow> NewTinyLfu (MaxSize opt) (rt_hasher rt) (Parallelism rt) 0 1 2 (\<lambda>_. zero_entry);
          ss \<leftarrow> new_shards (rt_log rt) (Doorkeeper opt) (shard_count (GOMAXPROCS rt));
          let (h, tw) = NewTimerWheel sentinel (rt_start rt) (rt_clock rt 0) h;
          let tw = tw\<lparr>tw_clock := RefreshNowCache (rt_clock rt 1) (tw_clock tw)\<rparr>;
          Some \<lparr>heap = h, policy = t, rnd = rt_fastrand rt, rnd_pos = 0, timerwheel = tw, clk = rt_clock rt, clk_pos = 2,
            s_hasher = rt_hasher rt, shards = ss, shardCount = of_nat (shard_count (GOMAXPROCS rt)), st_cap = MaxSize opt,
            doorkeeper = Doorkeeper opt, logf = rt_log rt, entryPool = (if EntryPool opt then Some [] else None),
            pool_pick = rt_pool rt, pool_pos = 0, next_addr = first_addr, removalListener = Listener opt, notified = [],
            secondaryCache = SecondaryCache opt, secondaryCacheBuf = [], probability = Probability opt, rg = rt_rand rt, rg_pos = 0,
            writeChan = [], st_closed = False, stripedBuffer = replicate (StripedBufferSize rt) NewBuffer,
            mask = of_nat (StripedBufferSize rt - 1)\<rparr> }"

subsection \<open>Shards\<close>

lemma shard_loop_pow2: "\<exists>m. shard_loop procs (2 ^ k) = 2 ^ m"
proof (induction "procs * 2 - 2 ^ k" arbitrary: k rule: less_induct)
  case less
  show ?case
  proof (cases "(2::nat) ^ k < procs * 2")
    case True
    then have "procs * 2 - 2 ^ Suc k < procs * 2 - 2 ^ k" by (simp add: diff_less_mono2)
    from less [OF this] show ?thesis using True by (subst shard_loop.simps) (simp add: mult.commute)
  next
    case False
    then show ?thesis by (subst shard_loop.simps) auto
  qed
qed

lemma shard_loop_ge: "0 < n \<Longrightarrow> procs * 2 \<le> shard_loop procs n"
  by (induction procs n rule: shard_loop.induct) (auto simp: shard_loop.simps)

lemma shard_count_pow2: "\<exists>m\<in>{4..7}. shard_count procs = 2 ^ m"
proof -
  obtain m where m: "shard_loop procs 1 = 2 ^ m" using shard_loop_pow2 [of procs 0] by auto
  consider "m \<le> 4" | "5 \<le> m" "m \<le> 7" | "8 \<le> m" by linarith
  then show ?thesis
  proof cases
    case 1
    then have "(2::nat) ^ m \<le> 2 ^ 4" by (intro power_increasing) simp_all
    then have "shard_count procs = 2 ^ 4" unfolding shard_count_def Let_def m by auto
    then show ?thesis by (intro bexI [of _ 4]) simp_all
  next
    case 2
    then have "(2::nat) ^ 5 \<le> 2 ^ m" "(2::nat) ^ m \<le> 2 ^ 7" by (intro power_increasing; simp)+
    then have "shard_count procs = 2 ^ m" unfolding shard_count_def Let_def m by auto
    then show ?thesis using 2 by (intro bexI [of _ m]) simp_all
  next
    case 3
    then have "(2::nat) ^ 8 \<le> 2 ^ m" by (intro power_increasing) simp_all
    then have "shard_count procs = 2 ^ 7" unfolding shard_count_def Let_def m by auto
    then show ?thesis by (intro bexI [of _ 7]) simp_all
  qed
qed

lemma NewShard_spec:
  "\<exists>s. NewShard lg dk = Some s \<and> hashmap s = [] \<and> \<not> s_closed s \<and> (dk \<longrightarrow> dookeeper s \<noteq> None) \<and>
     (\<forall>d. dookeeper s = Some d \<longrightarrow> bloom_wf d)"
proof -
  obtain d where "bf_New lg (f64 (1 / 100)) = Some d" "bloom_wf d" using bf_New_wf by blast
  then show ?thesis by (cases dk) (simp_all add: NewShard_def)
qed

lemma new_shards_spec:
  "\<exists>ss :: 'k Shard list. new_shards lg dk n = Some ss \<and> length ss = n \<and> (\<forall>s\<in>set ss. hashmap s = [] \<and> \<not> s_closed s \<and>
     (dk \<longrightarrow> dookeeper s \<noteq> None) \<and> (\<forall>d. dookeeper s = Some d \<longrightarrow> bloom_wf d))"
proof (induction n)
  case (Suc n)
  obtain s :: "'k Shard" where "NewShard lg dk = Some s" "hashmap s = []" "\<not> s_closed s" "dk \<longrightarrow> dookeeper s \<noteq> None"
    "\<forall>d. dookeeper s = Some d \<longrightarrow> bloom_wf d" using NewShard_spec by blast
  then show ?case using Suc.IH by auto
qed simp

subsection \<open>Lists\<close>

definition root_entry :: "u8 \<Rightarrow> addr \<Rightarrow> ('k::zero, 'v::zero) Entry" where
  "root_entry lt a = setPrev (Some a) lt (setNext (Some a) lt (zero_entry\<lparr>flag := SetRoot True zero_flag\<rparr>))"

definition empty_list :: "u64 \<Rightarrow> u8 \<Rightarrow> addr \<Rightarrow> List" where
  "empty_list sz lt a = \<lparr>l_root = a, l_len = 0, l_count = 0, l_capacity = sz, l_listType = lt\<rparr>"

lemma NewList_eq: "NewList sz lt a h = (h(a := root_entry lt a), empty_list sz lt a)"
  by (simp add: NewList_def root_entry_def empty_list_def modify_def Let_def) (simp add: zero_entry_def)

lemma new_level_eq:
  "new_level f y n h = ((\<lambda>a. if a \<in> f ` {y..<y + n} then root_entry WHEEL_LIST a else h a), map (\<lambda>j. empty_list 0 WHEEL_LIST (f j)) [y..<y + n])"
proof (induction n arbitrary: y h)
  case (Suc n)
  have u: "[y..<y + Suc n] = y # [Suc y..<Suc y + n]" "{y..<y + Suc n} = insert y {Suc y..<Suc y + n}" by (simp_all add: upt_conv_Cons) auto
  show ?case unfolding u by (simp add: NewList_eq Suc.IH fun_eq_iff)
qed simp

lemma new_wheel_eq:
  "new_wheel f x bs h = ((\<lambda>a. if \<exists>j<length bs. a \<in> f (x + j) ` {0..<unat (bs ! j)} then root_entry WHEEL_LIST a else h a),
     map (\<lambda>j. map (\<lambda>y. empty_list 0 WHEEL_LIST (f (x + j) y)) [0..<unat (bs ! j)]) [0..<length bs])"
proof (induction bs arbitrary: x h)
  case (Cons b bs)
  have u: "[0..<length (b # bs)] = 0 # map Suc [0..<length bs]" by (simp add: upt_conv_Cons map_Suc_upt del: upt_Suc)
  have ex: "(\<exists>j<length (b # bs). P j) \<longleftrightarrow> P 0 \<or> (\<exists>j<length bs. P (Suc j))" for P by (auto simp: less_Suc_eq_0_disj)
  show ?case unfolding u ex by (simp add: new_level_eq Cons.IH fun_eq_iff o_def) blast
qed simp

lemma root_entry_links:
  "e_prev LIST_WINDOW (root_entry WHEEL_LIST a) = None" "e_next WHEEL_LIST (root_entry WHEEL_LIST a) = Some a" "e_prev WHEEL_LIST (root_entry WHEEL_LIST a) = Some a"
  "e_prev WHEEL_LIST (root_entry (ltype q) a) = None" "e_next LIST_WINDOW (root_entry (ltype q) a) = Some a" "e_prev LIST_WINDOW (root_entry (ltype q) a) = Some a"
  "IsRoot (flag (root_entry lt a))" "\<not> in_queue p (flag (root_entry lt a))"
  by (cases q; cases p; simp add: root_entry_def e_prev_def e_next_def setPrev_def setNext_def zero_entry_def)+

lemma zero_entry_links:
  "e_prev lt zero_entry = None" "\<not> IsRoot (flag zero_entry)" "\<not> in_queue p (flag zero_entry)"
  by (cases p; simp add: e_prev_def zero_entry_def)+

text \<open>A heap of sentinels: three of the policy's lists and those of the wheel.\<close>

definition wheel_sentinels :: "addr set" where
  "wheel_sentinels = (\<Union>x\<in>{0..<5}. sentinel x ` {0..<nb x})"

definition new_heap :: "('k::zero, 'v::zero) heap" where
  "new_heap a = (if a \<in> wheel_sentinels then root_entry WHEEL_LIST a else if a = 0 then root_entry LIST_WINDOW a
     else if a = 1 then root_entry LIST_PROBATION a else if a = 2 then root_entry LIST_PROTECTED a else zero_entry)"

definition new_lists :: "u64 \<Rightarrow> u64 \<Rightarrow> pqueue \<Rightarrow> List" where
  "new_lists cw cp q = (case q of QWindow \<Rightarrow> empty_list cw LIST_WINDOW 0 | QProbation \<Rightarrow> empty_list 0 LIST_PROBATION 1
     | QProtected \<Rightarrow> empty_list cp LIST_PROTECTED 2)"

lemma wheel_sentinels_range: "a \<in> wheel_sentinels \<Longrightarrow> 3 \<le> a \<and> a < 260"
proof -
  assume "a \<in> wheel_sentinels"
  then obtain x y where xy: "x < 5" "y < nb x" "a = sentinel x y" by (auto simp: wheel_sentinels_def)
  have "x = 0 \<or> x = 1 \<or> x = 2 \<or> x = 3 \<or> x = 4" using xy(1) by linarith
  then show ?thesis using xy(2,3) by (auto simp: nb_def sentinel_def)
qed

lemma ring_empty: "ring nx pv r [] \<longleftrightarrow> nx r = Some r \<and> pv r = Some r"
  by (simp add: ring_def lk_def)

lemma new_reps: "reps (new_heap :: ('k::zero, 'v::zero) heap) (new_lists cw cp) (\<lambda>_. [])"
proof -
  let ?h = "new_heap :: ('k, 'v) heap"
  let ?T = "new_lists cw cp"
  have ns: "0 \<notin> wheel_sentinels" "1 \<notin> wheel_sentinels" "2 \<notin> wheel_sentinels" using wheel_sentinels_range by force+
  have r: "roots ?T = {0, 1, 2}" by (auto simp: roots_def new_lists_def empty_list_def UNIV_pqueue)
  have root: "?h (l_root (?T q)) = root_entry (ltype q) (l_root (?T q))" for q
    using ns by (cases q) (simp_all add: new_heap_def new_lists_def empty_list_def)
  have ra: "\<exists>q. a = l_root (?T q)" if "a \<in> roots ?T" for a using that by (auto simp: roots_def)
  have "ring (nxt LIST_WINDOW ?h) (prv LIST_WINDOW ?h) a []" "IsRoot (flags ?h a)" if "a \<in> roots ?T" for a
    using ra [OF that] by (auto simp: ring_empty nxt_def prv_def root root_entry_links flags_def)
  then have "hrings LIST_WINDOW ?h (roots ?T) (\<lambda>_. [])"
    by (auto simp: hrings_def rings_def members_def valid_lt_def)
  moreover have "inj (\<lambda>q. l_root (?T q))" by (rule injI) (auto simp: new_lists_def empty_list_def split: pqueue.splits)
  moreover have "header_ok ?h q (?T q) []" for q by (cases q) (simp_all add: header_ok_def new_lists_def empty_list_def)
  moreover have "detached ?h a" if "a \<notin> roots ?T" for a
    using that unfolding r by (simp add: detached_def prv_def flags_def new_heap_def root_entry_links zero_entry_links)
  ultimately have "reps_ring ?h ?T (\<lambda>_. []) (\<lambda>_. [])" by (simp add: reps_ring_def)
  then show ?thesis unfolding reps_def by blast
qed

definition new_wheels :: "List list list" where
  "new_wheels = map (\<lambda>x. map (\<lambda>y. empty_list 0 WHEEL_LIST (sentinel x y)) [0..<nb x]) [0..<5]"

lemma new_wheel_roots:
  assumes "wheel tw = new_wheels"
  shows "set (wroots tw) = wheel_sentinels" "distinct (wroots tw)"
proof -
  have w: "wroots tw = concat (map (\<lambda>x. map (sentinel x) [0..<nb x]) [0..<5])"
    by (simp add: wroots_def assms new_wheels_def map_concat empty_list_def o_def)
  show "set (wroots tw) = wheel_sentinels" unfolding w by (auto simp: wheel_sentinels_def)
  have "[0..<5] = [0, 1, 2, 3, 4 :: nat]" by (simp add: upt_rec)
  then show "distinct (wroots tw)" unfolding w by (auto simp: distinct_map inj_on_def sentinel_def nb_def)
qed

lemma new_wreps:
  assumes "wheel tw = new_wheels" "buckets tw = wheel_buckets" "spans tw = wheel_spans" "shift tw = wheel_shift"
  shows "wreps (new_heap :: ('k::zero, 'v::zero) heap) tw (\<lambda>_. [])"
proof -
  let ?h = "new_heap :: ('k, 'v) heap"
  note W = new_wheel_roots [OF assms(1)]
  have "map length (wheel tw) = [64, 64, 32, 4, 1]" unfolding assms(1) new_wheels_def nb_def by (simp add: upt_rec)
  moreover have "\<forall>ls\<in>set (wheel tw). \<forall>l\<in>set ls. l_listType l = WHEEL_LIST" unfolding assms(1) new_wheels_def by (auto simp: empty_list_def)
  ultimately have "wheel_shape tw" using assms by (simp add: wheel_shape_def)
  moreover have "hrings WHEEL_LIST ?h wheel_sentinels (\<lambda>_. [])"
    by (auto simp: hrings_def rings_def members_def valid_lt_def ring_empty nxt_def prv_def flags_def new_heap_def root_entry_links)
  moreover have "prv WHEEL_LIST ?h a = None" if "a \<notin> wheel_sentinels" for a
    using that by (simp add: prv_def new_heap_def zero_entry_links root_entry_links(4) [of QWindow, unfolded ltype.simps]
      root_entry_links(4) [of QProbation, unfolded ltype.simps] root_entry_links(4) [of QProtected, unfolded ltype.simps])
  ultimately show ?thesis using W by (simp add: wreps_def)
qed

subsection \<open>The sizes of the regions\<close>

lemma f32_of_uint_le:
  assumes c: "unat c = n" "0 < n" shows "\<bar>f32_of_uint c\<bar> \<le> of_nat n * (101 / 100)"
proof -
  have "of_int (uint c) = (of_nat n :: rat)" using c(1) by (metis of_int_of_nat_eq uint_nat)
  then show ?thesis unfolding f32_of_uint_def by (metis abs_of_nat c(2) f32_le of_nat_1 of_nat_le_iff order_refl less_one not_le)
qed

lemma f32_frac:
  assumes c: "unat c = n" "0 < n" and r: "0 \<le> r" "r \<le> 1"
  shows "\<bar>f32 (f32_of_uint c * r)\<bar> \<le> of_nat n * r * (103 / 100) + 1 / 100"
proof -
  have small: "(1::rat) / 2 ^ 150 \<le> 1 / 1000" by simp
  have "\<bar>f32_of_uint c * r\<bar> \<le> of_nat n * (101 / 100) * r" unfolding abs_mult using r f32_of_uint_le [OF c] by (intro mult_mono) simp_all
  moreover have "\<bar>f32 (f32_of_uint c * r)\<bar> \<le> \<bar>f32_of_uint c * r\<bar> + (\<bar>f32_of_uint c * r\<bar> / 2 ^ 24 + 1 / 2 ^ 150)"
    using f32_err [of "f32_of_uint c * r"] by linarith
  moreover have "0 \<le> of_nat n * r" using r(1) by simp
  ultimately show ?thesis using small by (simp add: field_simps)
qed

lemma f32_nonneg: "0 \<le> x \<Longrightarrow> 0 \<le> f32 x"
proof -
  assume x: "0 \<le> x"
  have "0 \<le> rnd_even y" if "0 \<le> y" for y using that by (auto simp: rnd_even_def Let_def)
  moreover have "0 \<le> x / exp2 e" for e using x less_imp_le [OF exp2_pos] by (rule divide_nonneg_nonneg)
  ultimately show ?thesis using less_imp_le [OF exp2_pos] by (simp add: f32_def fround_def Let_def)
qed

text \<open>The share of the capacity given by a factor, truncated.\<close>

lemma share:
  assumes c: "unat c = n" "0 < n" "n < 2 ^ 63" and r: "0 \<le> r" "r \<le> 9 / 10"
  shows "of_nat (unat (uint_of_float (f32 (f32_of_uint c * r)))) \<le> (of_nat n * r * (103 / 100) + 1 / 100 :: rat)"
proof -
  let ?x = "f32 (f32_of_uint c * r)"
  have "0 \<le> f32_of_uint c" unfolding f32_of_uint_def by (rule f32_nonneg) (simp only: of_int_0_le_iff uint_ge_0)
  then have x0: "0 \<le> ?x" using r by (intro f32_nonneg) simp
  have xb: "?x \<le> of_nat n * r * (103 / 100) + 1 / 100" using f32_frac [OF c(1,2) r(1)] r x0 by simp
  have n: "of_nat n \<le> (2 ^ 63 :: rat)" using c(3) by (metis of_nat_le_iff of_nat_numeral of_nat_power order_less_imp_le)
  have "of_nat n * r \<le> 2 ^ 63 * (9 / 10)" using n r by (intro mult_mono) simp_all
  then have "?x < 2 ^ 63" using xb by simp
  then have f: "0 \<le> \<lfloor>?x\<rfloor>" "\<lfloor>?x\<rfloor> < 2 ^ 63" using x0 by (simp_all add: floor_less_iff)
  have "uint (uint_of_float ?x) = \<lfloor>?x\<rfloor>" using f x0 by (simp add: uint_of_float_def trunc_rat_def uint_word_of_int)
  then have "of_nat (unat (uint_of_float ?x)) = (of_int \<lfloor>?x\<rfloor> :: rat)" by (metis of_int_of_nat_eq uint_nat)
  also have "\<dots> \<le> ?x" by simp
  finally show ?thesis using xb by simp
qed

lemma share_nat:
  assumes c: "unat c = n" "n < 2 ^ 63" and r: "0 \<le> r" "r \<le> of_nat k / 100" "k \<le> 81"
  shows "100 * unat (uint_of_float (f32 (f32_of_uint c * r))) \<le> (k + 3) * n + 1"
proof (cases "n = 0")
  case True
  then have "c = 0" using c(1) by (simp add: unat_eq_zero)
  then show ?thesis by (simp add: f32_of_uint_def uint_of_float_def trunc_rat_def)
next
  case False
  obtain m where m: "unat (uint_of_float (f32 (f32_of_uint c * r))) = m" by blast
  have k: "of_nat k \<le> (81 :: rat)" using r(3) by simp
  then have "r \<le> 9 / 10" using r(2) by simp
  then have "of_nat m \<le> (of_nat n * r * (103 / 100) + 1 / 100 :: rat)" using share [OF c(1) _ c(2) r(1)] False m by simp
  moreover have "of_nat n * r \<le> of_nat n * (of_nat k / 100)" using r(2) by (intro mult_left_mono) simp_all
  moreover have "of_nat n * of_nat k \<le> of_nat n * (81 :: rat)" using k by (intro mult_left_mono) simp_all
  ultimately have "of_nat (100 * m) \<le> (of_nat ((k + 3) * n + 1) :: rat)" by (simp add: algebra_simps)
  then show ?thesis unfolding m of_nat_le_iff .
qed

lemma new_step:
  assumes c: "0 < unat c" "unat c < 2 ^ 63" shows "\<bar>f32 (- f32_of_uint c * (1 / 16))\<bar> \<le> 2 ^ 60"
proof -
  obtain n where n: "unat c = n" by blast
  have "of_nat n \<le> (2 ^ 63 :: rat)" using c(2) n by (metis of_nat_le_iff of_nat_numeral of_nat_power order_less_imp_le)
  then have "\<bar>f32_of_uint c\<bar> \<le> 2 ^ 63 * (101 / 100)" using f32_of_uint_le [OF n] c n by simp
  then have "\<bar>- f32_of_uint c * (1 / 16)\<bar> \<le> 2 ^ 59 * (101 / 100)" by (simp add: abs_mult)
  then have "\<bar>f32 (- f32_of_uint c * (1 / 16))\<bar> \<le> 2 ^ 59 * (101 / 100) * (101 / 100)" by (rule f32_le) simp
  then show ?thesis by simp
qed

lemma new_caps:
  assumes c: "0 < unat c" "unat c < 2 ^ 63"
    and w: "w = (let s = uint_of_float (f32 (f32_of_uint c * f32 (1 / 100))) in if s < 1 then 1 else s)"
    and p: "p = uint_of_float (f32 (f32_of_uint (c - w) * f32 (4 / 5)))"
  shows "1 \<le> sint w" "0 \<le> sint p" "sint w + sint p < 2 ^ 63" "unat w \<le> unat c"
proof -
  have r: "0 \<le> f32 (1 / 100)" "f32 (1 / 100) \<le> of_nat 2 / 100" "0 \<le> f32 (4 / 5)" "f32 (4 / 5) \<le> of_nat 81 / 100" by code_simp+
  define s where "s = uint_of_float (f32 (f32_of_uint c * f32 (1 / 100)))"
  have s: "100 * unat s \<le> 5 * unat c + 1" unfolding s_def using share_nat [OF refl c(2) r(1,2)] by simp
  have w1: "1 \<le> unat w" "100 * unat w \<le> 5 * unat c + 95" using c(1) s unfolding w s_def [symmetric] Let_def
    by (auto simp: word_less_nat_alt)
  then show wc: "unat w \<le> unat c" using c(1) by linarith
  have "unat (c - w) = unat c - unat w" using wc by (simp add: unat_sub word_le_nat_alt)
  then have "100 * unat p \<le> 84 * (unat c - unat w) + 1" unfolding p using share_nat [OF _ _ r(3,4), of "c - w" "unat c - unat w"] c by simp
  then have sum: "unat w + unat p < 2 ^ 63" "unat p < 2 ^ 63" "unat w < 2 ^ 63" using c w1 wc by linarith+
  then have i: "sint w = int (unat w)" "sint p = int (unat p)" by (simp_all add: sint_eq_unat64)
  show "1 \<le> sint w" "0 \<le> sint p" unfolding i using w1(1) by linarith+
  have "int (unat w + unat p) < int (2 ^ 63)" using sum(1) by (simp only: of_nat_less_iff)
  then show "sint w + sint p < 2 ^ 63" by (simp add: i)
qed

subsection \<open>The new store\<close>

lemma new_tlfu:
  assumes c: "0 < unat c" "unat c < 2 ^ 63"
  shows "\<exists>t. NewTinyLfu c hsh par 0 1 2 (\<lambda>_. zero_entry) =
      Some ((\<lambda>_. zero_entry)(1 := root_entry LIST_PROBATION 1, 2 := root_entry LIST_PROTECTED 2, 0 := root_entry LIST_WINDOW 0), t) \<and>
    (\<exists>cw cp. plist t = new_lists cw cp) \<and> climber_ok t \<and> sketch_wf (sketch t) \<and> weightedSize t = 0 \<and> capacity t = c \<and>
    hits t = NewUnsignedCounter par \<and> misses t = NewUnsignedCounter par"
proof -
  obtain sk where sk: "NewCountMinSketch = Some sk" "sketch_wf sk" using NewCountMinSketch_wf by blast
  define w where "w = (let s = uint_of_float (f32 (f32_of_uint c * f32 (1 / 100))) in if s < 1 then 1 else s)"
  define p where "p = uint_of_float (f32 (f32_of_uint (c - w) * f32 (4 / 5)))"
  note k = new_caps [OF c w_def p_def]
  define t where "t = \<lparr>window = empty_list w LIST_WINDOW 0, slru = \<lparr>probation = empty_list 0 LIST_PROBATION 1, protected = empty_list p LIST_PROTECTED 2, s_maxsize = c - w\<rparr>,
    sketch = sk, hasher = hsh, capacity = c, weightedSize = 0, misses = NewUnsignedCounter par, hits = NewUnsignedCounter par,
    hitsInSample = 0, missesInSample = 0, hr = 0, step = f32 (- f32_of_uint c * (1 / 16)), amount = 0\<rparr>"
  have "NewTinyLfu c hsh par 0 1 2 (\<lambda>_. zero_entry) =
      Some ((\<lambda>_. zero_entry)(1 := root_entry LIST_PROBATION 1, 2 := root_entry LIST_PROTECTED 2, 0 := root_entry LIST_WINDOW 0), t)"
    unfolding NewTinyLfu_def NewSlru_def NewList_eq Let_def sk(1) by (simp add: t_def w_def p_def Let_def)
  moreover have "plist t = new_lists w p" by (simp add: fun_eq_iff pqueue_all t_def new_lists_def)
  moreover have "\<bar>step t\<bar> \<le> 2 ^ 60" using new_step [OF c] by (simp add: t_def)
  then have "climber_ok t" using k c by (simp add: climber_ok_def caps_ok_def t_def empty_list_def)
  moreover have "sketch_wf (sketch t)" "weightedSize t = 0" "capacity t = c" "hits t = NewUnsignedCounter par" "misses t = NewUnsignedCounter par"
    using sk(2) by (simp_all add: t_def)
  ultimately show ?thesis by blast
qed

lemma new_wheel_spec:
  assumes "h = (\<lambda>_. zero_entry)(1 := root_entry LIST_PROBATION 1, 2 := root_entry LIST_PROTECTED 2, 0 := root_entry LIST_WINDOW 0)"
  shows "NewTimerWheel sentinel start t h = (new_heap, \<lparr>tw_clock = \<lparr>Start = start, c_now = 0\<rparr>, buckets = wheel_buckets, spans = wheel_spans,
    shift = wheel_shift, wheel = new_wheels, nanos = NowNano t \<lparr>Start = start, c_now = 0\<rparr>\<rparr>)"
proof -
  have l: "length wheel_buckets = 5" "\<And>j. j < 5 \<Longrightarrow> unat (wheel_buckets ! j) = nb j"
    by (simp add: wheel_buckets_def) (auto simp: wheel_buckets_def nb_def less_5)
  have e: "(\<exists>j<5. a \<in> sentinel (0 + j) ` {0..<unat (wheel_buckets ! j)}) \<longleftrightarrow> a \<in> wheel_sentinels" for a
    using l(2) unfolding wheel_sentinels_def by (simp add: Bex_def cong: conj_cong)
  have "map (\<lambda>j. map (\<lambda>y. empty_list 0 WHEEL_LIST (sentinel (0 + j) y)) [0..<unat (wheel_buckets ! j)]) [0..<5] = new_wheels"
    unfolding new_wheels_def by (rule map_cong) (simp_all add: l)
  moreover have "(\<lambda>a. if a \<in> wheel_sentinels then root_entry WHEEL_LIST a else h a) = new_heap"
    unfolding assms by (simp add: fun_eq_iff new_heap_def)
  ultimately have "new_wheel sentinel 0 wheel_buckets h = (new_heap, new_wheels)" unfolding new_wheel_eq l(1) e by simp
  then show ?thesis by (simp add: NewTimerWheel_def Let_def)
qed

text \<open>At least one processor, and fewer than a billion.\<close>

definition runtime_ok :: "'k runtime \<Rightarrow> bool" where
  "runtime_ok rt \<longleftrightarrow> 0 < GOMAXPROCS rt \<and> GOMAXPROCS rt \<le> 2 ^ 29 \<and> 0 < NumCPU rt \<and> NumCPU rt \<le> 2 ^ 29"

lemma Parallelism_range:
  assumes "runtime_ok rt" shows "Parallelism rt \<noteq> 0" "unat (Parallelism rt) \<le> 2 ^ 29"
proof -
  have "unat (of_nat n :: u32) = n" if "n \<le> 2 ^ 29" for n using that by (simp add: unsigned_of_nat take_bit_eq_mod)
  then have "unat (Parallelism rt) \<in> {GOMAXPROCS rt, NumCPU rt}" using assms by (auto simp: Parallelism_def Let_def runtime_ok_def)
  then show "unat (Parallelism rt) \<le> 2 ^ 29" "Parallelism rt \<noteq> 0" using assms by (auto simp: runtime_ok_def)
qed

lemma NewStore_spec:
  fixes opt :: "'v::zero StoreOptions" and rt :: "'k::zero runtime"
  assumes c: "0 < sint (MaxSize opt)" and rt: "runtime_ok rt"
  shows "\<exists>st. NewStore rt opt = Some st \<and> store_inv st (\<lambda>_. []) \<and> supply_ok st \<and> doors_ok st \<and> roomy st \<and> reads_ok st \<and>
    lookup st = Map.empty \<and> writeChan st = [] \<and> \<not> st_closed st \<and> capacity (policy st) = MaxSize opt \<and> st_cap st = MaxSize opt \<and>
    (\<forall>k. \<not> closed_at st k) \<and> doorkeeper st = Doorkeeper opt \<and> (EntryPool opt \<or> entryPool st = None) \<and>
    length (shards st) = shard_count (GOMAXPROCS rt) \<and> s_hasher st = rt_hasher rt \<and> next_addr st = first_addr"
proof -
  have c': "0 < unat (MaxSize opt)" "unat (MaxSize opt) < 2 ^ 63"
  proof -
    show "unat (MaxSize opt) < 2 ^ 63" using c sint_nonneg64 [of "MaxSize opt"] by simp
    show "0 < unat (MaxSize opt)" using c by (metis less_irrefl neq0_conv sint_0 unat_eq_zero)
  qed
  obtain t cw cp where t: "NewTinyLfu (MaxSize opt) (rt_hasher rt) (Parallelism rt) 0 1 2 (\<lambda>_. zero_entry :: ('k, 'v) Entry) =
      Some ((\<lambda>_. zero_entry)(1 := root_entry LIST_PROBATION 1, 2 := root_entry LIST_PROTECTED 2, 0 := root_entry LIST_WINDOW 0), t)"
    "plist t = new_lists cw cp" "climber_ok t" "sketch_wf (sketch t)" "weightedSize t = 0" "capacity t = MaxSize opt"
    "hits t = NewUnsignedCounter (Parallelism rt)" "misses t = NewUnsignedCounter (Parallelism rt)"
    using new_tlfu [OF c'] by blast
  obtain ss :: "'k Shard list" where ss: "new_shards (rt_log rt) (Doorkeeper opt) (shard_count (GOMAXPROCS rt)) = Some ss"
    "length ss = shard_count (GOMAXPROCS rt)"
    "\<forall>s\<in>set ss. hashmap s = [] \<and> \<not> s_closed s \<and> (Doorkeeper opt \<longrightarrow> dookeeper s \<noteq> None) \<and> (\<forall>d. dookeeper s = Some d \<longrightarrow> bloom_wf d)"
    using new_shards_spec [of "rt_log rt" "Doorkeeper opt" "shard_count (GOMAXPROCS rt)"] by blast
  define tw where "tw = \<lparr>tw_clock = RefreshNowCache (rt_clock rt 1) \<lparr>Start = rt_start rt, c_now = 0\<rparr>, buckets = wheel_buckets, spans = wheel_spans,
    shift = wheel_shift, wheel = new_wheels, nanos = NowNano (rt_clock rt 0) \<lparr>Start = rt_start rt, c_now = 0\<rparr>\<rparr>"
  obtain st where run: "NewStore rt opt = Some st" and st: "heap st = new_heap" "policy st = t" "timerwheel st = tw" "shards st = ss"
    "shardCount st = of_nat (shard_count (GOMAXPROCS rt))" "s_hasher st = rt_hasher rt" "doorkeeper st = Doorkeeper opt"
    "entryPool st = (if EntryPool opt then Some [] else None)" "next_addr st = first_addr" "writeChan st = []" "\<not> st_closed st"
    "st_cap st = MaxSize opt" "stripedBuffer st = replicate (StripedBufferSize rt) NewBuffer" "mask st = of_nat (StripedBufferSize rt - 1)"
    unfolding NewStore_def t(1) ss(1) Let_def by (simp add: new_wheel_spec [OF refl, unfolded One_nat_def] tw_def)
  obtain m where m: "m \<in> {4..7}" "shard_count (GOMAXPROCS rt) = 2 ^ m" using shard_count_pow2 by blast
  have sc: "unat (shardCount st) = 2 ^ m" unfolding st m(2) using m(1) by (simp add: unat_exp2)
  have "shard_inv st i" if "i < length (shards st)" for i using ss(3) nth_mem [OF that] by (simp add: shard_inv_def st)
  then have M: "map_inv st" using sc m ss(2) unfolding map_inv_def by (auto simp: st intro!: exI [of _ m])
  have "policy_ok st (\<lambda>_. [])"
    using new_reps [of cw cp] t by (simp add: policy_ok_def policy_inv_def st total_def nonneg_def all_entries_def)
  moreover have "wreps (heap st) (timerwheel st) (\<lambda>_. [])" unfolding st by (rule new_wreps) (simp_all add: tw_def)
  ultimately have I: "store_inv st (\<lambda>_. [])" using M by (auto simp: store_inv_def tsize_def)
  have at: "entry_at st k = None" "\<not> closed_at st k" for k
    using ss(3) nth_mem [OF index_lt [OF M, of k]] by (simp_all add: entry_at_def shard_get_def closed_at_def st)
  then have "lookup st = Map.empty" by (simp add: fun_eq_iff lookup_def)
  moreover have "fresh st a" if "first_addr \<le> a" for a
    using that wheel_sentinels_range [of a] ss(3) by (auto simp: fresh_def unmapped_def st new_heap_def first_addr_def zero_entry_fresh)
  then have "supply_ok st" by (auto simp: supply_ok_def st)
  moreover have "doors_ok st" "roomy st" using ss(3) by (auto simp: doors_ok_def roomy_def st)
  moreover have "reads_ok st"
  proof -
    note P = Parallelism_range [OF rt]
    have P31: "unat (Parallelism rt) \<le> 2 ^ (LENGTH(32) - 1)" using P(2) by (rule order_trans) simp
    obtain j where j: "RoundedParallelism rt = 2 ^ j" using roundup.power [OF P(1) P31] by (auto simp: RoundedParallelism_def)
    have "RoundedParallelism rt \<le> 2 ^ 29" unfolding RoundedParallelism_def by (rule roundup.least [OF P(1) P31 P(2)])
    then have b: "StripedBufferSize rt = 2 ^ (j + 2)" "StripedBufferSize rt \<le> 2 ^ 31" by (simp_all add: StripedBufferSize_def j)
    have "unat (mask st + 1) = StripedBufferSize rt"
    proof -
      have "mask st + 1 = of_nat (StripedBufferSize rt)" using b(1) by (simp add: st of_nat_diff)
      then show ?thesis using b(2) by (simp add: unsigned_of_nat take_bit_eq_mod)
    qed
    then have "\<exists>m. length (stripedBuffer st) = 2 ^ m \<and> unat (mask st + 1) = 2 ^ m" using b(1) unfolding st by (intro exI [of _ "j + 2"]) simp
    moreover have "\<forall>b\<in>set (stripedBuffer st). \<exists>xs. buf_rep b xs \<and> reads_valid (heap st) xs"
      using NewBuffer_rep by (auto simp: st reads_valid_def intro!: exI [of _ "[]"])
    moreover have "unat (Parallelism rt) \<le> 2 ^ 31" using P(2) by simp
    ultimately show ?thesis using New_counter_wf [OF P(1)] t(7,8) by (simp add: reads_ok_def st)
  qed
  ultimately show ?thesis using run I st t(6) ss(2) at by (intro exI [of _ st]) simp
qed

end
