(* ===== verification/Store_Runs.thy ===== *)
theory Store_Runs
  imports Store_New
begin

text \<open>
  The store as a state machine. A step is a client operation (with the event it sends), the
  handling of the oldest event by the maintenance goroutine, or a clock tick; any
  interleaving of them is a run. Next to the store runs the abstract map \<open>A\<close> of what the
  clients have written. The invariant of a run ties the events still in the channel to the
  weights of their entries, so that every event finds its entry as its handler expects it.
  The runs are those of a store without an entry pool; a client operation and its send are
  one step.
\<close>

subsection \<open>The steps\<close>

text \<open>Room in the filters for one more key, and a cost that is not negative.\<close>

definition may_set :: "('v \<Rightarrow> i64) \<Rightarrow> 'v \<Rightarrow> i64 \<Rightarrow> ('k, 'v, 'z) store_scheme \<Rightarrow> bool" where
  "may_set costf v cost st \<longleftrightarrow> roomy st \<and> 0 \<le> sint (set_cost costf v cost)"

text \<open>The sketch can still grow: fewer than \<open>2 ^ 45\<close> entries are linked into the policy.\<close>

definition resident :: "('k, 'v, 'z) store_scheme \<Rightarrow> addr list" where
  "resident st = filter (\<lambda>a. \<not> IsRoot (flags (heap st) a) \<and> m_prev (meta (heap st a)) \<noteq> None) [0..<next_addr st]"

definition may_handle :: "('k, 'v, 'z) store_scheme \<Rightarrow> bool" where
  "may_handle st \<longleftrightarrow> length (resident st) < 2 ^ 45"

text \<open>The clock does not run backwards between two ticks.\<close>

definition may_tick :: "('k, 'v, 'z) store_scheme \<Rightarrow> bool" where
  "may_tick st \<longleftrightarrow> 0 \<le> sint (nanos (timerwheel st)) \<and> sint (nanos (timerwheel st)) \<le> sint (NowNano (clk st (clk_pos st + 1)) (tw_clock (timerwheel st))) \<and>
     NowNano (clk st (clk_pos st + 1)) (tw_clock (timerwheel st)) \<noteq> 0"

inductive store_step :: "('v \<Rightarrow> i64) \<Rightarrow> ('k \<rightharpoonup> 'v) \<times> ('k::zero, 'v::zero, 'z) store_scheme \<Rightarrow> ('k \<rightharpoonup> 'v) \<times> ('k, 'v, 'z) store_scheme \<Rightarrow> bool"
  for costf where
  step_set: "may_set costf v cost st \<Longrightarrow> store_Set costf k v cost ttl st = Some (ok, st') \<Longrightarrow>
    store_step costf (A, st) (if ok then A(k \<mapsto> v) else A, st')"
| step_get: "store_Get k st = Some (r, st') \<Longrightarrow> store_step costf (A, st) (A, st')"
| step_delete: "store_Delete k st = Some st' \<Longrightarrow> store_step costf (A, st) (A(k := None), st')"
| step_close: "store_step costf (A, st) (Map.empty, store_Close st)"
| step_handle: "may_handle st \<Longrightarrow> writeChan st = item # rest \<Longrightarrow> sinkWrite item (st\<lparr>writeChan := rest\<rparr>) = Some st' \<Longrightarrow>
    store_step costf (A, st) (A, st')"
| step_tick: "may_tick st \<Longrightarrow> maintenance_tick st = Some st' \<Longrightarrow> store_step costf (A, st) (A, st')"

subsection \<open>The events of an entry\<close>

definition pend :: "WriteBufItem list \<Rightarrow> addr \<Rightarrow> i64 list" where
  "pend is e = map wb_costChange (filter (\<lambda>i. wb_entry i = Some e) is)"

definition new_in :: "WriteBufItem list \<Rightarrow> addr \<Rightarrow> bool" where
  "new_in is e \<longleftrightarrow> (\<exists>i\<in>set is. wb_entry i = Some e \<and> wb_code i = NEW)"

text \<open>The weight stays non-negative while the pending changes are applied one by one.\<close>

fun prefix_ok :: "i64 \<Rightarrow> i64 list \<Rightarrow> bool" where
  "prefix_ok w [] = True"
| "prefix_ok w (d # ds) = (0 \<le> sint (w + d) \<and> prefix_ok (w + d) ds)"

text \<open>A \<open>NEW\<close> event is the first of its entry.\<close>

fun news_first :: "WriteBufItem list \<Rightarrow> bool" where
  "news_first [] = True"
| "news_first (i # is) = ((\<forall>j\<in>set is. wb_code j = NEW \<longrightarrow> wb_entry j \<noteq> wb_entry i) \<and> news_first is)"

lemma pend_simps [simp]:
  "pend [] e = []" "pend (i # is) e = (if wb_entry i = Some e then wb_costChange i # pend is e else pend is e)"
  "pend (is @ js) e = pend is e @ pend js e"
  by (simp_all add: pend_def)

lemma new_in_simps [simp]:
  "\<not> new_in [] e" "new_in (i # is) e \<longleftrightarrow> wb_entry i = Some e \<and> wb_code i = NEW \<or> new_in is e"
  "new_in (is @ js) e \<longleftrightarrow> new_in is e \<or> new_in js e"
  by (auto simp: new_in_def)

lemma prefix_ok_append: "prefix_ok w (ds @ [d]) \<longleftrightarrow> prefix_ok w ds \<and> 0 \<le> sint (w + sum_list ds + d)"
  by (induction ds arbitrary: w) (simp_all add: algebra_simps)

lemma news_first_append: "news_first (is @ [j]) \<longleftrightarrow> news_first is \<and> (wb_code j = NEW \<longrightarrow> (\<forall>i\<in>set is. wb_entry i \<noteq> wb_entry j))"
  by (induction "is") auto

lemma news_first_tl: "news_first (i # is) \<Longrightarrow> wb_entry i = Some e \<Longrightarrow> \<not> new_in is e"
  by (auto simp: new_in_def)

text \<open>An entry whose events are applied: not deleted, and not removed since it was new.\<close>

definition live :: "('k, 'v, 'z) store_scheme \<Rightarrow> WriteBufItem list \<Rightarrow> addr \<Rightarrow> bool" where
  "live st is e \<longleftrightarrow> \<not> IsDeleted (flags (heap st) e) \<and> (IsRemoved (flags (heap st) e) \<longrightarrow> new_in is e)"

definition item_ok :: "('k, 'v, 'z) store_scheme \<Rightarrow> WriteBufItem \<Rightarrow> bool" where
  "item_ok st i \<longleftrightarrow> wb_code i \<in> {NEW, UPDATE, REMOVE} \<and> (wb_code i = REMOVE \<longrightarrow> wb_costChange i = 0) \<and>
     (\<exists>e. wb_entry i = Some e \<and> e < next_addr st \<and> \<not> IsRoot (flags (heap st) e) \<and> (wb_code i = NEW \<longrightarrow> m_prev (meta (heap st e)) = None))"

definition chan_ok :: "('k, 'v, 'z) store_scheme \<Rightarrow> WriteBufItem list \<Rightarrow> bool" where
  "chan_ok st is \<longleftrightarrow> news_first is \<and> (\<forall>i\<in>set is. item_ok st i) \<and>
     (\<forall>e. live st is e \<longrightarrow> prefix_ok (policyWeight (heap st e)) (pend is e)) \<and>
     (\<forall>k e. entry_at st k = Some e \<longrightarrow> 0 \<le> sint (weight (heap st e)) \<and>
        (live st is e \<longrightarrow> policyWeight (heap st e) + sum_list (pend is e) = weight (heap st e)))"

text \<open>Everything but the channel, with the entries of the policy.\<close>

definition core_inv :: "u64 \<Rightarrow> ('k, 'v, 'z) store_scheme \<Rightarrow> (pqueue \<Rightarrow> addr list) \<Rightarrow> bool" where
  "core_inv cap st X \<longleftrightarrow> store_inv st X \<and> supply_ok st \<and> doors_ok st \<and> reads_ok st \<and> entryPool st = None \<and> capacity (policy st) = cap"

definition run_inv :: "u64 \<Rightarrow> ('k \<rightharpoonup> 'v) \<Rightarrow> ('k, 'v, 'z) store_scheme \<Rightarrow> bool" where
  "run_inv cap A st \<longleftrightarrow> (\<exists>X. core_inv cap st X) \<and> chan_ok st (writeChan st) \<and> lookup st \<subseteq>\<^sub>m A"

lemma chan_okD:
  assumes "chan_ok st is"
  shows "news_first is" "i \<in> set is \<Longrightarrow> item_ok st i" "live st is e \<Longrightarrow> prefix_ok (policyWeight (heap st e)) (pend is e)"
    "entry_at st k = Some e \<Longrightarrow> 0 \<le> sint (weight (heap st e))"
    "entry_at st k = Some e \<Longrightarrow> live st is e \<Longrightarrow> policyWeight (heap st e) + sum_list (pend is e) = weight (heap st e)"
  using assms by (auto simp: chan_ok_def)

lemma chan_ok_below:
  assumes "chan_ok st is" "next_addr st \<le> e" shows "pend is e = []" "i \<in> set is \<Longrightarrow> wb_entry i \<noteq> Some e"
proof -
  show ne: "wb_entry i \<noteq> Some e" if "i \<in> set is" for i using chan_okD(2) [OF assms(1) that] assms(2) by (auto simp: item_ok_def)
  show "pend is e = []" unfolding pend_def by (auto simp: filter_empty_conv ne)
qed

text \<open>A step that sends nothing and leaves the weights alone; flags may be set, bindings may go.\<close>

lemma chan_ok_calm:
  assumes c: "chan_ok st is" and at: "entry_at st' \<subseteq>\<^sub>m entry_at st" and n: "next_addr st' = next_addr st"
    and w: "\<And>a. policyWeight (heap st' a) = policyWeight (heap st a)" "\<And>a. weight (heap st' a) = weight (heap st a)"
    and f: "\<And>a. IsRoot (flags (heap st') a) = IsRoot (flags (heap st) a)" "\<And>a. IsRemoved (flags (heap st) a) \<Longrightarrow> IsRemoved (flags (heap st') a)"
      "\<And>a. IsDeleted (flags (heap st) a) \<Longrightarrow> IsDeleted (flags (heap st') a)"
    and p: "\<And>a. \<not> IsRoot (flags (heap st) a) \<Longrightarrow> m_prev (meta (heap st a)) = None \<Longrightarrow> m_prev (meta (heap st' a)) = None"
  shows "chan_ok st' is"
proof -
  have l: "live st is a" if "live st' is a" for a using that f(2,3) by (auto simp: live_def)
  have a: "entry_at st k = Some e" if "entry_at st' k = Some e" for k e using that at by (auto simp: map_le_def dom_def)
  have "item_ok st' i" if "i \<in> set is" for i using chan_okD(2) [OF c that] p by (auto simp: item_ok_def n f(1))
  then show ?thesis using chan_okD(1,3-5) [OF c] l a unfolding chan_ok_def w by blast
qed

subsection \<open>The maintenance side\<close>

text \<open>What a step of the maintenance goroutine leaves intact on the client side.\<close>

lemma evolves_entry_at:
  assumes ev: "evolves st st'" and M: "map_inv st" and k: "entry_at st' k = Some e"
  shows "entry_at st k = Some e" "evalue (heap st' e) = evalue (heap st e)"
proof -
  have c: "client_fields st' = client_fields st" using ev by (simp add: evolves_def)
  then have ix: "index k st' = index k st" "length (shards st') = length (shards st)" by (simp_all add: client_fields_def index_def)
  have i: "snd (index k st) < length (shards st)" by (rule index_lt [OF M])
  then have s: "shard_evolves (shards st ! snd (index k st)) (shards st' ! snd (index k st))" using ev by (simp add: evolves_def)
  then show "entry_at st k = Some e" using k by (auto simp: entry_at_def ix shard_get_def shard_evolves_def split: if_splits)
  have "(k, e) \<in> set (hashmap (shards st' ! snd (index k st)))"
    using k by (auto simp: entry_at_def ix shard_get_def split: if_splits dest: map_of_SomeD)
  then have "\<not> unmapped st' e" using nth_mem [of "snd (index k st)" "shards st'"] i ix(2) by (force simp: unmapped_def)
  then show "evalue (heap st' e) = evalue (heap st e)" using ev by (simp add: evolves_def)
qed

lemma map_le_Some: "(\<And>k v. m k = Some v \<Longrightarrow> m' k = Some v) \<Longrightarrow> m \<subseteq>\<^sub>m m'"
  by (auto simp: map_le_def)

lemma evolves_lookup:
  assumes "evolves st st'" "map_inv st" shows "lookup st' \<subseteq>\<^sub>m lookup st" "entry_at st' \<subseteq>\<^sub>m entry_at st"
  using evolves_entry_at [OF assms] by (auto intro!: map_le_Some simp: lookup_def)

text \<open>\<open>E\<close> are the entries whose events are handled.\<close>

lemma core_handled:
  assumes K: "core_inv cap st X" and H: "handled E st st'" and I: "store_inv st' X'" and E: "\<And>a. a \<in> E \<Longrightarrow> a < next_addr st"
    and p: "\<And>a. a \<notin> E \<Longrightarrow> \<not> IsRoot (flags (heap st) a) \<Longrightarrow> m_prev (meta (heap st a)) = None \<Longrightarrow> m_prev (meta (heap st' a)) = None"
  shows "core_inv cap st' X'"
proof -
  have ev: "evolves st st'" and pool: "entryPool st = None" using H K by (simp_all add: handled_def core_inv_def)
  then have c: "client_fields st' = client_fields st" and pool': "entryPool st' = None" by (simp_all add: evolves_def)
  have "fresh st' a" if "next_addr st \<le> a" for a
  proof -
    have f: "fresh st a" "a \<notin> E" using K that E [of a] by (auto simp: core_inv_def supply_ok_def)
    then have "prv WHEEL_LIST (heap st) a = None" by (simp add: fresh_def unlinked_def prv_def e_prev_def)
    then have "prv WHEEL_LIST (heap st') a = None" using H f(2) unfolding handled_def enters_def by blast
    then have "m_wheelPrev (meta (heap st' a)) = None" by (simp add: prv_def e_prev_def)
    moreover have "\<not> IsRoot (flag (heap st' a))" using evolves_root [OF ev, of a] f by (simp add: fresh_def unlinked_def flags_def)
    moreover have "m_prev (meta (heap st' a)) = None" by (rule p) (use f in \<open>simp_all add: fresh_def unlinked_def flags_def\<close>)
    moreover have "unmapped st' a" by (rule evolves_unmapped [OF ev]) (use f in \<open>simp add: fresh_def\<close>)
    ultimately show ?thesis by (simp add: fresh_def unlinked_def)
  qed
  then have "supply_ok st'" using c pool' by (simp add: supply_ok_def client_fields_def)
  moreover have "doors_ok st'"
  proof -
    have l: "length (shards st') = length (shards st)" "doorkeeper st' = doorkeeper st" using c by (simp_all add: client_fields_def)
    have "dookeeper (shards st' ! i) = dookeeper (shards st ! i)" if "i < length (shards st)" for i
      using ev that by (simp add: evolves_def shard_evolves_def)
    then show ?thesis using K l by (auto simp: core_inv_def doors_ok_def all_set_conv_all_nth)
  qed
  moreover have "reads_ok st'"
  proof -
    have "reads_valid (heap st') xs = reads_valid (heap st) xs" for xs by (simp add: reads_valid_def evolves_root [OF ev])
    then show ?thesis using K H c by (simp add: core_inv_def reads_ok_def client_fields_def handled_def kept_params_def)
  qed
  moreover have "capacity (policy st') = cap" using K H by (simp add: core_inv_def handled_def kept_params_def)
  ultimately show ?thesis using I pool' by (simp add: core_inv_def)
qed


lemma evolves_flags:
  assumes "evolves st st'" "entryPool st = None"
  shows "IsRemoved (flags (heap st) a) \<Longrightarrow> IsRemoved (flags (heap st') a)" "IsDeleted (flags (heap st) a) \<Longrightarrow> IsDeleted (flags (heap st') a)"
    "weight (heap st' a) = weight (heap st a)" "next_addr st' = next_addr st" "writeChan st' = writeChan st" "entryPool st' = None"
  using assms by (simp_all add: evolves_def entry_evolves_def flags_def client_fields_def)

lemma chan_event:
  assumes c: "chan_ok st (item # rest)"
  shows "event_ok st item" "\<exists>e. wb_entry item = Some e \<and> e < next_addr st \<and> \<not> IsRoot (flags (heap st) e)"
proof -
  have i: "item_ok st item" using chan_okD(2) [OF c, of item] by simp
  then show "\<exists>e. wb_entry item = Some e \<and> e < next_addr st \<and> \<not> IsRoot (flags (heap st) e)" by (auto simp: item_ok_def)
  show "event_ok st item" unfolding event_ok_def
  proof (intro allI impI)
    fix e assume e: "wb_entry item = Some e"
    have w: "0 \<le> sint (policyWeight (heap st e) + wb_costChange item)" if "live st (item # rest) e" using chan_okD(3) [OF c that] e by simp
    show "\<not> IsRoot (flags (heap st) e) \<and> (\<not> IsDeleted (flags (heap st) e) \<longrightarrow>
       (wb_code item = NEW \<longrightarrow> m_prev (meta (heap st e)) = None \<and> 0 \<le> sint (policyWeight (heap st e) + wb_costChange item)) \<and>
       (wb_code item = UPDATE \<longrightarrow> \<not> IsRemoved (flags (heap st) e) \<longrightarrow> 0 \<le> sint (policyWeight (heap st e) + wb_costChange item)))"
      using i e w by (auto simp: item_ok_def live_def)
  qed
qed

text \<open>The weights left in the channel after an event has been handled.\<close>

lemma chan_ok_handled:
  assumes c: "chan_ok st (item # rest)" and e: "wb_entry item = Some e" and pool: "entryPool st = None" and M: "map_inv st"
    and H: "handled {e} (renewed item e st) st'"
    and w: "IsRemoved (flags (heap st') e) \<or> IsDeleted (flags (heap st') e) \<or> policyWeight (heap st' e) = policyWeight (heap st e) + wb_costChange item"
    and p: "\<And>a. a \<noteq> e \<Longrightarrow> \<not> IsRoot (flags (heap st) a) \<Longrightarrow> m_prev (meta (heap st a)) = None \<Longrightarrow> m_prev (meta (heap st' a)) = None"
  shows "chan_ok st' rest"
proof -
  let ?st = "renewed item e st"
  have ev: "evolves ?st st'" using H by (simp add: handled_def)
  have r: "entryPool ?st = None" "map_inv ?st" "entry_at ?st = entry_at st" "\<And>a. IsDeleted (flags (heap ?st) a) = IsDeleted (flags (heap st) a)"
    "\<And>a. a \<noteq> e \<or> wb_code item \<noteq> NEW \<Longrightarrow> IsRemoved (flags (heap ?st) a) = IsRemoved (flags (heap st) a)"
    "\<And>a. policyWeight (heap ?st a) = policyWeight (heap st a)" "\<And>a. weight (heap ?st a) = weight (heap st a)" "next_addr ?st = next_addr st"
    "\<And>a. IsRoot (flags (heap ?st) a) = IsRoot (flags (heap st) a)"
    using pool map_inv_cong [OF M, of ?st] by (auto simp: renewed_def flags_def modify_def entry_at_def index_def fun_eq_iff)
  note f = evolves_flags [OF ev r(1)]
  have first: "\<not> new_in rest e" by (rule news_first_tl [OF chan_okD(1) [OF c] e])
  have pw: "policyWeight (heap st' a) = policyWeight (heap st a)" if "a \<noteq> e" for a using H that r(6) by (simp add: handled_def)
  have l: "live st (item # rest) a" if "live st' rest a" for a
    using that f(1,2) [of a] r(4,5) [of a] first e unfolding live_def new_in_simps by (cases "a = e"; cases "wb_code item = NEW") auto
  have we: "policyWeight (heap st' e) = policyWeight (heap st e) + wb_costChange item" if "live st' rest e"
    using that first w by (auto simp: live_def)
  have "item_ok st' i" if "i \<in> set rest" for i
  proof -
    have "wb_code i = NEW \<longrightarrow> wb_entry i \<noteq> wb_entry item" using chan_okD(1) [OF c] that by auto
    then show ?thesis using chan_okD(2) [OF c, of i] that p e f(4) r(8,9) by (auto simp: item_ok_def evolves_root [OF ev])
  qed
  moreover have "prefix_ok (policyWeight (heap st' a)) (pend rest a)" if "live st' rest a" for a
    using chan_okD(3) [OF c l [OF that]] that e we pw by (cases "a = e") auto
  moreover have "0 \<le> sint (weight (heap st' a)) \<and> (live st' rest a \<longrightarrow> policyWeight (heap st' a) + sum_list (pend rest a) = weight (heap st' a))"
    if "entry_at st' k = Some a" for k a
  proof -
    have k: "entry_at st k = Some a" using evolves_entry_at(1) [OF ev r(2) that] r(3) by simp
    have "policyWeight (heap st' a) + sum_list (pend rest a) = weight (heap st' a)" if "live st' rest a"
      using chan_okD(5) [OF c k l [OF that]] e we that pw by (cases "a = e") (auto simp: f(3) r(7) add.assoc)
    then show ?thesis using chan_okD(4) [OF c k] by (simp add: f(3) r(7))
  qed
  ultimately show ?thesis using chan_okD(1) [OF c] by (simp add: chan_ok_def)
qed

lemma resident_entries:
  assumes "core_inv cap st X" shows "set (resident st) = all_entries X" "length (resident st) = entry_count X"
proof -
  have I: "store_inv st X" and s: "supply_ok st" using assms by (simp_all add: core_inv_def)
  note X = policy_ok_parts(1) [OF store_inv_parts(1) [OF I]]
  have below: "a < next_addr st" if "a \<in> all_entries X" for a
  proof (rule ccontr)
    assume "\<not> a < next_addr st"
    then have "m_prev (meta (heap st a)) = None" using s by (simp add: supply_ok_def fresh_def unlinked_def)
    then show False using store_inv_member [OF I] reps_not_root [OF X that] that by blast
  qed
  show "set (resident st) = all_entries X"
    using store_inv_member [OF I] reps_not_root [OF X] below by (auto simp: resident_def)
  then show "length (resident st) = entry_count X" using reps_lists(3) [OF X] distinct_card [of "resident st"] by (simp add: resident_def)
qed

lemma handle_inv:
  fixes st :: "('k, 'v::zero, 'z) store_scheme"
  assumes K: "core_inv cap st X" and c: "chan_ok st (item # rest)" and m: "may_handle st"
  shows "\<exists>st' X'. sinkWrite item st = Some st' \<and> core_inv cap st' X' \<and> chan_ok st' rest \<and> lookup st' \<subseteq>\<^sub>m lookup st \<and>
    writeChan st' = writeChan st \<and> length (resident st') \<le> Suc (length (resident st))"
proof -
  have I: "store_inv st X" and pool: "entryPool st = None" using K by (simp_all add: core_inv_def)
  obtain e where e: "wb_entry item = Some e" "e < next_addr st" "\<not> IsRoot (flags (heap st) e)" using chan_event(2) [OF c] by blast
  have n: "entry_count X < 2 ^ 45" using resident_entries(2) [OF K] m by (simp add: may_handle_def)
  obtain st' X' where S: "sinkWrite item st = Some st'" "store_inv st' X'" "handled {e} (renewed item e st) st'"
    "\<forall>a\<in>all_entries X' - all_entries X. wb_code item = NEW \<and> a = e"
    "\<forall>a\<in>all_entries X - all_entries X'. gone_from_store st' a \<or> a = e"
    "entryPool st = None \<longrightarrow> wb_costChange item = 0 \<or> wb_code item = NEW \<or> wb_code item = UPDATE \<longrightarrow>
      IsRemoved (flags (heap st') e) \<or> IsDeleted (flags (heap st') e) \<or> policyWeight (heap st' e) = policyWeight (heap st e) + wb_costChange item"
    using sinkWrite_inv [OF I chan_event(1) [OF c] n e(1)] by (elim exE conjE) (rule that)
  have W: "IsRemoved (flags (heap st') e) \<or> IsDeleted (flags (heap st') e) \<or> policyWeight (heap st' e) = policyWeight (heap st e) + wb_costChange item"
    using S(6) pool chan_okD(2) [OF c, of item] by (auto simp: item_ok_def)
  let ?st = "renewed item e st"
  have ev: "evolves ?st st'" using S(3) by (simp add: handled_def)
  have r: "core_inv cap ?st X" "lookup ?st = lookup st" "next_addr ?st = next_addr st" "writeChan ?st = writeChan st"
    "\<And>a. IsRoot (flags (heap ?st) a) = IsRoot (flags (heap st) a)" "\<And>a. m_prev (meta (heap ?st a)) = m_prev (meta (heap st a))"
  proof -
    have "store_inv ?st X" using I store_inv_links [OF I same_links_flag(1)] by (simp add: renewed_def)
    moreover have "IsRoot (flags (heap ?st) a) = IsRoot (flags (heap st) a)" for a by (simp add: renewed_def flags_def modify_def)
    then have "reads_valid (heap ?st) xs = reads_valid (heap st) xs" for xs by (simp add: reads_valid_def)
    moreover have "fresh ?st a = fresh st a" for a by (simp add: renewed_def modify_def fresh_def unlinked_def unmapped_def)
    ultimately show "core_inv cap ?st X" using K by (simp add: core_inv_def supply_ok_def doors_ok_def reads_ok_def) (simp add: renewed_def)
    have "evalue (heap ?st a) = evalue (heap st a)" "entry_at ?st = entry_at st" for a
      by (simp_all add: renewed_def entry_at_def index_def modify_def fun_eq_iff)
    then show "lookup ?st = lookup st" by (simp add: lookup_def fun_eq_iff)
  qed (simp_all add: renewed_def flags_def modify_def)
  have p: "m_prev (meta (heap st' a)) = None" if "a \<noteq> e" "\<not> IsRoot (flags (heap st) a)" "m_prev (meta (heap st a)) = None" for a
    using that S(4) store_inv_member [OF I that(2)] store_inv_member [OF S(2), of a] by (auto simp: evolves_root [OF ev] r(5))
  have K': "core_inv cap st' X'" by (rule core_handled [OF r(1) S(3,2)]) (use p e(2) r(3,5,6) in auto)
  have "chan_ok st' rest" by (rule chan_ok_handled [OF c e(1) pool store_inv_parts(3) [OF I] S(3) W p])
  moreover have "lookup st' \<subseteq>\<^sub>m lookup st" using evolves_lookup(1) [OF ev store_inv_parts(3)] r(1,2) by (auto simp: core_inv_def)
  moreover have "length (resident st') \<le> Suc (length (resident st))"
  proof -
    have "all_entries X' \<subseteq> insert e (all_entries X)" using S(4) by blast
    then have "card (all_entries X') \<le> card (insert e (all_entries X))" by (intro card_mono) simp_all
    also have "\<dots> \<le> Suc (card (all_entries X))" by (rule card_insert_le_m1) simp_all
    finally show ?thesis using resident_entries(1) [OF K] resident_entries(1) [OF K'] distinct_card [of "resident st"] distinct_card [of "resident st'"]
      by (simp add: resident_def)
  qed
  ultimately show ?thesis using S(1) K' evolves_flags(4,5) [OF ev] r by (auto simp: core_inv_def)
qed

text \<open>The clock tick, also after the store was closed.\<close>

lemma tick_inv:
  fixes st :: "('k, 'v::zero, 'z) store_scheme"
  assumes K: "core_inv cap st X" and c: "chan_ok st is" and m: "may_tick st"
  shows "\<exists>st' X'. maintenance_tick st = Some st' \<and> core_inv cap st' X' \<and> chan_ok st' is \<and> lookup st' \<subseteq>\<^sub>m lookup st \<and> writeChan st' = writeChan st"
proof -
  have I: "store_inv st X" and pool: "entryPool st = None" using K by (simp_all add: core_inv_def)
  have "\<exists>st' X'. maintenance_tick st = Some st' \<and> store_inv st' X' \<and> handled {} st st' \<and> leaves (heap st) (heap st')"
  proof (cases "st_closed st")
    case True
    define tw where "tw = (timerwheel st)\<lparr>tw_clock := RefreshNowCache (clk st (clk_pos st)) (tw_clock (timerwheel st))\<rparr>"
    obtain R where "wreps (heap st) (timerwheel st) R" using I by (auto simp: store_inv_def)
    then have "wreps (heap st) tw R" by (simp add: tw_def wreps_def wheel_shape_def wroots_def)
    then have "store_inv (st\<lparr>heap := heap st, timerwheel := tw\<rparr>) X" by (rule store_inv_wheel [OF I wframe_refl])
    then have "store_inv (st\<lparr>timerwheel := tw, clk_pos := clk_pos st + 1\<rparr>) X" by (rule store_inv_cong) simp_all
    moreover have "handled {} st (st\<lparr>timerwheel := tw, clk_pos := clk_pos st + 1\<rparr>)"
      by (rule handled_heap) (simp_all add: client_fields_def kept_params_def entry_evolves_def)
    ultimately show ?thesis using True by (auto simp: maintenance_tick_def tw_def [symmetric])
  next
    case False
    show ?thesis using maintenance_tick_inv [OF I False refl] m unfolding may_tick_def by blast
  qed
  then obtain st' X' where S: "maintenance_tick st = Some st'" "store_inv st' X'" "handled {} st st'" "leaves (heap st) (heap st')" by blast
  have ev: "evolves st st'" using S(3) by (simp add: handled_def)
  note f = evolves_flags [OF ev pool] and l = evolves_lookup [OF ev store_inv_parts(3) [OF I]]
  have p: "m_prev (meta (heap st' a)) = None" if "\<not> IsRoot (flags (heap st) a)" "m_prev (meta (heap st a)) = None" for a
    using S(4) that unfolding leaves_def by blast
  have K': "core_inv cap st' X'" by (rule core_handled [OF K S(3,2)]) (simp_all add: p)
  have "chan_ok st' is"
    by (rule chan_ok_calm [OF c l(2) f(4)]) (use S(3) f p in \<open>simp_all add: handled_def evolves_root [OF ev]\<close>)
  then show ?thesis using S(1) K' l(1) f(5) by blast
qed

subsection \<open>The client side\<close>

lemma entry_below:
  assumes K: "core_inv cap st X" and k: "entry_at st k = Some e"
  shows "e < next_addr st" "\<not> IsRoot (flags (heap st) e)"
proof -
  note M = store_inv_parts(3) [of st X]
  have I: "map_inv st" "supply_ok st" using K M by (simp_all add: core_inv_def)
  show "e < next_addr st" using mapped_not_fresh [OF I(1) k] I(2) by (meson not_le supply_ok_def)
  show "\<not> IsRoot (flags (heap st) e)" using mapped_not_root(1) [OF I(1) _ index_lt [OF I(1)]] k by (auto simp: entry_at_def)
qed

text \<open>One event is sent for the entry \<open>e\<close>, whose weight it brings up to date.\<close>

lemma chan_ok_send:
  assumes c: "chan_ok st is" and i: "wb_entry i = Some e" "item_ok st' i" and n: "next_addr st \<le> next_addr st'"
    and h: "\<And>a. a \<noteq> e \<Longrightarrow> a < next_addr st \<Longrightarrow> heap st' a = heap st a"
    and at: "\<And>k a. entry_at st' k = Some a \<Longrightarrow> a \<noteq> e \<Longrightarrow> entry_at st k = Some a \<and> a < next_addr st"
    and new: "wb_code i = NEW \<Longrightarrow> next_addr st \<le> e"
    and same: "e < next_addr st \<Longrightarrow> meta (heap st' e) = meta (heap st e) \<and> flag (heap st' e) = flag (heap st e)"
    and e: "live st' (is @ [i]) e \<Longrightarrow> prefix_ok (policyWeight (heap st' e)) (pend is e) \<and>
      policyWeight (heap st' e) + sum_list (pend is e) + wb_costChange i = w" "0 \<le> sint w"
    and we: "\<And>k. entry_at st' k = Some e \<Longrightarrow> weight (heap st' e) = w"
  shows "chan_ok st' (is @ [i])"
proof -
  have "news_first (is @ [i])" using chan_okD(1) [OF c] chan_ok_below(2) [OF c new] i(1) by (auto simp: news_first_append)
  moreover have "item_ok st' j" if j: "j \<in> set is" for j
  proof -
    obtain a where a: "wb_entry j = Some a" "a < next_addr st" using chan_okD(2) [OF c j] by (auto simp: item_ok_def)
    have "meta (heap st' a) = meta (heap st a)" "flag (heap st' a) = flag (heap st a)" using h [of a] same a(2) by (cases "a = e"; simp)+
    then show ?thesis using chan_okD(2) [OF c j] n a by (auto simp: item_ok_def flags_def)
  qed
  moreover have o: "live st is a" if "live st' (is @ [i]) a" "a \<noteq> e" "a < next_addr st" for a
    using that h [of a] i(1) by (auto simp: live_def flags_def)
  have "prefix_ok (policyWeight (heap st' a)) (pend (is @ [i]) a)" if "live st' (is @ [i]) a" for a
  proof (cases "a = e")
    case True
    then show ?thesis using e that i(1) by (simp add: prefix_ok_append)
  next
    case False
    then show ?thesis using chan_okD(3) [OF c o [OF that False]] h [of a] i(1) chan_ok_below(1) [OF c, of a] by (cases "a < next_addr st") auto
  qed
  moreover have "0 \<le> sint (weight (heap st' a)) \<and>
      (live st' (is @ [i]) a \<longrightarrow> policyWeight (heap st' a) + sum_list (pend (is @ [i]) a) = weight (heap st' a))" if k: "entry_at st' k = Some a" for k a
  proof (cases "a = e")
    case True
    then show ?thesis using e we [of k] k i(1) by (simp add: add.assoc)
  next
    case False
    have k': "entry_at st k = Some a" "a < next_addr st" using at [OF k False] by simp_all
    show ?thesis using chan_okD(4,5) [OF c k'(1)] o [OF _ False k'(2)] h [OF False k'(2)] False i(1) by auto
  qed
  ultimately show ?thesis using i(2) unfolding chan_ok_def by auto
qed

lemma core_client:
  assumes K: "core_inv cap st X" and I: "store_inv st' X'" and s: "supply_ok st'" "doors_ok st'" and r: "keeps_rest st st'"
  shows "core_inv cap st' X'"
proof -
  have "reads_valid (heap st') xs = reads_valid (heap st) xs" for xs using r by (simp add: reads_valid_def keeps_rest_def)
  then have "reads_ok st'" using K r by (simp add: core_inv_def reads_ok_def keeps_rest_def)
  then show ?thesis using K I s r by (simp add: core_inv_def keeps_rest_def)
qed

lemma keeps_rest_send: "keeps_rest st st' \<Longrightarrow> keeps_rest st (send i st')"
  by (simp add: keeps_rest_def send_def)

lemma written_chan_ok:
  assumes K: "core_inv cap st X" and c: "chan_ok st is" and w: "written st X k v cost ex e st'" and t: "sent st k cost nvm e i" and p: "0 \<le> sint cost"
  shows "chan_ok (send i st') (is @ [i])"
proof -
  note M = store_inv_parts(3) [of st X]
  have M: "map_inv st" and pool: "entryPool st = None" using K M by (simp_all add: core_inv_def)
  have e: "wb_entry i = Some e" using t by (simp add: sent_def)
  have at: "entry_at st' = (entry_at st)(k \<mapsto> e)" and wt: "weight (heap st' e) = cost" and h: "\<And>a. a \<noteq> e \<Longrightarrow> a < next_addr st \<Longrightarrow> heap st' a = heap st a"
    and n: "next_addr st \<le> next_addr st'" and rt: "\<And>a. IsRoot (flags (heap st') a) = IsRoot (flags (heap st) a)"
    using w by (simp_all add: written_def keeps_rest_def)
  note sv = send_view [of i st']
  have n': "next_addr (send i st') = next_addr st'" by (simp add: send_def)
  have other: "entry_at st k' = Some a \<and> a < next_addr st" if "entry_at (send i st') k' = Some a" "a \<noteq> e" for k' a
    using that entry_below(1) [OF K] unfolding sv at by (auto split: if_splits)
  show ?thesis
  proof (cases "entry_at st k")
    case None
    then have f: "e = next_addr st" "e < next_addr st'" "policyWeight (heap st' e) = 0" "m_prev (meta (heap st' e)) = None" "fresh st e"
      "wb_code i = NEW" "wb_costChange i = cost" using w t pool unfolding written_def sent_def by auto
    have "pend is e = []" using chan_ok_below(1) [OF c] f(1) by simp
    then show ?thesis using f e p h n other wt rt
      by (intro chan_ok_send [OF c e, where w = cost]) (auto simp: sv n' item_ok_def fresh_def unlinked_def flags_def)
  next
    case (Some a)
    then have f: "policyWeight (heap st' e) = policyWeight (heap st e)" "meta (heap st' e) = meta (heap st e)" "flag (heap st' e) = flag (heap st e)"
      "a = e" "wb_code i = UPDATE" "wb_costChange i = cost - weight (heap st e)" using w t by (simp_all add: written_def sent_def)
    note b = entry_below [OF K Some, unfolded f(4)]
    have "live st is e" if "live (send i st') (is @ [i]) e" using that f(3,5) by (simp add: live_def sv flags_def)
    then have "prefix_ok (policyWeight (heap st e)) (pend is e) \<and> policyWeight (heap st e) + sum_list (pend is e) + wb_costChange i = cost"
      if "live (send i st') (is @ [i]) e" using that chan_okD(3) [OF c] chan_okD(5) [OF c Some] f(4,6) by auto
    then show ?thesis using f e p h n other wt rt b
      by (intro chan_ok_send [OF c e, where w = cost]) (auto simp: sv n' item_ok_def)
  qed
qed

lemma setInternal_inv:
  fixes st :: "('k::zero, 'v::zero, 'z) store_scheme"
  assumes K: "core_inv cap st X" and c: "chan_ok st (writeChan st)" and m: "roomy st" "0 \<le> sint cost"
  shows "\<exists>ok st'. setInternal k v cost ex nvm st = Some (ok, st') \<and> core_inv cap st' X \<and> chan_ok st' (writeChan st') \<and>
    lookup st' = (if ok \<and> \<not> closed_at st k then (lookup st)(k \<mapsto> v) else lookup st) \<and> (\<not> ok \<longrightarrow> doorkeeper st \<and> lookup st k = None)"
proof -
  have K': "store_inv st X" "supply_ok st" "doors_ok st" using K by (simp_all add: core_inv_def)
  obtain ok st' where S: "setInternal k v cost ex nvm st = Some (ok, st')" "set_outcome st X k v cost ex nvm ok st'" "\<not> ok \<longrightarrow> doorkeeper st \<and> lookup st k = None"
    using setInternal_spec [OF K' m(1)] by blast
  show ?thesis
  proof (cases "ok \<and> \<not> closed_at st k")
    case True
    then obtain e i st1 where W: "written st X k v cost ex e st1" "sent st k cost nvm e i" "st' = send i st1" using S(2) by (auto simp: set_outcome_def)
    note ws = written_send [OF W(1), of i, folded W(3)]
    have "core_inv cap st' X" by (rule core_client [OF K ws(1-3)]) (use W(1) in \<open>simp add: W(3) keeps_rest_send written_def\<close>)
    moreover have "chan_ok st' (writeChan st')" using written_chan_ok [OF K c W(1,2) m(2)] ws(6) by (simp add: W(3))
    ultimately show ?thesis using S(1,3) True ws(4) by (intro exI [of _ True] exI [of _ st']) simp
  next
    case False
    then have q: "quiet st X st'" using S(2) by (auto simp: set_outcome_def)
    have "core_inv cap st' X" by (rule core_client [OF K]) (use q in \<open>simp_all add: quiet_def\<close>)
    moreover have "chan_ok st' (writeChan st)" by (rule chan_ok_calm [OF c]) (use q in \<open>simp_all add: quiet_def\<close>)
    ultimately show ?thesis using S(1,3) False quiet_lookup [OF q] q by (intro exI [of _ ok] exI [of _ st']) (auto simp: quiet_def)
  qed
qed

text \<open>Reading the clock changes nothing else.\<close>

lemma clock_view:
  "entry_at (st\<lparr>clk_pos := n\<rparr>) = entry_at st" "lookup (st\<lparr>clk_pos := n\<rparr>) = lookup st" "closed_at (st\<lparr>clk_pos := n\<rparr>) = closed_at st" "roomy (st\<lparr>clk_pos := n\<rparr>) = roomy st"
  by (simp_all add: entry_at_def lookup_def closed_at_def index_def fun_eq_iff roomy_def)

lemma clock_inv:
  assumes "core_inv cap st X" "chan_ok st is" shows "core_inv cap (st\<lparr>clk_pos := n\<rparr>) X" "chan_ok (st\<lparr>clk_pos := n\<rparr>) is"
proof -
  have I: "store_inv (st\<lparr>clk_pos := n\<rparr>) X" by (rule store_inv_cong [of st]) (use assms(1) in \<open>simp_all add: core_inv_def\<close>)
  show "core_inv cap (st\<lparr>clk_pos := n\<rparr>) X"
    by (rule core_client [OF assms(1) I]) (use assms(1) in \<open>simp_all add: core_inv_def supply_ok_def doors_ok_def keeps_rest_def\<close>)
  show "chan_ok (st\<lparr>clk_pos := n\<rparr>) is" by (rule chan_ok_calm [OF assms(2)]) (simp_all add: clock_view)
qed

lemma store_Set_internal:
  "store_Set costf k v cost ttl st =
     (if slt (st_cap st) (set_cost costf v cost) then Some (False, st)
      else setInternal k v (set_cost costf v cost) (set_expiry st ttl) False (st\<lparr>clk_pos := (if ttl \<noteq> 0 then clk_pos st + 1 else clk_pos st)\<rparr>))"
  by (simp add: store_Set_def set_cost_def set_expiry_def Let_def)

lemma set_inv:
  fixes st :: "('k::zero, 'v::zero, 'z) store_scheme"
  assumes K: "core_inv cap st X" and c: "chan_ok st (writeChan st)" and m: "may_set costf v cost st"
  shows "\<exists>ok st'. store_Set costf k v cost ttl st = Some (ok, st') \<and> core_inv cap st' X \<and> chan_ok st' (writeChan st') \<and>
    lookup st' = (if ok \<and> \<not> closed_at st k then (lookup st)(k \<mapsto> v) else lookup st)"
proof (cases "slt (st_cap st) (set_cost costf v cost)")
  case True
  then show ?thesis using K c by (intro exI [of _ False] exI [of _ st]) (simp add: store_Set_internal)
next
  case False
  let ?st = "st\<lparr>clk_pos := (if ttl \<noteq> 0 then clk_pos st + 1 else clk_pos st)\<rparr>"
  have m': "roomy ?st" "0 \<le> sint (set_cost costf v cost)" using m unfolding may_set_def clock_view by simp_all
  have c': "chan_ok ?st (writeChan ?st)" using clock_inv(2) [OF K c] by simp
  obtain ok st' where "setInternal k v (set_cost costf v cost) (set_expiry st ttl) False ?st = Some (ok, st')" "core_inv cap st' X" "chan_ok st' (writeChan st')"
    "lookup st' = (if ok \<and> \<not> closed_at ?st k then (lookup ?st)(k \<mapsto> v) else lookup ?st)"
    using setInternal_inv [OF clock_inv(1) [OF K c] c' m', of k v "set_expiry st ttl" False] by (elim exE conjE) (rule that)
  then show ?thesis using False by (intro exI [of _ ok] exI [of _ st']) (simp add: store_Set_internal clock_view)
qed

lemma read_only_core:
  fixes st :: "('k, 'v::zero, 'z) store_scheme"
  assumes K: "core_inv cap st X" and c: "chan_ok st is" and S: "store_inv st' X'" "reads_ok st'" "all_entries X' = all_entries X" "read_only st st'"
  shows "core_inv cap st' X'" "chan_ok st' is" "lookup st' = lookup st" "entry_at st' = entry_at st" "writeChan st' = writeChan st"
proof -
  have K': "store_inv st X" "supply_ok st" "doors_ok st" "entryPool st = None" using K by (simp_all add: core_inv_def)
  have f: "pframe (heap st) (heap st')" using S(4) by (simp add: read_only_def)
  note pf = pframe_fields [OF f]
  have fl: "store_flags (flags (heap st') a) = store_flags (flags (heap st) a)" for a using f by (simp add: pframe_def)
  show r: "entry_at st' = entry_at st" "writeChan st' = writeChan st" using S(4) by (simp_all add: read_only_def entry_at_def index_def fun_eq_iff)
  have q: "shards st' = shards st" "next_addr st' = next_addr st" "entryPool st' = None" "doorkeeper st' = doorkeeper st"
    using S(4) K'(4) by (simp_all add: read_only_def)
  have p: "m_prev (meta (heap st' a)) = None \<longleftrightarrow> m_prev (meta (heap st a)) = None" if "\<not> IsRoot (flags (heap st) a)" for a
    using store_inv_member [OF K'(1) that] store_inv_member [OF S(1), of a] that S(3) pf(8) by auto
  have "fresh st' a" if "fresh st a" for a
    using that p [of a] pf(8) [of a] fun_cong [OF pf(7), of a] by (simp add: fresh_def unlinked_def unmapped_def q prv_def e_prev_def flags_def)
  then have "supply_ok st'" using K'(2) by (simp add: supply_ok_def q)
  moreover have "doors_ok st'" using K'(3) by (simp add: doors_ok_def q)
  ultimately show "core_inv cap st' X'" using S K by (simp add: core_inv_def q read_only_def)
  show "chan_ok st' is" by (rule chan_ok_calm [OF c]) (use p fl in \<open>simp_all add: q r pf store_flags_def\<close>)
  show "lookup st' = lookup st" by (simp add: lookup_def r pf fun_eq_iff)
qed

lemma get_inv:
  fixes st :: "('k, 'v::zero, 'z) store_scheme"
  assumes K: "core_inv cap st X" and c: "chan_ok st (writeChan st)"
  shows "\<exists>v ok st' X'. store_Get k st = Some ((v, ok), st') \<and> core_inv cap st' X' \<and> chan_ok st' (writeChan st') \<and> lookup st' = lookup st \<and>
    (ok \<longrightarrow> lookup st k = Some v) \<and> (\<not> ok \<longrightarrow> v = 0)"
proof -
  have K': "store_inv st X" "reads_ok st" using K by (simp_all add: core_inv_def)
  obtain st' X' where S: "store_Get k st = Some (snd (fst (getFromShard k (snd (index k st)) st)), st')" "store_inv st' X'" "reads_ok st'"
    "all_entries X' = all_entries X" "read_only st st'" using Get_inv [OF K'] by blast
  obtain e v ok st1 where g: "getFromShard k (snd (index k st)) st = ((e, v, ok), st1)" by (metis prod.collapse)
  note G = getFromShard_state [OF g]
  note R = read_only_core [OF K c S(2-5)]
  have "ok \<longrightarrow> lookup st k = Some v" "\<not> ok \<longrightarrow> v = 0" using G(2-4) by (auto simp: lookup_def entry_at_def)
  then show ?thesis using S(1) g R by (intro exI [of _ v] exI [of _ ok] exI [of _ st'] exI [of _ X']) simp
qed

lemma delete_inv:
  assumes K: "core_inv cap st X" and c: "chan_ok st (writeChan st)"
  shows "\<exists>st'. store_Delete k st = Some st' \<and> core_inv cap st' X \<and> chan_ok st' (writeChan st') \<and> lookup st' = (lookup st)(k := None)"
proof -
  have K': "store_inv st X" "supply_ok st" "doors_ok st" using K by (simp_all add: core_inv_def)
  obtain st' i where D: "store_Delete k st = Some st'" "store_inv st' X" "doors_ok st'" "lookup st' = (lookup st)(k := None)"
    "entry_at st' = (entry_at st)(k := None)" "heap st' = heap st" "next_addr st' = next_addr st" "keeps_rest st st'" "supply_ok st'"
    "writeChan st' = (if entry_at st k = None then writeChan st else writeChan st @ [i])" "wb_entry i = entry_at st k" "wb_code i = REMOVE" "wb_costChange i = 0"
    using Delete_spec [OF K', of k] by (elim exE conjE) (rule that)
  have "core_inv cap st' X" by (rule core_client [OF K D(2,9,3,8)])
  moreover have "chan_ok st' (writeChan st')"
  proof (cases "entry_at st k")
    case None
    have "chan_ok st' (writeChan st)" by (rule chan_ok_calm [OF c]) (simp_all add: D(5-7) map_le_def)
    then show ?thesis using D(10) None by simp
  next
    case (Some e)
    note b = entry_below [OF K]
    have i: "wb_entry i = Some e" "item_ok st' i" using D(6,7,11-13) b [OF Some] Some by (simp_all add: item_ok_def)
    have at: "entry_at st k' = Some a \<and> a < next_addr st" if "entry_at st' k' = Some a" for k' a
      using that b(1) by (auto simp: D(5) split: if_splits)
    have ne: "entry_at st' k' \<noteq> Some e" for k'
      using mapped_distinct [OF store_inv_parts(3) [OF K'(1)] Some, of k'] by (auto simp: D(5) split: if_splits)
    have "live st (writeChan st) e" if "live st' (writeChan st @ [i]) e" using that D(6,12) by (simp add: live_def)
    then have l: "prefix_ok (policyWeight (heap st e)) (pend (writeChan st) e) \<and> policyWeight (heap st e) + sum_list (pend (writeChan st) e) = weight (heap st e)"
      if "live st' (writeChan st @ [i]) e" using that chan_okD(3) [OF c] chan_okD(5) [OF c Some] by blast
    have "chan_ok st' (writeChan st @ [i])"
      by (rule chan_ok_send [OF c i, where w = "weight (heap st e)"])
        (use D(6,7,12,13) at ne l chan_okD(4) [OF c Some] in simp_all)
    then show ?thesis using D(10) Some by simp
  qed
  ultimately show ?thesis using D(1,4) by blast
qed

lemma close_inv:
  assumes K: "core_inv cap st X" and c: "chan_ok st (writeChan st)"
  shows "core_inv cap (store_Close st) X" "chan_ok (store_Close st) (writeChan (store_Close st))" "lookup (store_Close st) = Map.empty"
proof -
  have K': "store_inv st X" "supply_ok st" "doors_ok st" "entryPool st = None" using K by (simp_all add: core_inv_def)
  note C = Close_spec [OF K'(1)]
  have s: "writeChan (store_Close st) = writeChan st" "next_addr (store_Close st) = next_addr st" "entryPool (store_Close st) = None" "heap (store_Close st) = heap st"
    "reads_ok (store_Close st) = reads_ok st"
    using K'(4) by (simp_all add: store_Close_def reads_ok_def)
  have "supply_ok (store_Close st)" using K'(2) C(6) by (simp add: supply_ok_def s)
  moreover have "doors_ok (store_Close st)" using K'(3) by (auto simp: doors_ok_def store_Close_def)
  ultimately show "core_inv cap (store_Close st) X" using K C(1) by (simp add: core_inv_def s) (simp add: store_Close_def)
  have "chan_ok (store_Close st) (writeChan st)" by (rule chan_ok_calm [OF c]) (simp_all add: C(2) s)
  then show "chan_ok (store_Close st) (writeChan (store_Close st))" by (simp add: s)
  show "lookup (store_Close st) = Map.empty" by (rule C(3))
qed

subsection \<open>Runs\<close>

inductive_cases store_stepE: "store_step costf (A, st) (A', st')"

text \<open>Each operation returns, and the state it leaves satisfies the invariant.\<close>

lemma closed_lookup: "closed_at st k \<Longrightarrow> lookup st k = None"
  by (simp add: closed_at_def lookup_def entry_at_def shard_get_def)

lemma run_set:
  fixes st :: "('k::zero, 'v::zero, 'z) store_scheme"
  assumes R: "run_inv cap A st" and m: "may_set costf v cost st"
  shows "\<exists>ok st'. store_Set costf k v cost ttl st = Some (ok, st') \<and> run_inv cap (if ok then A(k \<mapsto> v) else A) st' \<and>
    (ok \<longrightarrow> \<not> closed_at st k \<longrightarrow> lookup st' k = Some v)"
proof -
  obtain X where K: "core_inv cap st X" and c: "chan_ok st (writeChan st)" and l: "lookup st \<subseteq>\<^sub>m A" using R by (auto simp: run_inv_def)
  obtain ok st' where S: "store_Set costf k v cost ttl st = Some (ok, st')" "core_inv cap st' X" "chan_ok st' (writeChan st')"
    "lookup st' = (if ok \<and> \<not> closed_at st k then (lookup st)(k \<mapsto> v) else lookup st)" using set_inv [OF K c m] by blast
  have "lookup st' \<subseteq>\<^sub>m (if ok then A(k \<mapsto> v) else A)" using l closed_lookup [of st k] unfolding S(4) by (auto simp: map_le_def dom_def)
  then have "run_inv cap (if ok then A(k \<mapsto> v) else A) st'" using S(2,3) unfolding run_inv_def by blast
  then show ?thesis using S(1,4) by (intro exI [of _ ok] exI [of _ st']) auto
qed

lemma run_get:
  fixes st :: "('k, 'v::zero, 'z) store_scheme"
  assumes R: "run_inv cap A st"
  shows "\<exists>v ok st'. store_Get k st = Some ((v, ok), st') \<and> run_inv cap A st' \<and> lookup st' = lookup st \<and> (if ok then A k = Some v else v = 0)"
proof -
  obtain X where K: "core_inv cap st X" and c: "chan_ok st (writeChan st)" and l: "lookup st \<subseteq>\<^sub>m A" using R by (auto simp: run_inv_def)
  obtain v ok st' X' where S: "store_Get k st = Some ((v, ok), st')" "core_inv cap st' X'" "chan_ok st' (writeChan st')" "lookup st' = lookup st"
    "ok \<longrightarrow> lookup st k = Some v" "\<not> ok \<longrightarrow> v = 0" using get_inv [OF K c, of k] by (elim exE conjE) (rule that)
  have "if ok then A k = Some v else v = 0" using S(5,6) l by (auto simp: map_le_def dom_def)
  then show ?thesis using S l by (intro exI [of _ v] exI [of _ ok] exI [of _ st']) (auto simp: run_inv_def)
qed

lemma run_delete:
  assumes R: "run_inv cap A st"
  shows "\<exists>st'. store_Delete k st = Some st' \<and> run_inv cap (A(k := None)) st' \<and> lookup st' = (lookup st)(k := None)"
proof -
  obtain X where K: "core_inv cap st X" and c: "chan_ok st (writeChan st)" and l: "lookup st \<subseteq>\<^sub>m A" using R by (auto simp: run_inv_def)
  obtain st' where S: "store_Delete k st = Some st'" "core_inv cap st' X" "chan_ok st' (writeChan st')" "lookup st' = (lookup st)(k := None)"
    using delete_inv [OF K c] by blast
  then show ?thesis using l unfolding run_inv_def by (intro exI [of _ st']) (auto simp: map_le_def)
qed

lemma run_close:
  assumes R: "run_inv cap A st" shows "run_inv cap Map.empty (store_Close st)" "lookup (store_Close st) = Map.empty"
proof -
  obtain X where K: "core_inv cap st X" and c: "chan_ok st (writeChan st)" using R by (auto simp: run_inv_def)
  show "lookup (store_Close st) = Map.empty" by (rule close_inv(3) [OF K c])
  then show "run_inv cap Map.empty (store_Close st)" using close_inv [OF K c] by (auto simp: run_inv_def)
qed

text \<open>Receiving from the channel.\<close>

lemma recv_view: "entry_at (st\<lparr>writeChan := w\<rparr>) = entry_at st" "lookup (st\<lparr>writeChan := w\<rparr>) = lookup st" "resident (st\<lparr>writeChan := w\<rparr>) = resident st"
  by (simp_all add: entry_at_def lookup_def index_def fun_eq_iff resident_def)

lemma recv_inv:
  assumes "core_inv cap st X" "chan_ok st is" shows "core_inv cap (st\<lparr>writeChan := w\<rparr>) X" "chan_ok (st\<lparr>writeChan := w\<rparr>) is"
proof -
  have I: "store_inv (st\<lparr>writeChan := w\<rparr>) X" by (rule store_inv_cong [of st]) (use assms(1) in \<open>simp_all add: core_inv_def\<close>)
  show "core_inv cap (st\<lparr>writeChan := w\<rparr>) X"
    by (rule core_client [OF assms(1) I]) (use assms(1) in \<open>simp_all add: core_inv_def supply_ok_def doors_ok_def keeps_rest_def\<close>)
  show "chan_ok (st\<lparr>writeChan := w\<rparr>) is" by (rule chan_ok_calm [OF assms(2)]) (simp_all add: recv_view)
qed

lemma run_handle:
  fixes st :: "('k, 'v::zero, 'z) store_scheme"
  assumes R: "run_inv cap A st" and m: "may_handle st" and i: "writeChan st = item # rest"
  shows "\<exists>st'. sinkWrite item (st\<lparr>writeChan := rest\<rparr>) = Some st' \<and> run_inv cap A st' \<and> lookup st' \<subseteq>\<^sub>m lookup st \<and> writeChan st' = rest"
proof -
  obtain X where K: "core_inv cap st X" and c: "chan_ok st (item # rest)" and l: "lookup st \<subseteq>\<^sub>m A" using R i by (auto simp: run_inv_def)
  let ?st = "st\<lparr>writeChan := rest\<rparr>"
  have m': "may_handle ?st" using m by (simp add: may_handle_def recv_view)
  obtain st' X' where S: "sinkWrite item ?st = Some st'" "core_inv cap st' X'" "chan_ok st' rest" "lookup st' \<subseteq>\<^sub>m lookup ?st" "writeChan st' = writeChan ?st"
    using handle_inv [OF recv_inv [OF K c] m'] by (elim exE conjE) (rule that)
  have "run_inv cap A st'" using S(2,3,5) map_le_trans [OF S(4)] l unfolding run_inv_def by (auto simp: recv_view)
  then show ?thesis using S(1,4,5) by (simp add: recv_view)
qed

lemma run_tick:
  fixes st :: "('k, 'v::zero, 'z) store_scheme"
  assumes R: "run_inv cap A st" and m: "may_tick st"
  shows "\<exists>st'. maintenance_tick st = Some st' \<and> run_inv cap A st' \<and> lookup st' \<subseteq>\<^sub>m lookup st"
proof -
  obtain X where K: "core_inv cap st X" and c: "chan_ok st (writeChan st)" and l: "lookup st \<subseteq>\<^sub>m A" using R by (auto simp: run_inv_def)
  obtain st' X' where S: "maintenance_tick st = Some st'" "core_inv cap st' X'" "chan_ok st' (writeChan st)" "lookup st' \<subseteq>\<^sub>m lookup st" "writeChan st' = writeChan st"
    using tick_inv [OF K c m] by blast
  then show ?thesis using map_le_trans [OF S(4) l] by (intro exI [of _ st']) (auto simp: run_inv_def)
qed

lemma store_step_inv:
  fixes st :: "('k::zero, 'v::zero, 'z) store_scheme"
  assumes "store_step costf (A, st) (A', st')" "run_inv cap A st" shows "run_inv cap A' st'"
  using assms(1)
proof (rule store_stepE)
  fix v cost k ttl ok assume "A' = (if ok then A(k \<mapsto> v) else A)" "may_set costf v cost st" "store_Set costf k v cost ttl st = Some (ok, st')"
  then show ?thesis using run_set [OF assms(2), of costf v cost k ttl] by auto
next
  fix k r assume "A' = A" "store_Get k st = Some (r, st')"
  then show ?thesis using run_get [OF assms(2), of k] by auto
next
  fix k assume "A' = A(k := None)" "store_Delete k st = Some st'"
  then show ?thesis using run_delete [OF assms(2), of k] by auto
next
  assume "A' = Map.empty" "st' = store_Close st"
  then show ?thesis using run_close [OF assms(2)] by simp
next
  fix item rest assume "A' = A" "may_handle st" "writeChan st = item # rest" "sinkWrite item (st\<lparr>writeChan := rest\<rparr>) = Some st'"
  then show ?thesis using run_handle [OF assms(2), of item rest] by auto
next
  assume "A' = A" "may_tick st" "maintenance_tick st = Some st'"
  then show ?thesis using run_tick [OF assms(2)] by auto
qed

lemma run_start:
  fixes opt :: "'v::zero StoreOptions" and rt :: "'k::zero runtime"
  assumes "0 < sint (MaxSize opt)" "runtime_ok rt" "\<not> EntryPool opt" "NewStore rt opt = Some st"
  shows "run_inv (MaxSize opt) Map.empty st"
proof -
  have S: "store_inv st (\<lambda>_. [])" "supply_ok st" "doors_ok st" "reads_ok st" "lookup st = Map.empty" "writeChan st = []" "entryPool st = None"
      "capacity (policy st) = MaxSize opt"
    using NewStore_spec [OF assms(1,2)] assms(3,4) by auto
  then have "core_inv (MaxSize opt) st (\<lambda>_. [])" by (simp add: core_inv_def)
  moreover have "entry_at st k = None" for k using fun_cong [OF S(5), of k] by (simp add: lookup_def)
  then have "chan_ok st []" by (simp add: chan_ok_def)
  ultimately show ?thesis using S(5,6) by (auto simp: run_inv_def)
qed

lemma run_reachable:
  fixes opt :: "'v::zero StoreOptions" and rt :: "'k::zero runtime"
  assumes "0 < sint (MaxSize opt)" "runtime_ok rt" "\<not> EntryPool opt" "NewStore rt opt = Some st0"
    and "(store_step costf)\<^sup>*\<^sup>* (Map.empty, st0) (A, st)"
  shows "run_inv (MaxSize opt) A st"
proof -
  have "run_inv (MaxSize opt) (fst c) (snd c)" if "(store_step costf)\<^sup>*\<^sup>* (Map.empty, st0) c" for c using that
  proof induction
    case base
    then show ?case using run_start [OF assms(1-4)] by simp
  next
    case (step c d)
    then show ?case using store_step_inv by (metis prod.collapse)
  qed
  from this [OF assms(5)] show ?thesis by simp
qed

text \<open>The weights of the resident entries, added without wrap-around, are what the policy has counted.\<close>

lemma run_size:
  assumes "run_inv cap A st"
  shows "(\<Sum>a\<leftarrow>resident st. unat (policyWeight (heap st a))) = unat (weightedSize (policy st)) \<and>
    weightedSize (policy st) \<le> cap"
proof -
  obtain X where K: "core_inv cap st X" using assms by (auto simp: run_inv_def)
  then have I: "store_inv st X" and cap: "capacity (policy st) = cap" by (simp_all add: core_inv_def)
  note X = policy_ok_parts(1) [OF store_inv_parts(1) [OF I]]
  have "(\<Sum>a\<leftarrow>resident st. unat (policyWeight (heap st a))) = (\<Sum>a\<in>set (resident st). unat (policyWeight (heap st a)))"
    by (rule sum_list_distinct_conv_sum_set) (simp add: resident_def)
  also have "\<dots> = tsize (heap st) X" unfolding resident_entries(1) [OF K] tsize_sum [OF X] ..
  finally show ?thesis using size_ok [OF I] weightedSize_exact [OF store_inv_parts(1) [OF I]] store_inv_parts(4) [OF I]
      policy_ok_parts(2) [OF store_inv_parts(1) [OF I]] cap by simp
qed

text \<open>
  A whole batch, as \<open>drainWrite\<close> handles it. After it the policy's weight of every bound entry
  that has not been removed is the weight the last write gave it.
\<close>

lemma drain_prefix:
  fixes st :: "('k, 'v::zero, 'z) store_scheme"
  assumes "core_inv cap st X" "chan_ok st (is @ js)" "length (resident st) + length is \<le> 2 ^ 45"
  shows "\<exists>st' X'. drainWrite is n st = Some (st', n) \<and> core_inv cap st' X' \<and> chan_ok st' js \<and> lookup st' \<subseteq>\<^sub>m lookup st \<and> writeChan st' = writeChan st \<and>
    length (resident st') \<le> length (resident st) + length is"
  using assms
proof (induction "is" arbitrary: st X)
  case (Cons i "is")
  have m: "may_handle st" using Cons.prems(3) by (simp add: may_handle_def)
  obtain st1 X1 where S: "sinkWrite i st = Some st1" "core_inv cap st1 X1" "chan_ok st1 (is @ js)" "lookup st1 \<subseteq>\<^sub>m lookup st" "writeChan st1 = writeChan st"
    "length (resident st1) \<le> Suc (length (resident st))"
    using handle_inv [OF Cons.prems(1) Cons.prems(2) [unfolded append_Cons] m] by (elim exE conjE) (rule that)
  have "wb_code i \<noteq> WAIT" using chan_okD(2) [OF Cons.prems(2), of i] by (auto simp: item_ok_def)
  moreover obtain st' X' where "drainWrite is n st1 = Some (st', n)" "core_inv cap st' X'" "chan_ok st' js" "lookup st' \<subseteq>\<^sub>m lookup st1" "writeChan st' = writeChan st1"
    "length (resident st') \<le> length (resident st1) + length is"
    using Cons.IH [OF S(2,3)] Cons.prems(3) S(6) by auto
  ultimately show ?case using S map_le_trans [OF _ S(4)] by (intro exI [of _ st'] exI [of _ X']) simp
qed auto

lemmas drain_inv = drain_prefix [where js = "[]", unfolded append_Nil2]

end
