(* ===== verification/Hybrid.thy ===== *)
theory Hybrid
  imports Store_Runs
begin

text \<open>
  The secondary cache (internal/secondary_cache.go) and the operations of internal/store.go
  that use it: \<open>GetWithSecodary\<close>, \<open>DeleteWithSecondary\<close>, the worker \<open>processSecondary\<close>, and
  \<open>Get\<close> of the loading store.
  The interface \<open>SecondaryCache\<close> is a record of functions over the state \<open>'c\<close> of the user's
  implementation; \<open>SimpleMapSecondary\<close> is the implementation of the repository. The function
  given to the single flight group runs under the shard's mutex and is one definition; what
  \<open>Do\<close> adds is in the theory of the groups.
\<close>

datatype 'e cache_error = NotFound | ErrCacheClosed | Failure 'e

record ('k, 'v, 'e, 'c) SecondaryCache_ops =
  sec_Get :: "'k \<Rightarrow> 'c \<Rightarrow> ('v \<times> i64 \<times> i64 \<times> bool \<times> 'e cache_error option) \<times> 'c"
  sec_Set :: "'k \<Rightarrow> 'v \<Rightarrow> i64 \<Rightarrow> i64 \<Rightarrow> 'c \<Rightarrow> 'e cache_error option \<times> 'c"
  sec_Delete :: "'k \<Rightarrow> 'c \<Rightarrow> 'e cache_error option \<times> 'c"
  sec_HandleAsyncError :: "'e cache_error option \<Rightarrow> 'c \<Rightarrow> 'c"

subsection \<open>The map in memory\<close>

record ('k, 'v) SimpleMapSecondary =
  sm_m :: "'k \<Rightarrow> ('k, 'v) Entry option"
  ErrCounter :: u64
  ErrMode :: bool

definition NewSimpleMapSecondary :: "('k, 'v) SimpleMapSecondary" where
  "NewSimpleMapSecondary = \<lparr>sm_m = Map.empty, ErrCounter = 0, ErrMode = False\<rparr>"

definition sm_Get :: "'k \<Rightarrow> ('k, 'v::zero) SimpleMapSecondary \<Rightarrow> ('v \<times> i64 \<times> i64 \<times> bool \<times> string cache_error option) \<times> ('k, 'v) SimpleMapSecondary" where
  "sm_Get k s =
     (case sm_m s k of None \<Rightarrow> ((0, 0, 0, False, None), s)
      | Some e \<Rightarrow> ((evalue e, weight e, expire e, True, None), s))"

definition sm_Set :: "'k \<Rightarrow> 'v \<Rightarrow> i64 \<Rightarrow> i64 \<Rightarrow> ('k::zero, 'v::zero) SimpleMapSecondary \<Rightarrow> string cache_error option \<times> ('k, 'v) SimpleMapSecondary" where
  "sm_Set k v cost ex s =
     (if ErrMode s then (Some (Failure ''err''), s)
      else
        let e = zero_entry\<lparr>evalue := v\<rparr>;
            e = e\<lparr>weight := cost\<rparr>;
            s = s\<lparr>sm_m := (sm_m s)(k \<mapsto> e)\<rparr>
        in (None, s\<lparr>sm_m := (sm_m s)(k \<mapsto> e\<lparr>expire := ex\<rparr>)\<rparr>))"

definition sm_Delete :: "'k \<Rightarrow> ('k, 'v) SimpleMapSecondary \<Rightarrow> string cache_error option \<times> ('k, 'v) SimpleMapSecondary" where
  "sm_Delete k s = (if sm_m s k = None then (None, s) else (None, s\<lparr>sm_m := (sm_m s)(k := None)\<rparr>))"

definition sm_HandleAsyncError :: "string cache_error option \<Rightarrow> ('k, 'v) SimpleMapSecondary \<Rightarrow> ('k, 'v) SimpleMapSecondary" where
  "sm_HandleAsyncError err s = (if err \<noteq> None then s\<lparr>ErrCounter := ErrCounter s + 1\<rparr> else s)"

definition simple_map :: "('k::zero, 'v::zero, string, ('k, 'v) SimpleMapSecondary) SecondaryCache_ops" where
  "simple_map = \<lparr>sec_Get = sm_Get, sec_Set = sm_Set, sec_Delete = sm_Delete, sec_HandleAsyncError = sm_HandleAsyncError\<rparr>"

subsection \<open>Reading\<close>

text \<open>
  The function that \<open>GetWithSecodary\<close> gives to the group: the value and the error, the
  result of the write to the shard with its cost if there was one, and the states.
\<close>

definition secondary_load :: "('k, 'v, 'e, 'c) SecondaryCache_ops \<Rightarrow> u64 \<Rightarrow> nat \<Rightarrow> 'k \<Rightarrow> ('k::zero, 'v::zero, 'z) store_scheme \<Rightarrow> 'c
    \<Rightarrow> (('v \<times> 'e cache_error option) \<times> (setShardResult \<times> i64) option \<times> ('k, 'v, 'z) store_scheme \<times> 'c) option" where
  "secondary_load S h i k st c =
     (let ((v, cost, ex, ok, err), c) = sec_Get S k c in
      case err of Some e \<Rightarrow> Some ((v, Some e), None, st, c)
      | None \<Rightarrow>
          if \<not> ok then Some ((v, Some NotFound), None, st, c)
          else
            let (now, st) = read_now st in
            if sle ex now then
              let (err, c) = sec_Delete S k c
              in Some ((v, Some (case err of None \<Rightarrow> NotFound | Some e \<Rightarrow> e)), None, st, c)
            else do { (r, st) \<leftarrow> setShardWithoutLock i h k v cost ex st;
                      Some ((v, None), Some (r, cost), st, c) })"

definition GetWithSecodary :: "('k, 'v, 'e, 'c) SecondaryCache_ops \<Rightarrow> 'k \<Rightarrow> ('k::zero, 'v::zero, 'z) store_scheme \<Rightarrow> 'c
    \<Rightarrow> (('v \<times> bool \<times> 'e cache_error option) \<times> ('k, 'v, 'z) store_scheme \<times> 'c) option" where
  "GetWithSecodary S k st c =
     (let (h, i) = index k st in
      if i < length (shards st) then
        let ((e, v, ok), st) = getFromShard k i st in
        if ok then Some ((v, True, None), st, c)
        else do {
          ((v, err), loaded, st, c) \<leftarrow> secondary_load S h i k st c;
          (case err of
             Some NotFound \<Rightarrow> Some ((v, False, None), st, c)
           | Some e \<Rightarrow> Some ((v, False, Some e), st, c)
           | None \<Rightarrow>
               Some ((v, True, None),
                 (case loaded of None \<Rightarrow> st | Some (r, cost) \<Rightarrow> toPolicy r h cost True st), c)) }
      else None)"

subsection \<open>Deleting\<close>

definition DeleteWithSecondary :: "('k, 'v, 'e, 'c) SecondaryCache_ops \<Rightarrow> 'k \<Rightarrow> ('k, 'v, 'z) store_scheme \<Rightarrow> 'c
    \<Rightarrow> ('e cache_error option \<times> ('k, 'v, 'z) store_scheme \<times> 'c) option" where
  "DeleteWithSecondary S k st c =
     (let i = snd (index k st) in
      if i < length (shards st) then
        case shard_get k (shards st ! i) of None \<Rightarrow> Some (None, st, c)
        | Some e \<Rightarrow>
            let st = set_shard i (fst (shard_delete (heap st) e (shards st ! i))) st;
                (err, c) = (if secondaryCache st then sec_Delete S k c else (None, c))
            in (case err of
                 Some x \<Rightarrow> Some (Some x, st, c)
               | None \<Rightarrow> Some (None, send \<lparr>wb_entry = Some e, wb_costChange = 0, wb_code = REMOVE, wb_rechedule = False, wb_fromNVM = False, wb_hash = 0\<rparr> st, c))
      else None)"

subsection \<open>The worker\<close>

text \<open>
  One item of the worker's loop, in its two critical sections: under the read lock the entry
  is written to the secondary cache if its key is still bound; then, if that succeeded and the
  entry was evicted, it leaves the hash map. Other operations can come in between.
\<close>

definition processSecondary_write :: "('k, 'v, 'e, 'c) SecondaryCache_ops \<Rightarrow> SecondaryCacheItem \<Rightarrow> ('k, 'v, 'z) store_scheme \<Rightarrow> 'c \<Rightarrow> bool \<times> 'c" where
  "processSecondary_write S item st c =
     (let e = heap st (sc_entry item) in
      case shard_get (key e) (shards st ! sc_shard item) of None \<Rightarrow> (False, c)
      | Some _ \<Rightarrow>
          let (err, c) = sec_Set S (key e) (evalue e) (weight e) (expire e) c in
          if err \<noteq> None then (False, sec_HandleAsyncError S err c) else (True, c))"

definition processSecondary_drop :: "SecondaryCacheItem \<Rightarrow> ('k, 'v::zero, 'z) store_scheme \<Rightarrow> ('k, 'v, 'z) store_scheme" where
  "processSecondary_drop item st =
     (if sc_reason item = EVICTED then
        let (s, deleted) = shard_delete (heap st) (sc_entry item) (shards st ! sc_shard item);
            st = set_shard (sc_shard item) s st
        in if deleted then postDelete (sc_entry item) st else st
      else st)"

definition processSecondary :: "('k, 'v, 'e, 'c) SecondaryCache_ops \<Rightarrow> SecondaryCacheItem \<Rightarrow> ('k, 'v::zero, 'z) store_scheme \<Rightarrow> 'c \<Rightarrow> ('k, 'v, 'z) store_scheme \<times> 'c" where
  "processSecondary S item st c =
     (let (written, c) = processSecondary_write S item st c
      in (if written then processSecondary_drop item st else st, c))"

subsection \<open>The loading store\<close>

record 'v Loaded =
  l_Value :: 'v
  l_Cost :: i64
  l_TTL :: i64

text \<open>
  The function that \<open>LoadingStore.Get\<close> gives to the group. \<open>loader\<close> is the user's function for
  the key, \<open>costf\<close> the cost function.
\<close>

definition loading_load :: "('k, 'v, 'e, 'c) SecondaryCache_ops \<Rightarrow> ('v \<Rightarrow> i64) \<Rightarrow> ('k \<Rightarrow> 'v Loaded \<times> 'e cache_error option) \<Rightarrow> u64 \<Rightarrow> nat \<Rightarrow> 'k
    \<Rightarrow> ('k::zero, 'v::zero, 'z) store_scheme \<Rightarrow> 'c \<Rightarrow> (('v \<times> 'e cache_error option) \<times> (setShardResult \<times> i64) option \<times> ('k, 'v, 'z) store_scheme \<times> 'c) option" where
  "loading_load S costf loader h i k st c =
     (if s_closed (shards st ! i) then Some ((0, Some ErrCacheClosed), None, st, c)
      else
        let ((vs, cost, ex, ok, err), c) = (if secondaryCache st then sec_Get S k c else ((0, 0, 0, False, None), c)) in
        if err \<noteq> None \<and> err \<noteq> Some NotFound then Some ((0, err), None, st, c)
        else if ok then do {
          (r, st) \<leftarrow> setShardWithoutLock i h k vs cost ex st;
          Some ((vs, None), Some (r, cost), st, c) }
        else
          let (loaded, err) = loader k;
              (ex, st) = (if l_TTL loaded \<noteq> 0 then (ExpireNano (clk st (clk_pos st)) (l_TTL loaded) (tw_clock (timerwheel st)), st\<lparr>clk_pos := clk_pos st + 1\<rparr>)
                          else (0, st));
              cost = (if l_Cost loaded = 0 then costf (l_Value loaded) else l_Cost loaded)
          in (case err of
                None \<Rightarrow> do { (r, st) \<leftarrow> setShardWithoutLock i h k (l_Value loaded) cost ex st;
                             Some ((l_Value loaded, None), Some (r, cost), st, c) }
              | Some x \<Rightarrow> Some ((l_Value loaded, Some x), None, st, c)))"

definition LoadingStore_Get :: "('k, 'v, 'e, 'c) SecondaryCache_ops \<Rightarrow> ('v \<Rightarrow> i64) \<Rightarrow> ('k \<Rightarrow> 'v Loaded \<times> 'e cache_error option) \<Rightarrow> 'k
    \<Rightarrow> ('k::zero, 'v::zero, 'z) store_scheme \<Rightarrow> 'c \<Rightarrow> (('v \<times> 'e cache_error option) \<times> ('k, 'v, 'z) store_scheme \<times> 'c) option" where
  "LoadingStore_Get S costf loader k st c =
     (let (h, i) = index k st in
      if i < length (shards st) then
        let ((e, v, ok), st) = getFromShard k i st in
        if \<not> ok then do {
          st \<leftarrow> count_miss st;
          ((v, err), loaded, st, c) \<leftarrow> loading_load S costf loader h i k st c;
          Some ((v, err), (case loaded of None \<Rightarrow> st | Some (r, cost) \<Rightarrow> toPolicy r h cost True st), c) }
        else do { st \<leftarrow> count_hit st; st \<leftarrow> record_access e h st; Some ((v, None), st, c) }
      else None)"

subsection \<open>The contract of a secondary cache\<close>

text \<open>
  What the store relies on: a state has contents; an operation without an error has the
  effect its name says, and a write with an error changes no contents. \<open>healthy\<close> are the states
  in which no operation fails.
\<close>

locale secondary_map =
  fixes S :: "('k::zero, 'v::zero, 'e, 'c) SecondaryCache_ops" and contents :: "'c \<Rightarrow> 'k \<Rightarrow> ('v \<times> i64 \<times> i64) option" and healthy :: "'c \<Rightarrow> bool"
  assumes get: "sec_Get S k c = ((v, cost, ex, ok, None), c') \<Longrightarrow> contents c' = contents c \<and> contents c k = (if ok then Some (v, cost, ex) else None)"
    and get_healthy: "healthy c \<Longrightarrow> \<exists>v cost ex ok c'. sec_Get S k c = ((v, cost, ex, ok, None), c') \<and> healthy c'"
    and set: "sec_Set S k v cost ex c = (None, c') \<Longrightarrow> contents c' = (contents c)(k \<mapsto> (v, cost, ex))"
    and set_healthy: "healthy c \<Longrightarrow> \<exists>c'. sec_Set S k v cost ex c = (None, c') \<and> healthy c'"
    and set_error: "sec_Set S k v cost ex c = (Some x, c') \<Longrightarrow> contents c' = contents c"
    and delete: "sec_Delete S k c = (None, c') \<Longrightarrow> contents c' = (contents c)(k := None)"
    and delete_healthy: "healthy c \<Longrightarrow> \<exists>c'. sec_Delete S k c = (None, c') \<and> healthy c'"
    and async: "contents (sec_HandleAsyncError S err c) = contents c"

definition sm_contents :: "('k, 'v) SimpleMapSecondary \<Rightarrow> 'k \<Rightarrow> ('v \<times> i64 \<times> i64) option" where
  "sm_contents s k = map_option (\<lambda>e. (evalue e, weight e, expire e)) (sm_m s k)"

interpretation simple: secondary_map simple_map sm_contents "\<lambda>s. \<not> ErrMode s"
proof
  fix k c v cost ex ok c' assume "sec_Get simple_map k c = ((v, cost, ex, ok, None), c')"
  then show "sm_contents c' = sm_contents c \<and> sm_contents c k = (if ok then Some (v, cost, ex) else None)"
    by (auto simp: simple_map_def sm_Get_def sm_contents_def split: option.splits)
next
  fix k :: 'a and c :: "('a, 'b) SimpleMapSecondary" assume "\<not> ErrMode c"
  then show "\<exists>v cost ex ok c'. sec_Get simple_map k c = ((v, cost, ex, ok, None), c') \<and> \<not> ErrMode c'"
    by (cases "sm_m c k") (auto simp: simple_map_def sm_Get_def)
next
  fix k v cost ex c c' assume "sec_Set simple_map k v cost ex c = (None, c')"
  then show "sm_contents c' = (sm_contents c)(k \<mapsto> (v, cost, ex))"
    by (auto simp: simple_map_def sm_Set_def sm_contents_def fun_eq_iff split: if_splits)
next
  fix k :: 'a and v :: 'b and cost ex and c :: "('a, 'b) SimpleMapSecondary" assume "\<not> ErrMode c"
  then show "\<exists>c'. sec_Set simple_map k v cost ex c = (None, c') \<and> \<not> ErrMode c'" by (simp add: simple_map_def sm_Set_def Let_def)
next
  fix k v cost ex c x c' assume "sec_Set simple_map k v cost ex c = (Some x, c')"
  then show "sm_contents c' = sm_contents c" by (auto simp: simple_map_def sm_Set_def split: if_splits)
next
  fix k c c' assume "sec_Delete simple_map k c = (None, c')"
  then show "sm_contents c' = (sm_contents c)(k := None)"
    by (auto simp: simple_map_def sm_Delete_def sm_contents_def fun_eq_iff split: if_splits)
next
  fix k :: 'a and c :: "('a, 'b) SimpleMapSecondary" assume "\<not> ErrMode c"
  then show "\<exists>c'. sec_Delete simple_map k c = (None, c') \<and> \<not> ErrMode c'" by (simp add: simple_map_def sm_Delete_def)
next
  fix x c show "sm_contents (sec_HandleAsyncError simple_map x c) = sm_contents c"
    by (simp add: simple_map_def sm_HandleAsyncError_def sm_contents_def fun_eq_iff)
qed

end
