(* ===== verification/Hybrid_Runs.thy ===== *)
theory Hybrid_Runs
  imports Hybrid
begin

text \<open>
  Runs of a store with a secondary cache or a loader. Both load a value under the shard's lock
  and tell the policy afterwards, which is what \<open>setInternal\<close> does for a write, so the
  invariant of the runs carries over to them. The items that the worker has written to the
  secondary cache and not yet dropped from the map are part of the state.
\<close>

subsection \<open>A load is a write\<close>

lemma index_clock [simp]: "index k (st\<lparr>clk_pos := n\<rparr>) = index k st"
  by (simp add: index_def)

lemma index_setShard: "i < length (shards st) \<Longrightarrow> index k st = (h, i) \<Longrightarrow>
  setInternal k v cost ex nvm st = do { (r, st) \<leftarrow> setShardWithoutLock i h k v cost ex st; Some (sr_success r, toPolicy r h cost nvm st) }"
  by (simp add: setInternal_def)

text \<open>What a read finds in memory, and the clock after it.\<close>

definition found :: "'k \<Rightarrow> ('k, 'v::zero, 'z) store_scheme \<Rightarrow> bool" where
  "found k st = snd (snd (fst (getFromShard k (snd (index k st)) st)))"

definition after_get :: "'k \<Rightarrow> ('k, 'v::zero, 'z) store_scheme \<Rightarrow> ('k, 'v, 'z) store_scheme" where
  "after_get k st = snd (getFromShard k (snd (index k st)) st)"

lemma after_get_clock: "\<exists>n. after_get k st = st\<lparr>clk_pos := n\<rparr>"
  using getFromShard_state(1) [of k "snd (index k st)" st] unfolding after_get_def by (metis prod.collapse)

lemma found_lookup: "found k st \<Longrightarrow> \<exists>e. getFromShard k (snd (index k st)) st = ((Some e, evalue (heap st e), True), after_get k st) \<and> lookup st k = Some (evalue (heap st e))"
  "\<not> found k st \<Longrightarrow> \<exists>e. getFromShard k (snd (index k st)) st = ((e, 0, False), after_get k st)"
proof -
  obtain e v ok st1 where g: "getFromShard k (snd (index k st)) st = ((e, v, ok), st1)" by (metis prod.collapse)
  note G = getFromShard_state [OF g]
  show "\<exists>e. getFromShard k (snd (index k st)) st = ((Some e, evalue (heap st e), True), after_get k st) \<and> lookup st k = Some (evalue (heap st e))" if "found k st"
    using that g G(2,3) by (auto simp: found_def after_get_def lookup_def entry_at_def)
  show "\<exists>e. getFromShard k (snd (index k st)) st = ((e, 0, False), after_get k st)" if "\<not> found k st"
    using that g G(4) by (simp add: found_def after_get_def)
qed

lemma GetWithSecodary_load:
  fixes st :: "('k::zero, 'v::zero, 'z) store_scheme"
  assumes M: "map_inv st" and f: "\<not> found k st" and g: "sec_Get S k c = ((v, cost, ex, True, None), c')" and now: "slt (fst (read_now (after_get k st))) ex"
  shows "GetWithSecodary S k st c =
    do { (ok, st') \<leftarrow> setInternal k v cost ex True (snd (read_now (after_get k st))); Some ((v, True, None), st', c') }"
proof -
  obtain n where n: "after_get k st = st\<lparr>clk_pos := n\<rparr>" using after_get_clock [of k st] by blast
  obtain h i where ix: "index k st = (h, i)" by (cases "index k st")
  have i: "i < length (shards st)" using index_lt [OF M, of k] ix by simp
  obtain e where G: "getFromShard k i st = ((e, 0, False), after_get k st)" using found_lookup(2) [OF f] ix by auto
  let ?st = "snd (read_now (after_get k st))"
  have x: "index k ?st = (h, i)" "i < length (shards ?st)" using i by (simp_all add: read_now_def n ix)
  have nl: "\<not> sle ex (fst (read_now (after_get k st)))" using now by (simp add: slt_not_sle)
  show ?thesis unfolding index_setShard [OF x(2,1)] using i nl
    by (cases "read_now (after_get k st)") (auto simp: GetWithSecodary_def ix G secondary_load_def g split: bind_split option.split)
qed

text \<open>The parts of the invariant of a run that do not speak of the values.\<close>

definition calm_inv :: "u64 \<Rightarrow> ('k, 'v, 'z) store_scheme \<Rightarrow> bool" where
  "calm_inv cap st \<longleftrightarrow> (\<exists>X. core_inv cap st X) \<and> chan_ok st (writeChan st)"

lemma calm_run: "calm_inv cap st \<longleftrightarrow> run_inv cap (lookup st) st"
  by (simp add: calm_inv_def run_inv_def)

lemma run_calm: "run_inv cap A st \<Longrightarrow> calm_inv cap st"
  by (simp add: calm_inv_def run_inv_def)

lemma calm_map: "calm_inv cap st \<Longrightarrow> map_inv st" and calm_pool: "calm_inv cap st \<Longrightarrow> entryPool st = None"
  by (auto simp: calm_inv_def core_inv_def dest: store_inv_parts(3))

lemma calm_clock: "calm_inv cap st \<Longrightarrow> calm_inv cap (st\<lparr>clk_pos := n\<rparr>)"
  using clock_inv unfolding calm_inv_def by fastforce

lemma calm_set:
  fixes st :: "('k::zero, 'v::zero, 'z) store_scheme"
  assumes "calm_inv cap st" "roomy st" "0 \<le> sint cost"
  shows "\<exists>ok st'. setInternal k v cost ex nvm st = Some (ok, st') \<and> calm_inv cap st' \<and>
    lookup st' = (if ok \<and> \<not> closed_at st k then (lookup st)(k \<mapsto> v) else lookup st) \<and> (\<not> ok \<longrightarrow> doorkeeper st \<and> lookup st k = None)"
proof -
  obtain X where K: "core_inv cap st X" and c: "chan_ok st (writeChan st)" using assms(1) by (auto simp: calm_inv_def)
  obtain ok st' where "setInternal k v cost ex nvm st = Some (ok, st')" "core_inv cap st' X" "chan_ok st' (writeChan st')"
    "lookup st' = (if ok \<and> \<not> closed_at st k then (lookup st)(k \<mapsto> v) else lookup st)" "\<not> ok \<longrightarrow> doorkeeper st \<and> lookup st k = None"
    using setInternal_inv [OF K c assms(2,3), of k v ex nvm] by (elim exE conjE) (rule that)
  then show ?thesis by (intro exI [of _ ok] exI [of _ st']) (auto simp: calm_inv_def)
qed

lemma calm_miss:
  fixes st :: "('k, 'v::zero, 'z) store_scheme"
  assumes "calm_inv cap st"
  shows "\<exists>st'. count_miss st = Some st' \<and> calm_inv cap st' \<and> read_only st st' \<and> lookup st' = lookup st \<and> heap st' = heap st \<and>
    counter_Value (misses (policy st')) = counter_Value (misses (policy st)) + 1"
proof -
  obtain X where K: "core_inv cap st X" and c: "chan_ok st (writeChan st)" using assms by (auto simp: calm_inv_def)
  then have I: "store_inv st X" "reads_ok st" by (simp_all add: core_inv_def)
  obtain st' where S: "count_miss st = Some st'" "store_inv st' X" "reads_ok st'" "heap st' = heap st" "read_only st st'"
    "counter_Value (misses (policy st')) = counter_Value (misses (policy st)) + 1"
    using count_inv(2) [OF I] by (elim exE conjE) (rule that)
  note R = read_only_core [OF K c S(2,3) refl S(5)]
  have "calm_inv cap st'" using R by (auto simp: calm_inv_def)
  then show ?thesis using S R(3) by blast
qed

text \<open>The hash of an event plays no part in the invariant.\<close>

lemma chan_ok_hash:
  assumes "chan_ok st (is @ [i])" shows "chan_ok st (is @ [i\<lparr>wb_hash := h\<rparr>])"
proof -
  let ?j = "i\<lparr>wb_hash := h\<rparr>"
  have p: "pend (is @ [?j]) e = pend (is @ [i]) e" "new_in (is @ [?j]) e = new_in (is @ [i]) e" for e by simp_all
  have l: "live st (is @ [?j]) e = live st (is @ [i]) e" for e unfolding live_def p ..
  have "news_first (is @ [?j])" using chan_okD(1) [OF assms] unfolding news_first_append by simp
  moreover have "item_ok st ?j = item_ok st i" by (simp add: item_ok_def)
  ultimately show ?thesis using assms unfolding chan_ok_def p l by simp
qed

text \<open>Taking a binding out of the map without telling the policy.\<close>

definition unbound :: "addr \<Rightarrow> nat \<Rightarrow> ('k, 'v, 'z) store_scheme \<Rightarrow> ('k, 'v, 'z) store_scheme" where
  "unbound e i st = set_shard i (fst (shard_delete (heap st) e (shards st ! i))) st"

lemma unbound_calm:
  assumes H: "calm_inv cap st" and at: "entry_at st k = Some e" and i: "i = snd (index k st)"
  shows "calm_inv cap (unbound e i st)" "entry_at (unbound e i st) = (entry_at st)(k := None)" "lookup (unbound e i st) = (lookup st)(k := None)"
    "calm_inv cap (send \<lparr>wb_entry = Some e, wb_costChange = 0, wb_code = REMOVE, wb_rechedule = False, wb_fromNVM = False, wb_hash = h\<rparr> (unbound e i st))"
proof -
  let ?st = "unbound e i st"
  obtain X where K: "core_inv cap st X" and c: "chan_ok st (writeChan st)" using H by (auto simp: calm_inv_def)
  then have K': "store_inv st X" "supply_ok st" "doors_ok st" by (simp_all add: core_inv_def)
  have il: "i < length (shards st)" unfolding i by (rule index_lt [OF store_inv_parts(3) [OF K'(1)]])
  let ?m = "\<lambda>h. \<lparr>wb_entry = Some e, wb_costChange = 0, wb_code = REMOVE, wb_rechedule = False, wb_fromNVM = False, wb_hash = h\<rparr>"
  let ?h = "fst (index k st)"
  have D: "store_Delete k st = Some (send (?m ?h) ?st)"
    using il at by (cases "index k st") (simp add: store_Delete_def unbound_def i entry_at_def)
  have "core_inv cap (send (?m ?h) ?st) X" "chan_ok (send (?m ?h) ?st) (writeChan st @ [?m ?h])"
    and v: "entry_at (send (?m ?h) ?st) = (entry_at st)(k := None)" "lookup (send (?m ?h) ?st) = (lookup st)(k := None)"
    using delete_inv [OF K c, of k] Delete_spec [OF K', of k] unfolding D by (auto simp: send_def unbound_def set_shard_def)
  show "entry_at ?st = (entry_at st)(k := None)" "lookup ?st = (lookup st)(k := None)" using v by (simp_all add: send_view)
  have "?st = (send (?m ?h) ?st)\<lparr>writeChan := writeChan st\<rparr>" by (simp add: send_def unbound_def set_shard_def)
  then have K1: "core_inv cap ?st X" using recv_inv(1) [OF \<open>core_inv cap (send (?m ?h) ?st) X\<close> \<open>chan_ok (send (?m ?h) ?st) (writeChan st @ [?m ?h])\<close>] by metis
  moreover have "chan_ok ?st (writeChan st)"
    by (rule chan_ok_calm [OF c]) (use v(1) in \<open>simp_all add: send_view map_le_def, simp_all add: unbound_def set_shard_def\<close>)
  ultimately show "calm_inv cap ?st" unfolding calm_inv_def by (auto simp: unbound_def set_shard_def)
  have "chan_ok (send (?m ?h) ?st) (writeChan st @ [?m h])" using chan_ok_hash [OF \<open>chan_ok (send (?m ?h) ?st) (writeChan st @ [?m ?h])\<close>, of h] by simp
  note R = recv_inv [OF \<open>core_inv cap (send (?m ?h) ?st) X\<close> this, of "writeChan st @ [?m h]"]
  have "(send (?m ?h) ?st)\<lparr>writeChan := writeChan st @ [?m h]\<rparr> = send (?m h) ?st" "writeChan (send (?m h) ?st) = writeChan st @ [?m h]"
    by (simp_all add: send_def unbound_def set_shard_def)
  then show "calm_inv cap (send (?m h) ?st)" using R unfolding calm_inv_def by auto
qed

subsection \<open>The worker\<close>

text \<open>Dropping an item unbinds its entry, or does nothing: the entry is bound in no other shard than its own.\<close>

lemma drop_cases:
  assumes H: "calm_inv cap st"
  shows "processSecondary_drop item st = st \<or>
    (\<exists>k. entry_at st k = Some (sc_entry item) \<and> sc_shard item = snd (index k st) \<and> processSecondary_drop item st = unbound (sc_entry item) (sc_shard item) st)"
proof (cases "sc_reason item = EVICTED \<and> sc_shard item < length (shards st)")
  case True
  let ?i = "sc_shard item" and ?e = "sc_entry item"
  let ?s = "shards st ! ?i" and ?k = "key (heap st (sc_entry item))"
  have drop: "processSecondary_drop item st = unbound ?e ?i st"
    using True calm_pool [OF H] by (simp add: processSecondary_drop_def unbound_def postDelete_def set_shard_def Let_def case_prod_beta)
  show ?thesis
  proof (cases "\<not> s_closed ?s \<and> map_of (hashmap ?s) ?k = Some ?e")
    case b: True
    then have "(?k, ?e) \<in> set (hashmap ?s)" by (auto dest: map_of_SomeD)
    then have "snd (index ?k st) = ?i" using calm_map [OF H] True by (auto simp: map_inv_def shard_inv_def Let_def)
    then show ?thesis using b drop by (intro disjI2 exI [of _ ?k]) (simp add: entry_at_def shard_get_def)
  next
    case False
    then have "shard_delete (heap st) ?e ?s = (?s, False)" by (auto simp: shard_delete_def split: option.split)
    then show ?thesis unfolding drop by (simp add: unbound_def set_shard_def)
  qed
next
  case False
  then have "(shards st)[sc_shard item := s] = shards st" if "sc_reason item = EVICTED" for s using that by (simp add: list_update_beyond)
  then show ?thesis using calm_pool [OF H] by (intro disjI1) (simp add: processSecondary_drop_def postDelete_def set_shard_def Let_def case_prod_beta)
qed

lemma drop_calm:
  assumes H: "calm_inv cap st" shows "calm_inv cap (processSecondary_drop item st)" "lookup (processSecondary_drop item st) \<subseteq>\<^sub>m lookup st"
proof -
  have "calm_inv cap (processSecondary_drop item st) \<and> lookup (processSecondary_drop item st) \<subseteq>\<^sub>m lookup st"
    using drop_cases [OF H, of item]
  proof (elim disjE exE conjE)
    fix k assume k: "entry_at st k = Some (sc_entry item)" "sc_shard item = snd (index k st)" "processSecondary_drop item st = unbound (sc_entry item) (sc_shard item) st"
    show ?thesis unfolding k(3) using unbound_calm(1,3) [OF H k(1,2)] by (simp add: map_le_def)
  qed (use H in simp)
  then show "calm_inv cap (processSecondary_drop item st)" "lookup (processSecondary_drop item st) \<subseteq>\<^sub>m lookup st" by simp_all
qed

subsection \<open>Reads and deletions\<close>

text \<open>The secondary cache reports no negative cost.\<close>

definition sane_cost :: "('k, 'v, 'e, 'c) SecondaryCache_ops \<Rightarrow> 'k \<Rightarrow> 'c \<Rightarrow> bool" where
  "sane_cost S k c \<longleftrightarrow> (case sec_Get S k c of ((v, cost, ex, ok, err), c') \<Rightarrow> 0 \<le> sint cost)"

text \<open>What \<open>GetWithSecodary\<close> returns when the key is not found in memory, and what it leaves bound.\<close>

definition secondary_result :: "('k, 'v, 'e, 'c) SecondaryCache_ops \<Rightarrow> 'k \<Rightarrow> ('k, 'v::zero, 'z) store_scheme \<Rightarrow> 'c \<Rightarrow> ('v \<times> bool \<times> 'e cache_error option) \<times> ('v \<times> i64 \<times> i64) option \<times> 'c" where
  "secondary_result S k st c =
     (case sec_Get S k c of ((v, cost, ex, ok, err), c') \<Rightarrow>
        if err \<noteq> None \<or> \<not> ok then ((v, False, if err = Some NotFound then None else err), None, c')
        else if slt (fst (read_now (after_get k st))) ex then ((v, True, None), Some (v, cost, ex), c')
        else (case sec_Delete S k c' of (err, c'') \<Rightarrow> ((v, False, if err = Some NotFound then None else err), None, c'')))"

lemma GetWithSecodary_rest:
  fixes st :: "('k::zero, 'v::zero, 'z) store_scheme"
  assumes M: "map_inv st" and f: "\<not> found k st" and r: "secondary_result S k st c = (r, None, c')"
  shows "\<exists>n. GetWithSecodary S k st c = Some (r, st\<lparr>clk_pos := n\<rparr>, c')"
proof -
  obtain n where n: "after_get k st = st\<lparr>clk_pos := n\<rparr>" using after_get_clock [of k st] by blast
  obtain h i where ix: "index k st = (h, i)" by (cases "index k st")
  have i: "i < length (shards st)" using index_lt [OF M, of k] ix by simp
  obtain e where G: "getFromShard k i st = ((e, 0, False), after_get k st)" using found_lookup(2) [OF f] ix by auto
  obtain v cost ex ok err c1 where g: "sec_Get S k c = ((v, cost, ex, ok, err), c1)" by (metis prod.collapse)
  have run: "GetWithSecodary S k st c = do { ((v, err), loaded, st, c) \<leftarrow> secondary_load S h i k (after_get k st) c;
      (case err of Some NotFound \<Rightarrow> Some ((v, False, None), st, c) | Some e \<Rightarrow> Some ((v, False, Some e), st, c)
       | None \<Rightarrow> Some ((v, True, None), (case loaded of None \<Rightarrow> st | Some (r, cost) \<Rightarrow> toPolicy r h cost True st), c)) }"
    using i by (simp add: GetWithSecodary_def ix G)
  show ?thesis
  proof (cases "err \<noteq> None \<or> \<not> ok")
    case True
    then have "secondary_load S h i k (after_get k st) c = Some ((v, Some (case err of None \<Rightarrow> NotFound | Some x \<Rightarrow> x)), None, after_get k st, c1)"
      by (auto simp: secondary_load_def g split: option.split)
    then show ?thesis using True r g unfolding run n secondary_result_def by (intro exI [of _ n]) (auto split: option.splits cache_error.splits)
  next
    case False
    then have nl: "\<not> slt (fst (read_now (after_get k st))) ex" using r g by (auto simp: secondary_result_def)
    obtain err' c2 where d: "sec_Delete S k c1 = (err', c2)" by fastforce
    have "secondary_load S h i k (after_get k st) c = Some ((v, Some (case err' of None \<Rightarrow> NotFound | Some x \<Rightarrow> x)), None, snd (read_now (after_get k st)), c2)"
      using False nl by (simp add: secondary_load_def g d slt_not_sle case_prod_beta)
    then show ?thesis using False nl r g d unfolding run n secondary_result_def
      by (intro exI [of _ "n + 1"]) (auto simp: read_now_def split: option.splits cache_error.splits)
  qed
qed

lemma getsec_calm:
  fixes st :: "('k::zero, 'v::zero, 'z) store_scheme"
  assumes H: "calm_inv cap st" and f: "\<not> found k st" and m: "roomy st" "sane_cost S k c" and r: "secondary_result S k st c = (r, l, c')"
  shows "\<exists>st'. GetWithSecodary S k st c = Some (r, st', c') \<and> calm_inv cap st' \<and>
    (case l of None \<Rightarrow> lookup st' = lookup st
     | Some (v, cost, ex) \<Rightarrow> lookup st' = (lookup st)(k \<mapsto> v) \<or> lookup st' = lookup st \<and> (closed_at st k \<or> doorkeeper st \<and> lookup st k = None))"
proof (cases l)
  case None
  then have "secondary_result S k st c = (r, None, c')" using r by simp
  from GetWithSecodary_rest [OF calm_map [OF H] f this] obtain n where "GetWithSecodary S k st c = Some (r, st\<lparr>clk_pos := n\<rparr>, c')" by blast
  then show ?thesis using calm_clock [OF H, of n] None by (simp add: clock_view)
next
  case (Some l')
  obtain v cost ex ok err c1 where g: "sec_Get S k c = ((v, cost, ex, ok, err), c1)" by (metis prod.collapse)
  have g': "sec_Get S k c = ((v, cost, ex, True, None), c')" and l: "l' = (v, cost, ex)" "r = (v, True, None)" and now: "slt (fst (read_now (after_get k st))) ex"
    using r g Some by (auto simp: secondary_result_def split: if_splits prod.splits)
  obtain n where n: "snd (read_now (after_get k st)) = st\<lparr>clk_pos := n\<rparr>" using after_get_clock [of k st] by (auto simp: read_now_def)
  have "0 \<le> sint cost" "roomy (st\<lparr>clk_pos := n\<rparr>)" using m g by (simp_all add: sane_cost_def clock_view)
  from calm_set [OF calm_clock [OF H] this(2,1), of k v ex True] obtain ok' st' where S: "setInternal k v cost ex True (st\<lparr>clk_pos := n\<rparr>) = Some (ok', st')"
    "calm_inv cap st'" "lookup st' = (if ok' \<and> \<not> closed_at st k then (lookup st)(k \<mapsto> v) else lookup st)" "\<not> ok' \<longrightarrow> doorkeeper st \<and> lookup st k = None"
    unfolding clock_view by (elim exE conjE) (rule that, simp_all)
  have "GetWithSecodary S k st c = Some (r, st', c')" using S(1) unfolding GetWithSecodary_load [OF calm_map [OF H] f g' now] n by (simp add: l)
  then show ?thesis using S(2-4) Some l by auto
qed

lemma getsec_found:
  fixes st :: "('k::zero, 'v::zero, 'z) store_scheme"
  assumes H: "calm_inv cap st" and f: "found k st"
  shows "\<exists>v n. lookup st k = Some v \<and> GetWithSecodary S k st c = Some ((v, True, None), st\<lparr>clk_pos := n\<rparr>, c)"
proof -
  obtain n where n: "after_get k st = st\<lparr>clk_pos := n\<rparr>" using after_get_clock [of k st] by blast
  obtain h i where ix: "index k st = (h, i)" by (cases "index k st")
  have i: "i < length (shards st)" using index_lt [OF calm_map [OF H], of k] ix by simp
  show ?thesis using found_lookup(1) [OF f] i by (auto simp: GetWithSecodary_def ix n)
qed

lemma delsec_calm:
  assumes H: "calm_inv cap st"
  shows "\<exists>err st' c'. DeleteWithSecondary S k st c = Some (err, st', c') \<and> calm_inv cap st' \<and> lookup st' = (lookup st)(k := None)"
proof -
  have i: "snd (index k st) < length (shards st)" by (rule index_lt [OF calm_map [OF H]])
  show ?thesis
  proof (cases "entry_at st k")
    case None
    then have "DeleteWithSecondary S k st c = Some (None, st, c)" using i by (simp add: DeleteWithSecondary_def entry_at_def)
    then show ?thesis using H None by (simp add: lookup_def fun_upd_idem)
  next
    case (Some e)
    note U = unbound_calm [OF H Some refl]
    obtain err c' where d: "(if secondaryCache st then sec_Delete S k c else (None, c)) = (err, c')" by fastforce
    have s: "secondaryCache (unbound e (snd (index k st)) st) = secondaryCache st" by (simp add: unbound_def set_shard_def)
    have "DeleteWithSecondary S k st c = Some (case err of Some x \<Rightarrow> (Some x, unbound e (snd (index k st)) st, c')
        | None \<Rightarrow> (None, send \<lparr>wb_entry = Some e, wb_costChange = 0, wb_code = REMOVE, wb_rechedule = False, wb_fromNVM = False, wb_hash = 0\<rparr> (unbound e (snd (index k st)) st), c'))"
      using i Some d s by (simp add: DeleteWithSecondary_def entry_at_def unbound_def Let_def split: option.split)
    then show ?thesis using U by (cases err) (simp_all add: send_view)
  qed
qed

subsection \<open>Loading\<close>

lemma count_miss_fields: "count_miss st = Some st' \<Longrightarrow> \<exists>t n. st' = st\<lparr>policy := t, rnd_pos := n\<rparr>"
  by (rule exI [of _ "policy st'"], rule exI [of _ "rnd_pos st'"]) (auto simp: count_miss_def next_rnd_def Let_def split: bind_splits)

text \<open>
  What \<open>LoadingStore.Get\<close> returns when the key is not found in memory, the value and the cost
  it writes, if any, and the secondary cache afterwards.
\<close>

definition loading_result :: "('k, 'v, 'e, 'c) SecondaryCache_ops \<Rightarrow> ('v \<Rightarrow> i64) \<Rightarrow> ('k \<Rightarrow> 'v Loaded \<times> 'e cache_error option) \<Rightarrow> 'k \<Rightarrow> ('k, 'v::zero, 'z) store_scheme \<Rightarrow> 'c
    \<Rightarrow> ('v \<times> 'e cache_error option) \<times> ('v \<times> i64) option \<times> 'c" where
  "loading_result S costf loader k st c =
     (if closed_at st k then ((0, Some ErrCacheClosed), None, c)
      else case (if secondaryCache st then sec_Get S k c else ((0, 0, 0, False, None), c)) of ((vs, cost, ex, ok, err), c') \<Rightarrow>
        if err \<noteq> None \<and> err \<noteq> Some NotFound then ((0, err), None, c')
        else if ok then ((vs, None), Some (vs, cost), c')
        else (case loader k of (ld, err) \<Rightarrow>
          ((l_Value ld, err), if err = None then Some (l_Value ld, set_cost costf (l_Value ld) (l_Cost ld)) else None, c')))"

lemma loading_load_writes:
  fixes st :: "('k::zero, 'v::zero, 'z) store_scheme"
  assumes ix: "index k st = (h, i)" and i: "i < length (shards st)" and r: "loading_result S costf loader k st c = (r, l, c')"
  shows "case l of
      None \<Rightarrow> \<exists>n. loading_load S costf loader h i k st c = Some (r, None, st\<lparr>clk_pos := n\<rparr>, c')
    | Some (v, cost) \<Rightarrow> fst r = v \<and> snd r = None \<and> (\<exists>ex n. do { ((v, err), loaded, st, c) \<leftarrow> loading_load S costf loader h i k st c;
          Some ((v, err), (case loaded of None \<Rightarrow> st | Some (r, cost) \<Rightarrow> toPolicy r h cost True st), c) } =
        do { (ok, st') \<leftarrow> setInternal k v cost ex True (st\<lparr>clk_pos := n\<rparr>); Some (r, st', c') })"
proof -
  obtain vs cost ex ok err c1 where g: "(if secondaryCache st then sec_Get S k c else ((0, 0, 0, False, None), c)) = ((vs, cost, ex, ok, err), c1)" by (metis prod.collapse)
  obtain ld lerr where ld: "loader k = (ld, lerr)" by fastforce
  have cl: "s_closed (shards st ! i) = closed_at st k" by (simp add: closed_at_def ix)
  have at: "i < length (shards (st\<lparr>clk_pos := n\<rparr>))" "index k (st\<lparr>clk_pos := n\<rparr>) = (h, i)" for n using i ix by simp_all
  have W: "setInternal k v cost ex True (st\<lparr>clk_pos := n\<rparr>) = do { (r, st) \<leftarrow> setShardWithoutLock i h k v cost ex (st\<lparr>clk_pos := n\<rparr>); Some (sr_success r, toPolicy r h cost True st) }" for v cost ex n
    by (rule index_setShard [OF at])
  consider "closed_at st k" | "\<not> closed_at st k" "err \<noteq> None \<and> err \<noteq> Some NotFound" | "\<not> closed_at st k" "err = None \<or> err = Some NotFound" ok
    | "\<not> closed_at st k" "err = None \<or> err = Some NotFound" "\<not> ok" by metis
  then show ?thesis
  proof cases
    case 1
    then show ?thesis using r by (auto simp: loading_result_def loading_load_def cl intro: exI [of _ "clk_pos st"])
  next
    case 2
    then show ?thesis using r g by (auto simp: loading_result_def loading_load_def cl intro: exI [of _ "clk_pos st"])
  next
    case 3
    then have l: "l = Some (vs, cost)" "r = (vs, None)" "c' = c1" using r g by (auto simp: loading_result_def)
    have "loading_load S costf loader h i k st c = do { (r, st) \<leftarrow> setShardWithoutLock i h k vs cost ex st; Some ((vs, None), Some (r, cost), st, c1) }"
      using 3 g by (auto simp: loading_load_def cl)
    then show ?thesis unfolding l(1) using W [where n = "clk_pos st" and v = vs and cost = cost and ex = ex] l(2,3) by (auto intro!: exI [of _ ex] exI [of _ "clk_pos st"] split: bind_split)
  next
    case 4
    define n where "n = (if l_TTL ld \<noteq> 0 then clk_pos st + 1 else clk_pos st)"
    let ?v = "l_Value ld" and ?cost = "set_cost costf (l_Value ld) (l_Cost ld)" and ?ex = "set_expiry st (l_TTL ld)"
    have L: "loading_load S costf loader h i k st c = (case lerr of
        None \<Rightarrow> do { (r, st) \<leftarrow> setShardWithoutLock i h k ?v ?cost ?ex (st\<lparr>clk_pos := n\<rparr>); Some ((?v, None), Some (r, ?cost), st, c1) }
      | Some x \<Rightarrow> Some ((?v, Some x), None, st\<lparr>clk_pos := n\<rparr>, c1))"
      using 4 unfolding loading_load_def cl g ld by (auto simp: set_cost_def set_expiry_def n_def Let_def split: option.split)
    have l: "l = (if lerr = None then Some (?v, ?cost) else None)" "r = (?v, lerr)" "c' = c1" using r g 4 by (auto simp: loading_result_def ld)
    show ?thesis
    proof (cases lerr)
      case None
      then show ?thesis using L W [where n = n and v = ?v and cost = ?cost and ex = ?ex] l by (auto intro!: exI [of _ ?ex] exI [of _ n] split: bind_split)
    next
      case (Some x)
      then show ?thesis using L l by auto
    qed
  qed
qed

lemma loading_calm:
  fixes st :: "('k::zero, 'v::zero, 'z) store_scheme"
  assumes H: "calm_inv cap st" and f: "\<not> found k st" and rm: "roomy st" and r: "loading_result S costf loader k st c = (r, l, c')"
    and p: "\<And>v cost. l = Some (v, cost) \<Longrightarrow> 0 \<le> sint cost"
  shows "\<exists>st'. LoadingStore_Get S costf loader k st c = Some (r, st', c') \<and> calm_inv cap st' \<and>
    (case l of None \<Rightarrow> lookup st' = lookup st
     | Some (v, cost) \<Rightarrow> lookup st' = (lookup st)(k \<mapsto> v) \<or> lookup st' = lookup st \<and> doorkeeper st \<and> lookup st k = None)"
proof -
  obtain n0 where n0: "after_get k st = st\<lparr>clk_pos := n0\<rparr>" using after_get_clock [of k st] by blast
  obtain h i where ix: "index k st = (h, i)" by (cases "index k st")
  have i: "i < length (shards st)" using index_lt [OF calm_map [OF H], of k] ix by simp
  obtain e where G: "getFromShard k i st = ((e, 0, False), after_get k st)" using found_lookup(2) [OF f] ix by auto
  obtain st1 where M: "count_miss (st\<lparr>clk_pos := n0\<rparr>) = Some st1" "calm_inv cap st1" "lookup st1 = lookup (st\<lparr>clk_pos := n0\<rparr>)"
    using calm_miss [OF calm_clock [OF H, of n0]] by blast
  obtain t m where st1: "st1 = st\<lparr>clk_pos := n0, policy := t, rnd_pos := m\<rparr>" using count_miss_fields [OF M(1)] by auto
  have v: "index k st1 = (h, i)" "i < length (shards st1)" "closed_at st1 = closed_at st" "roomy st1" "doorkeeper st1 = doorkeeper st" "secondaryCache st1 = secondaryCache st"
    using ix i rm by (simp_all add: st1 index_def closed_at_def roomy_def fun_eq_iff)
  have lk: "lookup st1 = lookup st" using M(3) by (simp add: clock_view)
  have r1: "loading_result S costf loader k st1 c = (r, l, c')" using r unfolding loading_result_def v(3,6) .
  have run: "LoadingStore_Get S costf loader k st c = do { ((v, err), loaded, st, c) \<leftarrow> loading_load S costf loader h i k st1 c;
      Some ((v, err), (case loaded of None \<Rightarrow> st | Some (r, cost) \<Rightarrow> toPolicy r h cost True st), c) }"
    using i M(1) by (simp add: LoadingStore_Get_def ix G n0)
  note W = loading_load_writes [OF v(1,2) r1]
  show ?thesis
  proof (cases l)
    case None
    then obtain n where "loading_load S costf loader h i k st1 c = Some (r, None, st1\<lparr>clk_pos := n\<rparr>, c')" using W by auto
    then show ?thesis using calm_clock [OF M(2), of n] None lk unfolding run by (cases r) (simp add: clock_view)
  next
    case (Some l')
    obtain w cost where l': "l' = (w, cost)" by fastforce
    obtain ex n where L: "LoadingStore_Get S costf loader k st c = do { (ok, st') \<leftarrow> setInternal k w cost ex True (st1\<lparr>clk_pos := n\<rparr>); Some (r, st', c') }"
      using W unfolding run Some l' by auto
    have q: "0 \<le> sint cost" "roomy (st1\<lparr>clk_pos := n\<rparr>)" using p [of w cost] Some l' v(4) by (simp_all add: clock_view)
    from calm_set [OF calm_clock [OF M(2)] q(2,1), of k w ex True] obtain ok st' where S: "setInternal k w cost ex True (st1\<lparr>clk_pos := n\<rparr>) = Some (ok, st')"
      "calm_inv cap st'" "lookup st' = (if ok \<and> \<not> closed_at st k then (lookup st)(k \<mapsto> w) else lookup st)" "\<not> ok \<longrightarrow> doorkeeper st \<and> lookup st k = None"
      unfolding clock_view lk v(3) by (elim exE conjE) (rule that, simp_all add: v(5))
    have "\<not> closed_at st k" using r Some by (auto simp: loading_result_def split: if_splits)
    then show ?thesis using S L Some l' by auto
  qed
qed

lemma loading_found:
  fixes st :: "('k::zero, 'v::zero, 'z) store_scheme"
  assumes H: "calm_inv cap st" and f: "found k st"
  shows "\<exists>v st'. lookup st k = Some v \<and> LoadingStore_Get S costf loader k st c = Some ((v, None), st', c) \<and> calm_inv cap st' \<and> lookup st' = lookup st"
proof -
  obtain h i where ix: "index k st = (h, i)" by (cases "index k st")
  have i: "i < length (shards st)" using index_lt [OF calm_map [OF H], of k] ix by simp
  obtain e where G: "getFromShard k i st = ((Some e, evalue (heap st e), True), after_get k st)" "lookup st k = Some (evalue (heap st e))"
    using found_lookup(1) [OF f] ix by auto
  obtain v ok st' where S: "store_Get k st = Some ((v, ok), st')" "run_inv cap (lookup st) st'" "lookup st' = lookup st"
    using run_get [of cap "lookup st" st k] H by (auto simp: calm_run)
  have "LoadingStore_Get S costf loader k st c = Some ((evalue (heap st e), None), st', c)"
    using S(1) i by (auto simp: LoadingStore_Get_def store_Get_def ix G split: bind_splits)
  then show ?thesis using G(2) S(2,3) run_calm by blast
qed

subsection \<open>With the contract of the secondary cache\<close>

lemma not_found: "entry_at st k = None \<Longrightarrow> \<not> found k st \<and> after_get k st = st"
  by (simp add: found_def after_get_def entry_at_def getFromShard_def)

context secondary_map
begin

lemma get_stored:
  assumes "healthy c" "contents c k = Some (v, cost, ex)"
  shows "\<exists>c'. sec_Get S k c = ((v, cost, ex, True, None), c') \<and> contents c' = contents c \<and> healthy c'"
proof -
  obtain v' cost' ex' ok c' where g: "sec_Get S k c = ((v', cost', ex', ok, None), c')" "healthy c'" using get_healthy [OF assms(1)] by blast
  then show ?thesis using get [OF g(1)] assms(2) by (auto split: if_splits)
qed

text \<open>A stored value that has not expired is promoted.\<close>

lemma promote:
  fixes st :: "('k, 'v, 'z) store_scheme"
  assumes H: "calm_inv cap st" and f: "\<not> found k st" and rm: "roomy st" and c: "healthy c" "contents c k = Some (v, cost, ex)" "0 \<le> sint cost"
    and now: "slt (fst (read_now (after_get k st))) ex"
  shows "\<exists>st' c'. GetWithSecodary S k st c = Some ((v, True, None), st', c') \<and> calm_inv cap st' \<and> contents c' = contents c \<and>
    (\<not> closed_at st k \<longrightarrow> \<not> doorkeeper st \<longrightarrow> lookup st' = (lookup st)(k \<mapsto> v))"
proof -
  obtain c' where g: "sec_Get S k c = ((v, cost, ex, True, None), c')" "contents c' = contents c" using get_stored [OF c(1,2)] by blast
  have "secondary_result S k st c = ((v, True, None), Some (v, cost, ex), c')" using g now by (simp add: secondary_result_def)
  moreover have "sane_cost S k c" using g c(3) by (simp add: sane_cost_def)
  ultimately show ?thesis using getsec_calm [OF H f rm, of S c "(v, True, None)" "Some (v, cost, ex)" c'] g(2) by auto
qed

text \<open>A stored value whose expiry time is not in the future is deleted, and the read misses.\<close>

lemma discard:
  fixes st :: "('k, 'v, 'z) store_scheme"
  assumes H: "calm_inv cap st" and f: "\<not> found k st" and c: "healthy c" "contents c k = Some (v, cost, ex)" and now: "\<not> slt (fst (read_now (after_get k st))) ex"
  shows "\<exists>n c'. GetWithSecodary S k st c = Some ((v, False, None), st\<lparr>clk_pos := n\<rparr>, c') \<and> contents c' = (contents c)(k := None)"
proof -
  obtain c1 where g: "sec_Get S k c = ((v, cost, ex, True, None), c1)" "contents c1 = contents c" "healthy c1" using get_stored [OF c(1,2)] by blast
  obtain c2 where d: "sec_Delete S k c1 = (None, c2)" using delete_healthy [OF g(3)] by blast
  have "secondary_result S k st c = ((v, False, None), None, c2)" using g(1) d now by (simp add: secondary_result_def)
  from GetWithSecodary_rest [OF calm_map [OF H] f this] show ?thesis using delete [OF d] g(2) by auto
qed

text \<open>The worker moves an evicted entry that is still bound from the map to the secondary cache.\<close>

lemma worker_moves:
  assumes H: "calm_inv cap st" and at: "entry_at st k = Some e" and c: "healthy c"
    and item: "sc_entry item = e" "sc_reason item = EVICTED" "sc_shard item = snd (index k st)"
  shows "\<exists>c'. processSecondary S item st c = (unbound e (sc_shard item) st, c') \<and> healthy c' \<and>
    contents c' = (contents c)(k \<mapsto> (evalue (heap st e), weight (heap st e), expire (heap st e)))"
proof -
  let ?i = "snd (index k st)"
  have i: "?i < length (shards st)" by (rule index_lt [OF calm_map [OF H]])
  have g: "shard_get k (shards st ! ?i) = Some e" using at by (simp add: entry_at_def)
  have key: "key (heap st e) = k" by (rule mapped_not_root(2) [OF calm_map [OF H] g i])
  obtain c' where s: "sec_Set S k (evalue (heap st e)) (weight (heap st e)) (expire (heap st e)) c = (None, c')" "healthy c'" using set_healthy [OF c] by blast
  have "processSecondary_write S item st c = (True, c')" using s(1) g by (simp add: processSecondary_write_def item key)
  moreover have "processSecondary_drop item st = unbound e ?i st"
    using item calm_pool [OF H] by (simp add: processSecondary_drop_def unbound_def postDelete_def set_shard_def Let_def case_prod_beta)
  ultimately show ?thesis using set [OF s(1)] s(2) by (simp add: processSecondary_def item)
qed

end

end
