(* ===== verification/Store_Properties.thy ===== *)
theory Store_Properties
  imports Store_Runs
begin

text \<open>
  Properties of the policy, the timer wheel and the single operations of the store, on any
  state that satisfies the invariant. Concrete states for them start from the store of a
  small machine.
\<close>

text \<open>A machine with four processors, a store of capacity one hundred, and a constant clock.\<close>

definition demo_rt :: "nat runtime" where
  "demo_rt = \<lparr>rt_hasher = of_nat, rt_log = (\<lambda>x. x), GOMAXPROCS = 4, NumCPU = 4, rt_start = 0, rt_clock = (\<lambda>n. 1000000000),
     rt_fastrand = of_nat, rt_rand = (\<lambda>n. 0), rt_pool = (\<lambda>n. 0)\<rparr>"

definition demo_opt :: "nat StoreOptions" where
  "demo_opt = \<lparr>MaxSize = 100, Doorkeeper = False, EntryPool = False, Listener = True, Cost = None, SecondaryCache = False,
     Workers = 1, Probability = 1\<rparr>"

lemma demo_ok: "0 < sint (MaxSize demo_opt)" "runtime_ok demo_rt" "\<not> EntryPool demo_opt"
  by (simp_all add: demo_opt_def demo_rt_def runtime_ok_def)

lemma demo_store:
  obtains st0 where "NewStore demo_rt demo_opt = Some st0" "store_inv st0 (\<lambda>_. [])" "supply_ok st0" "doors_ok st0" "roomy st0" "reads_ok st0"
    "lookup st0 = Map.empty" "capacity (policy st0) = 100" "st_cap st0 = 100" "\<forall>k. \<not> closed_at st0 k" "\<not> doorkeeper st0" "entryPool st0 = None"
    "writeChan st0 = []" "\<forall>a\<ge>260. fresh st0 a"
  using NewStore_spec [OF demo_ok(1,2)] demo_ok(3) that
  by (elim exE conjE) (simp add: demo_opt_def supply_ok_def first_addr_def)

text \<open>The store with one unlinked entry of a given weight and expiry.\<close>

lemma demo_entry:
  assumes "store_inv st0 (\<lambda>_. [])" "fresh st0 e" and st: "st = st0\<lparr>heap := (heap st0)(e := zero_entry\<lparr>policyWeight := w, expire := ex\<rparr>)\<rparr>"
  shows "store_inv st (\<lambda>_. [])" "\<not> IsRoot (flags (heap st) e)" "m_prev (meta (heap st e)) = None" "m_wheelPrev (meta (heap st e)) = None"
    "policyWeight (heap st e) = w" "expire (heap st e) = ex" "key (heap st e) = 0"
proof -
  show "store_inv st (\<lambda>_. [])" unfolding st
    by (rule store_inv_overwrite [OF assms(1,2)]) (simp add: unlinked_def zero_entry_def, case_tac q, simp_all add: zero_entry_def)
qed (simp_all add: st flags_def zero_entry_def)

text \<open>The store with one entry in the window.\<close>

lemma demo_window:
  assumes "0 \<le> sint w"
  obtains st :: "(nat, nat) store" where "policy_ok st (\<lambda>q. if q = QWindow then [260] else [])" "maintains st st" "policyWeight (heap st 260) = w"
    "capacity (policy st) = 100" "\<not> IsRoot (flags (heap st) 260)"
proof -
  obtain st0 where D: "NewStore demo_rt demo_opt = Some st0" "store_inv st0 (\<lambda>_. [])" "capacity (policy st0) = 100" "\<forall>a\<ge>260. fresh st0 a"
    by (rule demo_store)
  have f: "fresh st0 260" using D(4) by simp
  define st1 where "st1 = st0\<lparr>heap := (heap st0)(260 := zero_entry\<lparr>policyWeight := w, expire := 0\<rparr>)\<rparr>"
  note E = demo_entry [OF D(2) f st1_def]
  have k: "policy_inv st1 (\<lambda>_. [])" "climber_ok (policy st1)" using store_inv_parts(1) [OF E(1)] by (simp_all add: policy_ok_def)
  obtain h l st where S: "st = st1\<lparr>heap := h, policy := (policy st1)\<lparr>window := l, weightedSize := weightedSize (policy st1) + policyWeight (heap st1 260),
       missesInSample := missesInSample (policy st1) + 1\<rparr>\<rparr>"
    "policy_inv st ((\<lambda>_. [])(QWindow := 260 # []))" "maintains st1 st" "pframe (heap st1) h" "l_capacity l = l_capacity (window (policy st1))"
    by (rule evict.Set_insert [OF k(1) maintains_refl [OF E(1)], of 260]) (use E(2) in \<open>auto simp: all_entries_def\<close>)
  have X: "(\<lambda>_. [])(QWindow := 260 # []) = (\<lambda>q. if q = QWindow then [260] else [])" by (simp add: fun_eq_iff)
  have "nonneg (heap st) (\<lambda>q. if q = QWindow then [260] else [])"
    using assms E(5) pframe_fields(4) [OF S(4)] by (auto simp: nonneg_def all_entries_def S(1))
  moreover have "climber_ok (policy st)" using k(2) S(5) by (simp add: S(1) climber_ok_def caps_ok_def)
  ultimately have "policy_ok st (\<lambda>q. if q = QWindow then [260] else [])" using S(2) by (simp add: policy_ok_def X)
  moreover have "maintains st st" using S(3) by (simp add: maintains_def wheel_links_def)
  moreover have "policyWeight (heap st 260) = w" "capacity (policy st) = 100" "\<not> IsRoot (flags (heap st) 260)"
    using E(2,5) D(3) pframe_fields(4,8) [OF S(4)] by (simp_all add: S(1) st1_def)
  ultimately show thesis by (rule that)
qed

text \<open>A run that sets key 1 to 7, after which the event is still to be handled.\<close>

lemma demo_run:
  obtains st0 st where "NewStore demo_rt demo_opt = Some st0" "store_Set (costfn demo_opt) 1 7 0 0 st0 = Some (True, st)"
    "(store_step (costfn demo_opt))\<^sup>*\<^sup>* (Map.empty, st0) ([1 \<mapsto> 7], st)" "lookup st 1 = Some 7" "length (writeChan st) = 1" "resident st = []"
    "\<not> closed_at st 1" "\<not> st_closed st"
proof -
  obtain st0 where N: "NewStore demo_rt demo_opt = Some st0" "store_inv st0 (\<lambda>_. [])" "supply_ok st0" "doors_ok st0" "roomy st0" "st_cap st0 = 100"
    "\<not> closed_at st0 1" "\<not> doorkeeper st0" "lookup st0 = Map.empty" "writeChan st0 = []" "reads_ok st0" "entryPool st0 = None" "\<not> st_closed st0"
    using NewStore_spec [OF demo_ok(1,2)] demo_ok(3) that by (elim exE conjE) (simp add: demo_opt_def)
  have c: "set_cost (costfn demo_opt) 7 0 = 1" by (simp add: set_cost_def costfn_def demo_opt_def)
  obtain ok st n where S: "store_Set (costfn demo_opt) 1 7 0 0 st0 = Some (ok, st)" "set_outcome (st0\<lparr>clk_pos := n\<rparr>) (\<lambda>_. []) 1 7 1 (set_expiry st0 0) False ok st"
    "\<not> ok \<longrightarrow> slt (st_cap st0) 1 \<or> doorkeeper st0 \<and> lookup st0 1 = None"
    using store_Set_spec [OF N(2-5), of "costfn demo_opt" 1 7 0 0] unfolding c by blast
  have ok: ok using S(3) N(6,8) by (auto simp: slt_def)
  have cl: "closed_at (st0\<lparr>clk_pos := n\<rparr>) 1 = closed_at st0 1" by (simp add: closed_at_def index_def)
  obtain e i st1 where W: "written (st0\<lparr>clk_pos := n\<rparr>) (\<lambda>_. []) 1 7 1 (set_expiry st0 0) e st1" "st = send i st1"
    using S(2) ok N(7) unfolding set_outcome_def cl by auto
  have l: "length (writeChan st) = 1" using written_send(6) [OF W(1), of i] N(10) by (simp add: W(2))
  have o: "\<not> st_closed st" using W(1) N(13) by (simp add: W(2) send_def written_def keeps_rest_def)
  have K: "core_inv 100 st0 (\<lambda>_. [])" using N NewStore_spec [OF demo_ok(1,2)] by (auto simp: core_inv_def demo_opt_def)
  have m: "may_set (costfn demo_opt) 7 0 st0" using N(5) by (simp add: may_set_def c)
  have R: "run_inv 100 Map.empty st0" using run_start [OF demo_ok N(1)] by (simp add: demo_opt_def)
  then have "chan_ok st0 (writeChan st0)" by (simp add: run_inv_def)
  then have "core_inv 100 st (\<lambda>_. [])" using set_inv [OF K _ m, of 1 0] S(1) by auto
  then have r: "resident st = []" using resident_entries(2) [of 100 st "\<lambda>_. []"] by (simp add: entry_count_def)
  have v: "lookup st 1 = Some 7" using run_set [OF R m, of 1 0] S(1) ok N(7) by auto
  have "store_step (costfn demo_opt) (Map.empty, st0) (if True then [1 \<mapsto> 7] else Map.empty, st)" by (rule step_set [OF m]) (use S(1) ok in simp)
  then have "(store_step (costfn demo_opt))\<^sup>*\<^sup>* (Map.empty, st0) ([1 \<mapsto> 7], st)" by simp
  then show thesis using that [OF N(1)] S(1) ok v l r o closed_lookup [of st 1] by auto
qed

subsection \<open>The policy\<close>

text \<open>
  C12. Eviction ends and makes room. Whatever the weights in the lists are, \<open>EvictEntries\<close> with
  the store's removal as its callback returns, with the counted weight within the capacity;
  no entry has entered the policy, and every entry that left it is gone from the hash maps
  or waits in the queue of the secondary cache.
\<close>

theorem evict_entries_makes_room:
  fixes st :: "('k, 'v::zero, 'z) store_scheme"
  assumes "policy_ok st X" "maintains st st"
  shows "\<exists>st' X'. EvictEntries (\<lambda>e. removeEntry e EVICTED) st = Some st' \<and> policy_ok st' X' \<and> all_entries X' \<subseteq> all_entries X \<and>
    weightedSize (policy st') \<le> capacity (policy st') \<and> capacity (policy st') = capacity (policy st) \<and>
    (\<forall>e\<in>all_entries X - all_entries X'. gone_from_store st' e)"
proof -
  have I: "policy_inv st X" "climber_ok (policy st)" "nonneg (heap st) X" using assms(1) by (simp_all add: policy_ok_def)
  have "0 \<le> sint (l_capacity (window (policy st)))" using I(2) by (simp add: climber_ok_def caps_ok_def)
  then obtain st' X' where E: "EvictEntries (\<lambda>e. removeEntry e EVICTED) st = Some st'" "evict.evicts st st X st' X'" "weightedSize (policy st') \<le> capacity (policy st')"
    using evict.EvictEntries_spec [OF I(1) assms(2)] by blast
  have "policy_ok st' X'" by (rule evict.evicts_policy_ok [OF E(2) I(2,3)])
  then show ?thesis using E by (auto simp: evict.evicts_def pparams_def)
qed

theorem evict_entries_makes_room_witness:
  "\<exists>st st' X'. policyWeight (heap st 260) = (150 :: i64) \<and> EvictEntries (\<lambda>e. removeEntry e EVICTED) (st :: (nat, nat) store) = Some st' \<and>
     policy_ok st' X' \<and> all_entries X' \<subseteq> {260} \<and> weightedSize (policy st') \<le> 100"
proof -
  obtain st :: "(nat, nat) store" where D: "policy_ok st (\<lambda>q. if q = QWindow then [260] else [])" "maintains st st" "policyWeight (heap st 260) = 150"
    "capacity (policy st) = 100" by (rule demo_window [of 150]) simp
  have "all_entries (\<lambda>q. if q = QWindow then [260] else []) = {260 :: addr}" by (auto simp: all_entries_def split: if_splits)
  then obtain st' X' where "EvictEntries (\<lambda>e. removeEntry e EVICTED) st = Some st'" "policy_ok st' X'" "all_entries X' \<subseteq> {260}" "weightedSize (policy st') \<le> 100"
    using evict_entries_makes_room [OF D(1,2)] D(4) by auto
  then show ?thesis using D(3) by (intro exI [of _ st] exI [of _ st'] exI [of _ X']) simp
qed

text \<open>
  C29. An update of an entry's cost keeps the counted weight within the capacity, and an entry
  that has become heavier than the whole cache is evicted itself.
\<close>

theorem update_cost_keeps_capacity:
  fixes st :: "('k, 'v::zero, 'z) store_scheme"
  assumes "policy_ok st X" "maintains st st" "e \<in> set (X q)" "0 \<le> sint (policyWeight (heap st e) + d)"
  shows "\<exists>st' X'. tlfu_UpdateCost (\<lambda>e. removeEntry e EVICTED) e d (st\<lparr>heap := reweigh e d (heap st)\<rparr>) = Some st' \<and> policy_ok st' X' \<and>
    weightedSize (policy st') \<le> capacity (policy st') \<and> (\<forall>a\<in>all_entries X - all_entries X'. gone_from_store st' a) \<and>
    (slt (capacity (policy st)) (policyWeight (heap st e) + d) \<longrightarrow> e \<notin> all_entries X')"
proof -
  let ?st = "st\<lparr>heap := reweigh e d (heap st)\<rparr>"
  have "store_side ?st"
    using assms(2) map_inv_cong [of st ?st] wreps_wview [OF wview_reweigh, of e d "heap st"] by (auto simp: maintains_def store_side_def)
  then have "maintains ?st ?st" by (simp add: maintains_def wheel_links_def)
  from evict.UpdateCost_spec [OF assms(1,3,4) refl this] show ?thesis by (auto simp: evict.keeps_def)
qed

theorem update_cost_keeps_capacity_witness:
  "\<exists>st st' X'. policyWeight (heap st 260) = (3 :: i64) \<and> policy_ok st' X' \<and> 260 \<notin> all_entries X' \<and>
     tlfu_UpdateCost (\<lambda>e. removeEntry e EVICTED) 260 200 ((st :: (nat, nat) store)\<lparr>heap := reweigh 260 200 (heap st)\<rparr>) = Some st'"
proof -
  obtain st :: "(nat, nat) store" where D: "policy_ok st (\<lambda>q. if q = QWindow then [260] else [])" "maintains st st" "policyWeight (heap st 260) = 3"
    "capacity (policy st) = 100" by (rule demo_window [of 3]) simp
  have "slt (100 :: i64) 203" by (simp add: slt_def)
  then show ?thesis using update_cost_keeps_capacity [OF D(1,2), of 260 QWindow 200] D(3,4) by auto
qed

text \<open>
  An access keeps the entries and their weights and moves the accessed entry: to the front
  of its list, or from probation to the front of protected. Before that the hill climber may
  move entries between the regions, which changes no membership.
\<close>

theorem access_touches:
  fixes st :: "('k, 'v::zero, 'z) store_scheme"
  assumes "policy_ok st X" "maintains st st" "rb_entry item = Some e" "\<not> IsRoot (flags (heap st) e)"
  shows "\<exists>st' X1 X'. tlfu_Access item st = Some st' \<and> policy_ok st' X' \<and> all_entries X' = all_entries X \<and>
    weightedSize (policy st') = weightedSize (policy st) \<and> all_entries X1 = all_entries X \<and>
    (if e \<in> all_entries X1 then \<exists>q. e \<in> set (X1 q) \<and> X' = touch e q X1 else X' = X1)"
proof -
  obtain st' X1 X' where A: "tlfu_Access item st = Some st'" "evict.keeps st st (all_entries X) st' X'" "weightedSize (policy st') = weightedSize (policy st)"
    "all_entries X1 = all_entries X" "if e \<in> all_entries X1 then \<exists>q. e \<in> set (X1 q) \<and> X' = touch e q X1 else X' = X1"
    using evict.Access_spec [OF assms] by (elim exE conjE) (rule that)
  have "all_entries X' = all_entries X" using A(4,5) all_entries_touch by (auto split: if_splits)
  then show ?thesis using A by (intro exI [of _ st'] exI [of _ X1] exI [of _ X']) (simp add: evict.keeps_def)
qed

theorem access_touches_witness:
  "\<exists>st st' X'. tlfu_Access \<lparr>rb_entry = Some 260, rb_hash = 5\<rparr> (st :: (nat, nat) store) = Some st' \<and> policy_ok st' X' \<and> all_entries X' = {260}"
proof -
  obtain st :: "(nat, nat) store" where D: "policy_ok st (\<lambda>q. if q = QWindow then [260] else [])" "maintains st st" "\<not> IsRoot (flags (heap st) 260)"
    by (rule demo_window [of 3]) simp
  have "all_entries (\<lambda>q. if q = QWindow then [260] else []) = {260 :: addr}" by (auto simp: all_entries_def split: if_splits)
  then show ?thesis using access_touches [OF D(1,2) _ D(3), of "\<lparr>rb_entry = Some 260, rb_hash = 5\<rparr>"] by auto
qed

text \<open>
  C30. Resizing by the hill climber is conservative: for an amount that the clamping allows,
  \<open>resizeWindow\<close> returns, the capacities of the window and the protected region add up to
  what they did, each stays in its range, and no entry is lost or reweighed.
\<close>

theorem resize_window_conserves:
  fixes st :: "('k, 'v, 'z) store_scheme"
  assumes "policy_ok st X" "- (sint (l_capacity (window (policy st))) - 1) \<le> sint (amount (policy st))"
    "sint (amount (policy st)) \<le> sint (l_capacity (protected (slru (policy st))))"
  shows "\<exists>st' X'. resizeWindow st = Some st' \<and> policy_ok st' X' \<and> all_entries X' = all_entries X \<and>
    weightedSize (policy st') = weightedSize (policy st) \<and>
    l_capacity (window (policy st')) + l_capacity (protected (slru (policy st'))) = l_capacity (window (policy st)) + l_capacity (protected (slru (policy st)))"
proof -
  have I: "policy_inv st X" "climber_ok (policy st)" "nonneg (heap st) X" using assms(1) by (simp_all add: policy_ok_def)
  obtain st' X' where R: "resizeWindow st = Some st'" "adjusted st X st' X'" "climber_ok (policy st')"
    "l_capacity (window (policy st')) + l_capacity (protected (slru (policy st'))) = l_capacity (window (policy st)) + l_capacity (protected (slru (policy st)))"
    using resizeWindow_spec [OF policy_inv_reps [OF I(1)] I(3,2) assms(2,3)] by blast
  have "policy_ok st' X'" using adjusted_inv [OF I(1) R(2)] R(3) adjusted_nonneg [OF R(2) I(3)] by (simp add: policy_ok_def)
  then show ?thesis using R by (auto simp: adjusted_def)
qed

theorem resize_window_conserves_witness:
  "\<exists>st st' X'. resizeWindow (st :: (nat, nat) store) = Some st' \<and> policy_ok st' X' \<and> all_entries X' = {260}"
proof -
  obtain st :: "(nat, nat) store" where D: "policy_ok st (\<lambda>q. if q = QWindow then [260] else [])" by (rule demo_window [of 3]) simp
  define t where "t = (policy st)\<lparr>amount := 0\<rparr>"
  have "plist t = plist (policy st)" by (simp add: t_def fun_eq_iff pqueue_all)
  then have k: "policy_ok (st\<lparr>policy := t\<rparr>) (\<lambda>q. if q = QWindow then [260] else [])"
    by (rule evict.policy_ok_frame [OF D]) (use policy_ok_parts(4) [OF D] in \<open>simp_all add: t_def\<close>)
  then have "caps_ok t" by (simp add: policy_ok_def climber_ok_def)
  then have "1 \<le> sint (l_capacity (window t))" "0 \<le> sint (l_capacity (protected (slru t)))" by (simp_all add: caps_ok_def)
  moreover have "all_entries (\<lambda>q. if q = QWindow then [260] else []) = {260 :: addr}" by (auto simp: all_entries_def split: if_splits)
  ultimately show ?thesis using resize_window_conserves [OF k] by (auto simp: t_def)
qed

subsection \<open>The timer wheel\<close>

text \<open>
  Scheduling puts an entry into exactly one bucket: the one whose tick the expiry time
  falls into, at the level of its distance from now; the wheel has not yet passed it, so the
  entry will be looked at. All other entries stay where they are.
\<close>

theorem schedule_places_once:
  assumes "wreps (heap st) (timerwheel st) R" "\<not> IsRoot (flags (heap st) e)"
    "0 \<le> sint (nanos (timerwheel st))" "sint (nanos (timerwheel st)) < sint (expire (heap st e))"
  shows "\<exists>h tw R' x y. schedule e st = Some (st\<lparr>heap := h, timerwheel := tw\<rparr>) \<and> wreps h tw R' \<and> wroots tw = wroots (timerwheel st) \<and>
    x < 5 \<and> y = slot x (expire (heap st e)) \<and> due_ok (nanos (timerwheel st)) x (expire (heap st e)) \<and>
    (\<forall>r\<in>set (wroots tw). e \<in> set (R' r) \<longleftrightarrow> r = wroot tw x y) \<and> (\<forall>r. removeAll e (R' r) = removeAll e (R r))"
proof -
  define x where "x = level_of (expire (heap st e) - nanos (timerwheel st))"
  define y where "y = slot x (expire (heap st e))"
  define r where "r = wroot (timerwheel st) x y"
  obtain h tw where S: "schedule e st = Some (st\<lparr>heap := h, timerwheel := tw\<rparr>)" "wroots tw = wroots (timerwheel st)" "wroot tw = wroot (timerwheel st)"
    "wreps h tw ((\<lambda>r. removeAll e (R r))(r := e # removeAll e (R r)))"
    using schedule_spec [OF assms(1,2) refl x_def y_def r_def] by auto
  have d: "due_ok (nanos (timerwheel st)) x (expire (heap st e))" unfolding x_def by (rule placed_due [OF assms(3,4)])
  have x: "x < 5" unfolding x_def by (rule level_of_lt)
  show ?thesis
    by (intro exI [of _ h] exI [of _ tw] exI [of _ "(\<lambda>r. removeAll e (R r))(r := e # removeAll e (R r))"] exI [of _ x] exI [of _ y])
      (use S d x in \<open>auto simp: y_def r_def\<close>)
qed

theorem schedule_places_once_witness:
  "\<exists>st h tw R'. expire (heap (st :: (nat, nat) store) 260) = 2 ^ 40 \<and> schedule 260 st = Some (st\<lparr>heap := h, timerwheel := tw\<rparr>) \<and> wreps h tw R'"
proof -
  obtain st0 where D: "NewStore demo_rt demo_opt = Some st0" "store_inv st0 (\<lambda>_. [])" "\<forall>a\<ge>260. fresh st0 a" by (rule demo_store)
  have f: "fresh st0 260" using D(3) by simp
  define st1 where "st1 = st0\<lparr>heap := (heap st0)(260 := zero_entry\<lparr>policyWeight := 0, expire := 2 ^ 40\<rparr>)\<rparr>"
  note E = demo_entry [OF D(2) f st1_def]
  obtain R where W: "wreps (heap st1) (timerwheel st1) R" using E(1) by (auto simp: store_inv_def)
  define st where "st = st1\<lparr>timerwheel := (timerwheel st1)\<lparr>nanos := 5\<rparr>\<rparr>"
  have "wreps (heap st) (timerwheel st) R" using W by (simp add: st_def wreps_def wheel_shape_def wroots_def)
  moreover have e: "expire (heap st 260) = 2 ^ 40" "\<not> IsRoot (flags (heap st) 260)" "nanos (timerwheel st) = 5" using E(2,6) by (simp_all add: st_def)
  ultimately obtain h tw R' where "schedule 260 st = Some (st\<lparr>heap := h, timerwheel := tw\<rparr>)" "wreps h tw R'"
    using schedule_places_once [of st R 260] by auto
  then show ?thesis using e(1) by blast
qed



subsection \<open>Removal\<close>



text \<open>
  C38. A refreshed entry is left half removed. When the wheel expires an entry whose time was
  extended in the meantime, \<open>removeEntry\<close> returns early, but it has already set the removed
  flag: the entry stays in the hash map and in the policy, and every later \<open>UPDATE\<close> of it is
  dropped, so that neither its weight nor its new expiry time reaches the policy and the
  wheel.
\<close>

theorem refreshed_entry_updates_dropped:
  fixes st :: "('k, 'v::zero, 'z) store_scheme"
  assumes "map_inv st" "slt (fst (read_now st)) (expire (heap st e))" "\<not> IsDeleted (flags (heap st) e)" "wb_entry item = Some e" "wb_code item = UPDATE"
    "\<not> wb_fromNVM item"
  shows "\<exists>st'. removeEntry e EXPIRED st = Some st' \<and> entry_at st' = entry_at st \<and> m_prev (meta (heap st' e)) = m_prev (meta (heap st e)) \<and>
    sinkWrite item st' = Some st'"
proof -
  let ?st = "st\<lparr>heap := modify e (flag_update (SetRemoved True)) (heap st), clk_pos := clk_pos st + 1\<rparr>"
  have "entry_at ?st = entry_at st" by (simp add: fun_eq_iff entry_at_def index_def)
  moreover have "sinkWrite item ?st = Some ?st" using assms(3-6) by (simp add: sinkWrite_def modify_def flags_def Let_def)
  ultimately show ?thesis using removeEntry_refreshed [OF assms(2,1)] by (auto simp: modify_def)
qed

theorem refreshed_entry_updates_dropped_witness:
  "\<exists>st st'. expire (heap (st :: (nat, nat) store) 260) = 2 ^ 40 \<and> removeEntry 260 EXPIRED st = Some st' \<and>
     sinkWrite \<lparr>wb_entry = Some 260, wb_costChange = 4, wb_code = UPDATE, wb_rechedule = True, wb_fromNVM = False, wb_hash = 0\<rparr> st' = Some st'"
proof -
  obtain st0 where D: "NewStore demo_rt demo_opt = Some st0" "store_inv st0 (\<lambda>_. [])" "\<forall>a\<ge>260. fresh st0 a" by (rule demo_store)
  have f: "fresh st0 260" using D(3) by simp
  define st1 where "st1 = st0\<lparr>heap := (heap st0)(260 := zero_entry\<lparr>policyWeight := 3, expire := 2 ^ 40\<rparr>)\<rparr>"
  note E = demo_entry [OF D(2) f st1_def]
  define st where "st = st1\<lparr>clk := (\<lambda>n. Start (tw_clock (timerwheel st1)))\<rparr>"
  have "map_inv st" using map_inv_cong [OF store_inv_parts(3) [OF E(1)], of st] by (simp add: st_def)
  moreover have "fst (read_now st) = 0" by (simp add: st_def read_now_def NowNano_def clamp64_def)
  moreover have "\<not> IsDeleted (flags (heap st) 260)" by (simp add: st_def st1_def flags_def zero_entry_def)
  moreover have "expire (heap st 260) = 2 ^ 40" using E(6) by (simp add: st_def)
  ultimately show ?thesis using refreshed_entry_updates_dropped [of st 260 "\<lparr>wb_entry = Some 260, wb_costChange = 4, wb_code = UPDATE, wb_rechedule = True, wb_fromNVM = False, wb_hash = 0\<rparr>"]
    by (auto simp: slt_def)
qed

subsection \<open>Client operations\<close>

text \<open>
  A new store is empty and well formed: for a positive size the constructor returns, the
  number of shards is the power of two between 16 and 128, every key is unbound, and the
  capacity is the configured one.
\<close>

theorem new_store_ready:
  fixes opt :: "'v::zero StoreOptions" and rt :: "'k::zero runtime"
  assumes "0 < sint (MaxSize opt)" "runtime_ok rt"
  shows "\<exists>st. NewStore rt opt = Some st \<and> store_inv st (\<lambda>_. []) \<and> lookup st = Map.empty \<and> writeChan st = [] \<and> capacity (policy st) = MaxSize opt \<and>
    (\<exists>m\<in>{4..7}. length (shards st) = 2 ^ m)"
  using NewStore_spec [OF assms] shard_count_pow2 [of "GOMAXPROCS rt"] by fastforce

theorem new_store_ready_witness: "\<exists>st. NewStore demo_rt demo_opt = Some st \<and> lookup st = Map.empty \<and> capacity (policy st) = 100"
  using new_store_ready [OF demo_ok(1,2)] by (auto simp: demo_opt_def)



text \<open>
  What was set can be read. In a state of a run, when \<open>Set\<close> without a TTL has bound a key
  that was not bound, the next \<open>Get\<close> returns the value, although the policy has not handled
  the event yet.
\<close>

lemma set_then_get:
  fixes st :: "('k::zero, 'v::zero, 'z) store_scheme"
  assumes "run_inv cap A st" "may_set costf v cost st" "lookup st k = None" "\<not> closed_at st k" "store_Set costf k v cost 0 st = Some (True, st1)"
  shows "\<exists>st2. store_Get k st1 = Some ((v, True), st2)"
proof -
  obtain X where K: "core_inv cap st X" using assms(1) by (auto simp: run_inv_def)
  have K': "store_inv st X" "supply_ok st" "doors_ok st" "roomy st" using K assms(2) by (simp_all add: core_inv_def may_set_def)
  obtain n where S: "set_outcome (st\<lparr>clk_pos := n\<rparr>) X k v (set_cost costf v cost) (set_expiry st 0) False True st1"
    using store_Set_spec [OF K', of costf k v cost 0] assms(5) by auto
  have cl: "\<not> closed_at (st\<lparr>clk_pos := n\<rparr>) k" using assms(4) by (simp add: closed_at_def index_def)
  obtain e i st' where W: "written (st\<lparr>clk_pos := n\<rparr>) X k v (set_cost costf v cost) (set_expiry st 0) e st'" "st1 = send i st'"
    using S cl by (auto simp: set_outcome_def)
  note w = written_send [OF W(1), of i, folded W(2)]
  have no: "entry_at (st\<lparr>clk_pos := n\<rparr>) k = None" using assms(3) by (simp add: lookup_def entry_at_def index_def)
  have e: "expire (heap st1 e) = 0" using W no by (simp add: written_def set_expiry_def send_def)
  have at: "entry_at st1 k = Some e" "lookup st1 k = Some v" using w(4,5) by simp_all
  then have v: "evalue (heap st1 e) = v" by (simp add: lookup_def)
  have "run_inv cap (A(k \<mapsto> v)) st1" using run_set [OF assms(1,2), of k 0] assms(5) by auto
  then obtain Y where "core_inv cap st1 Y" by (auto simp: run_inv_def)
  then have "store_inv st1 Y" "reads_ok st1" by (simp_all add: core_inv_def)
  from Get_inv [OF this, of k] show ?thesis using at(1) e v by (auto simp: getFromShard_def entry_at_def)
qed



text \<open>
  \<open>Delete\<close> unbinds exactly the key. Nothing else changes in the map or in the heap, and
  if the key was bound, one \<open>REMOVE\<close> event for its entry is sent.
\<close>

theorem delete_unbinds:
  assumes "store_inv st X" "supply_ok st" "doors_ok st"
  shows "\<exists>st'. store_Delete k st = Some st' \<and> store_inv st' X \<and> lookup st' = (lookup st)(k := None) \<and> heap st' = heap st \<and>
    (\<exists>item. writeChan st' = (if entry_at st k = None then writeChan st else writeChan st @ [item]) \<and> wb_entry item = entry_at st k \<and> wb_code item = REMOVE)"
  using Delete_spec [OF assms, of k] by blast

theorem delete_unbinds_witness:
  "\<exists>st0 st st'. NewStore demo_rt demo_opt = Some st0 \<and> store_Set (costfn demo_opt) 1 7 0 0 st0 = Some (True, st) \<and> store_Delete 1 st = Some st' \<and>
     lookup st 1 = Some 7 \<and> lookup st' 1 = None"
proof -
  obtain st0 st where R: "NewStore demo_rt demo_opt = Some st0" "store_Set (costfn demo_opt) 1 7 0 0 st0 = Some (True, st)"
    "(store_step (costfn demo_opt))\<^sup>*\<^sup>* (Map.empty, st0) ([1 \<mapsto> 7], st)" "lookup st 1 = Some 7" by (rule demo_run)
  obtain X where "core_inv (MaxSize demo_opt) st X" using run_reachable [OF demo_ok R(1,3)] by (auto simp: run_inv_def)
  then have "store_inv st X" "supply_ok st" "doors_ok st" by (simp_all add: core_inv_def)
  from delete_unbinds [OF this, of 1] show ?thesis using R by auto
qed

text \<open>
  C40. After \<open>Close\<close> every key is unbound and stays so: a later \<open>Get\<close> misses, and a later
  \<open>Set\<close> changes nothing in the map, although, unless the cost is too large, it reports
  success.
\<close>

theorem closed_store_is_empty:
  fixes st :: "('k::zero, 'v::zero, 'z) store_scheme"
  assumes "run_inv cap A st" "may_set costf v cost (store_Close st)"
  shows "lookup (store_Close st) = Map.empty \<and> (\<exists>st'. store_Get k (store_Close st) = Some ((0, False), st')) \<and>
    (\<exists>st'. store_Set costf k v cost ttl (store_Close st) = Some (\<not> slt (st_cap st) (set_cost costf v cost), st') \<and> lookup st' = Map.empty)"
proof -
  let ?st = "store_Close st"
  note R = run_close [OF assms(1)]
  obtain X where K: "core_inv cap ?st X" "chan_ok ?st (writeChan ?st)" using R(1) by (auto simp: run_inv_def)
  then have I: "store_inv ?st X" "supply_ok ?st" "doors_ok ?st" "roomy ?st" using assms(2) by (simp_all add: core_inv_def may_set_def)
  obtain X0 where "core_inv cap st X0" using assms(1) by (auto simp: run_inv_def)
  then have c: "closed_at ?st k" using Close_spec(4) [of st X0] by (simp add: core_inv_def)
  obtain v0 ok st' where g: "store_Get k ?st = Some ((v0, ok), st')" "if ok then Map.empty k = Some v0 else v0 = 0" using run_get [OF R(1), of k] by blast
  have cap: "st_cap ?st = st_cap st" by (simp add: store_Close_def)
  have "\<exists>st'. store_Set costf k v cost ttl ?st = Some (\<not> slt (st_cap st) (set_cost costf v cost), st')"
  proof (cases "slt (st_cap st) (set_cost costf v cost)")
    case True
    then show ?thesis using cap by (simp add: store_Set_def set_cost_def)
  next
    case False
    have run: "setInternal k v w ex False st1 = Some (True, st1)" if "shards st1 = shards ?st" "shardCount st1 = shardCount ?st" "s_hasher st1 = s_hasher ?st" for w ex and st1 :: "('k, 'v, 'z) store_scheme"
      using c index_lt [OF store_inv_parts(3) [OF I(1)], of k] that
      by (simp add: setInternal_def setShardWithoutLock_def closed_at_def toPolicy_def index_def Let_def)
    show ?thesis using False cap run by (simp add: store_Set_def set_cost_def Let_def)
  qed
  moreover obtain ok' st'' where "store_Set costf k v cost ttl ?st = Some (ok', st'')" "lookup st'' = (if ok' \<and> \<not> closed_at ?st k then (lookup ?st)(k \<mapsto> v) else lookup ?st)"
    using set_inv [OF K assms(2), of k ttl] by blast
  ultimately show ?thesis using R(2) g c by (auto split: if_splits)
qed

theorem closed_store_is_empty_witness:
  "\<exists>st0 st st'. NewStore demo_rt demo_opt = Some st0 \<and> store_Set (costfn demo_opt) 1 7 0 0 st0 = Some (True, st) \<and>
     store_Get 1 (store_Close st) = Some ((0, False), st')"
proof -
  obtain st0 st where R: "NewStore demo_rt demo_opt = Some st0" "store_Set (costfn demo_opt) 1 7 0 0 st0 = Some (True, st)"
    "(store_step (costfn demo_opt))\<^sup>*\<^sup>* (Map.empty, st0) ([1 \<mapsto> 7], st)" by (rule demo_run)
  have "roomy (store_Close st)" by (simp add: roomy_def store_Close_def)
  then have "may_set (costfn demo_opt) 7 0 (store_Close st)" by (simp add: may_set_def set_cost_def costfn_def demo_opt_def)
  from closed_store_is_empty [OF run_reachable [OF demo_ok R(1,3)] this, of 1] show ?thesis using R by blast
qed

subsection \<open>Lists\<close>

text \<open>
  C39. The intrusive lists behave like lists. Inserting an entry after any prefix of a list
  succeeds, \<open>entries\<close> then lists it at that position, and removing it gives back the list
  and the header as they were.
\<close>

theorem list_insert_remove_roundtrip:
  assumes "hrings (l_listType l) h S R" "l_root l \<in> S" "R (l_root l) = us @ vs" "e \<notin> S" "e \<notin> members S R" "\<not> IsRoot (flags h e)"
  shows "\<exists>h1 l1 h2. list_insert l e (last (l_root l # us)) h = Some (h1, l1) \<and> entries l1 h1 = Some (us @ e # vs) \<and>
    list_remove l1 e h1 = Some (h2, l) \<and> entries l h2 = Some (us @ vs)"
proof -
  define l1 where "l1 = l\<lparr>l_len := l_len l + policyWeight (h e), l_count := l_count l + 1\<rparr>"
  obtain h1 where i: "list_insert l e (last (l_root l # us)) h = Some (h1, l1)" "hrings (l_listType l) h1 S (R(l_root l := us @ e # vs))" "stripped (l_listType l) h h1"
    using hrings_insert [OF assms refl] unfolding l1_def by metis
  have H: "hrings (l_listType l1) h1 S (R(l_root l := us @ e # vs))" "l_root l1 \<in> S" "(R(l_root l := us @ e # vs)) (l_root l1) = us @ e # vs"
    using i(2) assms(2) by (simp_all add: l1_def)
  obtain h2 where r: "list_remove l1 e h1 = Some (h2, l1\<lparr>l_len := l_len l1 - policyWeight (h1 e), l_count := l_count l1 - 1\<rparr>)"
    "hrings (l_listType l1) h2 S ((R(l_root l := us @ e # vs))(l_root l1 := us @ vs))"
    using hrings_remove [OF H] by metis
  have "policyWeight (h1 e) = policyWeight (h e)" by (rule stripped_policyWeight [OF i(3)])
  then have "l1\<lparr>l_len := l_len l1 - policyWeight (h1 e), l_count := l_count l1 - 1\<rparr> = l" by (simp add: l1_def)
  moreover have "entries l h2 = Some (us @ vs)" using entries_spec [of l h2 S] r(2) assms(2) by (simp add: l1_def)
  ultimately show ?thesis using i(1) r(1) entries_spec [OF H(1,2)] H(3) by simp
qed

theorem list_insert_remove_roundtrip_witness:
  "\<exists>h1 l1 h2. list_insert (empty_list 9 LIST_WINDOW 0) 5 0 (\<lambda>a. if a = 0 then root_entry LIST_WINDOW 0 else (zero_entry :: (nat, nat) Entry)) = Some (h1, l1) \<and>
     entries l1 h1 = Some [5] \<and> list_remove l1 5 h1 = Some (h2, empty_list 9 LIST_WINDOW 0)"
proof -
  let ?h = "\<lambda>a. if a = 0 then root_entry LIST_WINDOW 0 else (zero_entry :: (nat, nat) Entry)"
  have "hrings LIST_WINDOW ?h {0} (\<lambda>_. [])"
    using root_entry_links(5,6) [of QWindow 0, unfolded ltype.simps] root_entry_links(7)
    by (auto simp: hrings_def rings_def members_def valid_lt_def ring_empty nxt_def prv_def flags_def)
  then show ?thesis using list_insert_remove_roundtrip [of "empty_list 9 LIST_WINDOW 0" ?h "{0}" "\<lambda>_. []" "[]" "[]" 5]
    by (auto simp: empty_list_def members_def flags_def zero_entry_links)
qed

end
