(* ===== verification/Hybrid_Properties.thy ===== *)
theory Hybrid_Properties
  imports Hybrid_Runs Store_Properties
begin

text \<open>
  Properties of the store with a secondary cache and of the loading store: what a read returns
  on every path, what survives an eviction, the invariant over runs in which reads, writes,
  deletions, loads, the worker and the maintenance goroutine interleave, and the paths on
  which the two caches disagree.
\<close>

subsection \<open>Runs\<close>

text \<open>
  A state is the store, the secondary cache and the items the worker has written but not yet
  dropped. The costs that the secondary cache or the loader report are not negative.
\<close>

definition may_load :: "('k, 'v, 'e, 'c) SecondaryCache_ops \<Rightarrow> ('v \<Rightarrow> i64) \<Rightarrow> ('k \<Rightarrow> 'v Loaded \<times> 'e cache_error option) \<Rightarrow> 'k \<Rightarrow> ('k, 'v::zero, 'z) store_scheme \<Rightarrow> 'c \<Rightarrow> bool" where
  "may_load S costf loader k st c \<longleftrightarrow> roomy st \<and> (\<forall>v cost. fst (snd (loading_result S costf loader k st c)) = Some (v, cost) \<longrightarrow> 0 \<le> sint cost)"

inductive hybrid_step :: "('k, 'v, 'e, 'c) SecondaryCache_ops \<Rightarrow> ('v \<Rightarrow> i64) \<Rightarrow> ('k::zero, 'v::zero, 'z) store_scheme \<times> 'c \<times> SecondaryCacheItem list
    \<Rightarrow> ('k, 'v, 'z) store_scheme \<times> 'c \<times> SecondaryCacheItem list \<Rightarrow> bool" for S costf where
  hy_store: "store_step costf (lookup st, st) (A, st') \<Longrightarrow> hybrid_step S costf (st, c, fl) (st', c, fl)"
| hy_get: "roomy st \<Longrightarrow> sane_cost S k c \<Longrightarrow> GetWithSecodary S k st c = Some (r, st', c') \<Longrightarrow> hybrid_step S costf (st, c, fl) (st', c', fl)"
| hy_load: "may_load S costf loader k st c \<Longrightarrow> LoadingStore_Get S costf loader k st c = Some (r, st', c') \<Longrightarrow> hybrid_step S costf (st, c, fl) (st', c', fl)"
| hy_delete: "DeleteWithSecondary S k st c = Some (r, st', c') \<Longrightarrow> hybrid_step S costf (st, c, fl) (st', c', fl)"
| hy_write: "secondaryCacheBuf st = item # rest \<Longrightarrow> processSecondary_write S item st c = (w, c') \<Longrightarrow>
    hybrid_step S costf (st, c, fl) (st\<lparr>secondaryCacheBuf := rest\<rparr>, c', if w then item # fl else fl)"
| hy_drop: "hybrid_step S costf (st, c, fl @ item # fl') (processSecondary_drop item st, c, fl @ fl')"

inductive_cases hybrid_stepE: "hybrid_step S costf (st, c, fl) (st', c', fl')"

lemma calm_offers:
  assumes "calm_inv cap st" shows "calm_inv cap (st\<lparr>secondaryCacheBuf := q, clk := f, secondaryCache := b, probability := r\<rparr>)"
proof -
  obtain X where K: "core_inv cap st X" and c: "chan_ok st (writeChan st)" using assms by (auto simp: calm_inv_def)
  let ?st = "st\<lparr>secondaryCacheBuf := q, clk := f, secondaryCache := b, probability := r\<rparr>"
  have I: "store_inv ?st X" by (rule store_inv_cong [of st]) (use K in \<open>simp_all add: core_inv_def\<close>)
  have "core_inv cap ?st X" by (rule core_client [OF K I]) (use K in \<open>simp_all add: core_inv_def supply_ok_def doors_ok_def keeps_rest_def fresh_def unmapped_def\<close>)
  moreover have "chan_ok ?st (writeChan st)" by (rule chan_ok_calm [OF c]) (simp_all add: entry_at_def index_def map_le_def)
  ultimately show ?thesis by (auto simp: calm_inv_def)
qed

lemma calm_env: "calm_inv cap st \<Longrightarrow> calm_inv cap (st\<lparr>secondaryCacheBuf := q, clk := f, secondaryCache := b\<rparr>)"
  using calm_offers [where r = "probability st" and st = st] by simp

lemma calm_queue: "calm_inv cap st \<Longrightarrow> calm_inv cap (st\<lparr>secondaryCacheBuf := q\<rparr>)"
  using calm_env [where q = q and f = "clk st" and b = "secondaryCache st" and st = st] by simp

lemma hybrid_step_inv:
  assumes "hybrid_step S costf (st, c, fl) (st', c', fl')" "calm_inv cap st" shows "calm_inv cap st'"
  using assms(1)
proof (rule hybrid_stepE)
  fix A assume "store_step costf (lookup st, st) (A, st')"
  then show ?thesis using store_step_inv assms(2) run_calm unfolding calm_run [of cap st] by blast
next
  fix k r assume a: "roomy st" "sane_cost S k c" "GetWithSecodary S k st c = Some (r, st', c')"
  obtain r' l d where r: "secondary_result S k st c = (r', l, d)" by (metis prod.collapse)
  show ?thesis
  proof (cases "found k st")
    case True
    then show ?thesis using getsec_found [OF assms(2) True, of S c] a(3) calm_clock [OF assms(2)] by auto
  next
    case False
    then show ?thesis using getsec_calm [OF assms(2) False a(1,2) r] a(3) by auto
  qed
next
  fix loader k r assume a: "may_load S costf loader k st c" "LoadingStore_Get S costf loader k st c = Some (r, st', c')"
  obtain r' l d where r: "loading_result S costf loader k st c = (r', l, d)" by (metis prod.collapse)
  show ?thesis
  proof (cases "found k st")
    case True
    then show ?thesis using loading_found [OF assms(2) True, of S costf loader c] a(2) by auto
  next
    case False
    have "roomy st" "\<And>v cost. l = Some (v, cost) \<Longrightarrow> 0 \<le> sint cost" using a(1) r by (simp_all add: may_load_def)
    then show ?thesis using loading_calm [OF assms(2) False _ r] a(2) by fastforce
  qed
next
  fix k r assume "DeleteWithSecondary S k st c = Some (r, st', c')"
  then show ?thesis using delsec_calm [OF assms(2), of S k c] by auto
next
  fix item rest w assume "st' = st\<lparr>secondaryCacheBuf := rest\<rparr>"
  then show ?thesis using calm_queue [OF assms(2)] by simp
next
  fix a item b assume "st' = processSecondary_drop item st"
  then show ?thesis using drop_calm(1) [OF assms(2)] by simp
qed

text \<open>A store in which key 1 is bound to 7, with a secondary cache, at time zero.\<close>

lemma new_shards_empty: "new_shards lg False n = Some ss \<Longrightarrow> s \<in> set ss \<Longrightarrow> s = \<lparr>hashmap = [], dookeeper = None, s_counter = 0, s_closed = False\<rparr>"
  by (induction n arbitrary: ss) (auto simp: NewShard_def split: bind_splits)

lemma NewStore_shards: "NewStore rt opt = Some st \<Longrightarrow> \<exists>n. new_shards (rt_log rt) (Doorkeeper opt) n = Some (shards st)"
  by (auto simp: NewStore_def Let_def split: bind_splits prod.splits)

lemma demo_bound:
  obtains st :: "(nat, nat) store" and e where "calm_inv 100 st" "entry_at st 1 = Some e" "evalue (heap st e) = 7" "weight (heap st e) = 1" "expire (heap st e) = ex" "roomy st"
    "\<forall>k. \<not> closed_at st k" "\<not> doorkeeper st" "fst (read_now st) = 0" "secondaryCache st" "\<not> IsRoot (flags (heap st) e)" "\<forall>k. k \<noteq> 1 \<longrightarrow> entry_at st k = None" "\<not> IsFromNVM (flags (heap st) e)"
proof -
  obtain st0 where D: "NewStore demo_rt demo_opt = Some st0" "store_inv st0 (\<lambda>_. [])" "roomy st0" "lookup st0 = Map.empty" "\<not> doorkeeper st0" "entryPool st0 = None" by (rule demo_store)
  let ?s0 = "\<lparr>hashmap = [], dookeeper = None, s_counter = 0, s_closed = False\<rparr>"
  have sh: "s = ?s0" if "s \<in> set (shards st0)" for s using NewStore_shards [OF D(1)] new_shards_empty that by (auto simp: demo_opt_def)
  obtain h i where ix: "index 1 st0 = (h, i)" by (cases "index 1 st0")
  have i: "i < length (shards st0)" using index_lt [OF store_inv_parts(3) [OF D(2)], of 1] ix by simp
  then have si: "shards st0 ! i = ?s0" using sh by simp
  define e where "e = next_addr st0"
  define st1 where "st1 = st0\<lparr>heap := (heap st0)(e := zero_entry\<lparr>key := 1, evalue := 7, expire := ex, weight := 1, policyWeight := 0\<rparr>), next_addr := e + 1,
    shards := (shards st0)[i := ?s0\<lparr>hashmap := [(1, e)]\<rparr>], writeChan := writeChan st0 @ [\<lparr>wb_entry = Some e, wb_costChange = 1, wb_code = NEW, wb_rechedule = False, wb_fromNVM = False, wb_hash = h\<rparr>]\<rparr>"
  have "setInternal 1 7 1 ex False st0 = Some (True, st1)"
    using i D(5,6) by (simp add: setInternal_def ix setShardWithoutLock_def si shard_get_def Let_def takeEntry_def alloc_def shard_set_def set_shard_def modify_def
        toPolicy_def policyNewEntry_def send_def st1_def e_def del: One_nat_def)
  moreover have "calm_inv 100 st0" using run_calm [OF run_start [OF demo_ok D(1)]] by (simp add: demo_opt_def)
  ultimately have c1: "calm_inv 100 st1" using calm_set [of 100 st0 1 1 7 ex False] D(3) by auto
  define st where "st = st1\<lparr>secondaryCacheBuf := [], clk := (\<lambda>_. Start (tw_clock (timerwheel st1))), secondaryCache := True\<rparr>"
  have ix1: "index k st = index k st0" for k by (simp add: st_def st1_def index_def)
  have "entry_at st k = (if k = 1 then Some e else None)" for k
  proof -
    have "snd (index k st0) < length (shards st0)" by (rule index_lt [OF store_inv_parts(3) [OF D(2)]])
    then have "shards st0 ! snd (index k st0) = ?s0" using sh by simp
    then have "shards st ! snd (index k st0) = (if snd (index k st0) = i then ?s0\<lparr>hashmap := [(1, e)]\<rparr> else ?s0)" using i by (simp add: st_def st1_def del: One_nat_def)
    moreover have "snd (index k st0) = i" if "k = 1" using ix that by (simp del: One_nat_def)
    ultimately show ?thesis by (simp add: entry_at_def ix1 shard_get_def del: One_nat_def)
  qed
  moreover have "s \<in> {?s0, ?s0\<lparr>hashmap := [(1, e)]\<rparr>}" if "s \<in> set (shards st)" for s
    using that sh set_update_subset_insert [of "shards st0" i] by (auto simp: st_def st1_def)
  note ss = this
  have "20 * Suc (length (hashmap s)) \<le> 2 ^ 31" if "s \<in> set (shards st)" for s using ss [OF that] by auto
  then have "roomy st" by (simp add: roomy_def)
  moreover have "\<not> closed_at st k" for k
  proof -
    have "snd (index k st0) < length (shards st)" using index_lt [OF store_inv_parts(3) [OF D(2)], of k] by (simp add: st_def st1_def)
    from ss [OF nth_mem [OF this]] show ?thesis by (auto simp: closed_at_def ix1)
  qed
  moreover have "calm_inv 100 st" unfolding st_def by (rule calm_env [OF c1])
  ultimately show thesis using D(5) by (intro that [of st e]) (simp_all add: st_def st1_def read_now_def NowNano_def clamp64_def flags_def zero_entry_def)
qed



subsection \<open>Moving between the caches\<close>

lemma unbound_frame [simp]:
  "read_now (unbound e i st) = (fst (read_now st), (unbound e i st)\<lparr>clk_pos := clk_pos st + 1\<rparr>)" "closed_at (unbound e i st) k = closed_at st k" "doorkeeper (unbound e i st) = doorkeeper st"
proof -
  have "s_closed (fst (shard_delete h e s)) = s_closed s" for h s by (auto simp: shard_delete_def split: option.split)
  then have "s_closed ((shards st)[i := fst (shard_delete (heap st) e (shards st ! i))] ! j) = s_closed (shards st ! j)" for j
    by (cases "j = i"; cases "i < length (shards st)") (simp_all add: list_update_beyond)
  then show "closed_at (unbound e i st) k = closed_at st k" by (simp add: closed_at_def unbound_def set_shard_def index_def)
qed (simp_all add: read_now_def unbound_def set_shard_def)

lemma unbound_roomy:
  assumes "roomy st" shows "roomy (unbound e i st)"
proof -
  have l: "length (hashmap (fst (shard_delete h e s))) \<le> length (hashmap s)" for h s
    by (auto simp: shard_delete_def AList.delete_eq split: option.split)
  show ?thesis
  proof (cases "i < length (shards st)")
    case True
    then have "20 * Suc (length (hashmap (shards st ! i))) \<le> 2 ^ 31" using assms by (simp add: roomy_def)
    moreover have "20 * Suc (length (hashmap (fst (shard_delete (heap st) e (shards st ! i))))) \<le> 20 * Suc (length (hashmap (shards st ! i)))"
      using l [of "heap st" "shards st ! i"] by simp
    ultimately have "20 * Suc (length (hashmap (fst (shard_delete (heap st) e (shards st ! i))))) \<le> 2 ^ 31" by (rule order_trans [rotated])
    then show ?thesis using assms set_update_subset_insert [of "shards st" i] by (auto simp: roomy_def unbound_def set_shard_def)
  next
    case False
    then show ?thesis using assms by (simp add: roomy_def unbound_def set_shard_def list_update_beyond)
  qed
qed

text \<open>
  C15. An evicted value survives in the secondary cache. The worker takes an evicted entry that
  is still bound out of the map and into the secondary cache; the next read of the key,
  before the entry expires, returns the value and, without a doorkeeper, binds the key again.
\<close>

theorem evicted_value_survives:
  fixes st :: "('k::zero, 'v::zero, 'z) store_scheme"
  assumes H: "calm_inv cap st" and at: "entry_at st k = Some e" and rm: "roomy st" and c: "\<not> ErrMode c"
    and item: "sc_entry item = e" "sc_reason item = EVICTED" "sc_shard item = snd (index k st)" and now: "slt (fst (read_now st)) (expire (heap st e))"
  shows "\<exists>st1 c1 st2 c2. processSecondary simple_map item st c = (st1, c1) \<and> lookup st1 = (lookup st)(k := None) \<and>
    GetWithSecodary simple_map k st1 c1 = Some ((evalue (heap st e), True, None), st2, c2) \<and>
    (\<not> closed_at st k \<longrightarrow> \<not> doorkeeper st \<longrightarrow> lookup st2 = lookup st)"
proof -
  let ?st = "unbound e (sc_shard item) st"
  obtain c1 where P: "processSecondary simple_map item st c = (?st, c1)" "\<not> ErrMode c1" "sm_contents c1 = (sm_contents c)(k \<mapsto> (evalue (heap st e), weight (heap st e), expire (heap st e)))"
    using simple.worker_moves [OF H at c item] by blast
  note U = unbound_calm [OF H at item(3)]
  have f: "\<not> found k ?st" "after_get k ?st = ?st" using not_found [of ?st k] U(2) by simp_all
  have w: "0 \<le> sint (weight (heap st e))" using H chan_okD(4) [OF _ at] by (auto simp: calm_inv_def)
  have s: "sm_contents c1 k = Some (evalue (heap st e), weight (heap st e), expire (heap st e))" using P(3) by simp
  have n: "slt (fst (read_now (after_get k ?st))) (expire (heap st e))" using now f(2) by simp
  obtain st2 c2 where G: "GetWithSecodary simple_map k ?st c1 = Some ((evalue (heap st e), True, None), st2, c2)"
    "\<not> closed_at ?st k \<longrightarrow> \<not> doorkeeper ?st \<longrightarrow> lookup st2 = (lookup ?st)(k \<mapsto> evalue (heap st e))"
    using simple.promote [OF U(1) f(1) unbound_roomy [OF rm] P(2) s w n] by blast
  have "(lookup ?st)(k \<mapsto> evalue (heap st e)) = lookup st" using at by (simp add: U(3) lookup_def fun_upd_idem_iff)
  then show ?thesis using P(1) U(3) G by (intro exI [of _ ?st] exI [of _ c1] exI [of _ st2] exI [of _ c2]) simp
qed

theorem evicted_value_survives_witness:
  "\<exists>st c1 (st1 :: (nat, nat) store) st2 c2. lookup (st :: (nat, nat) store) 1 = Some 7 \<and> GetWithSecodary simple_map 1 st1 c1 = Some ((7, True, None), st2, c2) \<and>
     lookup st1 1 = None \<and> lookup st2 1 = Some 7"
proof -
  obtain st :: "(nat, nat) store" and e where D: "calm_inv 100 st" "entry_at st 1 = Some e" "evalue (heap st e) = 7" "expire (heap st e) = 2 ^ 40" "roomy st"
    "\<forall>k. \<not> closed_at st k" "\<not> doorkeeper st" "fst (read_now st) = 0" by (rule demo_bound)
  have "lookup st 1 = Some 7" using D(2,3) by (simp add: lookup_def)
  moreover have n: "slt (fst (read_now st)) (expire (heap st e))" using D(4,8) by (simp add: slt_def)
  have c: "\<not> ErrMode (NewSimpleMapSecondary :: (nat, nat) SimpleMapSecondary)" by (simp add: NewSimpleMapSecondary_def)
  define item where "item = \<lparr>sc_entry = e, sc_reason = EVICTED, sc_shard = snd (index 1 st)\<rparr>"
  then have "sc_entry item = e" "sc_reason item = EVICTED" "sc_shard item = snd (index 1 st)" by simp_all
  from evicted_value_survives [OF D(1,2,5) c this n, unfolded D(3)] obtain c1 and st1 st2 :: "(nat, nat) store" and c2 where
    "lookup st1 = (lookup st)(1 := None)" "GetWithSecodary simple_map 1 st1 c1 = Some ((7, True, None), st2, c2)"
    "\<not> closed_at st 1 \<longrightarrow> \<not> doorkeeper st \<longrightarrow> lookup st2 = lookup st" by (elim exE conjE) (rule that)
  ultimately show ?thesis using D(6,7) by (intro exI [of _ st] exI [of _ c1] exI [of _ st1] exI [of _ st2] exI [of _ c2]) simp
qed

text \<open>
  C17. An evicted value without an expiry time is lost. The worker writes it to the secondary
  cache with the expiry time zero; the next read takes zero for a time in the past, deletes
  the value there and misses.
\<close>

theorem evicted_without_ttl_lost:
  fixes st :: "('k::zero, 'v::zero, 'z) store_scheme"
  assumes H: "calm_inv cap st" and at: "entry_at st k = Some e" and c: "\<not> ErrMode c"
    and item: "sc_entry item = e" "sc_reason item = EVICTED" "sc_shard item = snd (index k st)" and ex: "expire (heap st e) = 0" and now: "0 \<le> sint (fst (read_now st))"
  shows "\<exists>st1 c1 v st2 c2. processSecondary simple_map item st c = (st1, c1) \<and> sm_contents c1 k = Some (evalue (heap st e), weight (heap st e), 0) \<and>
    GetWithSecodary simple_map k st1 c1 = Some ((v, False, None), st2, c2) \<and> lookup st2 k = None \<and> sm_contents c2 k = None"
proof -
  let ?st = "unbound e (sc_shard item) st"
  obtain c1 where P: "processSecondary simple_map item st c = (?st, c1)" "\<not> ErrMode c1" "sm_contents c1 = (sm_contents c)(k \<mapsto> (evalue (heap st e), weight (heap st e), expire (heap st e)))"
    using simple.worker_moves [OF H at c item] by blast
  note U = unbound_calm [OF H at item(3)]
  have f: "\<not> found k ?st" "after_get k ?st = ?st" using not_found [of ?st k] U(2) by simp_all
  have s: "sm_contents c1 k = Some (evalue (heap st e), weight (heap st e), 0)" using P(3) ex by simp
  have n: "\<not> slt (fst (read_now (after_get k ?st))) 0" using now f(2) by (simp add: slt_def)
  obtain m c2 where G: "GetWithSecodary simple_map k ?st c1 = Some ((evalue (heap st e), False, None), ?st\<lparr>clk_pos := m\<rparr>, c2)" "sm_contents c2 = (sm_contents c1)(k := None)"
    using simple.discard [OF U(1) f(1) P(2) s n] by blast
  have "lookup (?st\<lparr>clk_pos := m\<rparr>) k = None" using U(3) by (simp add: clock_view)
  then show ?thesis using P(1) s G by (intro exI [of _ ?st] exI [of _ c1] exI [of _ "evalue (heap st e)"] exI [of _ "?st\<lparr>clk_pos := m\<rparr>"] exI [of _ c2]) simp
qed

theorem evicted_without_ttl_lost_witness:
  "\<exists>(st1 :: (nat, nat) store) c1 v st2 c2. sm_contents c1 1 = Some (7, 1, 0) \<and> GetWithSecodary simple_map 1 st1 c1 = Some ((v, False, None), st2, c2) \<and> sm_contents c2 1 = None"
proof -
  obtain st :: "(nat, nat) store" and e where D: "calm_inv 100 st" "entry_at st 1 = Some e" "evalue (heap st e) = 7" "weight (heap st e) = 1" "expire (heap st e) = 0" "fst (read_now st) = 0" by (rule demo_bound)
  have c: "\<not> ErrMode (NewSimpleMapSecondary :: (nat, nat) SimpleMapSecondary)" by (simp add: NewSimpleMapSecondary_def)
  define item where "item = \<lparr>sc_entry = e, sc_reason = EVICTED, sc_shard = snd (index 1 st)\<rparr>"
  then have i: "sc_entry item = e" "sc_reason item = EVICTED" "sc_shard item = snd (index 1 st)" by simp_all
  have n: "0 \<le> sint (fst (read_now st))" using D(6) by simp
  from evicted_without_ttl_lost [OF D(1,2) c i D(5) n, unfolded D(3,4)] obtain c1 c2 :: "(nat, nat) SimpleMapSecondary" and st1 st2 :: "(nat, nat) store" and v where
    "sm_contents c1 1 = Some (7, 1, 0)" "GetWithSecodary simple_map 1 st1 c1 = Some ((v, False, None), st2, c2)" "sm_contents c2 1 = None" by (elim exE conjE) (rule that)
  then show ?thesis by (intro exI [of _ st1] exI [of _ c1] exI [of _ v] exI [of _ st2] exI [of _ c2]) simp
qed

text \<open>
  C19. A deletion does not reach the secondary cache unless the key is in memory. When the key
  lives in the secondary cache only, \<open>DeleteWithSecondary\<close> reports success and changes nothing,
  and the next read returns the deleted value.
\<close>

theorem delete_misses_secondary:
  fixes st :: "('k::zero, 'v::zero, 'z) store_scheme"
  assumes H: "calm_inv cap st" and at: "entry_at st k = None" and rm: "roomy st" and c: "\<not> ErrMode c" "sm_contents c k = Some (v, cost, ex)" "0 \<le> sint cost"
    and now: "slt (fst (read_now st)) ex"
  shows "DeleteWithSecondary simple_map k st c = Some (None, st, c) \<and> (\<exists>st' c'. GetWithSecodary simple_map k st c = Some ((v, True, None), st', c'))"
proof -
  have i: "snd (index k st) < length (shards st)" by (rule index_lt [OF calm_map [OF H]])
  have f: "\<not> found k st" "after_get k st = st" using not_found [OF at] by simp_all
  have "DeleteWithSecondary simple_map k st c = Some (None, st, c)" using i at by (simp add: DeleteWithSecondary_def entry_at_def)
  then show ?thesis using simple.promote [OF H f(1) rm c] now f(2) by auto
qed

theorem delete_misses_secondary_witness:
  "\<exists>c st st' c'. DeleteWithSecondary simple_map 2 (st :: (nat, nat) store) c = Some (None, st, c) \<and> GetWithSecodary simple_map 2 st c = Some ((9, True, None), st', c')"
proof -
  obtain st :: "(nat, nat) store" where D: "calm_inv 100 st" "roomy st" "fst (read_now st) = 0" "\<forall>k. k \<noteq> 1 \<longrightarrow> entry_at st k = None" by (rule demo_bound)
  let ?c = "snd (sm_Set 2 9 1 5 NewSimpleMapSecondary) :: (nat, nat) SimpleMapSecondary"
  have c: "\<not> ErrMode ?c" "sm_contents ?c 2 = Some (9, 1, 5)" by (simp_all add: sm_Set_def NewSimpleMapSecondary_def sm_contents_def Let_def)
  have "entry_at st 2 = None" "slt (fst (read_now st)) 5" using D(3,4) by (simp_all add: slt_def)
  from delete_misses_secondary [OF D(1) this(1) D(2) c _ this(2)] show ?thesis by auto
qed

subsection \<open>Stale reads\<close>

text \<open>What an eviction has done when it comes to the hash map: links, policy and the removed flag, nothing else.\<close>

lemma evicted_shape:
  fixes st :: "('k, 'v::zero, 'z) store_scheme"
  assumes I: "store_inv st X" and e: "\<not> IsRoot (flags (heap st) e)" and r: "removeEntry e EVICTED st = Some st'"
  obtains h t where "st' = removed_by e EVICTED (snd (index (key (heap st e)) st)) (st\<lparr>policy := t, heap := h\<rparr>)"
    "IsFromNVM (flag (h e)) = IsFromNVM (flag (heap st e))" "IsRemoved (flag (h e))"
proof -
  obtain R where W: "wreps (heap st) (timerwheel st) R" using I by (auto simp: store_inv_def)
  define st1 where "st1 = st\<lparr>heap := modify e (flag_update (SetRemoved True)) (heap st)\<rparr>"
  have l: "same_links (heap st) (heap st1)" by (simp add: st1_def same_links_flag)
  then have v: "pview (heap st1) = pview (heap st)" "policy st1 = policy st" "wview (heap st1) = wview (heap st)" by (simp_all add: same_links_def st1_def)
  obtain h t where P: "(if m_prev (meta (heap st1 e)) \<noteq> None then tlfu_Remove no_callback e False st1 else Some st1) = Some (st1\<lparr>heap := h, policy := t\<rparr>)" "pframe (heap st1) h"
    using policy_step [OF store_inv_parts(1) [OF I] e v(1,2), of no_callback] by (elim exE conjE) (rule that)
  have es: "e \<notin> set (wroots (timerwheel st))" using W e by (auto simp: wreps_def hrings_def)
  have "wview h = wview (heap st)" using pframe_wview [OF P(2)] v(3) by simp
  then have "wreps h (timerwheel st) R" using W wreps_wview by blast
  from unschedule [OF this es] obtain h' where D: "(if m_wheelPrev (meta (h e)) \<noteq> None then deschedule e h else Some h) = Some h'" "wframe h h'" by blast
  have f: "IsFromNVM (flags (heap st1) e) = IsFromNVM (flag (heap st e))" "IsRemoved (flags (heap st1) e)" by (simp_all add: st1_def flags_def modify_def)
  have "flag (h' e) = flag (h e)" using fun_cong [OF wframe_fields(8) [OF D(2)], of e] by (simp add: flags_def)
  then have n: "IsFromNVM (flag (h' e)) = IsFromNVM (flag (heap st e))" "IsRemoved (flag (h' e))"
    using P(2) f by (simp_all add: pframe_def store_flags_def flags_def)
  let ?i = "snd (index (key (heap st1 e)) st1)"
  have i: "?i = snd (index (key (heap st e)) st)" by (simp add: st1_def index_def modify_def)
  have "removeEntry e EVICTED st = (if ?i < length (shards st1) then
      do { st \<leftarrow> (if m_prev (meta (heap st1 e)) \<noteq> None then tlfu_Remove no_callback e False st1 else Some st1);
           h \<leftarrow> (if m_wheelPrev (meta (heap st e)) \<noteq> None then deschedule e (heap st) else Some (heap st));
           Some (removed_by e EVICTED ?i (st\<lparr>heap := h\<rparr>)) } else None)" by (simp add: removeEntry_def st1_def Let_def)
  also have "\<dots> = (if ?i < length (shards st1) then
      do { h \<leftarrow> (if m_wheelPrev (meta (h e)) \<noteq> None then deschedule e h else Some h); Some (removed_by e EVICTED ?i (st1\<lparr>heap := h, policy := t, heap := h\<rparr>)) } else None)"
    unfolding P(1) by simp
  finally have "st' = removed_by e EVICTED ?i (st\<lparr>policy := t, heap := h'\<rparr>)" using r unfolding D(1) by (simp add: st1_def split: if_splits)
  then show thesis using n unfolding i by (rule that)
qed

text \<open>An entry that came from the secondary cache is not offered to it again.\<close>

lemma nvm_not_offered:
  fixes st :: "('k, 'v::zero, 'z) store_scheme"
  assumes I: "store_inv st X" and e: "\<not> IsRoot (flags (heap st) e)" "IsFromNVM (flags (heap st) e)" and r: "removeEntry e EVICTED st = Some st'"
  shows "secondaryCacheBuf st' = secondaryCacheBuf st" "read_now st' = (NowNano (clk st (clk_pos st)) (tw_clock (timerwheel st)), st'\<lparr>clk_pos := clk_pos st + 1\<rparr>)"
proof -
  obtain h t where s: "st' = removed_by e EVICTED (snd (index (key (heap st e)) st)) (st\<lparr>policy := t, heap := h\<rparr>)" "IsFromNVM (flag (h e)) = IsFromNVM (flag (heap st e))"
    by (rule evicted_shape [OF I e(1) r])
  then have "secondaryCacheBuf st' = secondaryCacheBuf st \<and> clk st' = clk st \<and> clk_pos st' = clk_pos st \<and> timerwheel st' = timerwheel st"
    using e(2) by (simp add: flags_def removed_by_def offer_secondary_def remove_from_map_def notify_def postDelete_def set_shard_def Let_def split: prod.split option.split)
  then show "secondaryCacheBuf st' = secondaryCacheBuf st" "read_now st' = (NowNano (clk st (clk_pos st)) (tw_clock (timerwheel st)), st'\<lparr>clk_pos := clk_pos st + 1\<rparr>)"
    by (simp_all add: read_now_def)
qed

lemma remove_calm:
  fixes st :: "('k, 'v::zero, 'z) store_scheme"
  assumes H: "calm_inv cap st" and e: "\<not> IsRoot (flags (heap st) e)"
  shows "\<exists>st'. removeEntry e reason st = Some st' \<and> calm_inv cap st' \<and> evolves st st'"
proof -
  obtain X where K: "core_inv cap st X" and c: "chan_ok st (writeChan st)" using H by (auto simp: calm_inv_def)
  then have I: "store_inv st X" "entryPool st = None" by (simp_all add: core_inv_def)
  obtain st' X' where R: "removeEntry e reason st = Some st'" "store_inv st' X'" "all_entries X' \<subseteq> all_entries X" "handled {} st st'"
    using removeEntry_inv [OF I(1) e] by blast
  have ev: "evolves st st'" using R(4) by (simp add: handled_def)
  note F = evolves_flags [OF ev I(2)]
  have p: "m_prev (meta (heap st' a)) = None" if "\<not> IsRoot (flags (heap st) a)" "m_prev (meta (heap st a)) = None" for a
    using store_inv_member [OF I(1) that(1)] store_inv_member [OF R(2), of a] that R(3) evolves_root [OF ev, of a] by auto
  have "core_inv cap st' X'" by (rule core_handled [OF K R(4,2)]) (use p in simp_all)
  moreover have "chan_ok st' (writeChan st)"
    by (rule chan_ok_calm [OF c evolves_lookup(2) [OF ev store_inv_parts(3) [OF I(1)]]]) (use F p R(4) evolves_root [OF ev] in \<open>simp_all add: handled_def\<close>)
  ultimately show ?thesis using R(1) ev F(5) by (auto simp: calm_inv_def)
qed

lemma evolves_roomy: "evolves st st' \<Longrightarrow> roomy st \<Longrightarrow> roomy st'"
  unfolding roomy_def all_set_conv_all_nth
proof (intro allI impI)
  fix i assume ev: "evolves st st'" and r: "\<forall>i<length (shards st). 20 * Suc (length (hashmap (shards st ! i))) \<le> 2 ^ 31" and i: "i < length (shards st')"
  have l: "length (shards st') = length (shards st)" using ev by (simp add: evolves_def client_fields_def)
  then have "length (hashmap (shards st' ! i)) \<le> length (hashmap (shards st ! i))" using ev i by (simp add: evolves_def shard_evolves_def)
  then have "20 * Suc (length (hashmap (shards st' ! i))) \<le> 20 * Suc (length (hashmap (shards st ! i)))" by simp
  also have "\<dots> \<le> 2 ^ 31" using r i l by simp
  finally show "20 * Suc (length (hashmap (shards st' ! i))) \<le> 2 ^ 31" .
qed


text \<open>Setting the flag of an entry that came from the secondary cache, as \<open>sinkWrite\<close> does.\<close>

lemma nvm_calm:
  fixes st :: "('k, 'v::zero, 'z) store_scheme"
  assumes H: "calm_inv cap st" and st': "st' = st\<lparr>heap := modify e (flag_update (SetFromNVM True)) (heap st)\<rparr>"
  shows "calm_inv cap st'" "entry_at st' = entry_at st" "lookup st' = lookup st" "roomy st' = roomy st"
proof -
  obtain X where K: "core_inv cap st X" and c: "chan_ok st (writeChan st)" using H by (auto simp: calm_inv_def)
  then have I: "store_inv st' X" unfolding st' by (intro store_inv_links [OF _ same_links_flag(3)]) (simp add: core_inv_def)
  have h: "handled {} st st'" unfolding st'
    by (rule handled_heap) (simp_all add: client_fields_def entry_evolves_flag kept_params_def heap_simps, simp add: modify_def)
  show at: "entry_at st' = entry_at st" by (simp add: st' entry_at_def index_def fun_eq_iff)
  have "evalue (heap st' a) = evalue (heap st a)" for a by (simp add: st' modify_def)
  then show "lookup st' = lookup st" unfolding lookup_def at by simp
  show "roomy st' = roomy st" by (simp add: st' roomy_def)
  have "core_inv cap st' X" by (rule core_handled [OF K h I]) (auto simp: st' modify_def)
  moreover have "chan_ok st' (writeChan st)" by (rule chan_ok_calm [OF c]) (simp_all add: at, auto simp: st' modify_def flags_def)
  ultimately show "calm_inv cap st'" by (auto simp: calm_inv_def st')
qed


text \<open>
  C18. An entry that cannot be written to the secondary cache is never evicted. Its eviction
  takes it out of the policy and the timer wheel, marks it as removed and queues it; when the
  worker's write fails, the error is reported and the entry stays bound. From then on the
  events of writes to it are dropped, since it is marked, so that it does not come
  back into the policy: it holds memory that nothing counts until it is deleted.
\<close>

theorem failed_offload_stays:
  fixes st :: "('k::zero, 'v::zero, 'z) store_scheme"
  assumes H: "calm_inv cap st" and at: "entry_at st k = Some e" and nvm: "\<not> IsFromNVM (flags (heap st) e)"
    and queue: "secondaryCache st" "probability st = 1" "length (secondaryCacheBuf st) < 256" and c: "ErrMode c"
  shows "\<exists>st1 item c1. removeEntry e EVICTED st = Some st1 \<and> secondaryCacheBuf st1 = secondaryCacheBuf st @ [item] \<and>
    processSecondary simple_map item st1 c = (st1, c1) \<and> ErrCounter c1 = ErrCounter c + 1 \<and> lookup st1 k = lookup st k \<and>
    m_prev (meta (heap st1 e)) = None \<and> m_wheelPrev (meta (heap st1 e)) = None \<and>
    (\<forall>ev. wb_entry ev = Some e \<and> wb_code ev = UPDATE \<and> \<not> wb_fromNVM ev \<longrightarrow> sinkWrite ev st1 = Some st1)"
proof -
  obtain X where I: "store_inv st X" using H by (auto simp: calm_inv_def core_inv_def)
  note M = store_inv_parts(3) [OF I]
  have e: "\<not> IsRoot (flags (heap st) e)" using mapped_not_root(1) [OF M _ index_lt [OF M]] at by (simp add: entry_at_def)
  obtain R where W: "wreps (heap st) (timerwheel st) R" using I by (auto simp: store_inv_def)
  obtain st1 where R: "removeEntry e EVICTED st = Some st1" "policy_ok st1 (\<lambda>q. removeAll e (X q))" "wreps (heap st1) (timerwheel st1) (\<lambda>r. removeAll e (R r))" "evolves st st1"
    using removeEntry_spec [OF M store_inv_parts(1) [OF I] W e, of EVICTED] by (auto simp: removal_def)
  obtain h t where s: "st1 = removed_by e EVICTED (snd (index (key (heap st e)) st)) (st\<lparr>policy := t, heap := h\<rparr>)"
    "IsFromNVM (flag (h e)) = IsFromNVM (flag (heap st e))" "IsRemoved (flag (h e))" by (rule evicted_shape [OF I e R(1)])
  let ?item = "\<lparr>sc_entry = e, sc_reason = EVICTED, sc_shard = snd (index k st)\<rparr>"
  have k: "key (heap st e) = k" by (rule entry_at_key [OF M at])
  have st1: "st1 = st\<lparr>policy := t, heap := h, secondaryCacheBuf := secondaryCacheBuf st @ [?item]\<rparr>"
    using s(1,2) nvm queue unfolding k by (simp add: removed_by_def offer_secondary_def flags_def)
  have e1: "key (heap st1 e) = k" "\<not> IsRoot (flags (heap st1) e)" using R(4) k e evolves_root [OF R(4), of e] by (simp_all add: evolves_def entry_evolves_def)
  have p: "m_prev (meta (heap st1 e)) = None"
    using reps_member [OF policy_ok_parts(1) [OF R(2)], of e] reps_root [OF policy_ok_parts(1) [OF R(2)]] e1(2) by (auto simp: all_entries_def)
  have w: "m_wheelPrev (meta (heap st1 e)) = None"
    using wreps_member [OF R(3), of e] R(3) e1(2) by (auto simp: wreps_def hrings_def members_def)
  have at1: "entry_at st1 k = Some e" using at by (simp add: st1 entry_at_def index_def)
  moreover have "evalue (heap st1 e) = evalue (heap st e)" by (rule evolves_entry_at(2) [OF R(4) M at1])
  ultimately have l: "lookup st1 k = lookup st k" using at by (simp add: lookup_def)
  have g: "shard_get k (shards st1 ! snd (index k st)) = Some e" using at by (simp add: st1 entry_at_def)
  have "processSecondary simple_map ?item st1 c = (st1, c\<lparr>ErrCounter := ErrCounter c + 1\<rparr>)"
    using c g e1(1) by (simp add: processSecondary_def processSecondary_write_def simple_map_def sm_Set_def sm_HandleAsyncError_def)
  moreover have "sinkWrite ev st1 = Some st1" if "wb_entry ev = Some e" "wb_code ev = UPDATE" "\<not> wb_fromNVM ev" for ev
    using that s(3) by (simp add: sinkWrite_def st1)
  ultimately show ?thesis using R(1) p w l by (intro exI [of _ st1] exI [of _ ?item] exI [of _ "c\<lparr>ErrCounter := ErrCounter c + 1\<rparr>"]) (simp add: st1)
qed

theorem failed_offload_stays_witness:
  "\<exists>(st :: (nat, nat) store) e st1 item c1. removeEntry e EVICTED st = Some st1 \<and> secondaryCacheBuf st1 = [item] \<and>
     processSecondary simple_map item st1 (NewSimpleMapSecondary\<lparr>ErrMode := True\<rparr>) = (st1, c1) \<and> ErrCounter c1 = 1 \<and> lookup st1 1 = Some 7 \<and> m_prev (meta (heap st1 e)) = None"
proof -
  obtain st0 :: "(nat, nat) store" and e where D: "calm_inv 100 st0" "entry_at st0 1 = Some e" "evalue (heap st0 e) = 7" "\<not> IsFromNVM (flags (heap st0) e)" by (rule demo_bound)
  define st where "st = st0\<lparr>secondaryCacheBuf := [], secondaryCache := True, probability := 1\<rparr>"
  have v: "entry_at st 1 = Some e" "\<not> IsFromNVM (flags (heap st) e)" "secondaryCache st" "probability st = 1" "length (secondaryCacheBuf st) < 256" "lookup st 1 = Some 7"
    using D(2-4) by (simp_all add: st_def entry_at_def index_def lookup_def)
  have c: "calm_inv 100 st" using calm_offers [OF D(1), where q = "[]" and f = "clk st0" and b = True and r = 1] by (simp add: st_def)
  have m: "ErrMode (NewSimpleMapSecondary\<lparr>ErrMode := True\<rparr> :: (nat, nat) SimpleMapSecondary)" by simp
  obtain st1 item and c1 :: "(nat, nat) SimpleMapSecondary" where "removeEntry e EVICTED st = Some st1" "secondaryCacheBuf st1 = secondaryCacheBuf st @ [item]"
    "processSecondary simple_map item st1 (NewSimpleMapSecondary\<lparr>ErrMode := True\<rparr>) = (st1, c1)"
    "ErrCounter c1 = ErrCounter (NewSimpleMapSecondary\<lparr>ErrMode := True\<rparr> :: (nat, nat) SimpleMapSecondary) + 1" "lookup st1 1 = lookup st 1" "m_prev (meta (heap st1 e)) = None"
    using failed_offload_stays [OF c v(1-5) m] by (elim exE conjE) (rule that)
  then show ?thesis using v(6) by (intro exI [of _ st] exI [of _ e] exI [of _ st1] exI [of _ item] exI [of _ c1]) (simp add: st_def NewSimpleMapSecondary_def)
qed

subsection \<open>Loading\<close>



end
