(* ===== verification/Persistence.thy ===== *)
theory Persistence
  imports Store_Runs
begin

text \<open>
  Saving and restoring a store: internal/persistence.go and the \<open>Persist\<close> and \<open>Recover\<close>
  methods of internal/list.go and internal/store.go. The packages \<open>encoding/gob\<close> and \<open>xxh3\<close>
  are parameters: a coder gives the bytes that an encoder appends for an item, given the
  items it has encoded before, or an error; and the items that a decoder reads from a stream,
  with a flag that tells whether the stream ended properly.
\<close>

type_synonym bytes = "u8 list"

record 'a coder =
  enc :: "'a list \<Rightarrow> 'a \<Rightarrow> bytes option"
  dec :: "bytes \<Rightarrow> 'a list \<times> bool"

record StoreMeta =
  m_Version :: u64
  m_StartNano :: i64
  m_Total :: i64

text \<open>The exported fields of a block, which are what is encoded.\<close>

record DataBlock =
  b_Type :: u8
  b_SecondaryType :: u8
  b_CheckSum :: u64
  b_Index :: u64
  b_Data :: bytes

record ('k, 'v) gob =
  g_meta :: "StoreMeta coder"
  g_entry :: "('k, 'v) Pentry coder"
  g_int :: "int coder"
  g_block :: "DataBlock coder"
  xxh3 :: "bytes \<Rightarrow> u64"

datatype persist_error = EncodeError | DecodeError | ChecksumMismatch | VersionMismatch

subsection \<open>Blocks\<close>

text \<open>
  A block that is being written: its exported fields, the buffer behind its entry encoder and
  what that encoder has encoded. The writer is the output with the blocks already encoded.
\<close>

record 'a block =
  bk :: DataBlock
  clean :: bool
  buffer :: bytes
  entryEncoder :: "'a list"

record writer =
  w_out :: bytes
  blockEncoder :: "DataBlock list"

definition BlockBufferSize :: nat where
  "BlockBufferSize = 4 * 1024 * 1024"

definition NewBlock :: "u8 \<Rightarrow> bytes \<Rightarrow> 'a block" where
  "NewBlock tp buf = \<lparr>bk = \<lparr>b_Type = tp, b_SecondaryType = 0, b_CheckSum = 0, b_Index = 0, b_Data = []\<rparr>, clean = True, buffer = buf, entryEncoder = []\<rparr>"

definition encode_block :: "('k, 'v) gob \<Rightarrow> DataBlock \<Rightarrow> writer \<Rightarrow> persist_error + writer" where
  "encode_block g d w =
     (case enc (g_block g) (blockEncoder w) d of
        None \<Rightarrow> Inl EncodeError
      | Some bs \<Rightarrow> Inr \<lparr>w_out = w_out w @ bs, blockEncoder = blockEncoder w @ [d]\<rparr>)"

definition block_Save :: "('k, 'v) gob \<Rightarrow> 'a block \<Rightarrow> writer \<Rightarrow> persist_error + 'a block \<times> writer" where
  "block_Save g b w =
     (if clean b then Inr (b, w)
      else
        let data = buffer b;
            b = b\<lparr>clean := True, bk := (bk b)\<lparr>b_CheckSum := xxh3 g data, b_Data := data\<rparr>\<rparr>
        in case encode_block g (bk b) w of Inl x \<Rightarrow> Inl x | Inr w \<Rightarrow> Inr (b, w))"

definition block_Write :: "('k, 'v) gob \<Rightarrow> 'a coder \<Rightarrow> 'a \<Rightarrow> 'a block \<Rightarrow> writer \<Rightarrow> persist_error + bool \<times> 'a block \<times> writer" where
  "block_Write g c item b w =
     (case enc c (entryEncoder b) item of
        None \<Rightarrow> Inl EncodeError
      | Some bs \<Rightarrow>
          let b = b\<lparr>buffer := buffer b @ bs, entryEncoder := entryEncoder b @ [item], clean := False\<rparr> in
          if BlockBufferSize \<le> length (buffer b) then
            let data = buffer b;
                b = b\<lparr>clean := True, bk := (bk b)\<lparr>b_CheckSum := xxh3 g data, b_Data := data\<rparr>\<rparr>
            in (case encode_block g (bk b) w of Inl x \<Rightarrow> Inl x | Inr w \<Rightarrow> Inr (True, b, w))
          else Inr (False, b, w))"

definition MarkDirty :: "'a block \<Rightarrow> 'a block" where
  "MarkDirty b = b\<lparr>clean := False\<rparr>"

subsection \<open>Saving\<close>

text \<open>The loop of \<open>List.Persist\<close> over the entries; \<open>None\<close> is a failing read of the sketch.\<close>

fun persist_loop :: "('k, 'v) gob \<Rightarrow> u8 \<Rightarrow> ('k \<Rightarrow> u64) \<Rightarrow> CountMinSketch \<Rightarrow> ('k, 'v) heap \<Rightarrow> addr list \<Rightarrow> ('k, 'v) Pentry block \<Rightarrow> writer
    \<Rightarrow> (persist_error + ('k, 'v) Pentry block \<times> writer) option" where
  "persist_loop g tp hs sk h [] b w = Some (Inr (b, w))"
| "persist_loop g tp hs sk h (a # as) b w =
     (let e = pentry (h a) in
      do { n \<leftarrow> sk_Estimate (hs (P_Key e)) sk;
           (case block_Write g (g_entry g) (e\<lparr>P_Frequency := n\<rparr>) b w of
              Inl x \<Rightarrow> Some (Inl x)
            | Inr (full, b, w) \<Rightarrow> persist_loop g tp hs sk h as (if full then NewBlock tp [] else b) w) })"

definition list_Persist :: "('k, 'v) gob \<Rightarrow> List \<Rightarrow> ('k \<Rightarrow> u64) \<Rightarrow> CountMinSketch \<Rightarrow> ('k, 'v) heap \<Rightarrow> u8 \<Rightarrow> writer \<Rightarrow> (persist_error + writer) option" where
  "list_Persist g l hs sk h tp w =
     do { es \<leftarrow> entries l h;
          r \<leftarrow> persist_loop g tp hs sk h es (NewBlock tp []) w;
          (case r of Inl x \<Rightarrow> Some (Inl x)
           | Inr (b, w) \<Rightarrow> Some (case block_Save g b w of Inl x \<Rightarrow> Inl x | Inr (_, w) \<Rightarrow> Inr w)) }"

text \<open>A block with a single item, as for the metadata and the end mark.\<close>

definition single_block :: "('k, 'v) gob \<Rightarrow> 'a coder \<Rightarrow> u8 \<Rightarrow> 'a \<Rightarrow> writer \<Rightarrow> persist_error + writer" where
  "single_block g c tp item w =
     (case block_Write g c item (NewBlock tp []) w of Inl x \<Rightarrow> Inl x
      | Inr (_, b, w) \<Rightarrow> (case block_Save g b w of Inl x \<Rightarrow> Inl x | Inr (_, w) \<Rightarrow> Inr w))"

definition meta_Persist :: "('k, 'v) gob \<Rightarrow> StoreMeta \<Rightarrow> writer \<Rightarrow> persist_error + writer" where
  "meta_Persist g m w = single_block g (g_meta g) 1 m w"

text \<open>Chaining results that may carry an error.\<close>

definition and_then :: "('x + 'a) option \<Rightarrow> ('a \<Rightarrow> ('x + 'b) option) \<Rightarrow> ('x + 'b) option" where
  "and_then r f = do { x \<leftarrow> r; (case x of Inl e \<Rightarrow> Some (Inl e) | Inr a \<Rightarrow> f a) }"

definition store_Persist :: "('k, 'v) gob \<Rightarrow> u64 \<Rightarrow> ('k, 'v, 'z) store_scheme \<Rightarrow> (persist_error + bytes) option" where
  "store_Persist g version st =
     (let total = of_nat (sum_list (map shard_len (shards st)));
          m = \<lparr>m_Version = version, m_StartNano = of_int (Start (tw_clock (timerwheel st))), m_Total = total\<rparr>;
          t = policy st;
          save = (\<lambda>l tp. list_Persist g l (s_hasher st) (sketch t) (heap st) tp)
      in and_then (Some (meta_Persist g m \<lparr>w_out = [], blockEncoder = []\<rparr>))
        (\<lambda>w. and_then (save (window t) 2 w)
        (\<lambda>w. and_then (save (protected (slru t)) 4 w)
        (\<lambda>w. and_then (save (probation (slru t)) 3 w)
        (\<lambda>w. and_then (Some (single_block g (g_int g) 255 1 w)) (\<lambda>w. Some (Inr (w_out w))))))))"

subsection \<open>Restoring\<close>

definition insertSimple :: "addr \<Rightarrow> ('k, 'v, 'z) store_scheme \<Rightarrow> ('k, 'v, 'z) store_scheme option" where
  "insertSimple e st =
     (let k = key (heap st e); i = snd (index k st) in
      if i < length (shards st) then
        do { s \<leftarrow> shard_set (logf st) k e (shards st ! i);
             let st = set_shard i s st;
             (if expire (heap st e) \<noteq> 0 then schedule e st else Some st) }
      else None)"

text \<open>The list that a block of the given type fills, the test for room, and the write back.\<close>

definition target_list :: "u8 \<Rightarrow> 'k TinyLfu \<Rightarrow> List" where
  "target_list tp t = (if tp = 2 then window t else if tp = 3 then probation (slru t) else protected (slru t))"

definition set_target :: "u8 \<Rightarrow> List \<Rightarrow> 'k TinyLfu \<Rightarrow> 'k TinyLfu" where
  "set_target tp l t =
     (if tp = 2 then t\<lparr>window := l\<rparr> else if tp = 3 then t\<lparr>slru := (slru t)\<lparr>probation := l\<rparr>\<rparr> else t\<lparr>slru := (slru t)\<lparr>protected := l\<rparr>\<rparr>)"

definition has_room :: "u8 \<Rightarrow> 'k TinyLfu \<Rightarrow> bool" where
  "has_room tp t =
     (if tp = 2 then slt (Len (window t)) (l_capacity (window t))
      else if tp = 3 then slt (l_len (protected (slru t)) + l_len (probation (slru t))) (s_maxsize (slru t))
      else slt (l_len (protected (slru t))) (l_capacity (protected (slru t))))"

text \<open>The body of the decoding loops of \<open>Recover\<close>: an entry that is still alive and has room is linked and bound.\<close>

definition load_entry :: "u8 \<Rightarrow> ('k, 'v) Pentry \<Rightarrow> ('k::zero, 'v::zero, 'z) store_scheme \<Rightarrow> ('k, 'v, 'z) store_scheme option" where
  "load_entry tp p st =
     (let (e, st) = alloc st;
          st = st\<lparr>heap := (heap st)(e := entry_of p)\<rparr>
      in do { (h, l) \<leftarrow> PushBack (target_list tp (policy st)) e (heap st);
              st \<leftarrow> insertSimple e (st\<lparr>heap := h, policy := set_target tp l (policy st)\<rparr>);
              sk \<leftarrow> (if 0 < sint (P_Frequency p) then sk_Addn (s_hasher st (key (heap st e))) (P_Frequency p) (sketch (policy st))
                     else Some (sketch (policy st)));
              Some (st\<lparr>policy := (policy st)\<lparr>sketch := sk, weightedSize := weightedSize (policy st) + policyWeight (heap st e)\<rparr>\<rparr>) })"

definition recover_entry :: "u8 \<Rightarrow> ('k, 'v) Pentry \<Rightarrow> ('k::zero, 'v::zero, 'z) store_scheme \<Rightarrow> ('k, 'v, 'z) store_scheme option" where
  "recover_entry tp p st =
     (let ex = P_Expire p;
          (now, st) = (if ex \<noteq> 0 then read_now st else (0, st)) in
      if ex \<noteq> 0 \<and> slt ex now then Some st
      else if has_room tp (policy st) then load_entry tp p st
      else Some st)"

fun recover_entries :: "u8 \<Rightarrow> ('k, 'v) Pentry list \<Rightarrow> ('k::zero, 'v::zero, 'z) store_scheme \<Rightarrow> ('k, 'v, 'z) store_scheme option" where
  "recover_entries tp [] st = Some st"
| "recover_entries tp (p # ps) st = do { st \<leftarrow> recover_entry tp p st; recover_entries tp ps st }"

definition recover_meta :: "u64 \<Rightarrow> StoreMeta \<Rightarrow> ('k, 'v, 'z) store_scheme \<Rightarrow> (persist_error option \<times> ('k, 'v, 'z) store_scheme) option" where
  "recover_meta version m st =
     (if m_Version m \<noteq> version then Some (Some VersionMismatch, st)
      else
        let tw = timerwheel st; st = st\<lparr>timerwheel := tw\<lparr>tw_clock := SetStart (m_StartNano m) (tw_clock tw)\<rparr>\<rparr>
        in do { sk \<leftarrow> sk_EnsureCapacity (m_Total m) (sketch (policy st));
                Some (None, st\<lparr>policy := (policy st)\<lparr>sketch := sk\<rparr>\<rparr>) })"

definition recover_block :: "('k, 'v) gob \<Rightarrow> u64 \<Rightarrow> DataBlock \<Rightarrow> ('k::zero, 'v::zero, 'z) store_scheme \<Rightarrow> (persist_error option \<times> ('k, 'v, 'z) store_scheme) option" where
  "recover_block g version b st =
     (if b_Type b = 1 then
        (case fst (dec (g_meta g) (b_Data b)) of [] \<Rightarrow> Some (Some DecodeError, st) | m # _ \<Rightarrow> recover_meta version m st)
      else if b_Type b \<in> {2, 3, 4} then
        let (ps, eof) = dec (g_entry g) (b_Data b)
        in do { st \<leftarrow> recover_entries (b_Type b) ps st; Some (if eof then None else Some DecodeError, st) }
      else Some (None, st))"

fun recover_blocks :: "('k, 'v) gob \<Rightarrow> u64 \<Rightarrow> DataBlock list \<Rightarrow> ('k::zero, 'v::zero, 'z) store_scheme \<Rightarrow> (persist_error option \<times> ('k, 'v, 'z) store_scheme) option" where
  "recover_blocks g version [] st = Some (Some DecodeError, st)"
| "recover_blocks g version (b # bs) st =
     (if b_CheckSum b \<noteq> xxh3 g (b_Data b) then Some (Some ChecksumMismatch, st)
      else if b_Type b = 255 then Some (None, st)
      else do { (err, st) \<leftarrow> recover_block g version b st;
                (case err of Some x \<Rightarrow> Some (Some x, st) | None \<Rightarrow> recover_blocks g version bs st) })"

definition store_Recover :: "('k, 'v) gob \<Rightarrow> u64 \<Rightarrow> bytes \<Rightarrow> ('k::zero, 'v::zero, 'z) store_scheme \<Rightarrow> (persist_error option \<times> ('k, 'v, 'z) store_scheme) option" where
  "store_Recover g version bs st = recover_blocks g version (fst (dec (g_block g) bs)) st"

subsection \<open>What is relied on\<close>

text \<open>The bytes of a whole stream, and the documented behaviour of the package: a decoder reads back what an encoder wrote.\<close>

fun encodes :: "'a coder \<Rightarrow> 'a list \<Rightarrow> 'a list \<Rightarrow> bytes option" where
  "encodes c hist [] = Some []"
| "encodes c hist (x # xs) = do { b \<leftarrow> enc c hist x; bs \<leftarrow> encodes c (hist @ [x]) xs; Some (b @ bs) }"

definition coder_ok :: "'a coder \<Rightarrow> bool" where
  "coder_ok c \<longleftrightarrow> (\<forall>xs bs. encodes c [] xs = Some bs \<longrightarrow> dec c bs = (xs, True))"

definition gob_ok :: "('k, 'v) gob \<Rightarrow> bool" where
  "gob_ok g \<longleftrightarrow> coder_ok (g_meta g) \<and> coder_ok (g_entry g) \<and> coder_ok (g_block g)"

lemma encodes_append: "encodes c hist (xs @ ys) = do { b \<leftarrow> encodes c hist xs; bs \<leftarrow> encodes c (hist @ xs) ys; Some (b @ bs) }"
  by (induction xs arbitrary: hist) (auto split: bind_splits)

text \<open>A writer whose output is that of its blocks, and a block whose buffer is that of its items.\<close>

definition writer_ok :: "('k, 'v) gob \<Rightarrow> writer \<Rightarrow> bool" where
  "writer_ok g w \<longleftrightarrow> encodes (g_block g) [] (blockEncoder w) = Some (w_out w)"

definition sealed :: "('k, 'v) gob \<Rightarrow> 'a coder \<Rightarrow> u8 \<Rightarrow> 'a list \<Rightarrow> DataBlock \<Rightarrow> bool" where
  "sealed g c tp xs d \<longleftrightarrow> b_Type d = tp \<and> b_CheckSum d = xxh3 g (b_Data d) \<and> encodes c [] xs = Some (b_Data d)"

definition filling :: "'a coder \<Rightarrow> u8 \<Rightarrow> 'a block \<Rightarrow> bool" where
  "filling c tp b \<longleftrightarrow> b_Type (bk b) = tp \<and> encodes c [] (entryEncoder b) = Some (buffer b) \<and> (clean b \<longrightarrow> entryEncoder b = [])"

lemma NewBlock_filling: "filling c tp (NewBlock tp [])"
  by (simp add: filling_def NewBlock_def)

lemma encode_block_ok:
  assumes "writer_ok g w" "encode_block g d w = Inr w'" shows "writer_ok g w' \<and> blockEncoder w' = blockEncoder w @ [d]"
  using assms by (auto simp: writer_ok_def encode_block_def encodes_append split: option.splits)

text \<open>The items of the sealed blocks and of the open one, in order, are the items written.\<close>

lemma block_Write_ok:
  assumes w: "writer_ok g w" and b: "filling c tp b" and r: "block_Write g c x b w = Inr (full, b', w')"
  shows "writer_ok g w' \<and> (if full then \<exists>d. blockEncoder w' = blockEncoder w @ [d] \<and> sealed g c tp (entryEncoder b @ [x]) d \<and> clean b'
     else w' = w \<and> filling c tp b' \<and> entryEncoder b' = entryEncoder b @ [x])"
proof -
  obtain bs where e: "enc c (entryEncoder b) x = Some bs" using r by (auto simp: block_Write_def split: option.splits)
  have en: "encodes c [] (entryEncoder b @ [x]) = Some (buffer b @ bs)" using b e by (simp add: filling_def encodes_append)
  show ?thesis
  proof (cases "BlockBufferSize \<le> length (buffer b @ bs)")
    case True
    let ?d = "(bk b)\<lparr>b_CheckSum := xxh3 g (buffer b @ bs), b_Data := buffer b @ bs\<rparr>"
    have f: "full" "encode_block g ?d w = Inr w'" "clean b'" using r e True by (auto simp: block_Write_def Let_def split: sum.splits)
    have "sealed g c tp (entryEncoder b @ [x]) ?d" using b en by (simp add: sealed_def filling_def)
    then show ?thesis using encode_block_ok [OF w f(2)] f(1,3) by auto
  next
    case False
    then have "\<not> full" "w' = w" "b' = b\<lparr>buffer := buffer b @ bs, entryEncoder := entryEncoder b @ [x], clean := False\<rparr>"
      using r e by (auto simp: block_Write_def Let_def)
    then show ?thesis using w b en by (simp add: filling_def)
  qed
qed

lemma block_Save_ok:
  assumes w: "writer_ok g w" and b: "filling c tp b" and r: "block_Save g b w = Inr (b', w')"
  shows "writer_ok g w' \<and> (\<exists>ds. blockEncoder w' = blockEncoder w @ ds \<and> list_all2 (sealed g c tp) (if clean b then [] else [entryEncoder b]) ds)"
proof (cases "clean b")
  case True
  then show ?thesis using w r by (simp add: block_Save_def)
next
  case False
  let ?d = "(bk b)\<lparr>b_CheckSum := xxh3 g (buffer b), b_Data := buffer b\<rparr>"
  have f: "encode_block g ?d w = Inr w'" using r False by (auto simp: block_Save_def Let_def split: sum.splits)
  have "sealed g c tp (entryEncoder b) ?d" using b by (simp add: sealed_def filling_def)
  then show ?thesis using encode_block_ok [OF w f] False by (intro conjI exI [of _ "[?d]"]) simp_all
qed

text \<open>A list of items as a sequence of sealed blocks.\<close>

definition chunks :: "('k, 'v) gob \<Rightarrow> 'a coder \<Rightarrow> u8 \<Rightarrow> 'a list \<Rightarrow> DataBlock list \<Rightarrow> bool" where
  "chunks g c tp xs ds \<longleftrightarrow> (\<exists>xss. xs = concat xss \<and> list_all2 (sealed g c tp) xss ds)"

lemma chunks_append: "chunks g c tp xs ds \<Longrightarrow> chunks g c tp ys es \<Longrightarrow> chunks g c tp (xs @ ys) (ds @ es)"
  unfolding chunks_def using list_all2_appendI by (metis concat_append)

text \<open>The record of an entry with the frequency that the sketch estimates.\<close>

definition snapshot :: "('k \<Rightarrow> u64) \<Rightarrow> CountMinSketch \<Rightarrow> ('k, 'v) heap \<Rightarrow> addr \<Rightarrow> ('k, 'v) Pentry" where
  "snapshot hs sk h a = (pentry (h a))\<lparr>P_Frequency := the (sk_Estimate (hs (key (h a))) sk)\<rparr>"

lemma persist_loop_ok:
  assumes "writer_ok g w" "filling (g_entry g) tp b" "persist_loop g tp hs sk h as b w = Some (Inr (b', w'))"
  shows "writer_ok g w' \<and> filling (g_entry g) tp b' \<and>
    (\<exists>ds xs. blockEncoder w' = blockEncoder w @ ds \<and> chunks g (g_entry g) tp xs ds \<and> xs @ entryEncoder b' = entryEncoder b @ map (snapshot hs sk h) as)"
  using assms
proof (induction "as" arbitrary: b w)
  case Nil
  then show ?case by (auto simp: chunks_def)
next
  case (Cons a "as")
  let ?x = "snapshot hs sk h a"
  obtain n where n: "sk_Estimate (hs (key (h a))) sk = Some n" using Cons.prems(3) by (auto simp: pentry_def split: bind_splits)
  then have x: "?x = (pentry (h a))\<lparr>P_Frequency := n\<rparr>" by (simp add: snapshot_def)
  obtain full b1 w1 where W: "block_Write g (g_entry g) ?x b w = Inr (full, b1, w1)"
    and L: "persist_loop g tp hs sk h as (if full then NewBlock tp [] else b1) w1 = Some (Inr (b', w'))"
    using Cons.prems(3) n unfolding x by (auto simp: pentry_def split: sum.splits)
  note O = block_Write_ok [OF Cons.prems(1,2) W]
  show ?case
  proof (cases full)
    case True
    then obtain d where d: "blockEncoder w1 = blockEncoder w @ [d]" "sealed g (g_entry g) tp (entryEncoder b @ [?x]) d" and w1: "writer_ok g w1" using O by auto
    have c1: "chunks g (g_entry g) tp (entryEncoder b @ [?x]) [d]" using d(2) by (auto simp: chunks_def intro!: exI [of _ "[entryEncoder b @ [?x]]"])
    obtain ds xs where I: "writer_ok g w'" "filling (g_entry g) tp b'" "blockEncoder w' = blockEncoder w1 @ ds" "chunks g (g_entry g) tp xs ds"
      "xs @ entryEncoder b' = map (snapshot hs sk h) as"
      using Cons.IH [OF w1 NewBlock_filling] L True by (auto simp: NewBlock_def)
    show ?thesis using I(1,2,3,5) d(1) chunks_append [OF c1 I(4)] by (intro conjI exI [of _ "[d] @ ds"] exI [of _ "(entryEncoder b @ [?x]) @ xs"]) simp_all
  next
    case False
    then have f: "w1 = w" "filling (g_entry g) tp b1" "entryEncoder b1 = entryEncoder b @ [?x]" using O by simp_all
    then show ?thesis using Cons.IH [OF Cons.prems(1) f(2)] L False by simp
  qed
qed

lemma list_Persist_ok:
  assumes w: "writer_ok g w" and e: "entries l h = Some es" and r: "list_Persist g l hs sk h tp w = Some (Inr w')"
  shows "writer_ok g w' \<and> (\<exists>ds. blockEncoder w' = blockEncoder w @ ds \<and> chunks g (g_entry g) tp (map (snapshot hs sk h) es) ds)"
proof -
  obtain b w1 b2 where L: "persist_loop g tp hs sk h es (NewBlock tp []) w = Some (Inr (b, w1))" and S: "block_Save g b w1 = Inr (b2, w')"
    using r e by (auto simp: list_Persist_def split: bind_splits sum.splits)
  obtain ds xs where O: "writer_ok g w1" "filling (g_entry g) tp b" "blockEncoder w1 = blockEncoder w @ ds" "chunks g (g_entry g) tp xs ds"
    "xs @ entryEncoder b = map (snapshot hs sk h) es"
    using persist_loop_ok [OF w NewBlock_filling L] by (auto simp: NewBlock_def)
  obtain ds' where S': "writer_ok g w'" "blockEncoder w' = blockEncoder w1 @ ds'" "list_all2 (sealed g (g_entry g) tp) (if clean b then [] else [entryEncoder b]) ds'"
    using block_Save_ok [OF O(1,2) S] by blast
  have "concat (if clean b then [] else [entryEncoder b]) = entryEncoder b" using O(2) by (simp add: filling_def)
  then have "chunks g (g_entry g) tp (entryEncoder b) ds'" using S'(3) unfolding chunks_def by metis
  from chunks_append [OF O(4) this] show ?thesis using O(3,5) S'(1,2) by auto
qed

lemma single_block_ok:
  assumes w: "writer_ok g w" and r: "single_block g c tp x w = Inr w'"
  shows "writer_ok g w' \<and> (\<exists>d. blockEncoder w' = blockEncoder w @ [d] \<and> sealed g c tp [x] d)"
proof -
  obtain full b w1 b2 where W: "block_Write g c x (NewBlock tp []) w = Inr (full, b, w1)" and S: "block_Save g b w1 = Inr (b2, w')"
    using r by (auto simp: single_block_def split: sum.splits)
  note O = block_Write_ok [OF w NewBlock_filling W]
  show ?thesis
  proof (cases full)
    case True
    then obtain d where "blockEncoder w1 = blockEncoder w @ [d]" "sealed g c tp [x] d" "clean b" "writer_ok g w1" using O by (auto simp: NewBlock_def)
    then show ?thesis using S by (auto simp: block_Save_def)
  next
    case False
    then have f: "writer_ok g w1" "filling c tp b" "w1 = w" "entryEncoder b = [x]" using O by (auto simp: NewBlock_def)
    then have "\<not> clean b" by (auto simp: filling_def)
    then show ?thesis using block_Save_ok [OF f(1,2) S] f(3,4) by (auto simp: list_all2_Cons1)
  qed
qed

subsection \<open>Reading back\<close>

lemma sealed_dec: "coder_ok c \<Longrightarrow> sealed g c tp xs d \<Longrightarrow> dec c (b_Data d) = (xs, True)"
  by (simp add: coder_ok_def sealed_def)

lemma recover_entries_append: "recover_entries tp (ps @ qs) st = do { st \<leftarrow> recover_entries tp ps st; recover_entries tp qs st }"
  by (induction ps arbitrary: st) (auto split: bind_splits)

lemma recover_blocks_chunks:
  assumes g: "coder_ok (g_entry g)" and tp: "tp \<in> {2, 3, 4}" and c: "chunks g (g_entry g) tp xs ds"
  shows "recover_blocks g v (ds @ rest) st = do { st \<leftarrow> recover_entries tp xs st; recover_blocks g v rest st }"
proof -
  obtain xss where x: "xs = concat xss" and l: "list_all2 (sealed g (g_entry g) tp) xss ds" using c by (auto simp: chunks_def)
  from l show ?thesis unfolding x
  proof (induction arbitrary: st rule: list_all2_induct)
    case Nil
    then show ?case by simp
  next
    case (Cons x xs d ds)
    have d: "b_CheckSum d = xxh3 g (b_Data d)" "b_Type d = tp" using Cons.hyps(1) by (simp_all add: sealed_def)
    have n: "tp \<noteq> 255" "tp \<noteq> 1" using tp by auto
    show ?case using Cons.IH d n tp sealed_dec [OF g Cons.hyps(1)]
      by (auto simp: recover_block_def recover_entries_append Let_def split: bind_splits)
  qed
qed

lemma recover_meta_block:
  assumes g: "coder_ok (g_meta g)" and s: "sealed g (g_meta g) 1 [m] d"
  shows "recover_blocks g v (d # rest) st = do { (err, st) \<leftarrow> recover_meta v m st; (case err of Some x \<Rightarrow> Some (Some x, st) | None \<Rightarrow> recover_blocks g v rest st) }"
  using sealed_dec [OF g s] s by (simp add: recover_block_def sealed_def)

text \<open>Everything the output of a successful save holds.\<close>

definition store_meta :: "u64 \<Rightarrow> ('k, 'v, 'z) store_scheme \<Rightarrow> StoreMeta" where
  "store_meta v st = \<lparr>m_Version = v, m_StartNano = of_int (Start (tw_clock (timerwheel st))), m_Total = of_nat (sum_list (map shard_len (shards st)))\<rparr>"

definition saved :: "('k, 'v, 'z) store_scheme \<Rightarrow> List \<Rightarrow> ('k, 'v) Pentry list" where
  "saved st l = map (snapshot (s_hasher st) (sketch (policy st)) (heap st)) (the (entries l (heap st)))"

lemma and_then_Inr: "and_then r f = Some (Inr y) \<longleftrightarrow> (\<exists>x. r = Some (Inr x) \<and> f x = Some (Inr y))"
  by (auto simp: and_then_def split: bind_splits sum.splits)

lemma list_Persist_entries: "list_Persist g l hs sk h tp w = Some (Inr w') \<Longrightarrow> entries l h = Some (the (entries l h))"
  by (auto simp: list_Persist_def split: bind_splits)

lemma store_Persist_blocks:
  assumes "store_Persist g v st = Some (Inr out)"
  shows "\<exists>m ds2 ds4 ds3 d. encodes (g_block g) [] (m # ds2 @ ds4 @ ds3 @ [d]) = Some out \<and> sealed g (g_meta g) 1 [store_meta v st] m \<and>
    chunks g (g_entry g) 2 (saved st (window (policy st))) ds2 \<and> chunks g (g_entry g) 4 (saved st (protected (slru (policy st)))) ds4 \<and>
    chunks g (g_entry g) 3 (saved st (probation (slru (policy st)))) ds3 \<and> sealed g (g_int g) 255 [1] d"
proof -
  let ?save = "\<lambda>l tp. list_Persist g l (s_hasher st) (sketch (policy st)) (heap st) tp"
  obtain w1 w2 w3 w4 w5 where W: "single_block g (g_meta g) 1 (store_meta v st) \<lparr>w_out = [], blockEncoder = []\<rparr> = Inr w1"
    "?save (window (policy st)) 2 w1 = Some (Inr w2)" "?save (protected (slru (policy st))) 4 w2 = Some (Inr w3)"
    "?save (probation (slru (policy st))) 3 w3 = Some (Inr w4)" "single_block g (g_int g) 255 1 w4 = Inr w5" and o: "out = w_out w5"
    using assms by (auto simp: store_Persist_def Let_def and_then_Inr meta_Persist_def store_meta_def)
  have w0: "writer_ok g \<lparr>w_out = [], blockEncoder = []\<rparr>" by (simp add: writer_ok_def)
  obtain m where 1: "writer_ok g w1" "blockEncoder w1 = [m]" "sealed g (g_meta g) 1 [store_meta v st] m" using single_block_ok [OF w0 W(1)] by auto
  obtain ds2 where 2: "writer_ok g w2" "blockEncoder w2 = blockEncoder w1 @ ds2" "chunks g (g_entry g) 2 (saved st (window (policy st))) ds2"
    using list_Persist_ok [OF 1(1) list_Persist_entries [OF W(2)] W(2)] by (auto simp: saved_def)
  obtain ds4 where 4: "writer_ok g w3" "blockEncoder w3 = blockEncoder w2 @ ds4" "chunks g (g_entry g) 4 (saved st (protected (slru (policy st)))) ds4"
    using list_Persist_ok [OF 2(1) list_Persist_entries [OF W(3)] W(3)] by (auto simp: saved_def)
  obtain ds3 where 3: "writer_ok g w4" "blockEncoder w4 = blockEncoder w3 @ ds3" "chunks g (g_entry g) 3 (saved st (probation (slru (policy st)))) ds3"
    using list_Persist_ok [OF 4(1) list_Persist_entries [OF W(4)] W(4)] by (auto simp: saved_def)
  obtain d where 5: "writer_ok g w5" "blockEncoder w5 = blockEncoder w4 @ [d]" "sealed g (g_int g) 255 [1] d"
    using single_block_ok [OF 3(1) W(5)] by auto
  have "blockEncoder w5 = m # ds2 @ ds4 @ ds3 @ [d]" using 1(2) 2(2) 3(2) 4(2) 5(2) by simp
  then have "encodes (g_block g) [] (m # ds2 @ ds4 @ ds3 @ [d]) = Some out" using 5(1) o by (simp add: writer_ok_def)
  then show ?thesis using 1(3) 2(3) 3(3) 4(3) 5(3) by blast
qed

text \<open>What a restore does with a saved store: the metadata, then each list in the order it was saved.\<close>

definition restore :: "u64 \<Rightarrow> ('k, 'v, 'y) store_scheme \<Rightarrow> ('k::zero, 'v::zero, 'z) store_scheme \<Rightarrow> (persist_error option \<times> ('k, 'v, 'z) store_scheme) option" where
  "restore v st0 st =
     do { (_, st) \<leftarrow> recover_meta v (store_meta v st0) st;
          st \<leftarrow> recover_entries 2 (saved st0 (window (policy st0))) st;
          st \<leftarrow> recover_entries 4 (saved st0 (protected (slru (policy st0)))) st;
          st \<leftarrow> recover_entries 3 (saved st0 (probation (slru (policy st0)))) st;
          Some (None, st) }"

lemma recover_persist:
  assumes g: "gob_ok g" and p: "store_Persist g v st0 = Some (Inr out)"
  shows "store_Recover g v' out st = (if v' = v then restore v st0 st else Some (Some VersionMismatch, st))"
proof -
  obtain m ds2 ds4 ds3 d where B: "encodes (g_block g) [] (m # ds2 @ ds4 @ ds3 @ [d]) = Some out" "sealed g (g_meta g) 1 [store_meta v st0] m"
    "chunks g (g_entry g) 2 (saved st0 (window (policy st0))) ds2" "chunks g (g_entry g) 4 (saved st0 (protected (slru (policy st0)))) ds4"
    "chunks g (g_entry g) 3 (saved st0 (probation (slru (policy st0)))) ds3" "sealed g (g_int g) 255 [1] d"
    using store_Persist_blocks [OF p] by blast
  have c: "coder_ok (g_meta g)" "coder_ok (g_entry g)" using g by (simp_all add: gob_ok_def)
  have "dec (g_block g) out = (m # ds2 @ ds4 @ ds3 @ [d], True)" using g B(1) by (simp add: gob_ok_def coder_ok_def)
  then have "store_Recover g v' out st = recover_blocks g v' (m # ds2 @ ds4 @ ds3 @ [d]) st" by (simp add: store_Recover_def)
  also have "\<dots> = (if v' = v then restore v st0 st else Some (Some VersionMismatch, st))"
    using B(6) unfolding recover_meta_block [OF c(1) B(2)]
    by (auto simp: recover_blocks_chunks [OF c(2) _ B(3)] recover_blocks_chunks [OF c(2) _ B(4)] recover_blocks_chunks [OF c(2) _ B(5)]
      recover_meta_def store_meta_def restore_def Let_def sealed_def split: bind_splits)
  finally show ?thesis .
qed

end
