(* ===== verification/Store_Views.thy ===== *)
theory Store_Views
  imports Store_Properties "HOL-Library.Multiset"
begin

text \<open>
  The operations of internal/store.go that look at the whole store: \<open>Range\<close>, \<open>RangeEntry\<close>,
  \<open>DebugInfo\<close> and \<open>Wait\<close>. Go iterates over a map in an order that it does not specify: \<open>ord\<close>
  gives the entries of a shard in the order of one iteration. A callback is a function that
  threads a state.
\<close>

subsection \<open>Range\<close>

fun range_entries :: "('k, 'v) heap \<Rightarrow> i64 \<Rightarrow> ('k \<Rightarrow> 'v \<Rightarrow> 's \<Rightarrow> bool \<times> 's) \<Rightarrow> ('k \<times> addr) list \<Rightarrow> 's \<Rightarrow> bool \<times> 's" where
  "range_entries h now f [] s = (True, s)"
| "range_entries h now f ((_, e) # es) s =
     (let ex = expire (h e) in
      if ex \<noteq> 0 \<and> sle ex now then range_entries h now f es s
      else let (go, s) = f (key (h e)) (evalue (h e)) s in if \<not> go then (False, s) else range_entries h now f es s)"

fun range_shards :: "('k Shard \<Rightarrow> ('k \<times> addr) list) \<Rightarrow> ('k, 'v) heap \<Rightarrow> i64 \<Rightarrow> ('k \<Rightarrow> 'v \<Rightarrow> 's \<Rightarrow> bool \<times> 's) \<Rightarrow> 'k Shard list \<Rightarrow> 's \<Rightarrow> 's" where
  "range_shards ord h now f [] s = s"
| "range_shards ord h now f (sd # sds) s =
     (let (go, s) = range_entries h now f (ord sd) s in if go then range_shards ord h now f sds s else s)"

definition store_Range :: "('k Shard \<Rightarrow> ('k \<times> addr) list) \<Rightarrow> ('k \<Rightarrow> 'v \<Rightarrow> 's \<Rightarrow> bool \<times> 's) \<Rightarrow> 's \<Rightarrow> ('k, 'v, 'z) store_scheme \<Rightarrow> 's \<times> ('k, 'v, 'z) store_scheme" where
  "store_Range ord f s st = (let (now, st) = read_now st in (range_shards ord (heap st) now f (shards st) s, st))"

definition RangeEntry :: "('k Shard \<Rightarrow> ('k \<times> addr) list) \<Rightarrow> (addr \<Rightarrow> 's \<Rightarrow> 's) \<Rightarrow> 's \<Rightarrow> ('k, 'v, 'z) store_scheme \<Rightarrow> 's" where
  "RangeEntry ord f s st = fold (\<lambda>sd. fold (\<lambda>(_, e). f e) (ord sd)) (shards st) s"

subsection \<open>Wait\<close>

text \<open>What \<open>Wait\<close> puts into the channel; it then blocks until the batch that holds it has been handled.\<close>

definition store_Wait :: "('k, 'v, 'z) store_scheme \<Rightarrow> ('k, 'v, 'z) store_scheme" where
  "store_Wait st = send \<lparr>wb_entry = None, wb_costChange = 0, wb_code = WAIT, wb_rechedule = False, wb_fromNVM = False, wb_hash = 0\<rparr> st"

subsection \<open>DebugInfo\<close>

record debugInfo =
  WeightedSize :: i64
  WindowWeight :: i64
  WindowWeightField :: i64
  WindowCount :: i64
  ProbationWeight :: i64
  ProbationWeightField :: i64
  ProbationCount :: i64
  ProtectedWeight :: i64
  ProtectedWeightField :: i64
  ProtectedCount :: i64

definition TotalCount :: "debugInfo \<Rightarrow> i64" where
  "TotalCount i = WindowCount i + ProbationCount i + ProtectedCount i"

definition TotalWeight :: "debugInfo \<Rightarrow> i64" where
  "TotalWeight i = WindowWeight i + ProbationWeight i + ProtectedWeight i"

text \<open>The sum of the weights and the number of the entries of a list, by \<open>rangef\<close>.\<close>

definition list_sums :: "('k, 'v) heap \<Rightarrow> List \<Rightarrow> (i64 \<times> i64) option" where
  "list_sums h l = rangef l (\<lambda>e (w, n). (w + policyWeight (h e), n + 1)) h (0, 0)"

definition DebugInfo :: "('k, 'v, 'z) store_scheme \<Rightarrow> debugInfo option" where
  "DebugInfo st =
     (let t = policy st in
      do { (ww, wn) \<leftarrow> list_sums (heap st) (window t);
           (bw, bn) \<leftarrow> list_sums (heap st) (probation (slru t));
           (pw, pn) \<leftarrow> list_sums (heap st) (protected (slru t));
           Some \<lparr>WeightedSize = weightedSize t, WindowWeight = ww, WindowWeightField = Len (window t), WindowCount = wn,
             ProbationWeight = bw, ProbationWeightField = Len (probation (slru t)), ProbationCount = bn,
             ProtectedWeight = pw, ProtectedWeightField = Len (protected (slru t)), ProtectedCount = pn\<rparr> })"

text \<open>\<open>%d\<close> of a signed number, and the report that the tests print.\<close>

fun decimal :: "nat \<Rightarrow> string" where
  "decimal n = (if n < 10 then [char_of (48 + n)] else decimal (n div 10) @ [char_of (48 + n mod 10)])"

declare decimal.simps [simp del]

definition format_int :: "i64 \<Rightarrow> string" where
  "format_int i = (if sint i < 0 then CHR ''-'' # decimal (nat (- sint i)) else decimal (nat (sint i)))"

definition debugInfo_String :: "debugInfo \<Rightarrow> string" where
  "debugInfo_String i =
     (let line = (\<lambda>label n. label @ format_int n @ [CHR 0x0A]) in
      line ''policy weighted size '' (WeightedSize i) @
      line ''total items in window list '' (WindowCount i) @
      line ''sum of weight of window list '' (WindowWeight i) @
      line ''total items in probation list '' (ProbationCount i) @
      line ''sum of wieght of probation list '' (ProbationWeight i) @
      line ''total items in protected list '' (ProtectedCount i) @
      line ''sum of wieght of protected list '' (ProtectedWeight i) @
      line ''total items '' (WindowCount i + ProbationCount i + ProtectedCount i))"

text \<open>The keys of a list, from either end; \<open>fmt\<close> is \<open>%v\<close> of a key.\<close>

fun strings_Join :: "string list \<Rightarrow> string \<Rightarrow> string" where
  "strings_Join [] sep = []"
| "strings_Join [x] sep = x"
| "strings_Join (x # y # ys) sep = x @ sep @ strings_Join (y # ys) sep"

definition display :: "('k \<Rightarrow> string) \<Rightarrow> List \<Rightarrow> ('k, 'v) heap \<Rightarrow> string option" where
  "display fmt l h = do { s \<leftarrow> rangef l (\<lambda>e s. s @ [fmt (key (h e))]) h []; Some (strings_Join s ''/'') }"

partial_function (option) reverse_from :: "('k, 'v) heap \<Rightarrow> u8 \<Rightarrow> addr option \<Rightarrow> addr list option" where
  "reverse_from h lt p =
     (case p of None \<Rightarrow> Some []
      | Some e \<Rightarrow> Option.bind (e_Prev lt h e) (\<lambda>n. Option.bind (reverse_from h lt n) (\<lambda>es. Some (e # es))))"

definition displayReverse :: "('k \<Rightarrow> string) \<Rightarrow> List \<Rightarrow> ('k, 'v) heap \<Rightarrow> string option" where
  "displayReverse fmt l h = do { es \<leftarrow> reverse_from h (l_listType l) (Back l h); Some (strings_Join (map (\<lambda>e. fmt (key (h e))) es) ''/'') }"

lemma decimal_read: "foldl (\<lambda>n c. 10 * n + (of_char c - 48)) 0 (decimal n) = n"
  by (induction n rule: decimal.induct) (simp add: decimal.simps [of n for n])

lemma reverse_from_spec:
  assumes H: "hrings lt h S R" and r: "r \<in> S"
  shows "R r = us @ vs \<Longrightarrow> reverse_from h lt (if us = [] then None else Some (last us)) = Some (rev us)"
proof (induction us arbitrary: vs rule: rev_induct)
  case Nil
  then show ?case by (simp add: reverse_from.simps)
next
  case (snoc e us)
  have "e_Prev lt h e = Some (if us = [] then None else Some (last us))" using e_Prev_spec [OF H r, of us e vs] snoc.prems by simp
  with snoc.IH [of "e # vs"] snoc.prems show ?case by (simp add: reverse_from.simps [of h lt "Some e"])
qed

text \<open>Both walks end and see the same keys, in opposite orders.\<close>

lemma display_both_ways:
  assumes "hrings (l_listType l) h S R" "l_root l \<in> S"
  shows "display fmt l h = Some (strings_Join (map (\<lambda>e. fmt (key (h e))) (R (l_root l))) ''/'')"
    "displayReverse fmt l h = Some (strings_Join (rev (map (\<lambda>e. fmt (key (h e))) (R (l_root l)))) ''/'')"
proof -
  have "fold (\<lambda>e s. s @ [f e]) es s = s @ map f es" for f :: "addr \<Rightarrow> string" and es s by (induction es arbitrary: s) simp_all
  then show "display fmt l h = Some (strings_Join (map (\<lambda>e. fmt (key (h e))) (R (l_root l))) ''/'')"
    by (simp add: display_def rangef_def entries_spec [OF assms])
  have "reverse_from h (l_listType l) (Back l h) = Some (rev (R (l_root l)))"
    using reverse_from_spec [OF assms, of "R (l_root l)" "[]"] Back_spec [OF assms] by simp
  then show "displayReverse fmt l h = Some (strings_Join (rev (map (\<lambda>e. fmt (key (h e))) (R (l_root l)))) ''/'')"
    by (simp add: displayReverse_def rev_map)
qed

subsection \<open>What Range visits\<close>

text \<open>A traversal of a list of bindings that stops when the callback says so.\<close>

fun fold_until :: "('k \<Rightarrow> 'v \<Rightarrow> 's \<Rightarrow> bool \<times> 's) \<Rightarrow> ('k \<times> 'v) list \<Rightarrow> 's \<Rightarrow> bool \<times> 's" where
  "fold_until f [] s = (True, s)"
| "fold_until f ((k, v) # xs) s = (let (go, s) = f k v s in if go then fold_until f xs s else (False, s))"

lemma fold_until_append: "fold_until f (xs @ ys) s = (let (go, s) = fold_until f xs s in if go then fold_until f ys s else (False, s))"
  by (induction xs arbitrary: s) (auto simp: Let_def split: prod.splits)

definition expired :: "('k, 'v) heap \<Rightarrow> i64 \<Rightarrow> addr \<Rightarrow> bool" where
  "expired h now e \<longleftrightarrow> expire (h e) \<noteq> 0 \<and> sle (expire (h e)) now"

definition visible :: "('k, 'v) heap \<Rightarrow> i64 \<Rightarrow> ('k \<times> addr) list \<Rightarrow> ('k \<times> 'v) list" where
  "visible h now es = map (\<lambda>(_, e). (key (h e), evalue (h e))) (filter (\<lambda>(_, e). \<not> expired h now e) es)"

lemma range_entries_eq: "range_entries h now f es s = fold_until f (visible h now es) s"
  by (induction h now f es s rule: range_entries.induct) (auto simp: visible_def expired_def Let_def split: prod.splits)

lemma range_shards_eq: "range_shards ord h now f sds s = snd (fold_until f (visible h now (concat (map ord sds))) s)"
proof (induction sds arbitrary: s)
  case (Cons sd sds)
  have "visible h now (ord sd @ es) = visible h now (ord sd) @ visible h now es" for es by (simp add: visible_def)
  then show ?case using Cons.IH by (auto simp: range_entries_eq fold_until_append Let_def split: prod.splits)
qed (simp add: visible_def)

text \<open>The keys of the maps, in the order of an iteration, are distinct and are the bound ones.\<close>

lemma iterated_entries:
  assumes M: "map_inv st" and o: "\<And>s. s \<in> set (shards st) \<Longrightarrow> mset (ord s) = mset (hashmap s)"
  shows "distinct (map fst (concat (map ord (shards st))))" "(k, e) \<in> set (concat (map ord (shards st))) \<longleftrightarrow> entry_at st k = Some e"
proof -
  have so: "set (ord s) = set (hashmap s)" if "s \<in> set (shards st)" for s using o [OF that] by (rule mset_eq_setD)
  have inv: "shard_inv st i" if "i < length (shards st)" for i using M that by (simp add: map_inv_def)
  have dist: "distinct (map fst (ord (shards st ! i)))" if i: "i < length (shards st)" for i
  proof -
    have "distinct (map fst (hashmap (shards st ! i)))" using inv [OF i] by (simp add: shard_inv_def Let_def)
    moreover have "mset (map fst (ord (shards st ! i))) = mset (map fst (hashmap (shards st ! i)))" using o [OF nth_mem [OF i]] by simp
    ultimately show ?thesis using mset_eq_imp_distinct_iff by blast
  qed
  have idx: "snd (index k st) = i" if "i < length (shards st)" "(k, e) \<in> set (ord (shards st ! i))" for i k e
    using inv [OF that(1)] that(2) so [OF nth_mem [OF that(1)]] by (auto simp: shard_inv_def Let_def)
  have "distinct (concat (map (\<lambda>i. map fst (ord (shards st ! i))) [0..<n]))" if "n \<le> length (shards st)" for n
    using that
  proof (induction n)
    case (Suc n)
    have "(k, e') \<notin> set (ord (shards st ! n))" if "i < n" "(k, e) \<in> set (ord (shards st ! i))" for i k e e'
      using idx [of i k e] idx [of n k e'] that Suc.prems by auto
    then show ?case using Suc dist [of n] by fastforce
  qed simp
  moreover have "map (\<lambda>i. map fst (ord (shards st ! i))) [0..<length (shards st)] = map (\<lambda>s. map fst (ord s)) (shards st)"
    by (rule nth_equalityI) simp_all
  ultimately have "distinct (concat (map (\<lambda>s. map fst (ord s)) (shards st)))" by (metis le_refl)
  then show "distinct (map fst (concat (map ord (shards st))))" by (simp add: map_concat comp_def)
  have "(k, e) \<in> set (concat (map ord (shards st))) \<longleftrightarrow> (\<exists>i<length (shards st). (k, e) \<in> set (hashmap (shards st ! i)))"
  proof -
    have "(k, e) \<in> set (concat (map ord (shards st))) \<longleftrightarrow> (\<exists>s\<in>set (shards st). (k, e) \<in> set (hashmap s))" using so by auto
    then show ?thesis by (metis in_set_conv_nth)
  qed
  also have "\<dots> \<longleftrightarrow> (k, e) \<in> set (hashmap (shards st ! snd (index k st)))"
  proof -
    have "snd (index k st) = i" if "i < length (shards st)" "(k, e) \<in> set (hashmap (shards st ! i))" for i
      using inv [OF that(1)] that(2) by (auto simp: shard_inv_def Let_def)
    then show ?thesis using index_lt [OF M, of k] by blast
  qed
  also have "\<dots> \<longleftrightarrow> entry_at st k = Some e"
    using inv [OF index_lt [OF M, of k]] by (auto simp: entry_at_def shard_get_def shard_inv_def Let_def)
  finally show "(k, e) \<in> set (concat (map ord (shards st))) \<longleftrightarrow> entry_at st k = Some e" .
qed

text \<open>
  C22. \<open>Range\<close> visits every live binding exactly once: whatever the order in which Go iterates
  over the maps, there is one sequence of bindings, without a repeated key, that consists of the
  bound keys whose deadline has not passed at the one reading of the clock, and the callback is
  applied along this sequence until it returns false.
\<close>

theorem range_visits_live_bindings:
  assumes "store_inv st X" "\<forall>s\<in>set (shards st). mset (ord s) = mset (hashmap s)"
  shows "\<exists>xs. distinct (map fst xs) \<and>
    (\<forall>k v. (k, v) \<in> set xs \<longleftrightarrow> (\<exists>e. entry_at st k = Some e \<and> \<not> expired (heap st) (fst (read_now st)) e \<and> v = evalue (heap st e))) \<and>
    (\<forall>f s. fst (store_Range ord f s st) = snd (fold_until f xs s))"
proof -
  let ?now = "fst (read_now st)" and ?es = "concat (map ord (shards st))"
  have M: "map_inv st" by (rule store_inv_parts(3) [OF assms(1)])
  note E = iterated_entries [OF M, of ord]
  have d: "distinct (map fst ?es)" and at: "(k, e) \<in> set ?es \<longleftrightarrow> entry_at st k = Some e" for k e using E assms(2) by blast+
  have kk: "key (heap st e) = k" if "(k, e) \<in> set ?es" for k e
    using at that mapped_not_root(2) [OF M _ index_lt [OF M]] unfolding entry_at_def by metis
  have "map fst (visible (heap st) ?now ?es) = map fst (filter (\<lambda>(_, e). \<not> expired (heap st) ?now e) ?es)"
    unfolding visible_def by (simp add: comp_def split_beta) (use kk in \<open>auto simp: split_beta\<close>)
  then have "distinct (map fst (visible (heap st) ?now ?es))" using d by (metis distinct_map_filter)
  moreover have "(k, v) \<in> set (visible (heap st) ?now ?es) \<longleftrightarrow> (\<exists>e. entry_at st k = Some e \<and> \<not> expired (heap st) ?now e \<and> v = evalue (heap st e))" for k v
    using kk unfolding at [symmetric] visible_def by force
  moreover have "fst (store_Range ord f s st) = snd (fold_until f (visible (heap st) ?now ?es) s)" for f s
    by (simp add: store_Range_def range_shards_eq read_now_def)
  ultimately show ?thesis by blast
qed

theorem range_visits_live_bindings_witness:
  "\<exists>st0 st. NewStore demo_rt demo_opt = Some st0 \<and> store_Set (costfn demo_opt) 1 7 0 0 st0 = Some (True, st) \<and> lookup st 1 = Some 7 \<and>
     (\<exists>xs. distinct (map fst xs) \<and> fst (store_Range hashmap (\<lambda>k v s. (True, s @ [(k, v)])) [] st) = snd (fold_until (\<lambda>k v s. (True, s @ [(k, v)])) xs []))"
proof -
  obtain st0 st where R: "NewStore demo_rt demo_opt = Some st0" "store_Set (costfn demo_opt) 1 7 0 0 st0 = Some (True, st)"
    "(store_step (costfn demo_opt))\<^sup>*\<^sup>* (Map.empty, st0) ([1 \<mapsto> 7], st)" "lookup st 1 = Some 7" by (rule demo_run)
  obtain X where "core_inv (MaxSize demo_opt) st X" using run_reachable [OF demo_ok R(1,3)] by (auto simp: run_inv_def)
  then have "store_inv st X" by (simp add: core_inv_def)
  from range_visits_live_bindings [OF this, of hashmap] obtain xs where "distinct (map fst xs)" and
    f: "\<forall>f s. fst (store_Range hashmap f s st) = snd (fold_until f xs (s :: (nat \<times> nat) list))" by blast
  then show ?thesis using R(1,2,4) f [rule_format, of "\<lambda>k v s. (True, s @ [(k, v)])" "[]"] by (intro exI [of _ st0] exI [of _ st] conjI exI [of _ xs])
qed

subsection \<open>What DebugInfo reports\<close>

lemma fold_sums: "fold (\<lambda>e (w, n). (w + policyWeight (h e), n + 1)) es (w, n) = (w + wsum h es, n + of_nat (length es) :: i64)"
  by (induction es arbitrary: w n) (simp_all add: algebra_simps)

lemma list_sums_reps:
  assumes "reps h T X" shows "list_sums h (T q) = Some (wsum h (X q), of_nat (length (X q)))"
proof -
  obtain R where R: "reps_ring h T X R" using assms by (auto simp: reps_def)
  have "entries (T q) h = Some (X q)" using entries_spec [OF reps_ringD(2,5) [OF R], of q] by (simp add: reps_ringD(3) [OF R])
  then show ?thesis by (simp add: list_sums_def rangef_def fold_sums)
qed

text \<open>
  The counters of the policy are exact: in a store that satisfies its invariant, the weights
  that \<open>DebugInfo\<close> adds up entry by entry are those that the lists and the policy keep, and the
  total weight is within the capacity. These are the equations that the repository's tests
  check after random runs.
\<close>

theorem debug_info_consistent:
  assumes I: "store_inv st X"
  shows "\<exists>i. DebugInfo st = Some i \<and> WindowWeight i = WindowWeightField i \<and> ProbationWeight i = ProbationWeightField i \<and> ProtectedWeight i = ProtectedWeightField i \<and>
    TotalWeight i = WeightedSize i \<and> TotalCount i = of_nat (entry_count X) \<and> unat (TotalWeight i) \<le> unat (capacity (policy st))"
proof -
  note k = store_inv_parts(1) [OF I]
  note R = policy_ok_parts(1) [OF k]
  have l: "Len (plist (policy st) q) = wsum (heap st) (X q)" for q using reps_header [OF R, of q] by (simp add: Len_def)
  have w: "weightedSize (policy st) = total (heap st) X" using k by (simp add: policy_ok_def policy_inv_def)
  have "unat (weightedSize (policy st)) = tsize (heap st) X"
    by (rule weightedSize_exact [OF k]) (use store_inv_parts(4) [OF I] policy_ok_parts(2) [OF k] in simp)
  then have "unat (total (heap st) X) \<le> unat (capacity (policy st))" using store_inv_parts(4) [OF I] w by simp
  then show ?thesis
    using list_sums_reps [OF R, of QWindow] list_sums_reps [OF R, of QProbation] list_sums_reps [OF R, of QProtected] l [of QWindow] l [of QProbation] l [of QProtected] w
    by (simp add: DebugInfo_def TotalWeight_def TotalCount_def total_def entry_count_def)
qed

theorem debug_info_consistent_witness: "\<exists>st i. NewStore demo_rt demo_opt = Some st \<and> DebugInfo st = Some i \<and> TotalCount i = 0 \<and> TotalWeight i = WeightedSize i"
proof -
  obtain st0 where D: "NewStore demo_rt demo_opt = Some st0" "store_inv st0 (\<lambda>_. [])" by (rule demo_store)
  from debug_info_consistent [OF D(2)] show ?thesis using D(1) by (auto simp: entry_count_def)
qed

end
