(* ===== verification/Hasher.thy ===== *)
theory Hasher
  imports Prelude
begin

text \<open>
  The hashers of internal/hasher. Two files declare the type \<open>Hasher\<close>, for Go before 1.24 and
  since. The hash functions themselves are packages outside the repository and parameters here.
\<close>

subsection \<open>Since Go 1.24: hash/maphash\<close>

text \<open>
  \<open>maphash.Comparable\<close> is used at two types, the strings that a key function gives and the keys.
\<close>

record ('k, 's) Hasher =
  seed :: 's
  kfunc :: "('k \<Rightarrow> string) option"

definition NewHasher :: "'s \<Rightarrow> ('k \<Rightarrow> string) option \<Rightarrow> ('k, 's) Hasher" where
  "NewHasher makeSeed stringKeyFunc = \<lparr>seed = makeSeed, kfunc = stringKeyFunc\<rparr>"

definition Hash :: "('s \<Rightarrow> string \<Rightarrow> u64) \<Rightarrow> ('s \<Rightarrow> 'k \<Rightarrow> u64) \<Rightarrow> ('k, 's) Hasher \<Rightarrow> 'k \<Rightarrow> u64" where
  "Hash comparable_string comparable_key h key =
     (case kfunc h of Some f \<Rightarrow> comparable_string (seed h) (f key) | None \<Rightarrow> comparable_key (seed h) key)"

text \<open>A key function decides alone: keys with the same string have the same hash.\<close>

lemma Hash_kfunc:
  assumes "f k = f k'" shows "Hash cs ck (NewHasher s (Some f)) k = Hash cs ck (NewHasher s (Some f)) k'"
  using assms by (simp add: Hash_def NewHasher_def)

subsection \<open>Before Go 1.24: xxh3\<close>

text \<open>
  A key that is passed to \<open>Hash\<close> lies somewhere in memory. The hasher reads the bytes there
  unless it has a key function or the key is a string, so its argument is the key together
  with these bytes. Whether the type of the keys is \<open>string\<close>, and its size, are known when the
  hasher is made.
\<close>

record 'k key_object =
  obj_key :: 'k
  obj_bytes :: string

record 'k xxh3_Hasher =
  ksize :: nat
  kstr :: bool
  xkfunc :: "('k \<Rightarrow> string) option"

definition xxh3_NewHasher :: "bool \<Rightarrow> nat \<Rightarrow> ('k \<Rightarrow> string) option \<Rightarrow> 'k xxh3_Hasher" where
  "xxh3_NewHasher is_string sz stringKeyFunc =
     (let h = \<lparr>ksize = 0, kstr = False, xkfunc = stringKeyFunc\<rparr>
      in if is_string then h\<lparr>kstr := True\<rparr> else h\<lparr>ksize := sz\<rparr>)"

definition xxh3_Hash :: "(string \<Rightarrow> u64) \<Rightarrow> ('k \<Rightarrow> string) \<Rightarrow> 'k xxh3_Hasher \<Rightarrow> 'k key_object \<Rightarrow> u64" where
  "xxh3_Hash hashString as_string h key =
     hashString (case xkfunc h of
         Some f \<Rightarrow> f (obj_key key)
       | None \<Rightarrow> if kstr h then as_string (obj_key key) else take (ksize h) (obj_bytes key))"

text \<open>
  Equal keys have equal hashes if the keys are strings, if there is a key function, or if equal
  keys have equal bytes. A struct with a string in it has none of that: its bytes hold the
  address of the characters. The hash is then not a function of the key: one key has two
  hashes as soon as the hash function tells the two places apart; the builder's \<open>StringKey\<close> is there for it.
\<close>

lemma xxh3_Hash_equal_keys:
  assumes "obj_key x = obj_key y" "is_string \<or> kf \<noteq> None \<or> take sz (obj_bytes x) = take sz (obj_bytes y)"
  shows "xxh3_Hash hs str (xxh3_NewHasher is_string sz kf) x = xxh3_Hash hs str (xxh3_NewHasher is_string sz kf) y"
  using assms by (cases kf) (auto simp: xxh3_Hash_def xxh3_NewHasher_def Let_def)

lemma xxh3_Hash_address:
  assumes "hs (take sz (obj_bytes x)) \<noteq> hs (take sz (obj_bytes y))"
  shows "xxh3_Hash hs str (xxh3_NewHasher False sz None) x \<noteq> xxh3_Hash hs str (xxh3_NewHasher False sz None) y"
  using assms by (simp add: xxh3_Hash_def xxh3_NewHasher_def)

end
