(* ===== verification/Lossy_Cache.thy ===== *)
theory Lossy_Cache
  imports Store_Runs
begin

text \<open>
  What a client of the cache relies on, as an interface. A cache is a map that may lose a
  binding at any time, on its own or for want of room, and may refuse to take one, but never
  shows a value that was not the last one written to the key. Calls return. The interface is
  interpreted on the operations of the store here, and on those of the public type \<open>Cache\<close>
  with the clients.
\<close>

subsection \<open>Sessions\<close>

text \<open>What a client observes of a call.\<close>

datatype ('k, 'v) observation =
  Got 'k 'v bool
| Put 'k 'v i64 bool
| Deleted 'k

text \<open>A sequence of calls, with work in the background between any two of them.\<close>

inductive session :: "('k \<Rightarrow> 's \<Rightarrow> (('v \<times> bool) \<times> 's) option) \<Rightarrow> ('k \<Rightarrow> 'v \<Rightarrow> i64 \<Rightarrow> i64 \<Rightarrow> 's \<Rightarrow> (bool \<times> 's) option) \<Rightarrow> ('k \<Rightarrow> 's \<Rightarrow> 's option)
    \<Rightarrow> ('s \<Rightarrow> 's \<Rightarrow> bool) \<Rightarrow> 's \<Rightarrow> ('k, 'v) observation list \<Rightarrow> 's \<Rightarrow> bool"
  for Get Set Delete background where
  session_end: "session Get Set Delete background s [] s"
| session_get: "Get k s = Some ((v, ok), s1) \<Longrightarrow> session Get Set Delete background s1 es s' \<Longrightarrow>
    session Get Set Delete background s (Got k v ok # es) s'"
| session_set: "Set k v cost ttl s = Some (ok, s1) \<Longrightarrow> session Get Set Delete background s1 es s' \<Longrightarrow>
    session Get Set Delete background s (Put k v cost ok # es) s'"
| session_delete: "Delete k s = Some s1 \<Longrightarrow> session Get Set Delete background s1 es s' \<Longrightarrow>
    session Get Set Delete background s (Deleted k # es) s'"
| session_background: "background s s1 \<Longrightarrow> session Get Set Delete background s1 es s' \<Longrightarrow>
    session Get Set Delete background s es s'"

text \<open>The abstract map that the observations have to agree with.\<close>

fun agrees :: "('k \<rightharpoonup> 'v) \<Rightarrow> ('k, 'v) observation list \<Rightarrow> bool" where
  "agrees A [] \<longleftrightarrow> True"
| "agrees A (Got k v ok # es) \<longleftrightarrow> (ok \<longrightarrow> A k = Some v) \<and> agrees A es"
| "agrees A (Put k v cost ok # es) \<longleftrightarrow> agrees (if ok then A(k \<mapsto> v) else A) es"
| "agrees A (Deleted k # es) \<longleftrightarrow> agrees (A(k := None)) es"

text \<open>A relation between keys and values that all writes respect is seen by all reads.\<close>

fun writes :: "('k \<Rightarrow> 'v \<Rightarrow> i64 \<Rightarrow> bool) \<Rightarrow> ('k, 'v) observation \<Rightarrow> bool" where
  "writes P (Put k v cost ok) \<longleftrightarrow> P k v cost"
| "writes P _ \<longleftrightarrow> True"

lemma agrees_hit:
  assumes "agrees A es" "\<forall>k v. A k = Some v \<longrightarrow> P k v" "\<forall>e\<in>set es. writes (\<lambda>k v cost. P k v) e" "Got k v True \<in> set es"
  shows "P k v"
  using assms
proof (induction A es rule: agrees.induct)
  case (3 A k' v' cost ok es)
  then have "\<forall>k v. (if ok then A(k' \<mapsto> v') else A) k = Some v \<longrightarrow> P k v" by auto
  then show ?case using 3 by (simp del: fun_upd_apply)
next
  case (4 A k' es)
  then have "\<forall>k v. (A(k' := None)) k = Some v \<longrightarrow> P k v" by auto
  then show ?case using 4 by (simp del: fun_upd_apply)
qed auto

subsection \<open>The interface\<close>

locale lossy_cache =
  fixes Get :: "'k \<Rightarrow> 's \<Rightarrow> (('v \<times> bool) \<times> 's) option"
    and Set :: "'k \<Rightarrow> 'v \<Rightarrow> i64 \<Rightarrow> i64 \<Rightarrow> 's \<Rightarrow> (bool \<times> 's) option"
    and Delete :: "'k \<Rightarrow> 's \<Rightarrow> 's option"
    and background :: "'s \<Rightarrow> 's \<Rightarrow> bool"
    and rep :: "('k \<rightharpoonup> 'v) \<Rightarrow> 's \<Rightarrow> bool"
    and fit :: "'k \<Rightarrow> 'v \<Rightarrow> i64 \<Rightarrow> bool"
  assumes get_law: "rep A s \<Longrightarrow> \<exists>v ok s'. Get k s = Some ((v, ok), s') \<and> rep A s' \<and> (ok \<longrightarrow> A k = Some v)"
    and set_law: "rep A s \<Longrightarrow> fit k v cost \<Longrightarrow> \<exists>ok s'. Set k v cost ttl s = Some (ok, s') \<and> rep (if ok then A(k \<mapsto> v) else A) s'"
    and delete_law: "rep A s \<Longrightarrow> \<exists>s'. Delete k s = Some s' \<and> rep (A(k := None)) s'"
    and background_law: "rep A s \<Longrightarrow> background s s' \<Longrightarrow> rep A s'"
begin

lemma session_refines:
  assumes "session Get Set Delete background s es s'" "rep A s" "\<forall>e\<in>set es. writes fit e"
  shows "agrees A es \<and> (\<exists>A'. rep A' s')"
  using assms
proof (induction arbitrary: A)
  case (session_get k s v ok s1 es s')
  then have "rep A s1" "ok \<longrightarrow> A k = Some v" using get_law [of A s k] by auto
  then show ?case using session_get by simp
next
  case (session_set k v cost ttl s ok s1 es s')
  then have "rep (if ok then A(k \<mapsto> v) else A) s1" using set_law [of A s k v cost ttl] by auto
  then have "agrees (if ok then A(k \<mapsto> v) else A) es \<and> (\<exists>A'. rep A' s')" using session_set by simp
  then show ?case by simp
next
  case (session_delete k s s1 es s')
  then have "rep (A(k := None)) s1" using delete_law [of A s k] by auto
  then have "agrees (A(k := None)) es \<and> (\<exists>A'. rep A' s')" by (rule session_delete.IH) (use session_delete.prems(2) in simp)
  then show ?case by simp
next
  case (session_background s s1 es s')
  then show ?case using background_law by blast
qed auto

text \<open>A state in which every value that can be read stands in the relation \<open>P\<close> to its key.\<close>

definition holds_only :: "('k \<Rightarrow> 'v \<Rightarrow> bool) \<Rightarrow> 's \<Rightarrow> bool" where
  "holds_only P s \<longleftrightarrow> (\<exists>A. rep A s \<and> (\<forall>k v. A k = Some v \<longrightarrow> P k v))"

lemma holds_only_get:
  assumes "holds_only P s"
  obtains v ok s' where "Get k s = Some ((v, ok), s')" "holds_only P s'" "ok \<longrightarrow> P k v"
proof -
  obtain A where A: "rep A s" "\<forall>k v. A k = Some v \<longrightarrow> P k v" using assms by (auto simp: holds_only_def)
  obtain v ok s' where "Get k s = Some ((v, ok), s')" "rep A s'" "ok \<longrightarrow> A k = Some v" using get_law [OF A(1)] by blast
  then show thesis using A(2) by (intro that) (auto simp: holds_only_def)
qed

lemma holds_only_set:
  assumes "holds_only P s" "fit k v cost" "P k v"
  obtains ok s' where "Set k v cost ttl s = Some (ok, s')" "holds_only P s'"
proof -
  obtain A where A: "rep A s" "\<forall>k v. A k = Some v \<longrightarrow> P k v" using assms(1) by (auto simp: holds_only_def)
  obtain ok s' where S: "Set k v cost ttl s = Some (ok, s')" "rep (if ok then A(k \<mapsto> v) else A) s'" using set_law [OF A(1) assms(2)] by blast
  have "\<forall>k' v'. (if ok then A(k \<mapsto> v) else A) k' = Some v' \<longrightarrow> P k' v'" using A(2) assms(3) by (auto split: if_splits)
  then show thesis using S by (intro that) (auto simp: holds_only_def simp del: fun_upd_apply)
qed

lemma holds_only_background: "holds_only P s \<Longrightarrow> background s s' \<Longrightarrow> holds_only P s'"
  using background_law by (auto simp: holds_only_def)

end

subsection \<open>The store is a lossy cache\<close>

text \<open>
  With keys from a set that is small enough for the filters there is always room for one more;
  no assumption on the state remains.
\<close>

definition few :: "'k set \<Rightarrow> bool" where
  "few K \<longleftrightarrow> finite K \<and> 20 * Suc (card K) \<le> 2 ^ 31"

lemma run_roomy:
  assumes R: "run_inv cap A st" and K: "dom A \<subseteq> K" "few K"
  shows "roomy st"
  unfolding roomy_def
proof
  fix s assume "s \<in> set (shards st)"
  then obtain i where i: "i < length (shards st)" "s = shards st ! i" by (auto simp: in_set_conv_nth)
  obtain X where "core_inv cap st X" and l: "lookup st \<subseteq>\<^sub>m A" using R by (auto simp: run_inv_def)
  then have "shard_inv st i" using i(1) store_inv_parts(3) [of st X] by (simp add: core_inv_def map_inv_def)
  note S = this [unfolded shard_inv_def Let_def, folded i(2)]
  show "20 * Suc (length (hashmap s)) \<le> 2 ^ 31"
  proof (cases "hashmap s = []")
    case False
    have d: "distinct (map fst (hashmap s))" using S by simp
    have "fst ` set (hashmap s) \<subseteq> dom (lookup st)" using S False i by (fastforce simp: lookup_def entry_at_def shard_get_def split: prod.splits)
    then have "fst ` set (hashmap s) \<subseteq> K" using l K(1) by (metis map_le_implies_dom_le order_trans)
    then have "card (fst ` set (hashmap s)) \<le> card K" using K(2) by (intro card_mono) (simp_all add: few_def)
    then show ?thesis using K(2) distinct_card [OF d] by (simp add: few_def)
  qed simp
qed

text \<open>The two goroutines that work on the store in the background.\<close>

inductive maintenance_step :: "('k, 'v::zero, 'z) store_scheme \<Rightarrow> ('k, 'v, 'z) store_scheme \<Rightarrow> bool" where
  background_handle: "may_handle st \<Longrightarrow> writeChan st = item # rest \<Longrightarrow> sinkWrite item (st\<lparr>writeChan := rest\<rparr>) = Some st' \<Longrightarrow> maintenance_step st st'"
| background_tick: "may_tick st \<Longrightarrow> maintenance_tick st = Some st' \<Longrightarrow> maintenance_step st st'"

definition client_rep :: "u64 \<Rightarrow> 'k set \<Rightarrow> ('k \<rightharpoonup> 'v) \<Rightarrow> ('k, 'v, 'z) store_scheme \<Rightarrow> bool" where
  "client_rep cap K A st \<longleftrightarrow> run_inv cap A st \<and> dom A \<subseteq> K \<and> few K"

definition client_fit :: "('v \<Rightarrow> i64) \<Rightarrow> 'k set \<Rightarrow> 'k \<Rightarrow> 'v \<Rightarrow> i64 \<Rightarrow> bool" where
  "client_fit costf K k v cost \<longleftrightarrow> k \<in> K \<and> 0 \<le> sint (set_cost costf v cost)"

lemma maintenance_step_run:
  assumes "run_inv cap A st" "maintenance_step st st'" shows "run_inv cap A st'"
  using assms(2)
proof cases
  case (background_handle item rest)
  then show ?thesis using run_handle [OF assms(1), of item rest] by auto
next
  case background_tick
  then show ?thesis using run_tick [OF assms(1)] by auto
qed

lemma client_get:
  fixes st :: "('k::zero, 'v::zero, 'z) store_scheme"
  assumes "client_rep cap K A st"
  shows "\<exists>v ok st'. store_Get k st = Some ((v, ok), st') \<and> client_rep cap K A st' \<and> (ok \<longrightarrow> A k = Some v)"
  using run_get [of cap A st k] assms by (fastforce simp: client_rep_def split: if_splits)

lemma client_set:
  fixes st :: "('k::zero, 'v::zero, 'z) store_scheme"
  assumes r: "client_rep cap K A st" and f: "client_fit costf K k v cost"
  shows "\<exists>ok st'. store_Set costf k v cost ttl st = Some (ok, st') \<and> client_rep cap K (if ok then A(k \<mapsto> v) else A) st'"
proof -
  have R: "run_inv cap A st" "dom A \<subseteq> K" "few K" using r by (simp_all add: client_rep_def)
  have "may_set costf v cost st" using run_roomy [OF R] f by (simp add: may_set_def client_fit_def)
  from run_set [OF R(1) this, of k ttl] obtain ok st' where "store_Set costf k v cost ttl st = Some (ok, st')" "run_inv cap (if ok then A(k \<mapsto> v) else A) st'" by blast
  then show ?thesis using R f by (intro exI [of _ ok] exI [of _ st']) (auto simp: client_rep_def client_fit_def)
qed

lemma client_delete:
  assumes "client_rep cap K A st" shows "\<exists>st'. store_Delete k st = Some st' \<and> client_rep cap K (A(k := None)) st'"
  using run_delete [of cap A st k] assms by (auto simp: client_rep_def)

lemma client_background: "client_rep cap K A st \<Longrightarrow> maintenance_step st st' \<Longrightarrow> client_rep cap K A st'"
  using maintenance_step_run by (auto simp: client_rep_def)

interpretation client: lossy_cache store_Get "store_Set costf" store_Delete maintenance_step "client_rep cap K" "client_fit costf K" for costf cap K
  by unfold_locales (rule client_get client_set client_delete client_background; assumption)+

end
