(* ===== verification/Client_API.thy ===== *)
theory Client_API
  imports Hybrid_Properties Persistence Store_Views Hasher Lossy_Cache
begin

text \<open>
  The public interface: the builders of builder.go and the four clients of cache.go. A client is
  a record with the store it points to; a method returns the client with the store it leaves
  behind. A loader is a function of the key; the context it is given is not modelled. The
  secondary cache is present or not in the options; its operations and its state are arguments
  of the methods that reach it.
\<close>

type_synonym ('k, 'v, 'e) loader = "'k \<Rightarrow> 'v Loaded \<times> 'e cache_error option"

record ('k, 'v, 'e) BuildOptions = "'v StoreOptions" +
  Loader :: "('k, 'v, 'e) loader option"
  StringKeyFunc :: "('k \<Rightarrow> string) option"

datatype build_error = SizeMustBePositive | LoaderRequired | SecondaryCacheRequired | WorkersMustBePositive

subsection \<open>The loading store\<close>

record ('k, 'v, 'e) LoadingStore =
  ls_loader :: "('k, 'v, 'e) loader option"
  ls_Store :: "('k, 'v) store"

definition NewLoadingStore :: "('k, 'v) store \<Rightarrow> ('k, 'v, 'e) LoadingStore" where
  "NewLoadingStore st = \<lparr>ls_loader = None, ls_Store = st\<rparr>"

definition LoadingStore_Loader :: "('k, 'v, 'e) loader \<Rightarrow> ('k, 'v, 'e) LoadingStore \<Rightarrow> ('k, 'v, 'e) LoadingStore" where
  "LoadingStore_Loader ld s = s\<lparr>ls_loader := Some ld\<rparr>"

subsection \<open>The clients\<close>

record ('k, 'v) Cache =
  c_store :: "('k, 'v) store"

record ('k, 'v, 'e) LoadingCache =
  lc_store :: "('k, 'v, 'e) LoadingStore"

record ('k, 'v) HybridCache =
  hc_store :: "('k, 'v) store"

record ('k, 'v, 'e) HybridLoadingCache =
  hlc_store :: "('k, 'v, 'e) LoadingStore"

definition ZERO_TTL :: i64 where
  "ZERO_TTL = 0"

definition Cache_Get :: "'k \<Rightarrow> ('k, 'v::zero) Cache \<Rightarrow> (('v \<times> bool) \<times> ('k, 'v) Cache) option" where
  "Cache_Get k c = do { (r, st) \<leftarrow> store_Get k (c_store c); Some (r, c\<lparr>c_store := st\<rparr>) }"

definition Cache_SetWithTTL :: "('v \<Rightarrow> i64) \<Rightarrow> 'k \<Rightarrow> 'v \<Rightarrow> i64 \<Rightarrow> i64 \<Rightarrow> ('k::zero, 'v::zero) Cache \<Rightarrow> (bool \<times> ('k, 'v) Cache) option" where
  "Cache_SetWithTTL costf k v cost ttl c = do { (ok, st) \<leftarrow> store_Set costf k v cost ttl (c_store c); Some (ok, c\<lparr>c_store := st\<rparr>) }"

definition Cache_Set :: "('v \<Rightarrow> i64) \<Rightarrow> 'k \<Rightarrow> 'v \<Rightarrow> i64 \<Rightarrow> ('k::zero, 'v::zero) Cache \<Rightarrow> (bool \<times> ('k, 'v) Cache) option" where
  "Cache_Set costf k v cost c = Cache_SetWithTTL costf k v cost ZERO_TTL c"

definition Cache_Delete :: "'k \<Rightarrow> ('k, 'v) Cache \<Rightarrow> ('k, 'v) Cache option" where
  "Cache_Delete k c = do { st \<leftarrow> store_Delete k (c_store c); Some (c\<lparr>c_store := st\<rparr>) }"

definition Cache_Range :: "('k Shard \<Rightarrow> ('k \<times> addr) list) \<Rightarrow> ('k \<Rightarrow> 'v \<Rightarrow> 's \<Rightarrow> bool \<times> 's) \<Rightarrow> 's \<Rightarrow> ('k, 'v) Cache \<Rightarrow> 's \<times> ('k, 'v) Cache" where
  "Cache_Range ord f s c = (let (s, st) = store_Range ord f s (c_store c) in (s, c\<lparr>c_store := st\<rparr>))"

definition Cache_Len :: "('k, 'v) Cache \<Rightarrow> nat" where
  "Cache_Len c = store_Len (c_store c)"

definition Cache_EstimatedSize :: "('k, 'v) Cache \<Rightarrow> i64" where
  "Cache_EstimatedSize c = EstimatedSize (c_store c)"

definition Cache_Close :: "('k, 'v) Cache \<Rightarrow> ('k, 'v) Cache" where
  "Cache_Close c = c\<lparr>c_store := store_Close (c_store c)\<rparr>"

definition Cache_SaveCache :: "('k, 'v) gob \<Rightarrow> u64 \<Rightarrow> ('k, 'v) Cache \<Rightarrow> (persist_error + bytes) option" where
  "Cache_SaveCache g version c = store_Persist g version (c_store c)"

definition Cache_LoadCache :: "('k, 'v) gob \<Rightarrow> u64 \<Rightarrow> bytes \<Rightarrow> ('k::zero, 'v::zero) Cache \<Rightarrow> (persist_error option \<times> ('k, 'v) Cache) option" where
  "Cache_LoadCache g version bs c = do { (err, st) \<leftarrow> store_Recover g version bs (c_store c); Some (err, c\<lparr>c_store := st\<rparr>) }"

definition Cache_Stats :: "('k, 'v) Cache \<Rightarrow> Stats" where
  "Cache_Stats c = store_Stats (c_store c)"

definition Cache_Wait :: "('k, 'v) Cache \<Rightarrow> ('k, 'v) Cache" where
  "Cache_Wait c = c\<lparr>c_store := store_Wait (c_store c)\<rparr>"

text \<open>
  The methods of the loading clients that the embedded store provides. A loading client is
  built with its loader, so that the case of a missing one does not arise.
\<close>

definition with_store :: "('k, 'v) store \<Rightarrow> ('k, 'v, 'e) LoadingStore \<Rightarrow> ('k, 'v, 'e) LoadingStore" where
  "with_store st s = s\<lparr>ls_Store := st\<rparr>"

definition loading_get :: "('k, 'v, 'e, 'c) SecondaryCache_ops \<Rightarrow> ('v \<Rightarrow> i64) \<Rightarrow> 'k \<Rightarrow> ('k::zero, 'v::zero, 'e) LoadingStore \<Rightarrow> 'c
    \<Rightarrow> (('v \<times> 'e cache_error option) \<times> ('k, 'v, 'e) LoadingStore \<times> 'c) option" where
  "loading_get S costf k s sc =
     do { ld \<leftarrow> ls_loader s;
          (r, st, sc) \<leftarrow> LoadingStore_Get S costf ld k (ls_Store s) sc;
          Some (r, with_store st s, sc) }"

definition LoadingCache_Get :: "('k, 'v, 'e, 'c) SecondaryCache_ops \<Rightarrow> ('v \<Rightarrow> i64) \<Rightarrow> 'k \<Rightarrow> ('k::zero, 'v::zero, 'e) LoadingCache \<Rightarrow> 'c \<Rightarrow> (('v \<times> 'e cache_error option) \<times> ('k, 'v, 'e) LoadingCache \<times> 'c) option" where
  "LoadingCache_Get S costf k c sc = do { (r, s, sc) \<leftarrow> loading_get S costf k (lc_store c) sc; Some (r, c\<lparr>lc_store := s\<rparr>, sc) }"

definition LoadingCache_SetWithTTL :: "('v \<Rightarrow> i64) \<Rightarrow> 'k \<Rightarrow> 'v \<Rightarrow> i64 \<Rightarrow> i64 \<Rightarrow> ('k::zero, 'v::zero, 'e) LoadingCache \<Rightarrow> (bool \<times> ('k, 'v, 'e) LoadingCache) option" where
  "LoadingCache_SetWithTTL costf k v cost ttl c = do { (ok, st) \<leftarrow> store_Set costf k v cost ttl (ls_Store (lc_store c)); Some (ok, c\<lparr>lc_store := with_store st (lc_store c)\<rparr>) }"

definition LoadingCache_Set :: "('v \<Rightarrow> i64) \<Rightarrow> 'k \<Rightarrow> 'v \<Rightarrow> i64 \<Rightarrow> ('k::zero, 'v::zero, 'e) LoadingCache \<Rightarrow> (bool \<times> ('k, 'v, 'e) LoadingCache) option" where
  "LoadingCache_Set costf k v cost c = LoadingCache_SetWithTTL costf k v cost ZERO_TTL c"

definition LoadingCache_Delete :: "'k \<Rightarrow> ('k, 'v, 'e) LoadingCache \<Rightarrow> ('k, 'v, 'e) LoadingCache option" where
  "LoadingCache_Delete k c = do { st \<leftarrow> store_Delete k (ls_Store (lc_store c)); Some (c\<lparr>lc_store := with_store st (lc_store c)\<rparr>) }"

definition LoadingCache_Range :: "('k Shard \<Rightarrow> ('k \<times> addr) list) \<Rightarrow> ('k \<Rightarrow> 'v \<Rightarrow> 's \<Rightarrow> bool \<times> 's) \<Rightarrow> 's \<Rightarrow> ('k, 'v, 'e) LoadingCache \<Rightarrow> 's \<times> ('k, 'v, 'e) LoadingCache" where
  "LoadingCache_Range ord f s c = (let (s, st) = store_Range ord f s (ls_Store (lc_store c)) in (s, c\<lparr>lc_store := with_store st (lc_store c)\<rparr>))"

definition LoadingCache_Len :: "('k, 'v, 'e) LoadingCache \<Rightarrow> nat" where
  "LoadingCache_Len c = store_Len (ls_Store (lc_store c))"

definition LoadingCache_EstimatedSize :: "('k, 'v, 'e) LoadingCache \<Rightarrow> i64" where
  "LoadingCache_EstimatedSize c = EstimatedSize (ls_Store (lc_store c))"

definition LoadingCache_SaveCache :: "('k, 'v) gob \<Rightarrow> u64 \<Rightarrow> ('k, 'v, 'e) LoadingCache \<Rightarrow> (persist_error + bytes) option" where
  "LoadingCache_SaveCache g version c = store_Persist g version (ls_Store (lc_store c))"

definition LoadingCache_LoadCache :: "('k, 'v) gob \<Rightarrow> u64 \<Rightarrow> bytes \<Rightarrow> ('k::zero, 'v::zero, 'e) LoadingCache \<Rightarrow> (persist_error option \<times> ('k, 'v, 'e) LoadingCache) option" where
  "LoadingCache_LoadCache g version bs c = do { (err, st) \<leftarrow> store_Recover g version bs (ls_Store (lc_store c)); Some (err, c\<lparr>lc_store := with_store st (lc_store c)\<rparr>) }"

definition LoadingCache_Stats :: "('k, 'v, 'e) LoadingCache \<Rightarrow> Stats" where
  "LoadingCache_Stats c = store_Stats (ls_Store (lc_store c))"

definition LoadingCache_Wait :: "('k, 'v, 'e) LoadingCache \<Rightarrow> ('k, 'v, 'e) LoadingCache" where
  "LoadingCache_Wait c = c\<lparr>lc_store := with_store (store_Wait (ls_Store (lc_store c))) (lc_store c)\<rparr>"

definition LoadingCache_Close :: "('k, 'v, 'e) LoadingCache \<Rightarrow> ('k, 'v, 'e) LoadingCache" where
  "LoadingCache_Close c = c\<lparr>lc_store := with_store (store_Close (ls_Store (lc_store c))) (lc_store c)\<rparr>"

text \<open>The hybrid clients. \<open>Close\<close> of \<open>HybridCache\<close> has an empty body.\<close>

definition HybridCache_Get :: "('k, 'v, 'e, 'c) SecondaryCache_ops \<Rightarrow> 'k \<Rightarrow> ('k::zero, 'v::zero) HybridCache \<Rightarrow> 'c \<Rightarrow> (('v \<times> bool \<times> 'e cache_error option) \<times> ('k, 'v) HybridCache \<times> 'c) option" where
  "HybridCache_Get S k c sc = do { (r, st, sc) \<leftarrow> GetWithSecodary S k (hc_store c) sc; Some (r, c\<lparr>hc_store := st\<rparr>, sc) }"

definition HybridCache_SetWithTTL :: "('v \<Rightarrow> i64) \<Rightarrow> 'k \<Rightarrow> 'v \<Rightarrow> i64 \<Rightarrow> i64 \<Rightarrow> ('k::zero, 'v::zero) HybridCache \<Rightarrow> (bool \<times> ('k, 'v) HybridCache) option" where
  "HybridCache_SetWithTTL costf k v cost ttl c = do { (ok, st) \<leftarrow> store_Set costf k v cost ttl (hc_store c); Some (ok, c\<lparr>hc_store := st\<rparr>) }"

definition HybridCache_Set :: "('v \<Rightarrow> i64) \<Rightarrow> 'k \<Rightarrow> 'v \<Rightarrow> i64 \<Rightarrow> ('k::zero, 'v::zero) HybridCache \<Rightarrow> (bool \<times> ('k, 'v) HybridCache) option" where
  "HybridCache_Set costf k v cost c = HybridCache_SetWithTTL costf k v cost ZERO_TTL c"

definition HybridCache_Delete :: "('k, 'v, 'e, 'c) SecondaryCache_ops \<Rightarrow> 'k \<Rightarrow> ('k, 'v) HybridCache \<Rightarrow> 'c \<Rightarrow> ('e cache_error option \<times> ('k, 'v) HybridCache \<times> 'c) option" where
  "HybridCache_Delete S k c sc = do { (err, st, sc) \<leftarrow> DeleteWithSecondary S k (hc_store c) sc; Some (err, c\<lparr>hc_store := st\<rparr>, sc) }"

definition HybridCache_SaveCache :: "('k, 'v) gob \<Rightarrow> u64 \<Rightarrow> ('k, 'v) HybridCache \<Rightarrow> (persist_error + bytes) option" where
  "HybridCache_SaveCache g version c = store_Persist g version (hc_store c)"

definition HybridCache_LoadCache :: "('k, 'v) gob \<Rightarrow> u64 \<Rightarrow> bytes \<Rightarrow> ('k::zero, 'v::zero) HybridCache \<Rightarrow> (persist_error option \<times> ('k, 'v) HybridCache) option" where
  "HybridCache_LoadCache g version bs c = do { (err, st) \<leftarrow> store_Recover g version bs (hc_store c); Some (err, c\<lparr>hc_store := st\<rparr>) }"

definition HybridCache_Close :: "('k, 'v) HybridCache \<Rightarrow> ('k, 'v) HybridCache" where
  "HybridCache_Close c = c"

definition HybridLoadingCache_Get :: "('k, 'v, 'e, 'c) SecondaryCache_ops \<Rightarrow> ('v \<Rightarrow> i64) \<Rightarrow> 'k \<Rightarrow> ('k::zero, 'v::zero, 'e) HybridLoadingCache \<Rightarrow> 'c \<Rightarrow> (('v \<times> 'e cache_error option) \<times> ('k, 'v, 'e) HybridLoadingCache \<times> 'c) option" where
  "HybridLoadingCache_Get S costf k c sc = do { (r, s, sc) \<leftarrow> loading_get S costf k (hlc_store c) sc; Some (r, c\<lparr>hlc_store := s\<rparr>, sc) }"

definition HybridLoadingCache_SetWithTTL :: "('v \<Rightarrow> i64) \<Rightarrow> 'k \<Rightarrow> 'v \<Rightarrow> i64 \<Rightarrow> i64 \<Rightarrow> ('k::zero, 'v::zero, 'e) HybridLoadingCache \<Rightarrow> (bool \<times> ('k, 'v, 'e) HybridLoadingCache) option" where
  "HybridLoadingCache_SetWithTTL costf k v cost ttl c = do { (ok, st) \<leftarrow> store_Set costf k v cost ttl (ls_Store (hlc_store c)); Some (ok, c\<lparr>hlc_store := with_store st (hlc_store c)\<rparr>) }"

definition HybridLoadingCache_Set :: "('v \<Rightarrow> i64) \<Rightarrow> 'k \<Rightarrow> 'v \<Rightarrow> i64 \<Rightarrow> ('k::zero, 'v::zero, 'e) HybridLoadingCache \<Rightarrow> (bool \<times> ('k, 'v, 'e) HybridLoadingCache) option" where
  "HybridLoadingCache_Set costf k v cost c = HybridLoadingCache_SetWithTTL costf k v cost ZERO_TTL c"

definition HybridLoadingCache_Delete :: "('k, 'v, 'e, 'c) SecondaryCache_ops \<Rightarrow> 'k \<Rightarrow> ('k, 'v, 'e) HybridLoadingCache \<Rightarrow> 'c \<Rightarrow> ('e cache_error option \<times> ('k, 'v, 'e) HybridLoadingCache \<times> 'c) option" where
  "HybridLoadingCache_Delete S k c sc = do { (err, st, sc) \<leftarrow> DeleteWithSecondary S k (ls_Store (hlc_store c)) sc; Some (err, c\<lparr>hlc_store := with_store st (hlc_store c)\<rparr>, sc) }"

definition HybridLoadingCache_SaveCache :: "('k, 'v) gob \<Rightarrow> u64 \<Rightarrow> ('k, 'v, 'e) HybridLoadingCache \<Rightarrow> (persist_error + bytes) option" where
  "HybridLoadingCache_SaveCache g version c = store_Persist g version (ls_Store (hlc_store c))"

definition HybridLoadingCache_LoadCache :: "('k, 'v) gob \<Rightarrow> u64 \<Rightarrow> bytes \<Rightarrow> ('k::zero, 'v::zero, 'e) HybridLoadingCache \<Rightarrow> (persist_error option \<times> ('k, 'v, 'e) HybridLoadingCache) option" where
  "HybridLoadingCache_LoadCache g version bs c = do { (err, st) \<leftarrow> store_Recover g version bs (ls_Store (hlc_store c)); Some (err, c\<lparr>hlc_store := with_store st (hlc_store c)\<rparr>) }"

definition HybridLoadingCache_Close :: "('k, 'v, 'e) HybridLoadingCache \<Rightarrow> ('k, 'v, 'e) HybridLoadingCache" where
  "HybridLoadingCache_Close c = c\<lparr>hlc_store := with_store (store_Close (ls_Store (hlc_store c))) (hlc_store c)\<rparr>"

subsection \<open>Validation\<close>

definition validateBuilder :: "('v, 'z) StoreOptions_scheme \<Rightarrow> build_error option" where
  "validateBuilder opts = (if sint (MaxSize opts) \<le> 0 then Some SizeMustBePositive else None)"

definition validateLoadingBuilder :: "('k, 'v, 'e) BuildOptions \<Rightarrow> build_error option" where
  "validateLoadingBuilder opts =
     (case validateBuilder opts of Some e \<Rightarrow> Some e
      | None \<Rightarrow> if Loader opts = None then Some LoaderRequired else None)"

definition validateHybridBuilder :: "('v, 'z) StoreOptions_scheme \<Rightarrow> build_error option" where
  "validateHybridBuilder opts =
     (case validateBuilder opts of Some e \<Rightarrow> Some e
      | None \<Rightarrow> if \<not> SecondaryCache opts then Some SecondaryCacheRequired
                else if sint (Workers opts) \<le> 0 then Some WorkersMustBePositive else None)"

definition validateLoadingHybridBuilder :: "('k, 'v, 'e) BuildOptions \<Rightarrow> build_error option" where
  "validateLoadingHybridBuilder opts =
     (case validateLoadingBuilder opts of Some e \<Rightarrow> Some e
      | None \<Rightarrow> (case validateHybridBuilder opts of Some e \<Rightarrow> Some e | None \<Rightarrow> None))"

subsection \<open>The builders\<close>

text \<open>The four builders hold nothing but the options.\<close>

definition NewBuilder :: "i64 \<Rightarrow> ('k, 'v, 'e) BuildOptions" where
  "NewBuilder maxsize =
     \<lparr>MaxSize = maxsize, Doorkeeper = False, EntryPool = False, Listener = False, Cost = None, SecondaryCache = False, Workers = 0, Probability = 0, Loader = None,
       StringKeyFunc = None\<rparr>"

definition Builder_Cost :: "('v \<Rightarrow> i64) \<Rightarrow> ('k, 'v, 'e) BuildOptions \<Rightarrow> ('k, 'v, 'e) BuildOptions" where
  "Builder_Cost cost b = b\<lparr>Cost := Some cost\<rparr>"

definition Builder_Doorkeeper :: "bool \<Rightarrow> ('k, 'v, 'e) BuildOptions \<Rightarrow> ('k, 'v, 'e) BuildOptions" where
  "Builder_Doorkeeper enabled b = b\<lparr>Doorkeeper := enabled\<rparr>"

definition UseEntryPool :: "bool \<Rightarrow> ('k, 'v, 'e) BuildOptions \<Rightarrow> ('k, 'v, 'e) BuildOptions" where
  "UseEntryPool enabled b = b\<lparr>EntryPool := enabled\<rparr>"

definition StringKey :: "('k \<Rightarrow> string) \<Rightarrow> ('k, 'v, 'e) BuildOptions \<Rightarrow> ('k, 'v, 'e) BuildOptions" where
  "StringKey fn b = b\<lparr>StringKeyFunc := Some fn\<rparr>"

text \<open>
  \<open>NewStore\<close> makes the hasher from this function; the runtime that a builder is given has the
  hash function of that hasher.
\<close>

definition with_hasher :: "('s \<Rightarrow> string \<Rightarrow> u64) \<Rightarrow> ('s \<Rightarrow> 'k \<Rightarrow> u64) \<Rightarrow> 's \<Rightarrow> ('k, 'v, 'e) BuildOptions \<Rightarrow> 'k runtime \<Rightarrow> 'k runtime" where
  "with_hasher cs ck makeSeed b rt = rt\<lparr>rt_hasher := Hash cs ck (NewHasher makeSeed (StringKeyFunc b))\<rparr>"

text \<open>Whether a listener is set is all the store distinguishes; its calls are recorded.\<close>

definition RemovalListener :: "bool \<Rightarrow> ('k, 'v, 'e) BuildOptions \<Rightarrow> ('k, 'v, 'e) BuildOptions" where
  "RemovalListener listener b = b\<lparr>Listener := listener\<rparr>"

definition Builder_Build :: "'k::zero runtime \<Rightarrow> ('k, 'v::zero, 'e) BuildOptions \<Rightarrow> (build_error + ('k, 'v) Cache) option" where
  "Builder_Build rt b =
     (case validateBuilder b of Some e \<Rightarrow> Some (Inl e)
      | None \<Rightarrow> do { st \<leftarrow> NewStore rt (StoreOptions.truncate b); Some (Inr \<lparr>c_store = st\<rparr>) })"

text \<open>The adapter from the public to the internal type of a loaded value.\<close>

definition internal_loader :: "('k, 'v, 'e) loader \<Rightarrow> ('k, 'v, 'e) loader" where
  "internal_loader loader k = (let (v, err) = loader k in (\<lparr>l_Value = l_Value v, l_Cost = l_Cost v, l_TTL = l_TTL v\<rparr>, err))"

definition Builder_Loading :: "('k, 'v, 'e) loader option \<Rightarrow> ('k, 'v, 'e) BuildOptions \<Rightarrow> ('k, 'v, 'e) BuildOptions" where
  "Builder_Loading loader b = (case loader of None \<Rightarrow> b | Some ld \<Rightarrow> b\<lparr>Loader := Some (internal_loader ld)\<rparr>)"

definition Builder_Hybrid :: "bool \<Rightarrow> ('k, 'v, 'e) BuildOptions \<Rightarrow> ('k, 'v, 'e) BuildOptions" where
  "Builder_Hybrid cache b = b\<lparr>SecondaryCache := cache, Workers := 2, Probability := 1\<rparr>"

definition BuildWithLoader :: "'k::zero runtime \<Rightarrow> ('k, 'v, 'e) loader option \<Rightarrow> ('k, 'v::zero, 'e) BuildOptions \<Rightarrow> (build_error + ('k, 'v, 'e) LoadingCache) option" where
  "BuildWithLoader rt loader b =
     (if sint (MaxSize b) \<le> 0 then Some (Inl SizeMustBePositive)
      else case loader of None \<Rightarrow> Some (Inl LoaderRequired)
      | Some ld \<Rightarrow> do { st \<leftarrow> NewStore rt (StoreOptions.truncate b);
                       Some (Inr \<lparr>lc_store = LoadingStore_Loader (internal_loader ld) (NewLoadingStore st)\<rparr>) })"

definition LoadingBuilder_Hybrid :: "bool \<Rightarrow> ('k, 'v, 'e) BuildOptions \<Rightarrow> ('k, 'v, 'e) BuildOptions" where
  "LoadingBuilder_Hybrid cache b = b\<lparr>SecondaryCache := cache, Workers := 2, Probability := 1\<rparr>"

definition LoadingBuilder_Build :: "'k::zero runtime \<Rightarrow> ('k, 'v::zero, 'e) BuildOptions \<Rightarrow> (build_error + ('k, 'v, 'e) LoadingCache) option" where
  "LoadingBuilder_Build rt b =
     (case validateLoadingBuilder b of Some e \<Rightarrow> Some (Inl e)
      | None \<Rightarrow> do { st \<leftarrow> NewStore rt (StoreOptions.truncate b);
                     Some (Inr \<lparr>lc_store = LoadingStore_Loader (internal_loader (the (Loader b))) (NewLoadingStore st)\<rparr>) })"

definition HybridBuilder_validate :: "('k, 'v, 'e) BuildOptions \<Rightarrow> build_error option" where
  "HybridBuilder_validate b =
     (if \<not> SecondaryCache b then Some SecondaryCacheRequired
      else if sint (Workers b) \<le> 0 then Some WorkersMustBePositive else None)"

definition HybridBuilder_Workers :: "i64 \<Rightarrow> ('k, 'v, 'e) BuildOptions \<Rightarrow> ('k, 'v, 'e) BuildOptions" where
  "HybridBuilder_Workers w b = b\<lparr>Workers := w\<rparr>"

definition AdmProbability :: "rat \<Rightarrow> ('k, 'v, 'e) BuildOptions \<Rightarrow> ('k, 'v, 'e) BuildOptions" where
  "AdmProbability p b = b\<lparr>Probability := p\<rparr>"

definition HybridBuilder_Loading :: "('k, 'v, 'e) loader option \<Rightarrow> ('k, 'v, 'e) BuildOptions \<Rightarrow> ('k, 'v, 'e) BuildOptions" where
  "HybridBuilder_Loading loader b = (case loader of None \<Rightarrow> b | Some ld \<Rightarrow> b\<lparr>Loader := Some (internal_loader ld)\<rparr>)"

definition HybridBuilder_Build :: "'k::zero runtime \<Rightarrow> ('k, 'v::zero, 'e) BuildOptions \<Rightarrow> (build_error + ('k, 'v) HybridCache) option" where
  "HybridBuilder_Build rt b =
     (case HybridBuilder_validate b of Some e \<Rightarrow> Some (Inl e)
      | None \<Rightarrow> do { st \<leftarrow> NewStore rt (StoreOptions.truncate b); Some (Inr \<lparr>hc_store = st\<rparr>) })"

definition HybridLoadingBuilder_Build :: "'k::zero runtime \<Rightarrow> ('k, 'v::zero, 'e) BuildOptions \<Rightarrow> (build_error + ('k, 'v, 'e) HybridLoadingCache) option" where
  "HybridLoadingBuilder_Build rt b =
     (case validateLoadingHybridBuilder b of Some e \<Rightarrow> Some (Inl e)
      | None \<Rightarrow> do { st \<leftarrow> NewStore rt (StoreOptions.truncate b);
                     Some (Inr \<lparr>hlc_store = LoadingStore_Loader (internal_loader (the (Loader b))) (NewLoadingStore st)\<rparr>) })"

subsection \<open>What a builder gives\<close>

lemma NewStore_total:
  fixes rt :: "'k::zero runtime" and opts :: "'v::zero StoreOptions"
  shows "\<exists>st. NewStore rt opts = Some st \<and> capacity (policy st) = MaxSize opts"
proof -
  obtain sk where sk: "NewCountMinSketch = Some sk" using NewCountMinSketch_wf by blast
  have "\<exists>h t. NewTinyLfu (MaxSize opts) (rt_hasher rt) (Parallelism rt) 0 1 2 (\<lambda>_. zero_entry :: ('k, 'v) Entry) = Some (h, t) \<and> capacity t = MaxSize opts"
    unfolding NewTinyLfu_def Let_def sk split_beta by simp
  then obtain h t where t: "NewTinyLfu (MaxSize opts) (rt_hasher rt) (Parallelism rt) 0 1 2 (\<lambda>_. zero_entry :: ('k, 'v) Entry) = Some (h, t)" "capacity t = MaxSize opts"
    by blast
  obtain ss :: "'k Shard list" where ss: "new_shards (rt_log rt) (Doorkeeper opts) (shard_count (GOMAXPROCS rt)) = Some ss" using new_shards_spec by blast
  show ?thesis unfolding NewStore_def t(1) ss by (simp add: t(2) split: prod.splits)
qed

lemma truncate_fields [simp]:
  "MaxSize (StoreOptions.truncate b) = MaxSize b" "EntryPool (StoreOptions.truncate b) = EntryPool b" "Doorkeeper (StoreOptions.truncate b) = Doorkeeper b"
  by (simp_all add: StoreOptions.truncate_def)

lemma built_store:
  fixes b :: "('k::zero, 'v::zero, 'e) BuildOptions"
  assumes "runtime_ok rt" "0 < sint (MaxSize b)" "NewStore rt (StoreOptions.truncate b) = Some st" "\<not> EntryPool b"
  shows "run_inv (MaxSize b) Map.empty st"
  using run_start [of "StoreOptions.truncate b" rt st] assms by simp



text \<open>
  The builder of a hybrid cache does not check the size: every other builder refuses a
  size that is not positive, while \<open>HybridBuilder.Build\<close>, whose own \<open>validate\<close> is not the
  shared one, returns a cache whose capacity is the unsigned value of that size.
\<close>

theorem hybrid_build_size_unchecked:
  fixes b :: "('k::zero, 'v::zero, 'e) BuildOptions"
  assumes "sint (MaxSize b) \<le> 0"
  shows "\<exists>c. HybridBuilder_Build rt (Builder_Hybrid True b) = Some (Inr c) \<and> capacity (policy (hc_store c)) = MaxSize b \<and>
    Builder_Build rt b = Some (Inl SizeMustBePositive) \<and> LoadingBuilder_Build rt b = Some (Inl SizeMustBePositive) \<and>
    HybridLoadingBuilder_Build rt (Builder_Hybrid True b) = Some (Inl SizeMustBePositive)"
proof -
  obtain st where st: "NewStore rt (StoreOptions.truncate (Builder_Hybrid True b)) = Some st" "capacity (policy st) = MaxSize (Builder_Hybrid True b)"
    using NewStore_total [of rt "StoreOptions.truncate (Builder_Hybrid True b)"] by auto
  then show ?thesis using assms
    by (simp add: HybridBuilder_Build_def HybridBuilder_validate_def Builder_Hybrid_def Builder_Build_def LoadingBuilder_Build_def HybridLoadingBuilder_Build_def
      validateBuilder_def validateLoadingBuilder_def validateLoadingHybridBuilder_def)
qed

theorem hybrid_build_size_unchecked_witness:
  "\<exists>c. HybridBuilder_Build demo_rt (Builder_Hybrid True (NewBuilder 0 :: (nat, nat, string) BuildOptions)) = Some (Inr c) \<and> capacity (policy (hc_store c)) = 0"
proof -
  have "sint (MaxSize (NewBuilder 0 :: (nat, nat, string) BuildOptions)) \<le> 0" "MaxSize (NewBuilder 0 :: (nat, nat, string) BuildOptions) = 0"
    by (simp_all add: NewBuilder_def)
  then show ?thesis using hybrid_build_size_unchecked [of "NewBuilder 0 :: (nat, nat, string) BuildOptions" demo_rt] by metis
qed

lemma built_set_get:
  fixes b :: "('k::zero, 'v::zero, 'e) BuildOptions"
  assumes r: "runtime_ok rt" and n: "0 < sint cost" "sint cost \<le> sint (MaxSize b)" and b: "\<not> EntryPool b" "\<not> Doorkeeper b"
  obtains c c1 c2 where "Builder_Build rt b = Some (Inr c)" "Cache_Set costf k v cost c = Some (True, c1)" "Cache_Get k c1 = Some ((v, True), c2)"
    "run_inv (MaxSize b) [k \<mapsto> v] (c_store c2)" "s_hasher (c_store c) = rt_hasher rt"
proof -
  let ?o = "StoreOptions.truncate b" and ?n = "MaxSize b"
  have o: "0 < sint (MaxSize ?o)" "\<not> EntryPool ?o" using n b by simp_all
  obtain st where N: "NewStore rt ?o = Some st" "roomy st" "lookup st = Map.empty" "\<not> doorkeeper st" "st_cap st = ?n" "\<not> closed_at st k"
    and I: "store_inv st (\<lambda>_. [])" "supply_ok st" "doors_ok st" and h: "s_hasher st = rt_hasher rt"
    using NewStore_spec [OF o(1) r] b by auto
  have R: "run_inv ?n Map.empty st" using run_start [OF o(1) r o(2) N(1)] by simp
  have c: "set_cost costf v cost = cost" using n(1) by (auto simp: set_cost_def)
  have m: "may_set costf v cost st" using N(2) n(1) by (simp add: may_set_def c)
  obtain ok st1 where S: "store_Set costf k v cost 0 st = Some (ok, st1)" "run_inv ?n (if ok then [k \<mapsto> v] else Map.empty) st1" using run_set [OF R m] by blast
  have ok: ok using store_Set_spec [OF I N(2), of costf k v cost 0] S(1) N(4,5) n(2) by (auto simp: c slt_def)
  obtain st2 where G: "store_Get k st1 = Some ((v, True), st2)" using set_then_get [OF R m _ N(6)] S(1) ok N(3) by auto
  have R2: "run_inv ?n [k \<mapsto> v] st2" using run_get [OF S(2), of k] G ok by auto
  have "Builder_Build rt b = Some (Inr \<lparr>c_store = st\<rparr>)" using N(1) o(1) by (simp add: Builder_Build_def validateBuilder_def)
  then show thesis
    by (rule that [of "\<lparr>c_store = st\<rparr>" "\<lparr>c_store = st1\<rparr>" "\<lparr>c_store = st2\<rparr>"])
      (use S(1) ok G R2 h in \<open>simp_all add: ZERO_TTL_def Cache_Set_def Cache_SetWithTTL_def Cache_Get_def\<close>)
qed

lemma Cache_Get_absent:
  assumes "run_inv cap A (c_store c)" "A k = None" obtains c' where "Cache_Get k c = Some ((0, False), c')"
proof -
  obtain st' where "store_Get k (c_store c) = Some ((0, False), st')" using run_get [OF assms(1), of k] assms(2) by (auto split: if_splits)
  then show thesis by (intro that) (simp add: Cache_Get_def)
qed

text \<open>
  C24. The cycle of a client, from the builder on: a cache built for a positive size accepts a
  value whose cost is positive and within the size, returns it, and after \<open>Delete\<close> no longer
  finds it.
\<close>

theorem build_set_get_delete:
  fixes rt :: "'k::zero runtime" and v :: "'v::zero"
  assumes r: "runtime_ok rt" and n: "0 < sint cost" "sint cost \<le> sint n"
  shows "\<exists>c c1 c2 c3 c4. Builder_Build rt (NewBuilder n :: ('k, 'v, 'e) BuildOptions) = Some (Inr c) \<and> Cache_Set costf k v cost c = Some (True, c1) \<and>
    Cache_Get k c1 = Some ((v, True), c2) \<and> Cache_Delete k c2 = Some c3 \<and> Cache_Get k c3 = Some ((0, False), c4)"
proof -
  let ?b = "NewBuilder n :: ('k, 'v, 'e) BuildOptions"
  have b: "sint cost \<le> sint (MaxSize ?b)" "\<not> EntryPool ?b" "\<not> Doorkeeper ?b" using n by (simp_all add: NewBuilder_def)
  obtain c c1 c2 where B: "Builder_Build rt ?b = Some (Inr c)" "Cache_Set costf k v cost c = Some (True, c1)" "Cache_Get k c1 = Some ((v, True), c2)"
    "run_inv (MaxSize ?b) [k \<mapsto> v] (c_store c2)" by (rule built_set_get [OF r n(1) b])
  obtain st3 where D: "store_Delete k (c_store c2) = Some st3" "run_inv (MaxSize ?b) ([k \<mapsto> v](k := None)) st3" using run_delete [OF B(4)] by blast
  define c3 where "c3 = c2\<lparr>c_store := st3\<rparr>"
  have "run_inv (MaxSize ?b) ([k \<mapsto> v](k := None)) (c_store c3)" using D(2) by (simp add: c3_def)
  then obtain c4 where "Cache_Get k c3 = Some ((0, False), c4)" by (rule Cache_Get_absent) simp
  moreover have "Cache_Delete k c2 = Some c3" using D(1) by (simp add: Cache_Delete_def c3_def)
  ultimately show ?thesis using B(1-3) by blast
qed

theorem build_set_get_delete_witness:
  "\<exists>c c1 c2 c3 c4. Builder_Build demo_rt (NewBuilder 10 :: (nat, nat, string) BuildOptions) = Some (Inr c) \<and> Cache_Set (\<lambda>_. 1) 1 7 3 c = Some (True, c1) \<and>
    Cache_Get 1 c1 = Some ((7, True), c2) \<and> Cache_Delete 1 c2 = Some c3 \<and> Cache_Get 1 c3 = Some ((0, False), c4)"
  by (rule build_set_get_delete [OF demo_ok(2)]) simp_all

subsection \<open>The cache as a map that may lose bindings\<close>

definition cache_background :: "('k::zero, 'v::zero) Cache \<Rightarrow> ('k, 'v) Cache \<Rightarrow> bool" where
  "cache_background c c' \<longleftrightarrow> maintenance_step (c_store c) (c_store c')"

definition cache_rep :: "u64 \<Rightarrow> 'k set \<Rightarrow> ('k \<rightharpoonup> 'v) \<Rightarrow> ('k, 'v) Cache \<Rightarrow> bool" where
  "cache_rep cap K A c \<longleftrightarrow> client_rep cap K A (c_store c)"

lemma Cache_calls:
  assumes "cache_rep cap K A c"
  shows "\<exists>v ok c'. Cache_Get k c = Some ((v, ok), c') \<and> cache_rep cap K A c' \<and> (ok \<longrightarrow> A k = Some v)"
    and "client_fit costf K k v cost \<Longrightarrow> \<exists>ok c'. Cache_SetWithTTL costf k v cost ttl c = Some (ok, c') \<and> cache_rep cap K (if ok then A(k \<mapsto> v) else A) c'"
    and "\<exists>c'. Cache_Delete k c = Some c' \<and> cache_rep cap K (A(k := None)) c'"
    and "cache_background c c' \<Longrightarrow> cache_rep cap K A c'"
proof -
  have R: "client_rep cap K A (c_store c)" using assms by (simp add: cache_rep_def)
  obtain w ok st where "store_Get k (c_store c) = Some ((w, ok), st)" "client_rep cap K A st" "ok \<longrightarrow> A k = Some w" using client_get [OF R] by blast
  then show "\<exists>v ok c'. Cache_Get k c = Some ((v, ok), c') \<and> cache_rep cap K A c' \<and> (ok \<longrightarrow> A k = Some v)"
    by (intro exI [of _ w] exI [of _ ok] exI [of _ "c\<lparr>c_store := st\<rparr>"]) (simp add: Cache_Get_def cache_rep_def)
  obtain st where "store_Delete k (c_store c) = Some st" "client_rep cap K (A(k := None)) st" using client_delete [OF R] by blast
  then show "\<exists>c'. Cache_Delete k c = Some c' \<and> cache_rep cap K (A(k := None)) c'"
    by (intro exI [of _ "c\<lparr>c_store := st\<rparr>"]) (simp add: Cache_Delete_def cache_rep_def)
  show "cache_rep cap K A c'" if "cache_background c c'" using client_background [OF R] that by (simp add: cache_rep_def cache_background_def)
  assume "client_fit costf K k v cost"
  then obtain ok st where "store_Set costf k v cost ttl (c_store c) = Some (ok, st)" "client_rep cap K (if ok then A(k \<mapsto> v) else A) st" using client_set [OF R] by blast
  then show "\<exists>ok c'. Cache_SetWithTTL costf k v cost ttl c = Some (ok, c') \<and> cache_rep cap K (if ok then A(k \<mapsto> v) else A) c'"
    by (intro exI [of _ ok] exI [of _ "c\<lparr>c_store := st\<rparr>"]) (simp add: Cache_SetWithTTL_def cache_rep_def)
qed

interpretation cache: lossy_cache Cache_Get "Cache_SetWithTTL costf" Cache_Delete cache_background "cache_rep cap K" "client_fit costf K" for costf cap K
  by unfold_locales (rule Cache_calls; assumption)+

lemma built_rep:
  fixes b :: "('k::zero, 'v::zero, 'e) BuildOptions"
  assumes "runtime_ok rt" "\<not> EntryPool b" "Builder_Build rt b = Some (Inr c)" "few K"
  shows "cache_rep (MaxSize b) K Map.empty c"
proof -
  obtain st where st: "NewStore rt (StoreOptions.truncate b) = Some st" using NewStore_total by blast
  then have "0 < sint (MaxSize b)" "c_store c = st" using assms(3) by (auto simp: Builder_Build_def validateBuilder_def split: if_splits)
  then show ?thesis using built_store [OF assms(1) _ st assms(2)] assms(4) by (simp add: cache_rep_def client_rep_def)
qed

text \<open>
  C6. A cache from the builder refines a map that may lose bindings. Take any sequence of
  \<open>Get\<close>, \<open>SetWithTTL\<close> and \<open>Delete\<close> calls with the maintenance goroutines at work in between, on keys from
  a set that is not too large and with costs that are not negative. Every value that a \<open>Get\<close>
  finds is the one that the last successful \<open>SetWithTTL\<close> of the key stored, with no \<open>Delete\<close> of
  the key since; and after the sequence every further call returns.
\<close>

theorem cache_refines_map:
  fixes b :: "('k::zero, 'v::zero, 'e) BuildOptions"
  assumes "runtime_ok rt" "\<not> EntryPool b" "Builder_Build rt b = Some (Inr c0)" "few K"
    and "session Cache_Get (Cache_SetWithTTL costf) Cache_Delete cache_background c0 es c" "\<forall>e\<in>set es. writes (client_fit costf K) e"
  shows "agrees Map.empty es \<and> (\<forall>k. Cache_Get k c \<noteq> None \<and> Cache_Delete k c \<noteq> None \<and>
    (\<forall>v cost ttl. client_fit costf K k v cost \<longrightarrow> Cache_SetWithTTL costf k v cost ttl c \<noteq> None))"
proof -
  obtain A where S: "agrees Map.empty es" "cache_rep (MaxSize b) K A c" using cache.session_refines [OF assms(5) built_rep [OF assms(1-4)] assms(6)] by blast
  have "Cache_Get k c \<noteq> None" "Cache_Delete k c \<noteq> None" for k using Cache_calls(1,3) [OF S(2)] by (metis option.distinct(1))+
  moreover have "Cache_SetWithTTL costf k v cost ttl c \<noteq> None" if "client_fit costf K k v cost" for k v cost ttl
    using Cache_calls(2) [OF S(2) that] by (metis option.distinct(1))
  ultimately show ?thesis using S(1) by blast
qed

theorem cache_refines_map_witness:
  "\<exists>c0 c. Builder_Build demo_rt (NewBuilder 10 :: (nat, nat, string) BuildOptions) = Some (Inr c0) \<and>
     session Cache_Get (Cache_SetWithTTL (\<lambda>_. 1)) Cache_Delete cache_background c0 [Put 1 7 3 True, Got 1 7 True] c \<and>
     agrees Map.empty [Put 1 7 3 True, Got (1::nat) (7::nat) True] \<and> Cache_Get 1 c \<noteq> None"
proof -
  let ?b = "NewBuilder 10 :: (nat, nat, string) BuildOptions"
  have b: "sint (3 :: i64) \<le> sint (MaxSize ?b)" "\<not> EntryPool ?b" "\<not> Doorkeeper ?b" "0 < sint (3 :: i64)" by (simp_all add: NewBuilder_def)
  obtain c0 c1 c where B: "Builder_Build demo_rt ?b = Some (Inr c0)" "Cache_Set (\<lambda>_. 1) 1 7 3 c0 = Some (True, c1)" "Cache_Get 1 c1 = Some ((7, True), c)"
    by (rule built_set_get [OF demo_ok(2) b(4,1-3)])
  have s: "session Cache_Get (Cache_SetWithTTL (\<lambda>_. 1)) Cache_Delete cache_background c0 [Put 1 7 3 True, Got 1 7 True] c"
    using B(2) unfolding Cache_Set_def by (rule session_set) (rule session_get, rule B(3), rule session_end)
  have f: "few {1 :: nat}" "\<forall>e\<in>set [Put (1::nat) 7 3 True, Got 1 7 True]. writes (client_fit (\<lambda>_. 1) {1}) e" by (simp_all add: few_def client_fit_def set_cost_def)
  from cache_refines_map [OF demo_ok(2) b(2) B(1) f(1) s f(2)] B(1) s show ?thesis by blast
qed

text \<open>
  A key function serves the hash and nothing else. Keys that it maps to the same string share
  their hash, so they fall into the same shard; the cache still tells them apart.
\<close>

theorem string_key_keeps_keys_apart:
  fixes rt :: "'k::zero runtime" and v :: "'v::zero" and fn :: "'k \<Rightarrow> string" and n :: i64
  defines "b \<equiv> StringKey fn (NewBuilder n :: ('k, 'v, 'e) BuildOptions)"
  assumes r: "runtime_ok rt" and n: "0 < sint cost" "sint cost \<le> sint n" and k: "k' \<noteq> k" "fn k' = fn k"
  shows "\<exists>c c1 c2 c3. Builder_Build (with_hasher cs ck makeSeed b rt) b = Some (Inr c) \<and> s_hasher (c_store c) k' = s_hasher (c_store c) k \<and>
    Cache_Set costf k v cost c = Some (True, c1) \<and> Cache_Get k c1 = Some ((v, True), c2) \<and> Cache_Get k' c2 = Some ((0, False), c3)"
proof -
  have b: "sint cost \<le> sint (MaxSize b)" "\<not> EntryPool b" "\<not> Doorkeeper b" "StringKeyFunc b = Some fn" using n by (simp_all add: b_def NewBuilder_def StringKey_def)
  have r': "runtime_ok (with_hasher cs ck makeSeed b rt)" using r by (simp add: with_hasher_def runtime_ok_def)
  obtain c c1 c2 where B: "Builder_Build (with_hasher cs ck makeSeed b rt) b = Some (Inr c)" "Cache_Set costf k v cost c = Some (True, c1)" "Cache_Get k c1 = Some ((v, True), c2)"
    "run_inv (MaxSize b) [k \<mapsto> v] (c_store c2)" "s_hasher (c_store c) = rt_hasher (with_hasher cs ck makeSeed b rt)" by (rule built_set_get [OF r' n(1) b(1-3)])
  moreover have "s_hasher (c_store c) k' = s_hasher (c_store c) k" unfolding B(5) using Hash_kfunc [of fn k' k] k(2) by (simp add: with_hasher_def b(4))
  moreover obtain c3 where "Cache_Get k' c2 = Some ((0, False), c3)" by (rule Cache_Get_absent [OF B(4)]) (use k(1) in simp)
  ultimately show ?thesis by blast
qed

end
