(* ===== verification/Driver.thy ===== *)
theory Driver
  imports Client_API "HOL-Library.Signed_Division"
begin

text \<open>
  The load generator run/main.go: a cache of 500000 entries is filled, then six goroutines read
  and write keys of a fixed sequence for ever, and panic when a value that they read is not the
  one that belongs to the key. The sequence comes from a Zipf generator of math/rand and is a
  parameter; so are the six random offsets. The profiling server is not modelled. As no worker
  ever returns, the lines after \<open>wg.Wait\<close> are never reached.
\<close>

subsection \<open>Values\<close>

text \<open>An array of 128 bytes whose first eight hold a number, little endian.\<close>

datatype v128 = V128 (v128_bytes: "u8 list")

instantiation v128 :: zero
begin

definition zero_v128 :: v128 where
  "zero_v128 = V128 (replicate 128 0)"

instance ..

end

definition Uint64 :: "u8 list \<Rightarrow> u64" where
  "Uint64 b = foldr (\<lambda>i w. push_bit (8 * i) (ucast (b ! i)) OR w) [0..<8] 0"

definition PutUint64 :: "u8 list \<Rightarrow> u64 \<Rightarrow> u8 list" where
  "PutUint64 b v = map (\<lambda>i. ucast (drop_bit (8 * i) v)) [0..<8] @ drop 8 b"

definition GetU64 :: "v128 \<Rightarrow> u64" where
  "GetU64 v = Uint64 (take 8 (v128_bytes v))"

definition SetU64 :: "u64 \<Rightarrow> v128 \<Rightarrow> v128" where
  "SetU64 val v = V128 (PutUint64 (take 8 (v128_bytes v)) val @ drop 8 (v128_bytes v))"

definition NewV128 :: "u64 \<Rightarrow> v128" where
  "NewV128 val = SetU64 val 0"

lemma byte_bit: "n < 64 \<Longrightarrow> bit (push_bit (8 * i) (ucast (ucast (drop_bit (8 * i) v) :: u8)) :: u64) n \<longleftrightarrow> 8 * i \<le> n \<and> n < 8 * i + 8 \<and> bit v n" for v :: u64
  by (auto simp: bit_simps)

lemma Uint64_PutUint64: "Uint64 (PutUint64 b v) = v"
proof (rule bit_word_eqI)
  fix n assume n: "n < LENGTH(64)"
  have "Uint64 (PutUint64 b v) = foldr (\<lambda>i w. push_bit (8 * i) (ucast (ucast (drop_bit (8 * i) v) :: u8)) OR w) [0..<8] 0"
    unfolding Uint64_def by (rule foldr_cong) (simp_all add: PutUint64_def nth_append)
  also have "bit \<dots> n \<longleftrightarrow> (\<exists>i\<in>set [0..<8]. 8 * i \<le> n \<and> n < 8 * i + 8) \<and> bit v n"
  proof -
    have "bit (foldr (\<lambda>i w. push_bit (8 * i) (ucast (ucast (drop_bit (8 * i) v) :: u8)) OR w) is (0 :: u64)) n \<longleftrightarrow> (\<exists>i\<in>set is. 8 * i \<le> n \<and> n < 8 * i + 8) \<and> bit v n" for "is"
      by (induction "is") (use n in \<open>auto simp: bit_or_iff byte_bit\<close>)
    then show ?thesis .
  qed
  also have "(\<exists>i\<in>set [0..<8]. 8 * i \<le> n \<and> n < 8 * i + 8) \<longleftrightarrow> True" using n by (auto intro!: bexI [of _ "n div 8"])
  finally show "bit (Uint64 (PutUint64 b v)) n \<longleftrightarrow> bit v n" by simp
qed

lemma GetU64_NewV128: "GetU64 (NewV128 x) = x"
proof -
  have "take 8 (v128_bytes (NewV128 x)) = PutUint64 (take 8 (replicate 128 0)) x"
    by (simp add: NewV128_def SetU64_def zero_v128_def PutUint64_def)
  then show ?thesis by (simp add: GetU64_def Uint64_PutUint64)
qed

subsection \<open>The workers\<close>

definition CACHE_SIZE :: nat where
  "CACHE_SIZE = 500000"

text \<open>\<open>keyGen\<close> with the numbers that the Zipf generator returns, each at most its bound.\<close>

definition keyGen :: "(nat \<Rightarrow> u64) \<Rightarrow> u64 list" where
  "keyGen zipf = map zipf [0..<2 * 2 ^ 23]"

text \<open>A worker between two calls of the cache; a mismatch is a panic.\<close>

datatype worker_pc = AtGet | AtFill | AtUpdate | Panicked

record worker =
  w_pc :: worker_pc
  w_i :: i64
  w_rd :: i64

definition keyGet :: "u64 list \<Rightarrow> worker \<Rightarrow> u64" where
  "keyGet keys w = keys ! unat ((w_i w + w_rd w) AND (2 * 2 ^ 23 - 1))"

definition keyUpdate :: "u64 list \<Rightarrow> worker \<Rightarrow> u64" where
  "keyUpdate keys w = keys ! unat ((w_i w + 3 * w_rd w) AND (2 * 2 ^ 23 - 1))"

definition fill_ttl :: "i64 \<Rightarrow> i64" where
  "fill_ttl i = 1000000000 * (word_of_int (sint i smod 255) + 10)"

definition update_ttl :: "i64 \<Rightarrow> i64" where
  "update_ttl i = 1000000000 * ((i AND 63) + 30)"

text \<open>The next call of a worker. The options have no cost function, so that the default one is in place.\<close>

definition worker_call :: "u64 list \<Rightarrow> worker \<Rightarrow> (u64, v128) Cache \<Rightarrow> (worker \<times> (u64, v128) Cache) option" where
  "worker_call keys w c =
     (case w_pc w of
        AtGet \<Rightarrow> do { ((v, ok), c) \<leftarrow> Cache_Get (keyGet keys w) c;
                      Some (w\<lparr>w_pc := (if ok \<and> GetU64 v \<noteq> keyGet keys w then Panicked else if \<not> ok then AtFill else AtUpdate)\<rparr>, c) }
      | AtFill \<Rightarrow> do { (_, c) \<leftarrow> Cache_SetWithTTL (\<lambda>_. 1) (keyGet keys w) (NewV128 (keyGet keys w)) 1 (fill_ttl (w_i w)) c;
                       Some (w\<lparr>w_pc := AtUpdate\<rparr>, c) }
      | AtUpdate \<Rightarrow> do { (_, c) \<leftarrow> Cache_SetWithTTL (\<lambda>_. 1) (keyUpdate keys w) (NewV128 (keyUpdate keys w)) ((keyUpdate keys w AND 7) + 1) (update_ttl (w_i w)) c;
                         Some (w\<lparr>w_pc := AtGet, w_i := w_i w + 1\<rparr>, c) }
      | Panicked \<Rightarrow> None)"

subsection \<open>The program\<close>

text \<open>
  The main goroutine fills the cache and then starts the workers; from then on any of them may
  be the next to call. The goroutines of the cache work in between at any time.
\<close>

record driver =
  d_cache :: "(u64, v128) Cache"
  d_filled :: nat
  d_started :: bool
  d_workers :: "worker list"

definition build_client :: "u64 runtime \<Rightarrow> (build_error + (u64, v128) Cache) option" where
  "build_client rt = Builder_Build rt (RemovalListener True (NewBuilder (of_nat CACHE_SIZE) :: (u64, v128, unit) BuildOptions))"

definition fill_call :: "nat \<Rightarrow> (u64, v128) Cache \<Rightarrow> (bool \<times> (u64, v128) Cache) option" where
  "fill_call i c = Cache_SetWithTTL (\<lambda>_. 1) (of_nat i) (NewV128 (of_nat i)) 1 (500 * 1000000000) c"

definition start_workers :: "i64 list \<Rightarrow> worker list" where
  "start_workers rds = map (\<lambda>rd. \<lparr>w_pc = AtGet, w_i = 0, w_rd = rd\<rparr>) rds"

inductive driver_step :: "u64 list \<Rightarrow> i64 list \<Rightarrow> driver \<Rightarrow> driver \<Rightarrow> bool" for keys rds where
  driver_fill: "d_filled d < CACHE_SIZE \<Longrightarrow> fill_call (d_filled d) (d_cache d) = Some (ok, c) \<Longrightarrow>
    driver_step keys rds d (d\<lparr>d_cache := c, d_filled := Suc (d_filled d)\<rparr>)"
| driver_start: "d_filled d = CACHE_SIZE \<Longrightarrow> \<not> d_started d \<Longrightarrow> driver_step keys rds d (d\<lparr>d_started := True, d_workers := start_workers rds\<rparr>)"
| driver_work: "g < length (d_workers d) \<Longrightarrow> worker_call keys (d_workers d ! g) (d_cache d) = Some (w, c) \<Longrightarrow>
    driver_step keys rds d (d\<lparr>d_cache := c, d_workers := (d_workers d)[g := w]\<rparr>)"
| driver_background: "cache_background (d_cache d) c \<Longrightarrow> driver_step keys rds d (d\<lparr>d_cache := c\<rparr>)"

inductive_cases driver_stepE: "driver_step keys rds d d'"

subsection \<open>Every value belongs to its key\<close>

definition key_range :: "u64 set" where
  "key_range = {k. unat k \<le> CACHE_SIZE * 100}"

abbreviation belongs :: "u64 \<Rightarrow> v128 \<Rightarrow> bool" where
  "belongs k v \<equiv> GetU64 v = k"

definition driver_inv :: "driver \<Rightarrow> bool" where
  "driver_inv d \<longleftrightarrow> cache.holds_only (of_nat CACHE_SIZE) key_range belongs (d_cache d) \<and> (\<forall>w\<in>set (d_workers d). w_pc w \<noteq> Panicked)"

lemma few_key_range: "few key_range"
proof -
  have "key_range \<subseteq> of_nat ` {..CACHE_SIZE * 100}" by (auto simp: key_range_def intro!: image_eqI [of _ _ "unat _"])
  then have "finite key_range" "card key_range \<le> Suc (CACHE_SIZE * 100)"
    using card_mono [of "of_nat ` {..CACHE_SIZE * 100}" key_range] card_image_le [of "{..CACHE_SIZE * 100}" "of_nat :: nat \<Rightarrow> u64"]
    by (auto intro: finite_subset)
  then show ?thesis by (simp add: few_def CACHE_SIZE_def)
qed

lemma keys_in_range:
  assumes "length keys = 2 * 2 ^ 23" "set keys \<subseteq> key_range"
  shows "keyGet keys w \<in> key_range" "keyUpdate keys w \<in> key_range"
proof -
  have "unat (x AND (2 * 2 ^ 23 - 1)) < length keys" for x :: i64
  proof -
    have "x AND (2 * 2 ^ 23 - 1) \<le> 2 * 2 ^ 23 - 1" by (rule word_and_le1)
    then have "unat (x AND (2 * 2 ^ 23 - 1)) \<le> unat (2 * 2 ^ 23 - 1 :: i64)" by (simp only: word_le_nat_alt)
    then show ?thesis unfolding assms(1) by simp
  qed
  then show "keyGet keys w \<in> key_range" "keyUpdate keys w \<in> key_range"
    using assms(2) nth_mem unfolding keyGet_def keyUpdate_def by blast+
qed

lemma update_cost_range: "client_fit (\<lambda>_. 1) K k v ((x AND 7) + 1) \<longleftrightarrow> k \<in> K"
proof -
  define m where "m = unat (x AND 7)"
  have x: "x AND 7 = of_nat m" by (simp add: m_def)
  have "x AND 7 \<le> 7" by (rule word_and_le1)
  then have "m \<le> 7" by (simp add: m_def word_le_nat_alt)
  then have "m = 0 \<or> m = 1 \<or> m = 2 \<or> m = 3 \<or> m = 4 \<or> m = 5 \<or> m = 6 \<or> m = 7" by arith
  then have "0 \<le> sint ((x AND 7) + 1)" "(x AND 7) + 1 \<noteq> 0" unfolding x by auto
  then show ?thesis by (simp add: client_fit_def set_cost_def)
qed

lemma worker_call_inv:
  assumes H: "cache.holds_only cap key_range belongs c" and K: "length keys = 2 * 2 ^ 23" "set keys \<subseteq> key_range" and p: "w_pc w \<noteq> Panicked"
  obtains w' c' where "worker_call keys w c = Some (w', c')" "cache.holds_only cap key_range belongs c'" "w_pc w' \<noteq> Panicked"
proof (cases "w_pc w")
  case AtGet
  obtain v ok c' where G: "Cache_Get (keyGet keys w) c = Some ((v, ok), c')" "cache.holds_only cap key_range belongs c'" "ok \<longrightarrow> belongs (keyGet keys w) v"
    by (rule cache.holds_only_get [OF H])
  then show thesis by (intro that) (auto simp: worker_call_def AtGet split: if_splits)
next
  case AtFill
  have f: "client_fit (\<lambda>_. 1) key_range (keyGet keys w) (NewV128 (keyGet keys w)) 1" using keys_in_range(1) [OF K] by (simp add: client_fit_def set_cost_def)
  obtain ok c' where "Cache_SetWithTTL (\<lambda>_. 1) (keyGet keys w) (NewV128 (keyGet keys w)) 1 (fill_ttl (w_i w)) c = Some (ok, c')" "cache.holds_only cap key_range belongs c'"
    by (rule cache.holds_only_set [OF H f]) (simp_all add: GetU64_NewV128)
  then show thesis by (intro that) (auto simp: worker_call_def AtFill)
next
  case AtUpdate
  have f: "client_fit (\<lambda>_. 1) key_range (keyUpdate keys w) (NewV128 (keyUpdate keys w)) ((keyUpdate keys w AND 7) + 1)"
    using keys_in_range(2) [OF K] by (simp add: update_cost_range)
  obtain ok c' where "Cache_SetWithTTL (\<lambda>_. 1) (keyUpdate keys w) (NewV128 (keyUpdate keys w)) ((keyUpdate keys w AND 7) + 1) (update_ttl (w_i w)) c = Some (ok, c')"
    "cache.holds_only cap key_range belongs c'" by (rule cache.holds_only_set [OF H f]) (simp_all add: GetU64_NewV128)
  then show thesis by (intro that) (auto simp: worker_call_def AtUpdate)
qed (use p in simp)

lemma driver_step_inv:
  assumes s: "driver_step keys rds d d'" and I: "driver_inv d" and K: "length keys = 2 * 2 ^ 23" "set keys \<subseteq> key_range"
  shows "driver_inv d'"
proof -
  note H = I [unfolded driver_inv_def]
  from s show ?thesis
  proof (rule driver_stepE)
    fix ok c assume d: "d' = d\<lparr>d_cache := c, d_filled := Suc (d_filled d)\<rparr>" "d_filled d < CACHE_SIZE" "fill_call (d_filled d) (d_cache d) = Some (ok, c)"
    have u: "unat (of_nat (d_filled d) :: u64) = d_filled d" using d(2) by (simp add: CACHE_SIZE_def unsigned_of_nat take_bit_eq_mod)
    then have f: "client_fit (\<lambda>_. 1) key_range (of_nat (d_filled d)) (NewV128 (of_nat (d_filled d))) 1"
      using d(2) by (simp add: client_fit_def set_cost_def key_range_def)
    obtain ok' c' where "fill_call (d_filled d) (d_cache d) = Some (ok', c')" "cache.holds_only (of_nat CACHE_SIZE) key_range belongs c'"
      unfolding fill_call_def by (rule cache.holds_only_set [OF conjunct1 [OF H] f]) (simp_all add: GetU64_NewV128)
    then show ?thesis using d(1,3) H by (simp add: driver_inv_def)
  next
    assume "d' = d\<lparr>d_started := True, d_workers := start_workers rds\<rparr>"
    then show ?thesis using H by (auto simp: driver_inv_def start_workers_def)
  next
    fix g w c assume d: "d' = d\<lparr>d_cache := c, d_workers := (d_workers d)[g := w]\<rparr>" "g < length (d_workers d)" "worker_call keys (d_workers d ! g) (d_cache d) = Some (w, c)"
    obtain w' c' where "worker_call keys (d_workers d ! g) (d_cache d) = Some (w', c')" "cache.holds_only (of_nat CACHE_SIZE) key_range belongs c'" "w_pc w' \<noteq> Panicked"
      by (rule worker_call_inv [OF conjunct1 [OF H] K]) (use H d(2) nth_mem in blast)
    then show ?thesis using d H set_update_subset_insert [of "d_workers d" g w] by (auto simp: driver_inv_def)
  next
    fix c assume "d' = d\<lparr>d_cache := c\<rparr>" "cache_background (d_cache d) c"
    then show ?thesis using H cache.holds_only_background by (auto simp: driver_inv_def)
  qed
qed

lemma driver_reachable:
  assumes "(driver_step keys rds)\<^sup>*\<^sup>* d0 d" "driver_inv d0" "length keys = 2 * 2 ^ 23" "set keys \<subseteq> key_range"
  shows "driver_inv d"
  using assms(1,2)
proof induction
  case (step d d')
  then show ?case using driver_step_inv [OF step.hyps(2) _ assms(3,4)] by simp
qed

definition driver_start_state :: "(u64, v128) Cache \<Rightarrow> driver" where
  "driver_start_state c = \<lparr>d_cache = c, d_filled = 0, d_started = False, d_workers = []\<rparr>"

lemma driver_start_inv:
  assumes "runtime_ok rt" "build_client rt = Some (Inr c)" shows "driver_inv (driver_start_state c)"
proof -
  let ?b = "RemovalListener True (NewBuilder (of_nat CACHE_SIZE)) :: (u64, v128, unit) BuildOptions"
  have b: "\<not> EntryPool ?b" "MaxSize ?b = of_nat CACHE_SIZE" by (simp_all add: RemovalListener_def NewBuilder_def)
  have "cache_rep (of_nat CACHE_SIZE) key_range Map.empty c" using built_rep [OF assms(1) b(1) assms(2) [unfolded build_client_def] few_key_range] b(2) by simp
  then have "cache.holds_only (of_nat CACHE_SIZE) key_range belongs c" by (auto simp: cache.holds_only_def intro: exI [of _ Map.empty])
  then show ?thesis by (simp add: driver_inv_def driver_start_state_def)
qed

lemma keyGen_range: "\<forall>n. unat (zipf n) \<le> CACHE_SIZE * 100 \<Longrightarrow> length (keyGen zipf) = 2 * 2 ^ 23 \<and> set (keyGen zipf) \<subseteq> key_range"
  unfolding keyGen_def key_range_def by auto


text \<open>The filling loop runs to its end and the workers start.\<close>

lemma fill_reachable:
  assumes I: "driver_inv d" "d_filled d = 0" and K: "length keys = 2 * 2 ^ 23" "set keys \<subseteq> key_range" and n: "n \<le> CACHE_SIZE"
  shows "\<exists>c. (driver_step keys rds)\<^sup>*\<^sup>* d (d\<lparr>d_cache := c, d_filled := n\<rparr>)"
  using n
proof (induction n)
  case 0
  have "d\<lparr>d_cache := d_cache d, d_filled := 0\<rparr> = d" using I(2) by simp
  then show ?case by (metis rtranclp.rtrancl_refl)
next
  case (Suc n)
  then obtain c where c: "(driver_step keys rds)\<^sup>*\<^sup>* d (d\<lparr>d_cache := c, d_filled := n\<rparr>)" by auto
  let ?d = "d\<lparr>d_cache := c, d_filled := n\<rparr>"
  have "driver_inv ?d" by (rule driver_reachable [OF c I(1) K])
  then have H: "cache.holds_only (of_nat CACHE_SIZE) key_range belongs c" by (simp add: driver_inv_def)
  have "unat (of_nat n :: u64) = n" using Suc.prems by (simp add: CACHE_SIZE_def unsigned_of_nat take_bit_eq_mod)
  then have f: "client_fit (\<lambda>_. 1) key_range (of_nat n) (NewV128 (of_nat n)) 1" using Suc.prems by (simp add: client_fit_def set_cost_def key_range_def)
  obtain ok c' where F: "fill_call n c = Some (ok, c')"
    unfolding fill_call_def by (rule cache.holds_only_set [OF H f]) (simp_all add: GetU64_NewV128)
  have "driver_step keys rds ?d (?d\<lparr>d_cache := c', d_filled := Suc (d_filled ?d)\<rparr>)" by (rule driver_fill) (use Suc.prems F in simp_all)
  then show ?case using rtranclp.rtrancl_into_rtrancl [OF c] by fastforce
qed

definition driver_rt :: "u64 runtime" where
  "driver_rt = \<lparr>rt_hasher = (\<lambda>k. k), rt_log = (\<lambda>x. x), GOMAXPROCS = 1, NumCPU = 1, rt_start = 0, rt_clock = (\<lambda>n. int n), rt_fastrand = (\<lambda>_. 0), rt_rand = (\<lambda>_. 0), rt_pool = (\<lambda>_. 0)\<rparr>"


end
