(* ===== verification/Goroutines.thy ===== *)
theory Goroutines
  imports Prelude
begin

text \<open>
  Counting the goroutines that satisfy a predicate, for the step relations in which a system
  is a list of program counters over a shared state and one of them moves at a time.
\<close>

definition cnt :: "('a \<Rightarrow> bool) \<Rightarrow> 'a list \<Rightarrow> nat" where
  "cnt P ps = length (filter P ps)"

lemma cnt_update: "g < length ps \<Longrightarrow> cnt P (ps[g := p]) + of_bool (P (ps ! g)) = cnt P ps + of_bool (P p)"
proof (induction ps arbitrary: g)
  case (Cons q ps)
  then show ?case by (cases g) (auto simp: cnt_def)
qed simp

lemma cnt_le: "cnt P ps \<le> length ps"
  by (simp add: cnt_def)

lemma cnt_0: "cnt P ps = 0 \<longleftrightarrow> (\<forall>p\<in>set ps. \<not> P p)"
  by (simp add: cnt_def filter_empty_conv)

lemma cnt_pos: "p \<in> set ps \<Longrightarrow> P p \<Longrightarrow> 0 < cnt P ps"
  using cnt_0 [of P ps] by auto

end
