(* ===== verification/Buffer_Races.thy ===== *)
theory Buffer_Races
  imports Read_Buffer Goroutines "HOL-Library.Multiset"
begin

text \<open>
  The read buffer of internal/buffer.go under concurrency. Every atomic access of \<open>Add\<close> and
  \<open>Free\<close> is a step of its own, and the goroutines that use the buffer interleave freely: the
  counts are read one after the other and may be out of date, a slot is claimed before it is
  written, and a slot that is being cleared may be written by a producer that comes late.
  Items are lost in this way; what the theory shows is that none is handed out twice, that
  nothing is handed out that was not added, and that a batch has one owner at a time. A
  goroutine that is not disturbed does what \<open>buffer_Add\<close> of Read_Buffer says. \<open>Clear\<close> is
  not called by any code of the repository and takes no part.
\<close>

subsection \<open>The steps\<close>

text \<open>
  Where a goroutine is, with its local variables: before the load of \<open>head\<close>, of \<open>tail\<close>,
  before the compare-and-swap of \<open>tail\<close>, before its item is stored, before the
  compare-and-swap of \<open>returned\<close>, at round \<open>i\<close> of the loop that collects (before the load
  and before the slot is cleared), before the store of \<open>head\<close>; then it holds the batch, has
  emptied it, and gives it back.
\<close>

datatype bpc = Outside | AtHead ReadBufItem | AtTail ReadBufItem u64 | AtCas ReadBufItem u64 u64 | AtStore ReadBufItem u64 u64
  | AtTake u64 | AtLoad u64 nat | AtClear u64 nat | AtPublish u64 | Holding | AtReturn

datatype bevent = Silent | Added ReadBufItem | Taken ReadBufItem

inductive Add_step :: "Buffer \<times> bpc \<Rightarrow> bevent \<Rightarrow> Buffer \<times> bpc \<Rightarrow> bool" where
  add_call: "Add_step (b, Outside) (Added n) (b, AtHead n)"
| add_head: "Add_step (b, AtHead n) Silent (b, AtTail n (b_head b))"
| add_full: "of_nat buf_capacity \<le> b_tail b - head \<Longrightarrow> Add_step (b, AtTail n head) Silent (b, Outside)"
| add_tail: "b_tail b - head < of_nat buf_capacity \<Longrightarrow> Add_step (b, AtTail n head) Silent (b, AtCas n head (b_tail b))"
| add_cas: "b_tail b = tail \<Longrightarrow> Add_step (b, AtCas n head tail) Silent (b\<lparr>b_tail := tail + 1\<rparr>, AtStore n head tail)"
| add_lost: "b_tail b \<noteq> tail \<Longrightarrow> Add_step (b, AtCas n head tail) Silent (b, Outside)"
| add_store: "Add_step (b, AtStore n head tail) Silent
    (b\<lparr>b_buffer := (b_buffer b)[unat (tail AND buf_mask) := Some n]\<rparr>, if tail - head = of_nat buf_capacity - 1 then AtTake head else Outside)"
| add_take: "b_returned b \<Longrightarrow> Add_step (b, AtTake head) Silent (b\<lparr>b_returned := False\<rparr>, AtLoad head 0)"
| add_taken: "\<not> b_returned b \<Longrightarrow> Add_step (b, AtTake head) Silent (b, Outside)"
| add_load: "i < buf_capacity \<Longrightarrow> b_buffer b ! unat (head AND buf_mask) = Some v \<Longrightarrow>
    Add_step (b, AtLoad head i) (Taken v) (b\<lparr>b_policyBuffers := b_policyBuffers b @ [v]\<rparr>, AtClear head i)"
| add_skip: "i < buf_capacity \<Longrightarrow> b_buffer b ! unat (head AND buf_mask) = None \<Longrightarrow>
    Add_step (b, AtLoad head i) Silent (b, AtLoad (head + 1) (i + 1))"
| add_clear: "Add_step (b, AtClear head i) Silent (b\<lparr>b_buffer := (b_buffer b)[unat (head AND buf_mask) := None]\<rparr>, AtLoad (head + 1) (i + 1))"
| add_done: "buf_capacity \<le> i \<Longrightarrow> Add_step (b, AtLoad head i) Silent (b, AtPublish head)"
| add_publish: "Add_step (b, AtPublish head) Silent (b\<lparr>b_head := head\<rparr>, Holding)"

inductive Free_step :: "Buffer \<times> bpc \<Rightarrow> Buffer \<times> bpc \<Rightarrow> bool" where
  free_empty: "Free_step (b, Holding) (b\<lparr>b_policyBuffers := []\<rparr>, AtReturn)"
| free_return: "Free_step (b, AtReturn) (b\<lparr>b_returned := True\<rparr>, Outside)"

text \<open>
  The goroutines over one buffer, with the items that were given to \<open>Add\<close> and those that
  were taken out.
\<close>

record bstate =
  bs_buf :: Buffer
  bs_pcs :: "bpc list"
  bs_added :: "ReadBufItem multiset"
  bs_taken :: "ReadBufItem multiset"

fun added_by :: "bevent \<Rightarrow> ReadBufItem multiset" where
  "added_by (Added n) = {#n#}" | "added_by _ = {#}"

fun taken_by :: "bevent \<Rightarrow> ReadBufItem multiset" where
  "taken_by (Taken n) = {#n#}" | "taken_by _ = {#}"

inductive buffer_step :: "bstate \<Rightarrow> bstate \<Rightarrow> bool" where
  buffer_add: "g < length (bs_pcs s) \<Longrightarrow> Add_step (bs_buf s, bs_pcs s ! g) ev (b, p) \<Longrightarrow>
    buffer_step s (s\<lparr>bs_buf := b, bs_pcs := (bs_pcs s)[g := p], bs_added := bs_added s + added_by ev, bs_taken := bs_taken s + taken_by ev\<rparr>)"
| buffer_free: "g < length (bs_pcs s) \<Longrightarrow> Free_step (bs_buf s, bs_pcs s ! g) (b, p) \<Longrightarrow>
    buffer_step s (s\<lparr>bs_buf := b, bs_pcs := (bs_pcs s)[g := p]\<rparr>)"

definition buffer_start :: "nat \<Rightarrow> bstate" where
  "buffer_start n = \<lparr>bs_buf = NewBuffer, bs_pcs = replicate n Outside, bs_added = {#}, bs_taken = {#}\<rparr>"

subsection \<open>One owner\<close>

fun owner :: "bpc \<Rightarrow> bool" where
  "owner (AtLoad head i) = True" | "owner (AtClear head i) = True" | "owner (AtPublish head) = True"
| "owner Holding = True" | "owner AtReturn = True" | "owner _ = False"

text \<open>How much a goroutine that owns the batch may have put into it.\<close>

fun batch_ok :: "bpc \<Rightarrow> ReadBufItem list \<Rightarrow> bool" where
  "batch_ok (AtLoad head i) xs \<longleftrightarrow> length xs \<le> i \<and> i \<le> buf_capacity"
| "batch_ok (AtClear head i) xs \<longleftrightarrow> length xs \<le> i + 1 \<and> i < buf_capacity"
| "batch_ok (AtPublish head) xs \<longleftrightarrow> length xs \<le> buf_capacity"
| "batch_ok Holding xs \<longleftrightarrow> length xs \<le> buf_capacity"
| "batch_ok AtReturn xs \<longleftrightarrow> xs = []"
| "batch_ok _ xs \<longleftrightarrow> True"

definition one_owner :: "bstate \<Rightarrow> bool" where
  "one_owner s \<longleftrightarrow> cnt owner (bs_pcs s) = of_bool (\<not> b_returned (bs_buf s)) \<and> length (b_buffer (bs_buf s)) = buf_capacity \<and>
     (b_returned (bs_buf s) \<longrightarrow> b_policyBuffers (bs_buf s) = []) \<and>
     (\<forall>p\<in>set (bs_pcs s). batch_ok p (b_policyBuffers (bs_buf s)))"

lemma one_owner_start: "one_owner (buffer_start n)"
  by (simp add: one_owner_def buffer_start_def NewBuffer_def cnt_0)

lemma owner_batch_ok: "\<not> owner p \<Longrightarrow> batch_ok p xs"
  by (cases p) simp_all

lemma Add_owner:
  assumes "Add_step (b, p) ev (b', p')" "owner p \<longrightarrow> \<not> b_returned b" "b_returned b \<longrightarrow> b_policyBuffers b = []" "batch_ok p (b_policyBuffers b)"
  shows "of_bool (owner p') + of_bool (\<not> b_returned b) = (of_bool (owner p) + of_bool (\<not> b_returned b') :: nat) \<and>
    length (b_buffer b') = length (b_buffer b) \<and> (b_returned b' \<longrightarrow> b_policyBuffers b' = []) \<and> batch_ok p' (b_policyBuffers b') \<and>
    (\<not> owner p \<longrightarrow> b_policyBuffers b' = b_policyBuffers b)"
  using assms by (cases rule: Add_step.cases) auto

lemma Free_owner:
  assumes "Free_step (b, p) (b', p')" "owner p \<longrightarrow> \<not> b_returned b" "batch_ok p (b_policyBuffers b)"
  shows "of_bool (owner p') + of_bool (\<not> b_returned b) = (of_bool (owner p) + of_bool (\<not> b_returned b') :: nat) \<and>
    length (b_buffer b') = length (b_buffer b) \<and> (b_returned b' \<longrightarrow> b_policyBuffers b' = []) \<and> batch_ok p' (b_policyBuffers b') \<and> owner p"
  using assms by (cases rule: Free_step.cases) auto

text \<open>While a goroutine owns the batch, no other one does.\<close>

lemma sole_owner:
  assumes "cnt owner ps \<le> 1" "g < length ps" "owner (ps ! g)" "j < length ps" "j \<noteq> g" shows "\<not> owner (ps ! j)"
proof
  assume "owner (ps ! j)"
  then have "cnt owner (ps[g := Outside]) \<noteq> 0" using assms(2,4,5) by (auto simp: cnt_0 in_set_conv_nth intro!: bexI [of _ "ps ! j"] exI [of _ j])
  moreover have "cnt owner (ps[g := Outside]) + 1 = cnt owner ps" using cnt_update [OF assms(2), of owner Outside] assms(3) by simp
  ultimately show False using assms(1) by simp
qed

lemma one_owner_local:
  assumes O: "one_owner s" and g: "g < length (bs_pcs s)"
    and l: "of_bool (owner p) + of_bool (\<not> b_returned (bs_buf s)) = (of_bool (owner (bs_pcs s ! g)) + of_bool (\<not> b_returned b) :: nat)"
      "length (b_buffer b) = length (b_buffer (bs_buf s))" "b_returned b \<longrightarrow> b_policyBuffers b = []" "batch_ok p (b_policyBuffers b)"
      "\<not> owner (bs_pcs s ! g) \<longrightarrow> b_policyBuffers b = b_policyBuffers (bs_buf s)"
  shows "one_owner (s\<lparr>bs_buf := b, bs_pcs := (bs_pcs s)[g := p], bs_added := A, bs_taken := T\<rparr>)"
proof -
  have c: "cnt owner (bs_pcs s) = of_bool (\<not> b_returned (bs_buf s))" using O by (simp add: one_owner_def)
  then have "cnt owner ((bs_pcs s)[g := p]) = of_bool (\<not> b_returned b)" using cnt_update [OF g, of owner p] l(1) by linarith
  moreover have "batch_ok ((bs_pcs s) ! j) (b_policyBuffers b)" if j: "j < length (bs_pcs s)" "j \<noteq> g" for j
  proof (cases "owner (bs_pcs s ! g)")
    case True
    then show ?thesis using sole_owner [OF _ g True j] c owner_batch_ok by simp
  next
    case False
    then show ?thesis using O l(5) j(1) by (simp add: one_owner_def)
  qed
  then have "batch_ok ((bs_pcs s)[g := p] ! j) (b_policyBuffers b)" if "j < length (bs_pcs s)" for j
    using that l(4) g by (cases "j = g") simp_all
  ultimately show ?thesis using O l(2,3) by (simp add: one_owner_def all_set_conv_all_nth)
qed

lemma one_owner_step:
  assumes "buffer_step s s'" "one_owner s" shows "one_owner s'"
  using assms(1)
proof cases
  case (buffer_add g ev b p)
  have c: "owner (bs_pcs s ! g) \<longrightarrow> \<not> b_returned (bs_buf s)"
    using assms(2) cnt_pos [of "bs_pcs s ! g" "bs_pcs s" owner] buffer_add(2) by (auto simp: one_owner_def)
  then show ?thesis unfolding buffer_add(1)
    using Add_owner [OF buffer_add(3) c] assms(2) buffer_add(2) by (intro one_owner_local) (simp_all add: one_owner_def)
next
  case (buffer_free g b p)
  have c: "owner (bs_pcs s ! g) \<longrightarrow> \<not> b_returned (bs_buf s)"
    using assms(2) cnt_pos [of "bs_pcs s ! g" "bs_pcs s" owner] buffer_free(2) by (auto simp: one_owner_def)
  then have "one_owner (s\<lparr>bs_buf := b, bs_pcs := (bs_pcs s)[g := p], bs_added := bs_added s, bs_taken := bs_taken s\<rparr>)"
    using Free_owner [OF buffer_free(3) c] assms(2) buffer_free(2) by (intro one_owner_local) (simp_all add: one_owner_def)
  then show ?thesis unfolding buffer_free(1) by simp
qed

subsection \<open>Every item at most once\<close>

text \<open>The items on their way into the ring, the slots that are about to be cleared, and the items of the other slots.\<close>

fun inflight :: "bpc \<Rightarrow> ReadBufItem multiset" where
  "inflight (AtHead n) = {#n#}" | "inflight (AtTail n head) = {#n#}" | "inflight (AtCas n head tail) = {#n#}"
| "inflight (AtStore n head tail) = {#n#}" | "inflight _ = {#}"

fun clearing :: "bpc \<Rightarrow> nat set" where
  "clearing (AtClear head i) = {unat (head AND buf_mask)}" | "clearing _ = {}"

definition slot_items :: "Buffer \<Rightarrow> nat \<Rightarrow> ReadBufItem multiset" where
  "slot_items b i = (case b_buffer b ! i of None \<Rightarrow> {#} | Some v \<Rightarrow> {#v#})"

definition ring_items :: "Buffer \<Rightarrow> nat set \<Rightarrow> ReadBufItem multiset" where
  "ring_items b C = (\<Sum>i\<in>{..<buf_capacity} - C. slot_items b i)"

definition clears :: "bpc list \<Rightarrow> nat set" where
  "clears ps = (\<Union>p\<in>set ps. clearing p)"

definition accounted :: "bstate \<Rightarrow> bool" where
  "accounted s \<longleftrightarrow> bs_taken s + ring_items (bs_buf s) (clears (bs_pcs s)) + sum_list (map inflight (bs_pcs s)) \<subseteq># bs_added s"

lemma ring_items_slot:
  assumes "k < buf_capacity" "k \<notin> C" shows "ring_items b C = slot_items b k + ring_items b (insert k C)"
proof -
  have "{..<buf_capacity} - insert k C = {..<buf_capacity} - C - {k}" by auto
  then show ?thesis unfolding ring_items_def using assms by (simp add: sum.remove)
qed

lemma ring_items_upd:
  "ring_items (b\<lparr>b_buffer := (b_buffer b)[k := x]\<rparr>) (insert k C) = ring_items b (insert k C)"
  unfolding ring_items_def by (rule sum.cong) (auto simp: slot_items_def)

lemma ring_items_fields [simp]:
  "ring_items (b\<lparr>b_tail := t\<rparr>) C = ring_items b C" "ring_items (b\<lparr>b_head := t\<rparr>) C = ring_items b C"
  "ring_items (b\<lparr>b_returned := r\<rparr>) C = ring_items b C" "ring_items (b\<lparr>b_policyBuffers := xs\<rparr>) C = ring_items b C"
  by (simp_all add: ring_items_def slot_items_def)

lemma ring_items_store:
  assumes "length (b_buffer b) = buf_capacity" "k < buf_capacity"
  shows "ring_items (b\<lparr>b_buffer := (b_buffer b)[k := x]\<rparr>) C \<subseteq># ring_items b C + (case x of None \<Rightarrow> {#} | Some v \<Rightarrow> {#v#})"
proof (cases "k \<in> C")
  case True
  then show ?thesis using ring_items_upd [of b k x C] by (simp add: insert_absorb)
next
  case False
  show ?thesis unfolding ring_items_slot [OF assms(2) False] ring_items_upd using assms by (simp add: slot_items_def)
qed

lemma Add_items:
  assumes "Add_step (b, p) ev (b', p')" "length (b_buffer b) = buf_capacity" "owner p \<longrightarrow> C = {}"
  shows "taken_by ev + ring_items b' (C \<union> clearing p') + inflight p' \<subseteq># ring_items b (C \<union> clearing p) + inflight p + added_by ev"
  using assms
proof (cases rule: Add_step.cases)
  case (add_store n head tail)
  then show ?thesis using ring_items_store [OF assms(2), of "unat (tail AND buf_mask)" "Some n" C] by (simp add: unat_mask16)
next
  case (add_load i head v)
  let ?k = "unat (head AND buf_mask)"
  have "ring_items b {} = {#v#} + ring_items b {?k}" using ring_items_slot [of ?k "{}" b] add_load by (simp add: unat_mask16 slot_items_def)
  then show ?thesis using add_load assms(3) by simp
next
  case (add_clear head i)
  let ?k = "unat (head AND buf_mask)"
  have k: "?k < buf_capacity" by (simp add: unat_mask16)
  have "ring_items b' {} = ring_items b {?k}"
    unfolding ring_items_slot [OF k, of "{}", simplified] using add_clear assms(2) k ring_items_upd [of b ?k None "{}"] by (simp add: slot_items_def)
  then show ?thesis using add_clear assms(3) by simp
qed simp_all

lemma Free_items:
  assumes "Free_step (b, p) (b', p')"
  shows "{#} + ring_items b' (C \<union> clearing p') + inflight p' \<subseteq># ring_items b (C \<union> clearing p) + inflight p + {#}"
  using assms by (cases rule: Free_step.cases) simp_all

text \<open>What the other goroutines are clearing, and sums over all goroutines when one moves.\<close>

definition others_clear :: "nat \<Rightarrow> bpc list \<Rightarrow> nat set" where
  "others_clear g ps = (\<Union>j\<in>{..<length ps} - {g}. clearing (ps ! j))"

lemma clears_update:
  assumes "g < length ps"
  shows "clears (ps[g := p]) = others_clear g ps \<union> clearing p" "clears ps = others_clear g ps \<union> clearing (ps ! g)"
proof -
  have n: "clears qs = (\<Union>j<length qs. clearing (qs ! j))" for qs by (auto simp: clears_def set_conv_nth)
  show u: "clears (ps[g := p]) = others_clear g ps \<union> clearing p" for p
    unfolding n others_clear_def using assms by (auto simp: nth_list_update split: if_splits)
  show "clears ps = others_clear g ps \<union> clearing (ps ! g)" using u [of "ps ! g"] by simp
qed

lemma sum_update:
  fixes f :: "'p \<Rightarrow> 'm::comm_monoid_add"
  shows "g < length ps \<Longrightarrow> sum_list (map f (ps[g := p])) + f (ps ! g) = sum_list (map f ps) + f p"
proof (induction ps arbitrary: g)
  case (Cons q ps)
  show ?case
  proof (cases g)
    case 0
    then show ?thesis by (simp add: ac_simps)
  next
    case (Suc j)
    then show ?thesis using Cons.IH [of j] Cons.prems by (simp add: add.assoc)
  qed
qed simp

lemma clearing_owner: "\<not> owner p \<Longrightarrow> clearing p = {}"
  by (cases p) simp_all

lemma accounted_local:
  assumes A: "accounted s" and g: "g < length (bs_pcs s)" and o: "cnt owner (bs_pcs s) \<le> 1"
    and l: "\<And>C. (owner (bs_pcs s ! g) \<longrightarrow> C = {}) \<Longrightarrow> t + ring_items b (C \<union> clearing p) + inflight p \<subseteq>#
      ring_items (bs_buf s) (C \<union> clearing (bs_pcs s ! g)) + inflight (bs_pcs s ! g) + a"
  shows "accounted (s\<lparr>bs_buf := b, bs_pcs := (bs_pcs s)[g := p], bs_added := bs_added s + a, bs_taken := bs_taken s + t\<rparr>)"
proof -
  let ?ps = "bs_pcs s"
  define C where "C = others_clear g ?ps"
  note C = clears_update [OF g, folded C_def]
  have "clearing (?ps ! j) = {}" if "owner (?ps ! g)" "j \<in> {..<length ?ps} - {g}" for j
    by (rule clearing_owner, rule sole_owner [OF o g that(1)]) (use that(2) in simp_all)
  then have "owner (?ps ! g) \<longrightarrow> C = {}" by (simp add: C_def others_clear_def)
  note L = l [OF this]
  let ?S = "sum_list (map inflight ?ps)" and ?S' = "sum_list (map inflight (?ps[g := p]))"
  have S: "?S' + inflight (?ps ! g) = ?S + inflight p" by (rule sum_update [OF g])
  have "bs_taken s + t + ring_items b (C \<union> clearing p) + ?S' + inflight (?ps ! g) = bs_taken s + ?S + (t + ring_items b (C \<union> clearing p) + inflight p)"
    using S by (simp add: ac_simps)
  also have "\<dots> \<subseteq># bs_taken s + ?S + (ring_items (bs_buf s) (clears ?ps) + inflight (?ps ! g) + a)" using L C(2) by simp
  also have "\<dots> = bs_taken s + ring_items (bs_buf s) (clears ?ps) + ?S + (inflight (?ps ! g) + a)" by (simp add: ac_simps)
  also have "\<dots> \<subseteq># bs_added s + (inflight (?ps ! g) + a)" using A by (simp add: accounted_def)
  finally show ?thesis by (simp add: accounted_def C(1) ac_simps)
qed

lemma accounted_step:
  assumes "buffer_step s s'" "one_owner s" "accounted s" shows "accounted s'"
  using assms(1)
proof cases
  case (buffer_add g ev b p)
  then show ?thesis unfolding buffer_add(1) using assms(2,3)
    by (intro accounted_local Add_items [OF buffer_add(3)]) (simp_all add: one_owner_def)
next
  case (buffer_free g b p)
  have "accounted (s\<lparr>bs_buf := b, bs_pcs := (bs_pcs s)[g := p], bs_added := bs_added s + {#}, bs_taken := bs_taken s + {#}\<rparr>)"
    using assms(2,3) buffer_free(2) by (intro accounted_local Free_items [OF buffer_free(3)]) (simp_all add: one_owner_def)
  then show ?thesis unfolding buffer_free(1) by simp
qed

lemma buffer_reachable:
  assumes "buffer_step\<^sup>*\<^sup>* (buffer_start n) s" shows "one_owner s \<and> accounted s"
  using assms
proof induction
  case base
  have "ring_items NewBuffer {} = {#}" by (simp add: ring_items_def slot_items_def NewBuffer_def)
  moreover have "sum_list (replicate n {#}) = ({#} :: ReadBufItem multiset)" by (induction n) simp_all
  ultimately have "accounted (buffer_start n)" by (simp add: accounted_def buffer_start_def clears_def)
  then show ?case using one_owner_start by simp
next
  case (step s s')
  then show ?case using one_owner_step accounted_step by blast
qed

subsection \<open>A goroutine on its own\<close>

definition solo :: "Buffer \<times> bpc \<Rightarrow> Buffer \<times> bpc \<Rightarrow> bool" where
  "solo c d \<longleftrightarrow> (\<exists>ev. Add_step c ev d)"

lemma soloI: "Add_step c ev d \<Longrightarrow> solo\<^sup>*\<^sup>* d e \<Longrightarrow> solo\<^sup>*\<^sup>* c e"
  by (rule converse_rtranclp_into_rtranclp [of solo]) (auto simp: solo_def)

lemma solo_collect:
  "i + n = buf_capacity \<Longrightarrow> solo\<^sup>*\<^sup>* (b, AtLoad head i) (snd (collect n head b), AtLoad (fst (collect n head b)) buf_capacity)"
proof (induction n arbitrary: i head b)
  case (Suc n)
  let ?k = "unat (head AND buf_mask)"
  have i: "i < buf_capacity" "i + 1 + n = buf_capacity" using Suc.prems by simp_all
  show ?case
  proof (cases "b_buffer b ! ?k")
    case None
    show ?thesis by (rule soloI [OF add_skip [OF i(1) None]]) (use Suc.IH [OF i(2), of b "head + 1"] None in simp)
  next
    case (Some v)
    show ?thesis
      by (rule soloI [OF add_load [OF i(1) Some]], rule soloI [OF add_clear])
        (use Suc.IH [OF i(2), of "b\<lparr>b_policyBuffers := b_policyBuffers b @ [v], b_buffer := (b_buffer b)[?k := None]\<rparr>" "head + 1"] Some in simp)
  qed
qed simp

text \<open>Undisturbed, the steps of \<open>Add\<close> compute \<open>buffer_Add\<close>.\<close>

lemma solo_Add:
  "solo\<^sup>*\<^sup>* (b, AtHead n) (fst (buffer_Add n b), case snd (buffer_Add n b) of None \<Rightarrow> Outside | Some _ \<Rightarrow> Holding)"
proof -
  let ?h = "b_head b" and ?t = "b_tail b"
  let ?b = "b\<lparr>b_tail := ?t + 1, b_buffer := (b_buffer b)[unat (?t AND buf_mask) := Some n]\<rparr>"
  show ?thesis
  proof (cases "of_nat buf_capacity \<le> ?t - ?h")
    case True
    show ?thesis by (rule soloI [OF add_head], rule soloI [OF add_full]) (use True in \<open>simp_all add: buffer_Add_def\<close>)
  next
    case False
    have store: "solo\<^sup>*\<^sup>* (?b, if ?t - ?h = of_nat buf_capacity - 1 then AtTake ?h else Outside) d \<Longrightarrow> solo\<^sup>*\<^sup>* (b, AtHead n) d" for d
      by (rule soloI [OF add_head], rule soloI [OF add_tail], use False in simp, rule soloI [OF add_cas [OF refl]], rule soloI [OF add_store]) simp
    show ?thesis
    proof (cases "?t - ?h = of_nat buf_capacity - 1")
      case sz: True
      show ?thesis
      proof (cases "b_returned b")
        case True
        let ?c = "collect buf_capacity ?h (?b\<lparr>b_returned := False\<rparr>)"
        have "solo\<^sup>*\<^sup>* (?b\<lparr>b_returned := False\<rparr>, AtLoad ?h 0) ((snd ?c)\<lparr>b_head := fst ?c\<rparr>, Holding)"
          using solo_collect [of 0 buf_capacity "?b\<lparr>b_returned := False\<rparr>" ?h]
          by (rule rtranclp_trans) (simp, rule soloI [OF add_done [OF order_refl]], rule soloI [OF add_publish], simp)
        then have "solo\<^sup>*\<^sup>* (?b, AtTake ?h) ((snd ?c)\<lparr>b_head := fst ?c\<rparr>, Holding)"
          by (rule soloI [OF add_take, rotated]) (use True in simp)
        then show ?thesis using False sz True by (intro store) (simp add: buffer_Add_def Let_def case_prod_beta)
      next
        case n: False
        have "solo\<^sup>*\<^sup>* (?b, AtTake ?h) (?b, Outside)" by (rule soloI [OF add_taken]) (use n in simp_all)
        then show ?thesis using False sz n by (intro store) (simp add: buffer_Add_def Let_def)
      qed
    next
      case sz: False
      then show ?thesis using False by (intro store) (simp add: buffer_Add_def Let_def)
    qed
  qed
qed

text \<open>Such runs are runs of the whole system in which the others stand still.\<close>

lemma solo_lift:
  assumes "solo\<^sup>*\<^sup>* c d" "c = (bs_buf s, bs_pcs s ! g)" "g < length (bs_pcs s)"
  shows "\<exists>s'. buffer_step\<^sup>*\<^sup>* s s' \<and> bs_buf s' = fst d \<and> bs_pcs s' = (bs_pcs s)[g := snd d]"
  using assms(1)
proof induction
  case base
  then show ?case using assms(2) by (intro exI [of _ s]) simp
next
  case (step d e)
  then obtain s' where s': "buffer_step\<^sup>*\<^sup>* s s'" "bs_buf s' = fst d" "bs_pcs s' = (bs_pcs s)[g := snd d]" by blast
  obtain ev where "Add_step (bs_buf s', bs_pcs s' ! g) ev (fst e, snd e)" using step.hyps(2) s'(2,3) assms(3) by (auto simp: solo_def)
  from buffer_add [OF _ this] obtain s'' where "buffer_step s' s''" "bs_buf s'' = fst e" "bs_pcs s'' = (bs_pcs s')[g := snd e]"
    using s'(3) assms(3) by fastforce
  then show ?case using s' rtranclp.rtrancl_into_rtrancl [OF s'(1)] by auto
qed

lemma run_Add:
  assumes "g < length (bs_pcs s)" "bs_pcs s ! g = Outside"
  shows "\<exists>s'. buffer_step\<^sup>*\<^sup>* s s' \<and> bs_buf s' = fst (buffer_Add n (bs_buf s)) \<and>
    bs_pcs s' = (bs_pcs s)[g := (case snd (buffer_Add n (bs_buf s)) of None \<Rightarrow> Outside | Some _ \<Rightarrow> Holding)]"
  using solo_lift [OF soloI [OF add_call solo_Add [of "bs_buf s" n]], of s g] assms by simp

lemma run_adds:
  "g < length (bs_pcs s) \<Longrightarrow> bs_pcs s ! g = Outside \<Longrightarrow> adds buffer_Add xs (bs_buf s) = (b, replicate (length xs) None) \<Longrightarrow>
    \<exists>s'. buffer_step\<^sup>*\<^sup>* s s' \<and> bs_buf s' = b \<and> bs_pcs s' = bs_pcs s"
proof (induction xs arbitrary: s)
  case (Cons x xs)
  obtain b1 where a: "buffer_Add x (bs_buf s) = (b1, None)" "adds buffer_Add xs b1 = (b, replicate (length xs) None)"
    using Cons.prems(3) by (auto simp: Let_def split: prod.splits)
  obtain s1 where "buffer_step\<^sup>*\<^sup>* s s1" "bs_buf s1 = b1" "bs_pcs s1 = bs_pcs s"
    using run_Add [OF Cons.prems(1,2), of x] a(1) Cons.prems(2) by (metis fst_conv snd_conv option.simps(4) list_update_id)
  then show ?case using Cons.IH [of s1] Cons.prems(1,2) a(2) by (metis rtranclp_trans)
qed auto

text \<open>
  C34. Under any interleaving of the atomic steps of any number of goroutines, the read buffer
  has at most one goroutine that collects or holds its batch, namely one if the batch is not
  available and none if it is; a batch has at most 16 items; and no item is taken out
  more often than it was added. A goroutine that adds an item and is not disturbed does what
  the sequential \<open>Add\<close> does.
\<close>

theorem read_buffer_races:
  assumes "buffer_step\<^sup>*\<^sup>* (buffer_start n) s"
  shows "cnt owner (bs_pcs s) = (if b_returned (bs_buf s) then 0 else 1) \<and> length (b_policyBuffers (bs_buf s)) \<le> buf_capacity \<and>
    bs_taken s \<subseteq># bs_added s \<and>
    solo\<^sup>*\<^sup>* (bs_buf s, AtHead x) (fst (buffer_Add x (bs_buf s)), case snd (buffer_Add x (bs_buf s)) of None \<Rightarrow> Outside | Some _ \<Rightarrow> Holding)"
proof -
  have O: "one_owner s" and A: "accounted s" using buffer_reachable [OF assms] by simp_all
  have "length (b_policyBuffers (bs_buf s)) \<le> buf_capacity"
  proof (cases "b_returned (bs_buf s)")
    case False
    then have "cnt owner (bs_pcs s) \<noteq> 0" using O by (simp add: one_owner_def)
    then obtain p where "owner p" "batch_ok p (b_policyBuffers (bs_buf s))" using O by (auto simp: cnt_0 one_owner_def)
    then show ?thesis by (cases p) simp_all
  qed (use O in \<open>simp add: one_owner_def\<close>)
  moreover have "bs_taken s \<subseteq># bs_added s" using A unfolding accounted_def by (meson mset_subset_eq_add_left subset_mset.order_trans)
  ultimately show ?thesis using O solo_Add by (auto simp: one_owner_def)
qed

theorem read_buffer_races_witness:
  "\<exists>s. buffer_step\<^sup>*\<^sup>* (buffer_start 2) s \<and> bs_pcs s = [Holding, Outside] \<and> \<not> b_returned (bs_buf s) \<and> cnt owner (bs_pcs s) = 1 \<and> bs_taken s \<subseteq># bs_added s"
proof -
  let ?x = "\<lparr>rb_entry = Some 7, rb_hash = 3\<rparr>" and ?s = "buffer_start 2"
  have p: "0 < length (bs_pcs ?s)" "bs_pcs ?s ! 0 = Outside" "bs_pcs ?s = [Outside, Outside]" "bs_buf ?s = NewBuffer" by (simp_all add: buffer_start_def numeral_2_eq_2)
  obtain b where b: "adds buffer_Add (replicate 15 ?x) NewBuffer = (b, replicate 15 None)" "buf_rep b (replicate 15 ?x)" "b_returned b"
    using adds_refine [OF NewBuffer_rep, of "replicate 15 ?x"] abs_adds_fill [of "[]" "replicate 15 ?x" True] by (auto simp: NewBuffer_def)
  obtain s1 where s1: "buffer_step\<^sup>*\<^sup>* ?s s1" "bs_buf s1 = b" "bs_pcs s1 = [Outside, Outside]"
    using run_adds [OF p(1,2), of "replicate 15 ?x" b] b(1) p(3,4) by auto
  have "snd (buffer_Add ?x b) = Some (replicate 16 ?x)"
  proof -
    have "abs_Add ?x (replicate 15 ?x, True) = (([], False), Some (replicate 16 ?x))"
      by (simp add: abs_Add_def replicate_append_same [symmetric] numeral_eq_Suc)
    then show ?thesis using buffer_Add_refines [OF b(2), of ?x] b(3) by auto
  qed
  then obtain s2 where s2: "buffer_step\<^sup>*\<^sup>* s1 s2" "bs_pcs s2 = [Holding, Outside]" using run_Add [of 0 s1 ?x] s1 by auto
  have r: "buffer_step\<^sup>*\<^sup>* ?s s2" using s1(1) s2(1) by (rule rtranclp_trans)
  note R = read_buffer_races [OF r, THEN conjunct1] read_buffer_races [OF r, THEN conjunct2, THEN conjunct2, THEN conjunct1]
  have c: "cnt owner (bs_pcs s2) = 1" by (simp add: s2(2) cnt_def)
  then have "\<not> b_returned (bs_buf s2)" using R(1) by (cases "b_returned (bs_buf s2)") simp_all
  then show ?thesis using r s2(2) c R(2) by blast
qed

end
