(* ===== verification/Maintenance.thy ===== *)
theory Maintenance
  imports Store_Runs
begin

text \<open>
  The loop of the goroutine \<open>maintenance\<close> in store.go that handles the events of the clients.
  It waits for an event, takes up to \<open>WriteBufferSize\<close> waiting ones without waiting again, and
  hands them to \<open>drainWrite\<close>. The runs of a store let events arrive between any two handlings;
  here the goroutine is alone, and the question is whether it catches up.
\<close>

definition WriteBufferSize :: nat where
  "WriteBufferSize = 128"

text \<open>The inner loop: receive at most \<open>n\<close> events, and stop when none is waiting.\<close>

fun receive :: "nat \<Rightarrow> WriteBufItem list \<Rightarrow> WriteBufItem list \<Rightarrow> WriteBufItem list \<times> WriteBufItem list" where
  "receive 0 buf ch = (buf, ch)"
| "receive (Suc n) buf [] = (buf, [])"
| "receive (Suc n) buf (item # ch) = receive n (buf @ [item]) ch"

text \<open>
  One turn with \<open>first\<close> as the event that ended the wait: the store after the batch, and how
  many clients in \<open>Wait\<close> get their answer.
\<close>

definition maintenance_batch :: "WriteBufItem \<Rightarrow> WriteBufItem list \<Rightarrow> ('k, 'v::zero, 'z) store_scheme \<Rightarrow> (('k, 'v, 'z) store_scheme \<times> nat) option" where
  "maintenance_batch first ch st =
     (let (writeBuffer, ch) = receive (WriteBufferSize - 1) [first] ch in drainWrite writeBuffer 0 (st\<lparr>writeChan := ch\<rparr>))"

text \<open>
  The turns of an open cache up to the next wait, with the answers added up. Once the cache is
  closed the goroutine may return instead of taking another turn. A turn that does not return, or
  turns without end, are \<^const>\<open>None\<close>.
\<close>

partial_function (option) maintenance_loop :: "nat \<Rightarrow> ('k, 'v::zero, 'z) store_scheme \<Rightarrow> (('k, 'v, 'z) store_scheme \<times> nat) option" where
  "maintenance_loop wait st =
     (case writeChan st of
        [] \<Rightarrow> Some (st, wait)
      | first # ch \<Rightarrow> do { (st, n) \<leftarrow> maintenance_batch first ch st; maintenance_loop (wait + n) st })"

subsection \<open>The turns end\<close>

lemma receive_take: "receive n buf ch = (buf @ take n ch, drop n ch)"
  by (induction n buf ch rule: receive.induct) simp_all

text \<open>With no event waiting the policy has the weights that the last writes gave.\<close>

lemma policy_current:
  assumes "core_inv cap st X" "chan_ok st []"
  shows "weightedSize (policy st) \<le> cap \<and>
    (\<forall>k e. entry_at st k = Some e \<and> \<not> IsDeleted (flags (heap st) e) \<and> \<not> IsRemoved (flags (heap st) e) \<longrightarrow> policyWeight (heap st e) = weight (heap st e))"
proof (intro conjI allI impI, goal_cases)
  case 1
  then show ?case using size_ok [of st X] assms(1) by (simp add: core_inv_def)
next
  case (2 k e)
  then show ?case using chan_okD(5) [OF assms(2), of k e] by (simp add: live_def)
qed

lemma drainWrite_append: "drainWrite (a @ b) n st = do { (st, n) \<leftarrow> drainWrite a n st; drainWrite b n st }"
  by (induction a n st rule: drainWrite.induct) (auto split: Option.bind_split)

lemma drainWrite_waits: "\<forall>w\<in>set ws. wb_code w = WAIT \<Longrightarrow> drainWrite ws n st = Some (st, n + length ws)"
  by (induction ws arbitrary: n) simp_all

lemma batch_take: "writeChan st = first # ch \<Longrightarrow>
    maintenance_batch first ch st = drainWrite (take WriteBufferSize (writeChan st)) 0 (st\<lparr>writeChan := drop WriteBufferSize (writeChan st)\<rparr>)"
  by (simp add: maintenance_batch_def receive_take WriteBufferSize_def)

text \<open>The loop with clients in \<open>Wait\<close>, whose events \<open>ws\<close> stand behind the others: each is answered.\<close>

lemma maintenance_loop_spec:
  fixes st :: "('k, 'v::zero, 'z) store_scheme"
  assumes "core_inv cap st X" "chan_ok st is" "writeChan st = is @ ws" "\<forall>w\<in>set ws. wb_code w = WAIT" "length (resident st) + length is \<le> 2 ^ 45"
  shows "\<exists>st' X'. maintenance_loop n st = Some (st', n + length ws) \<and> core_inv cap st' X' \<and> chan_ok st' [] \<and> writeChan st' = [] \<and> lookup st' \<subseteq>\<^sub>m lookup st"
  using assms
proof (induction "length (writeChan st)" arbitrary: st X "is" ws n rule: less_induct)
  case less
  show ?case
  proof (cases "writeChan st")
    case Nil
    then show ?thesis using less.prems by (subst maintenance_loop.simps) auto
  next
    case (Cons first ch)
    let ?m = WriteBufferSize
    define bs rs vs us where "bs = take ?m is" and "rs = drop ?m is" and "vs = take (?m - length is) ws" and "us = drop (?m - length is) ws"
    have parts: "is = bs @ rs" "ws = vs @ us" "take ?m (writeChan st) = bs @ vs" "drop ?m (writeChan st) = rs @ us"
      using less.prems(3) by (simp_all add: bs_def rs_def vs_def us_def)
    have W: "\<forall>w\<in>set vs. wb_code w = WAIT" "\<forall>w\<in>set us. wb_code w = WAIT" using less.prems(4) by (simp_all add: parts(2))
    define st0 where "st0 = st\<lparr>writeChan := rs @ us\<rparr>"
    note R = recv_inv [OF less.prems(1,2), of "rs @ us", folded st0_def, unfolded parts(1)]
    have v: "resident st0 = resident st" "lookup st0 = lookup st" "writeChan st0 = rs @ us" unfolding st0_def recv_view by simp_all
    have len: "length (resident st0) + length bs \<le> 2 ^ 45" using less.prems(5) by (simp add: parts(1) v)
    obtain st1 X1 where D: "drainWrite bs 0 st0 = Some (st1, 0)" "core_inv cap st1 X1" "chan_ok st1 rs"
      "lookup st1 \<subseteq>\<^sub>m lookup st" "writeChan st1 = rs @ us" "length (resident st1) \<le> length (resident st) + length bs"
      using drain_prefix [OF R len, of 0] unfolding v by (elim exE conjE) (rule that)
    have "length (drop ?m (writeChan st)) < length (writeChan st)" by (simp add: Cons WriteBufferSize_def)
    then have s: "length (writeChan st1) < length (writeChan st)" unfolding D(5) parts(4) .
    have r: "length (resident st1) + length rs \<le> 2 ^ 45" using D(6) less.prems(5) by (simp add: parts(1))
    obtain st' X' where L: "maintenance_loop (n + length vs) st1 = Some (st', n + length vs + length us)" "core_inv cap st' X'" "chan_ok st' []" "writeChan st' = []"
      "lookup st' \<subseteq>\<^sub>m lookup st1" using less.hyps [OF s D(2,3,5) W(2) r] by blast
    have "maintenance_batch first ch st = Some (st1, length vs)"
      unfolding batch_take [OF Cons] parts(3,4) st0_def [symmetric] drainWrite_append D(1) by (simp add: drainWrite_waits [OF W(1)])
    then have "maintenance_loop n st = Some (st', n + length ws)" using L(1) by (subst maintenance_loop.simps) (simp add: Cons parts(2) add.assoc)
    then show ?thesis using L map_le_trans [OF L(5) D(4)] by blast
  qed
qed

end
