(* ===== verification/Pool_Properties.thy ===== *)
theory Pool_Properties
  imports Hybrid_Properties
begin

text \<open>
  The entry pool of internal/store.go and an event that comes too late. An evicted entry goes
  back to the pool with its flags cleared, the removed flag among them, while an \<open>UPDATE\<close> of it
  may still be waiting. The handler of that event protects itself by comparing hashes, but the
  pooled entry still has its old key; the entry is put into the timer wheel from the pool. The
  next key that is given the entry inherits the appointment.
\<close>

subsection \<open>Eviction into the pool\<close>

lemma tlfu_Remove_fields:
  assumes "tlfu_Remove cb e False st = Some st'" obtains h t where "st' = st\<lparr>heap := h, policy := t\<rparr>"
  using assms by (auto simp: tlfu_Remove_def Let_def bind_eq_Some_conv set_window_def split: if_splits)

text \<open>\<open>removeEntry\<close> once it does not return early: the shape of the store it leaves.\<close>

definition removing :: "RemoveReason \<Rightarrow> addr \<Rightarrow> ('k, 'v, 'z) store_scheme \<Rightarrow> ('k, 'v, 'z) store_scheme" where
  "removing reason e st = st\<lparr>heap := modify e (flag_update (SetRemoved True)) (heap st), clk_pos := (if reason = EXPIRED then clk_pos st + 1 else clk_pos st)\<rparr>"

lemma removeEntry_run:
  assumes "reason = EXPIRED \<longrightarrow> sle (expire (heap st e)) (fst (read_now st))" and i: "i = snd (index (key (heap st e)) st)"
  shows "removeEntry e reason st =
     (if i < length (shards st) then
        do { st1 \<leftarrow> (if m_prev (meta (heap (removing reason e st) e)) \<noteq> None then tlfu_Remove no_callback e False (removing reason e st) else Some (removing reason e st));
             h \<leftarrow> (if m_wheelPrev (meta (heap st1 e)) \<noteq> None then deschedule e (heap st1) else Some (heap st1));
             Some (removed_by e reason i (st1\<lparr>heap := h\<rparr>)) }
      else None)"
proof -
  have "snd (index (key (modify e (flag_update (SetRemoved True)) (heap st) e)) (st\<lparr>heap := h\<rparr>)) = i" for h
    by (simp add: index_def modify_def i)
  then show ?thesis using assms(1) by (auto simp: removeEntry_def Let_def removing_def read_now_def modify_def slt_not_sle)
qed

lemma removeEntry_result:
  assumes R: "removeEntry e reason st = Some st'" and x: "reason = EXPIRED \<longrightarrow> sle (expire (heap st e)) (fst (read_now st))"
  obtains h t where "st' = removed_by e reason (snd (index (key (heap st e)) st)) ((removing reason e st)\<lparr>policy := t, heap := h\<rparr>)"
proof -
  let ?i = "snd (index (key (heap st e)) st)" and ?st = "removing reason e st"
  obtain st1 h where A: "(if m_prev (meta (heap ?st e)) \<noteq> None then tlfu_Remove no_callback e False ?st else Some ?st) = Some st1"
    "st' = removed_by e reason ?i (st1\<lparr>heap := h\<rparr>)"
  proof (cases "?i < length (shards st)")
    case True
    with R show thesis unfolding removeEntry_run [OF x refl] if_P [OF True] bind_eq_Some_conv by (elim exE conjE) (erule that, simp only: option.inject, erule sym)
  qed (use R in \<open>simp add: removeEntry_run [OF x refl]\<close>)
  obtain h' t where "st1 = ?st\<lparr>heap := h', policy := t\<rparr>"
  proof (cases "m_prev (meta (heap ?st e)) \<noteq> None")
    case True
    then have "tlfu_Remove no_callback e False ?st = Some st1" using A(1) by simp
    then show thesis by (rule tlfu_Remove_fields) (rule that)
  next
    case False
    then have "st1 = ?st" using A(1) by simp
    then show thesis by (intro that [where h' = "heap ?st" and t = "policy ?st"]) simp
  qed
  then show thesis using A(2) that [where h = h and t = t] by simp
qed

text \<open>Without a secondary cache its queue is left alone, so an entry that is gone has left the maps.\<close>

lemma removed_unmapped:
  assumes "removeEntry e reason st = Some st'" "reason = EXPIRED \<longrightarrow> sle (expire (heap st e)) (fst (read_now st))"
    and g: "gone_from_store st' e" and s: "\<not> secondaryCache st" "secondaryCacheBuf st = []"
  shows "unmapped st' e"
proof -
  obtain h t where "st' = removed_by e reason (snd (index (key (heap st e)) st)) ((removing reason e st)\<lparr>policy := t, heap := h\<rparr>)"
    by (rule removeEntry_result [OF assms(1,2)])
  then have "secondaryCacheBuf st' = []" using s
    by (simp add: removed_by_def offer_secondary_def removing_def remove_from_map_def notify_def set_shard_def postDelete_def Let_def
        split: prod.splits option.splits)
  then show ?thesis using g by (simp add: gone_from_store_def)
qed

text \<open>An entry that is evicted leaves the map and is the first of the pool, without any flag.\<close>

lemma evict_pools:
  fixes st :: "('k, 'v::zero, 'z) store_scheme"
  assumes I: "store_inv st X" and k: "entry_at st k = Some e" and p: "entryPool st = Some p" and s: "\<not> secondaryCache st" "secondaryCacheBuf st = []"
  shows "\<exists>st'. removeEntry e EVICTED st = Some st' \<and> store_inv st' (\<lambda>q. removeAll e (X q)) \<and> evolves st st' \<and> entryPool st' = Some (e # p) \<and>
    flag (heap st' e) = zero_flag \<and> m_prev (meta (heap st' e)) = None \<and> unmapped st' e \<and> timerwheel st' = timerwheel st \<and>
    fst (read_now st') = fst (read_now st) \<and> pool_pick st' = pool_pick st \<and> pool_pos st' = pool_pos st \<and> \<not> secondaryCache st' \<and> secondaryCacheBuf st' = []"
proof -
  have M: "map_inv st" by (rule store_inv_parts(3) [OF I])
  define i where "i = snd (index k st)"
  have il: "i < length (shards st)" unfolding i_def by (rule index_lt [OF M])
  have g: "\<not> s_closed (shards st ! i)" "map_of (hashmap (shards st ! i)) k = Some e"
    using k by (simp_all add: entry_at_def shard_get_def i_def split: if_splits)
  have "shard_inv st i" using M il by (simp add: map_inv_def)
  then have ke: "key (heap st e) = k" "\<not> IsRoot (flags (heap st) e)" using map_of_SomeD [OF g(2)] by (auto simp: shard_inv_def Let_def)
  obtain R where W: "wreps (heap st) (timerwheel st) R" using I by (auto simp: store_inv_def)
  let ?X = "\<lambda>q. removeAll e (X q)"
  obtain st' where S: "removeEntry e EVICTED st = Some st'" "map_inv st'" "policy_ok st' ?X" "wreps (heap st') (timerwheel st') (\<lambda>r. removeAll e (R r))"
    "kept_params (policy st') (policy st)" "\<And>a. policyWeight (heap st' a) = policyWeight (heap st a)" "removal st e st'" "gone_from_store st' e"
    using removeEntry_spec [OF M store_inv_parts(1) [OF I] W ke(2), of EVICTED] by blast
  have ev: "evolves st st'" using S(7) by (simp add: removal_def)
  have "tsize (heap st') ?X \<le> tsize (heap st) X"
    by (rule tsize_subset [OF policy_ok_parts(1) [OF S(3)] policy_ok_parts(1) [OF store_inv_parts(1) [OF I]]]) (use S(6) in \<open>auto simp: all_entries_def\<close>)
  then have I': "store_inv st' ?X" using S(2-5) store_inv_parts(4) [OF I] by (auto simp: store_inv_def kept_params_def)
  have "\<not> IsRoot (flags (heap st') e)" using ke(2) evolves_root [OF ev] by simp
  then have m: "m_prev (meta (heap st' e)) = None" using store_inv_member [OF I', of e] by (auto simp: all_entries_def)
  obtain h t where st': "st' = removed_by e EVICTED i ((removing EVICTED e st)\<lparr>policy := t, heap := h\<rparr>)" using removeEntry_result [OF S(1)] unfolding ke(1) i_def by auto
  define st2 where "st2 = st\<lparr>policy := t, heap := h\<rparr>"
  have "(removing EVICTED e st)\<lparr>policy := t, heap := h\<rparr> = st2" by (simp add: removing_def st2_def)
  then have st'2: "st' = remove_from_map e EVICTED i st2" using s by (simp add: st' st2_def removed_by_def offer_secondary_def)
  have "key (heap st' e) = k" using ev ke(1) by (simp add: evolves_def entry_evolves_def)
  then have "key (h e) = k"
    by (auto simp: st'2 st2_def remove_from_map_def postDelete_def notify_def set_shard_def modify_def Let_def split: prod.splits option.splits if_splits)
  then have d: "shard_delete (heap st2) e (shards st2 ! i) = ((shards st ! i)\<lparr>hashmap := AList.delete k (hashmap (shards st ! i))\<rparr>, True)"
    using g by (simp add: shard_delete_def st2_def)
  have "entryPool st' = Some (e # p)" "flag (heap st' e) = zero_flag" "timerwheel st' = timerwheel st" "fst (read_now st') = fst (read_now st)"
    "pool_pick st' = pool_pick st" "pool_pos st' = pool_pos st" "\<not> secondaryCache st'" "secondaryCacheBuf st' = []"
    unfolding st'2 remove_from_map_def d by (simp_all add: st2_def postDelete_def notify_def set_shard_def p s modify_def Let_def read_now_def)
  moreover have "unmapped st' e" using removed_unmapped [OF S(1) _ S(8) s] by simp
  ultimately show ?thesis using S(1) I' ev m by blast
qed

text \<open>What the maintenance goroutine leaves alone.\<close>

lemma evolves_keeps:
  assumes ev: "evolves st st'" and M: "map_inv st"
  shows "s_hasher st' = s_hasher st" "st_cap st' = st_cap st" "doorkeeper st' = doorkeeper st" "closed_at st' k = closed_at st k"
    "doors_ok st \<Longrightarrow> doors_ok st'" "roomy st \<Longrightarrow> roomy st'"
proof -
  have f: "shardCount st' = shardCount st" "s_hasher st' = s_hasher st" "st_cap st' = st_cap st" "doorkeeper st' = doorkeeper st" "length (shards st') = length (shards st)"
    using ev by (simp_all add: evolves_def client_fields_def)
  have s: "dookeeper (shards st' ! i) = dookeeper (shards st ! i)" "s_closed (shards st' ! i) = s_closed (shards st ! i)"
    "length (hashmap (shards st' ! i)) \<le> length (hashmap (shards st ! i))" if "i < length (shards st)" for i
    using ev that by (simp_all add: evolves_def shard_evolves_def)
  show "s_hasher st' = s_hasher st" "st_cap st' = st_cap st" "doorkeeper st' = doorkeeper st" by (rule f)+
  show "closed_at st' k = closed_at st k" using s(2) [OF index_lt [OF M, of k]] f by (simp add: closed_at_def index_def)
  show "doors_ok st'" if "doors_ok st" using that s(1) by (simp add: doors_ok_def all_set_conv_all_nth f)
  show "roomy st'" if "roomy st" by (rule evolves_roomy [OF ev that])
qed

subsection \<open>The late event\<close>

text \<open>An \<open>UPDATE\<close> with a new time, of a pooled entry that still has its key: it is put into the wheel.\<close>

lemma late_update_schedules:
  fixes st :: "('k, 'v::zero, 'z) store_scheme"
  assumes I: "store_inv st X" and e: "flag (heap st e) = zero_flag" "m_prev (meta (heap st e)) = None" and p: "entryPool st \<noteq> None"
    and item: "wb_entry item = Some e" "wb_code item = UPDATE" "wb_rechedule item" "\<not> wb_fromNVM item" "wb_hash item = s_hasher st (key (heap st e))"
  shows "\<exists>h tw. sinkWrite item st = Some (st\<lparr>heap := h, timerwheel := tw\<rparr>) \<and> store_inv (st\<lparr>heap := h, timerwheel := tw\<rparr>) X \<and>
    m_wheelPrev (meta (h e)) \<noteq> None \<and> m_prev (meta (h e)) = None \<and> flag (h e) = zero_flag \<and> key (h e) = key (heap st e) \<and> nanos tw = nanos (timerwheel st) \<and>
    tw_clock tw = tw_clock (timerwheel st)"
proof -
  let ?h = "reweigh e (wb_costChange item) (heap st)"
  let ?st = "st\<lparr>heap := ?h\<rparr>"
  have r: "\<not> IsRoot (flags (heap st) e)" using e(1) by (simp add: flags_def)
  have out: "e \<notin> all_entries X" using store_inv_member [OF I r] e(2) by simp
  have I1: "store_inv ?st X" by (rule store_inv_reweigh [OF I out])
  obtain R where W: "wreps (heap ?st) (timerwheel ?st) R" using I1 by (auto simp: store_inv_def)
  have r1: "\<not> IsRoot (flags (heap ?st) e)" using r by simp
  let ?x = "level_of (expire (heap ?st e) - nanos (timerwheel ?st))"
  let ?r = "wroot (timerwheel ?st) ?x (slot ?x (expire (heap ?st e)))"
  let ?R = "\<lambda>r. removeAll e (R r)"
  obtain h tw where S: "schedule e ?st = Some (?st\<lparr>heap := h, timerwheel := tw\<rparr>)" "wreps h tw (?R(?r := e # ?R ?r))" "wframe ?h h"
    "wroots tw = wroots (timerwheel st)" "nanos tw = nanos (timerwheel st)" "tw_clock tw = tw_clock (timerwheel st)"
    using schedule_spec [OF W r1 refl refl refl refl] by auto
  have "?r \<in> set (wroots tw)" using wroot_in [OF _ level_of_lt slot_lt [OF level_of_lt]] W S(4) by (simp add: wreps_def)
  then have m: "e \<in> members (set (wroots tw)) (?R(?r := e # ?R ?r))" by (rule membersI) simp
  note f = wframe_fields [OF S(3)] meta_policy_wframe [OF S(3)]
  have "\<not> IsRoot (flags h e)" using r f(8) by simp
  then have "e \<notin> set (wroots tw)" using S(2) by (auto simp: wreps_def hrings_def)
  then have w: "m_wheelPrev (meta (h e)) \<noteq> None" using wreps_member [OF S(2)] m by simp
  have fl: "flag (h e) = zero_flag" using fun_cong [OF f(8), of e] e(1) by (simp add: flags_def)
  have "sinkWrite item st = Some (st\<lparr>heap := h, timerwheel := tw\<rparr>)"
    using item e S(1) f(9) by (simp add: sinkWrite_def sinkUpdate_def)
  moreover have "store_inv (st\<lparr>heap := h, timerwheel := tw\<rparr>) X" using store_inv_wheel [OF I1 _ S(2)] S(3) by simp
  moreover have "m_prev (meta (h e)) = None" "key (h e) = key (heap st e)" using e(2) f(1,9) by simp_all
  ultimately show ?thesis using w fl S(5,6) by blast
qed

subsection \<open>The next key\<close>

text \<open>The fields of an entry in no list of the policy and in no map may change, even if it is in the wheel.\<close>

lemma store_inv_reuse:
  assumes I: "store_inv st X" and u: "unmapped st e" and e: "\<not> IsRoot (flags (heap st) e)" "m_prev (meta (heap st e)) = None"
  shows "store_inv (st\<lparr>heap := modify e (\<lambda>x. x\<lparr>key := k, evalue := v, expire := ex, weight := cost, policyWeight := 0\<rparr>) (heap st)\<rparr>) X"
proof -
  let ?h = "modify e (\<lambda>x. x\<lparr>key := k, evalue := v, expire := ex, weight := cost\<rparr>) (heap st)"
  have v: "policyWeight (?h a) = policyWeight (heap st a)" "prv lt ?h = prv lt (heap st)" "nxt lt ?h = nxt lt (heap st)" "flags ?h = flags (heap st)" for a lt
    by (auto simp: modify_def prv_def nxt_def e_prev_def e_next_def flags_def fun_eq_iff)
  obtain R where "wreps (heap st) (timerwheel st) R" using I by (auto simp: store_inv_def)
  then have "wreps ?h (timerwheel st) R" by (simp add: wreps_def hrings_def v)
  moreover have "policy_ok (st\<lparr>heap := ?h\<rparr>) X" by (rule policy_ok_pview [OF _ store_inv_parts(1) [OF I]]) (simp add: pview_def fun_eq_iff v)
  moreover have "map_inv (st\<lparr>heap := ?h\<rparr>)" unfolding modify_def by (rule map_inv_overwrite [OF store_inv_parts(3) [OF I] u])
  moreover have "tsize ?h X = tsize (heap st) X" by (rule tsize_cong) (rule v)
  ultimately have I1: "store_inv (st\<lparr>heap := ?h\<rparr>) X" using store_inv_parts(4) [OF I] by (auto simp: store_inv_def)
  have "e \<notin> all_entries X" using store_inv_member [OF I e(1)] e(2) by simp
  moreover have "reweigh e (- policyWeight (heap st e)) ?h = modify e (\<lambda>x. x\<lparr>key := k, evalue := v, expire := ex, weight := cost, policyWeight := 0\<rparr>) (heap st)"
    by (cases "heap st e") (simp add: reweigh_def modify_def)
  ultimately show ?thesis using store_inv_reweigh [OF I1, of e "- policyWeight (heap st e)"] by simp
qed

text \<open>\<open>Set\<close> of another key takes the entry from the pool, and its place in the wheel with it.\<close>

lemma set_reuses:
  fixes st :: "('k::zero, 'v::zero, 'z) store_scheme"
  assumes I: "store_inv st X" and u: "unmapped st e" and e: "\<not> IsRoot (flags (heap st) e)" "m_prev (meta (heap st e)) = None" "m_wheelPrev (meta (heap st e)) \<noteq> None"
    and k: "key (heap st e) \<noteq> k" "entry_at st k = None" and c: "\<not> closed_at st k" "\<not> slt (st_cap st) (set_cost costf v cost)"
    and d: "doors_ok st" "roomy st" "\<not> doorkeeper st" and p: "entryPool st = Some (e # p)" "pool_pick st (pool_pos st) = 0"
  shows "\<exists>st'. store_Set costf k v cost 0 st = Some (True, st') \<and> store_inv st' X \<and> entry_at st' = (entry_at st)(k \<mapsto> e) \<and> evalue (heap st' e) = v \<and>
    expire (heap st' e) = 0 \<and> meta (heap st' e) = meta (heap st e) \<and> flag (heap st' e) = flag (heap st e) \<and> timerwheel st' = timerwheel st \<and>
    fst (read_now st') = fst (read_now st) \<and> secondaryCache st' = secondaryCache st \<and> secondaryCacheBuf st' = secondaryCacheBuf st"
proof -
  define i where "i = snd (index k st)"
  have il: "i < length (shards st)" unfolding i_def by (rule index_lt [OF store_inv_parts(3) [OF I]])
  have sh: "\<not> s_closed (shards st ! i)" "shard_get k (shards st ! i) = None" using c(1) k(2) by (simp_all add: closed_at_def entry_at_def i_def)
  define st1 where "st1 = st\<lparr>pool_pos := pool_pos st + 1, entryPool := Some p\<rparr>"
  have t: "takeEntry k st = (e, st1)" using k(1) p by (simp add: takeEntry_def pool_Get_def st1_def)
  define st2 where "st2 = st1\<lparr>heap := modify e (\<lambda>x. x\<lparr>key := k, evalue := v, expire := 0, weight := set_cost costf v cost, policyWeight := 0\<rparr>) (heap st1)\<rparr>"
  have "store_inv st1 X" using I by (rule store_inv_cong) (simp_all add: st1_def)
  then have I2: "store_inv st2 X" unfolding st2_def by (rule store_inv_reuse) (use u e in \<open>simp_all add: st1_def unmapped_def\<close>)
  have f: "shards st2 = shards st" "index k' st2 = index k' st" "entry_at st2 = entry_at st" "key (heap st2 e) = k" "evalue (heap st2 e) = v"
    "\<not> IsRoot (flags (heap st2) e)" for k'
    using e(1) by (simp_all add: st2_def st1_def index_def entry_at_def fun_eq_iff modify_def flags_def)
  obtain s where s: "shard_set (logf st2) k e (shards st2 ! i) = Some s" "hashmap s = AList.update k e (hashmap (shards st2 ! i))" "\<not> s_closed s"
    using shard_set_spec [OF sh(1), of "logf st2" k e] d(1,2) nth_mem [OF il] by (auto simp: doors_ok_def roomy_def f(1))
  have B: "store_inv (set_shard i s st2) X" "entry_at (set_shard i s st2) = (entry_at st)(k \<mapsto> e)"
    using rebind(1,2) [OF I2 _ f(4,6) s(2,3)] sh(1) by (simp_all add: f(1-3) i_def)
  have "set_shard i (shards st ! i) st = st" by (simp add: set_shard_def)
  then have "setShardWithoutLock i (s_hasher st k) k v (set_cost costf v cost) 0 st =
      Some (\<lparr>sr_entry = Some e, sr_oldCost = 0, sr_exists = False, sr_success = True, sr_reschedule = False\<rparr>, set_shard i s st2)"
    using sh d(3) s(1) by (simp add: setShardWithoutLock_def t st2_def)
  moreover define item where "item = \<lparr>wb_entry = Some e, wb_costChange = set_cost costf v cost, wb_code = NEW, wb_rechedule = False, wb_fromNVM = False, wb_hash = s_hasher st k\<rparr>"
  ultimately have "store_Set costf k v cost 0 st = Some (True, send item (set_shard i s st2))"
    using c(2) il by (simp add: store_Set_def setInternal_def set_cost_def i_def index_def Let_def toPolicy_def policyNewEntry_def)
  moreover have "store_inv (send item (set_shard i s st2)) X" using B(1) by (rule store_inv_cong) (simp_all add: send_def)
  moreover have "entry_at (send item (set_shard i s st2)) = (entry_at st)(k \<mapsto> e)" using B(2) by (simp add: send_view)
  ultimately show ?thesis by (intro exI [of _ "send item (set_shard i s st2)"]) (simp add: send_def set_shard_def st2_def st1_def modify_def read_now_def)
qed


subsection \<open>The appointment\<close>

text \<open>An entry in the wheel whose time is zero is removed from the map when its bucket comes up.\<close>

lemma appointment:
  fixes st :: "('k, 'v::zero, 'z) store_scheme"
  assumes I: "store_inv st X" and k: "entry_at st k = Some e" and e: "\<not> IsRoot (flags (heap st) e)" "m_wheelPrev (meta (heap st e)) \<noteq> None" "expire (heap st e) = 0"
    and t: "0 \<le> sint (nanos (timerwheel st))" "0 \<le> sint (fst (read_now st))" and s: "\<not> secondaryCache st" "secondaryCacheBuf st = []"
  shows "\<exists>nx st'. expire_entry removeEntry (Some e, st) = Some (Inl (nx, st')) \<and> entry_at st' k = None"
proof -
  let ?tw = "timerwheel st"
  obtain R where W: "wreps (heap st) ?tw R" using I by (auto simp: store_inv_def)
  then have H: "hrings WHEEL_LIST (heap st) (set (wroots ?tw)) R" by (simp add: wreps_def)
  have "e \<notin> set (wroots ?tw)" using H e(1) by (auto simp: hrings_def)
  then have "e \<in> members (set (wroots ?tw)) R" using wreps_member [OF W] e(2) by simp
  then obtain r us vs where r: "r \<in> set (wroots ?tw)" "R r = us @ e # vs" by (rule membersE)
  obtain nx where nx: "e_Next WHEEL_LIST (heap st) e = Some nx" using e_Next_spec [OF H r] by blast
  obtain h where h: "deschedule e (heap st) = Some h" "wreps h ?tw (R(r := us @ vs))" "wframe (heap st) h" using deschedule_spec [OF W r] by blast
  let ?st = "st\<lparr>heap := h\<rparr>"
  have I1: "store_inv ?st X" using store_inv_wheel [OF I h(3,2)] by simp
  have f: "\<not> IsRoot (flags (heap ?st) e)" "EXPIRED = EXPIRED \<longrightarrow> sle (expire (heap ?st e)) (fst (read_now ?st))"
    using wframe_fields(5,8) [OF h(3)] e(1,3) t(2) by (simp_all add: sle_def read_now_def)
  obtain st' where S: "removeEntry e EXPIRED ?st = Some st'" "gone_from_store st' e" "evolves ?st st'"
    "map_inv st'"
    using removeEntry_spec [OF store_inv_parts(3,1) [OF I1] _ f, of "R(r := us @ vs)"] h(2) by (auto simp: removal_def)
  have "unmapped st' e" by (rule removed_unmapped [OF S(1) f(2) S(2)]) (use s in simp_all)
  moreover have "entry_at st' k = None \<or> entry_at st' k = Some e"
    using evolves_entry_at(1) [OF S(3) store_inv_parts(3) [OF I1], of k] k by (cases "entry_at st' k") (auto simp: entry_at_def index_def)
  ultimately have "entry_at st' k = None" using entry_at_mapped [OF S(4)] by blast
  then show ?thesis using nx h(1) S(1) e(3) t(1) by (simp add: expire_entry_def sle_def)
qed


subsection \<open>The whole story\<close>

text \<open>
  C37. With the entry pool, an entry written without a TTL can expire. An entry \<open>e\<close> of key
  \<open>k\<close> is evicted, which clears its flags and puts it into the pool; then an \<open>UPDATE\<close> of \<open>k\<close>
  with a new TTL, sent before the eviction, is handled. Neither the removed flag nor the
  comparison of hashes stops it, and \<open>e\<close> is scheduled in the timer wheel while it is in the
  pool. \<open>Set\<close> of another key \<open>k'\<close> without a TTL takes \<open>e\<close> from the pool; when the wheel
  comes to \<open>e\<close> it removes \<open>k'\<close> from the cache as expired.
\<close>

theorem pooled_entry_expires:
  fixes st :: "('k::zero, 'v::zero, 'z) store_scheme"
  assumes store: "store_inv st X" "doors_ok st" "roomy st" "\<not> doorkeeper st" "\<not> secondaryCache st" "secondaryCacheBuf st = []"
    and keys: "entry_at st k = Some e" "entry_at st k' = None" "k' \<noteq> k" "\<not> closed_at st k'"
    and pool: "entryPool st = Some p" "pool_pick st (pool_pos st) = 0"
    and late: "wb_entry item = Some e" "wb_code item = UPDATE" "wb_rechedule item" "\<not> wb_fromNVM item" "wb_hash item = s_hasher st k"
    and cost: "\<not> slt (st_cap st) (set_cost costf v cost)"
    and time: "0 \<le> sint (nanos (timerwheel st))" "0 \<le> sint (fst (read_now st))"
  shows "\<exists>st1 st2 st3 st4 nx. removeEntry e EVICTED st = Some st1 \<and> sinkWrite item st1 = Some st2 \<and>
    store_Set costf k' v cost 0 st2 = Some (True, st3) \<and> lookup st3 k' = Some v \<and> entry_at st3 k' = Some e \<and>
    expire (heap st3 e) = 0 \<and> m_wheelPrev (meta (heap st3 e)) \<noteq> None \<and>
    expire_entry removeEntry (Some e, st3) = Some (Inl (nx, st4)) \<and> lookup st4 k' = None"
proof -
  obtain st1 where E: "removeEntry e EVICTED st = Some st1" "store_inv st1 (\<lambda>q. removeAll e (X q))" "evolves st st1" "entryPool st1 = Some (e # p)"
    "flag (heap st1 e) = zero_flag" "m_prev (meta (heap st1 e)) = None" "unmapped st1 e" "timerwheel st1 = timerwheel st"
    "fst (read_now st1) = fst (read_now st)" "pool_pick st1 = pool_pick st" "pool_pos st1 = pool_pos st" "\<not> secondaryCache st1" "secondaryCacheBuf st1 = []"
    using evict_pools [OF store(1) keys(1) pool(1) store(5,6)] by blast
  have M: "map_inv st" by (rule store_inv_parts(3) [OF store(1)])
  note ev = evolves_keeps [OF E(3) M]
  have ke: "key (heap st1 e) = k" using entry_at_key [OF M keys(1)] E(3) by (simp add: evolves_def entry_evolves_def)
  obtain h tw where L: "sinkWrite item st1 = Some (st1\<lparr>heap := h, timerwheel := tw\<rparr>)" "store_inv (st1\<lparr>heap := h, timerwheel := tw\<rparr>) (\<lambda>q. removeAll e (X q))"
    "m_wheelPrev (meta (h e)) \<noteq> None" "m_prev (meta (h e)) = None" "flag (h e) = zero_flag" "key (h e) = k" "nanos tw = nanos (timerwheel st)" "tw_clock tw = tw_clock (timerwheel st)"
    using late_update_schedules [OF E(2,5,6) _ late(1-4)] E(4,8) late(5) ev(1) ke by auto
  let ?st = "st1\<lparr>heap := h, timerwheel := tw\<rparr>"
  have now: "fst (read_now ?st) = fst (read_now st)" using E(8,9) L(8) by (simp add: read_now_def)
  have "entry_at st1 k' = None" using evolves_entry_at(1) [OF E(3) M, of k'] keys(2) by (cases "entry_at st1 k'") auto
  then have u: "entry_at ?st k' = None" by (simp add: entry_at_def index_def)
  have c: "\<not> closed_at ?st k'" "\<not> slt (st_cap ?st) (set_cost costf v cost)" "doors_ok ?st" "roomy ?st" "\<not> doorkeeper ?st"
    using ev store(2-4) keys(4) cost by (simp_all add: closed_at_def index_def doors_ok_def roomy_def)
  obtain st3 where S: "store_Set costf k' v cost 0 ?st = Some (True, st3)" "store_inv st3 (\<lambda>q. removeAll e (X q))" "entry_at st3 = (entry_at ?st)(k' \<mapsto> e)" "evalue (heap st3 e) = v"
    "expire (heap st3 e) = 0" "meta (heap st3 e) = meta (h e)" "flag (heap st3 e) = flag (h e)" "timerwheel st3 = tw" "fst (read_now st3) = fst (read_now ?st)"
    "secondaryCache st3 = secondaryCache st1" "secondaryCacheBuf st3 = secondaryCacheBuf st1"
    using set_reuses [OF L(2) _ _ _ _ _ u c, of e p] E(4,7,10,11) L(3-6) keys(3) pool(2) by (auto simp: flags_def unmapped_def)
  have k3: "entry_at st3 k' = Some e" using S(3) by simp
  obtain nx st4 where A: "expire_entry removeEntry (Some e, st3) = Some (Inl (nx, st4))" "entry_at st4 k' = None"
    using appointment [OF S(2) k3] S(5-11) L(3,5,7) E(12,13) now time by (auto simp: flags_def)
  show ?thesis using E(1) L(1,3) S(1,4-6) k3 A by (intro exI [of _ st1] exI [of _ ?st] exI [of _ st3] exI [of _ st4] exI [of _ nx]) (simp add: lookup_def)
qed


lemma empty_maps:
  assumes M: "map_inv st" and "\<And>k. \<not> closed_at st k" "\<And>k. entry_at st k = None" and i: "i < length (shards st)"
  shows "hashmap (shards st ! i) = []"
proof (rule ccontr)
  assume "hashmap (shards st ! i) \<noteq> []"
  then obtain k e where ke: "(k, e) \<in> set (hashmap (shards st ! i))" by (metis list.set_intros(1) neq_Nil_conv surj_pair)
  moreover have "shard_inv st i" using M i by (simp add: map_inv_def)
  ultimately have "snd (index k st) = i" "map_of (hashmap (shards st ! i)) k = Some e" by (auto simp: shard_inv_def Let_def)
  then show False using assms(2,3) [of k] by (simp add: closed_at_def entry_at_def shard_get_def)
qed

text \<open>Key 1 is bound to the entry 260, the pool is empty and the clock stands at its start.\<close>

lemma pool_demo:
  obtains st :: "(nat, nat) store" where "store_inv st (\<lambda>_. [])" "doors_ok st" "roomy st" "\<not> doorkeeper st" "\<not> secondaryCache st" "secondaryCacheBuf st = []"
    "entry_at st = [1 \<mapsto> 260]" "\<not> closed_at st 2" "entryPool st = Some []" "pool_pick st (pool_pos st) = 0" "st_cap st = 100"
    "nanos (timerwheel st) = 0" "fst (read_now st) = 0"
proof -
  obtain st0 :: "(nat, nat) store" where D: "NewStore demo_rt demo_opt = Some st0" "store_inv st0 (\<lambda>_. [])" "supply_ok st0" "doors_ok st0" "roomy st0" "lookup st0 = Map.empty"
    "st_cap st0 = 100" "\<forall>k. \<not> closed_at st0 k" "\<not> doorkeeper st0" "\<forall>a\<ge>260. fresh st0 a" by (rule demo_store)
  define tw where "tw = (timerwheel st0)\<lparr>nanos := 0\<rparr>"
  define st1 where "st1 = st0\<lparr>timerwheel := tw, clk := \<lambda>_. Start (tw_clock tw), entryPool := Some [], pool_pick := \<lambda>_. 0, secondaryCache := False, secondaryCacheBuf := []\<rparr>"
  obtain R where "wreps (heap st0) (timerwheel st0) R" using D(2) by (auto simp: store_inv_def)
  then have "wreps (heap st0) tw R" by (simp add: wreps_def tw_def wroots_def wheel_shape_def)
  from store_inv_wheel [OF D(2) wframe_refl this] have I1: "store_inv st1 (\<lambda>_. [])" by (rule store_inv_cong) (simp_all add: st1_def)
  define i where "i = snd (index 1 st1)"
  define st2 where "st2 = st1\<lparr>heap := (heap st1)(260 := zero_entry\<lparr>key := 1\<rparr>)\<rparr>"
  have f: "fresh st1 260" using D(10) by (simp add: st1_def fresh_def unmapped_def)
  have I2: "store_inv st2 (\<lambda>_. [])" unfolding st2_def
    by (rule store_inv_overwrite [OF I1 f]) (simp add: unlinked_def zero_entry_def, case_tac q, simp_all add: zero_entry_def)
  have c: "\<not> closed_at st2 k" "entry_at st2 k = None" for k
    using D(8) fun_cong [OF D(6), of k] by (simp_all add: st2_def st1_def closed_at_def lookup_def entry_at_def index_def)
  have e: "hashmap (shards st2 ! j) = []" if "j < length (shards st2)" for j using empty_maps [OF store_inv_parts(3) [OF I2] c that] .
  define s where "s = (shards st2 ! i)\<lparr>hashmap := [(1, 260)]\<rparr>"
  have ix: "i = snd (index 1 st2)" "i < length (shards st2)" unfolding i_def st2_def using index_lt [OF store_inv_parts(3) [OF I1]] by (simp_all add: index_def)
  have o: "\<not> s_closed (shards st2 ! i)" using c(1) [of 1] ix(1) by (simp add: closed_at_def)
  have B: "store_inv (set_shard i s st2) (\<lambda>_. [])" "entry_at (set_shard i s st2) = (entry_at st2)(1 \<mapsto> 260)"
    using rebind(1,2) [OF I2 ix(1), of 260 s] o e [OF ix(2)] by (simp_all add: st2_def s_def flags_def zero_entry_def)
  have n: "j < length (shards st2) \<Longrightarrow> shards (set_shard i s st2) ! j = (if j = i then s else shards st2 ! j)" "length (shards (set_shard i s st2)) = length (shards st2)"
    for j by (simp_all add: set_shard_def)
  have d: "doors_ok st2" using D(4) by (simp add: st2_def st1_def doors_ok_def)
  show thesis
  proof (rule that [OF B(1)])
    show "entry_at (set_shard i s st2) = [1 \<mapsto> 260]" unfolding B(2) using c(2) by (simp add: fun_eq_iff)
    show "doors_ok (set_shard i s st2)" using d ix(2) n by (simp add: doors_ok_def all_set_conv_all_nth) (simp add: set_shard_def s_def)
    show "roomy (set_shard i s st2)" using e by (simp add: roomy_def all_set_conv_all_nth n) (simp add: s_def)
    show "\<not> closed_at (set_shard i s st2) 2" using c(1) [of 2] o ix(2)
      by (simp add: closed_at_def set_shard_def index_def nth_list_update s_def Let_def)
  qed (use D(7,9) in \<open>simp_all add: set_shard_def st2_def st1_def tw_def read_now_def NowNano_def clamp64_def\<close>)
qed

theorem pooled_entry_expires_witness:
  "\<exists>(st :: (nat, nat) store) item st1 st2 st3 st4 nx. entry_at st 1 = Some 260 \<and> removeEntry 260 EVICTED st = Some st1 \<and> sinkWrite item st1 = Some st2 \<and>
     store_Set (\<lambda>_. 1) 2 7 1 0 st2 = Some (True, st3) \<and> lookup st3 2 = Some 7 \<and> expire (heap st3 260) = 0 \<and>
     expire_entry removeEntry (Some 260, st3) = Some (Inl (nx, st4)) \<and> lookup st4 2 = None"
proof -
  obtain st :: "(nat, nat) store" where D: "store_inv st (\<lambda>_. [])" "doors_ok st" "roomy st" "\<not> doorkeeper st" "\<not> secondaryCache st" "secondaryCacheBuf st = []"
    "entry_at st = [1 \<mapsto> 260]" "\<not> closed_at st 2" "entryPool st = Some []" "pool_pick st (pool_pos st) = 0" "st_cap st = 100"
    "nanos (timerwheel st) = 0" "fst (read_now st) = 0" by (rule pool_demo)
  define item where "item = \<lparr>wb_entry = Some 260, wb_costChange = 0, wb_code = UPDATE, wb_rechedule = True, wb_fromNVM = False, wb_hash = s_hasher st 1\<rparr>"
  have k: "entry_at st 1 = Some 260" "entry_at st 2 = None" "(2 :: nat) \<noteq> 1" using D(7) by simp_all
  show ?thesis
    using pooled_entry_expires [OF D(1-6) k D(8-10), of item "\<lambda>_. 1" 7 1] k(1) D(11-13) by (rule_tac exI [of _ st], rule_tac exI [of _ item]) (auto simp: item_def set_cost_def slt_def)
qed

end
