(* ===== verification/Recovery.thy ===== *)
theory Recovery
  imports Persistence Store_New
begin

text \<open>
  What a restored store holds. Every entry that \<open>Recover\<close> accepts is linked at the back of
  its list, bound in its shard, scheduled if it has a deadline, and counted in the sketch and
  in the weighted size; the invariant of the store holds after each of them, provided that
  the entries together fit into the capacity.
\<close>

subsection \<open>A new entry at the back of a list\<close>

lemma reps_PushBack_new:
  assumes X: "reps h T X" and e: "unlinked (h e)" and x: "unlinked x" "\<And>q'. in_queue q' (flag x) \<Longrightarrow> q' = q"
    and l: "l = (T q)\<lparr>l_len := l_len (T q) + policyWeight x, l_count := l_count (T q) + 1\<rparr>"
  shows "\<exists>h'. PushBack (T q) e (h(e := x)) = Some (h', l) \<and> reps h' (T(q := l)) (X(q := X q @ [e])) \<and> pframe (h(e := x)) h'"
proof -
  let ?h = "h(e := x)" and ?h1 = "h(e := x\<lparr>flag := unmark (ltype q) (flag x)\<rparr>)"
  have x1: "unlinked (x\<lparr>flag := unmark (ltype q) (flag x)\<rparr>)" "\<not> in_queue q' (flag (x\<lparr>flag := unmark (ltype q) (flag x)\<rparr>))" for q'
    using x(1) by (simp add: unlinked_def unmark_def) simp
  note O = reps_overwrite [OF X e x1]
  obtain R where R: "reps_ring ?h1 T X R" using O(1) by (auto simp: reps_def)
  note D = reps_ringD [OF R]
  have same: "nxt lt ?h = nxt lt ?h1" "prv lt ?h = prv lt ?h1" "IsRoot (flags ?h a) = IsRoot (flags ?h1 a)" for lt a
    by (auto simp: nxt_def prv_def e_next_def e_prev_def flags_def unmark_def fun_eq_iff)
  have H: "hrings (l_listType (T q)) ?h (roots T) R" using D(2) [of q] unfolding hrings_def same by blast
  have er: "e \<notin> roots T" using reps_root [OF X] e by (auto simp: unlinked_def flags_def)
  have em: "e \<notin> members (roots T) R" "\<not> IsRoot (flags ?h e)" using O(2) D(6) x(1) by (simp_all add: unlinked_def flags_def)
  obtain h' where h': "list_insert (T q) e (last (l_root (T q) # X q)) ?h = Some (h', l)"
    "hrings (l_listType (T q)) h' (roots T) (R(l_root (T q) := X q @ [e]))"
    "stripped (l_listType (T q)) ?h h'" "flags h' = (flags ?h)(e := mark (l_listType (T q)) (flags ?h e))"
    "\<forall>a. a \<notin> insert e (roots T \<union> members (roots T) R) \<longrightarrow> prv (l_listType (T q)) h' a = prv (l_listType (T q)) ?h a"
    by (rule hrings_insert [OF H D(5) _ er em, of "X q" "[]"]) (simp_all add: l D(3))
  note h'' = h' [unfolded D(8) ltype_hrings ltype_links D(6)]
  have fr: "pframe ?h h'" using h''(3,4) by (simp add: pframe_def)
  have "strip LIST_WINDOW (?h a) = strip LIST_WINDOW (?h1 a)" for a by (simp add: strip_def setNext_def setPrev_def)
  then have fr1: "pframe ?h1 h'"
    using fr by (auto simp: pframe_def stripped_def flags_def split: if_splits)
  have fl: "flags h' = (flags ?h1)(e := mark (ltype q) (flag x))" using h''(4) by (auto simp: flags_def fun_eq_iff)
  have hok: "header_ok h' q l (X q @ [e])"
  proof -
    have "header_ok ?h1 q (T q) (X q)" by (rule D(4))
    moreover have "e \<notin> set (X q)" using O(2) by (auto dest: all_entriesI)
    moreover have "wsum h' (X q @ [e]) = wsum ?h1 (X q) + policyWeight x" using wsum_pframe [OF fr1] by simp
    ultimately show ?thesis using x(2) by (auto simp: header_ok_def l fl)
  qed
  have "reps h' (T(q := l)) (X(q := X q @ [e]))"
  proof (rule reps_update [OF R _ _ hok fr1 fl])
    fix a assume a: "a \<notin> roots T" "a \<notin> all_entries (X(q := X q @ [e]))"
    then have ae: "a \<noteq> e" "a \<notin> all_entries X" by (auto simp: all_entries_def split: if_splits)
    then have "detached ?h1 a" using D(7) a by simp
    then show "detached h' a" using detached_cong [of h' a ?h1] ae a fl h''(5) same by simp
  qed (use h'' l O(2) in \<open>auto simp: all_entries_def split: if_splits\<close>)
  moreover have "e_prev (l_listType (T q)) (?h (l_root (T q))) = Some (last (l_root (T q) # X q))"
    using ring_ends(2) [OF in_rings [OF hrings_rings [OF H] D(5)]] D(3) by (simp add: prv_def)
  ultimately show ?thesis using h'(1) fr by (auto simp: PushBack_def)
qed

subsection \<open>Loading one entry\<close>

definition block_queue :: "u8 \<Rightarrow> pqueue" where
  "block_queue tp = (if tp = 2 then QWindow else if tp = 3 then QProbation else QProtected)"

lemma target_plist: "target_list tp t = plist t (block_queue tp)"
  by (simp add: target_list_def block_queue_def)

lemma plist_target: "plist (set_target tp l t) = (plist t)(block_queue tp := l)"
  by (simp add: set_target_def block_queue_def pqueue_fun_eq)

text \<open>The invariant during a restore; \<open>n\<close> bounds the number of keys of a shard.\<close>

definition load_inv :: "nat \<Rightarrow> ('k, 'v, 'z) store_scheme \<Rightarrow> (pqueue \<Rightarrow> addr list) \<Rightarrow> bool" where
  "load_inv n st X \<longleftrightarrow> store_inv st X \<and> supply_ok st \<and> doors_ok st \<and> (\<forall>s\<in>set (shards st). length (hashmap s) \<le> n \<and> \<not> s_closed s)"

text \<open>What a restore leaves alone.\<close>

definition same_limits :: "('k, 'v, 'z) store_scheme \<Rightarrow> ('k, 'v, 'z) store_scheme \<Rightarrow> bool" where
  "same_limits st st' \<longleftrightarrow> capacity (policy st') = capacity (policy st) \<and> (\<forall>q. l_capacity (plist (policy st') q) = l_capacity (plist (policy st) q)) \<and>
     s_maxsize (slru (policy st')) = s_maxsize (slru (policy st)) \<and> hits (policy st') = hits (policy st) \<and> misses (policy st') = misses (policy st) \<and>
     stripedBuffer st' = stripedBuffer st \<and> mask st' = mask st \<and> writeChan st' = writeChan st \<and> entryPool st' = entryPool st \<and>
     s_hasher st' = s_hasher st \<and> shardCount st' = shardCount st \<and> st_closed st' = st_closed st \<and> st_cap st' = st_cap st \<and> doorkeeper st' = doorkeeper st \<and>
     clk st' = clk st \<and> tw_clock (timerwheel st') = tw_clock (timerwheel st)"

lemma same_limits_refl: "same_limits st st" by (simp add: same_limits_def)

lemma same_limits_trans: "same_limits a b \<Longrightarrow> same_limits b c \<Longrightarrow> same_limits a c" by (simp add: same_limits_def)

text \<open>A saved entry that was in the list of its block.\<close>

definition pentry_ok :: "u8 \<Rightarrow> ('k, 'v) Pentry \<Rightarrow> bool" where
  "pentry_ok tp p \<longleftrightarrow> \<not> IsRoot (P_Flag p) \<and> (\<forall>q. in_queue q (P_Flag p) \<longrightarrow> q = block_queue tp) \<and> 0 \<le> sint (P_PolicyWeight p)"

text \<open>The part of an entry that is not about the lists it is in.\<close>

definition eview :: "('k, 'v) Entry \<Rightarrow> 'k \<times> 'v \<times> i64 \<times> i64 \<times> i64 \<times> bool \<times> bool \<times> bool \<times> bool" where
  "eview x = (key x, evalue x, weight x, policyWeight x, expire x, store_flags (flag x))"

lemma eview_pframe: "pframe h h' \<Longrightarrow> eview (h' a) = eview (h a)"
  using pframe_fields(1-5) [of h h' a] by (simp add: eview_def pframe_def flags_def)

lemma eview_wframe: "wframe h h' \<Longrightarrow> eview (h' a) = eview (h a)"
  using wframe_fields(1-5) [of h h' a] wframe_fields(8) [of h h'] by (simp add: eview_def flags_def fun_eq_iff)

text \<open>The state after a load: the entry \<open>e\<close> is the last of its list and the one of its key.\<close>

definition holds :: "u8 \<Rightarrow> ('k, 'v) Pentry \<Rightarrow> ('k::zero, 'v::zero, 'z) store_scheme \<Rightarrow> ('k, 'v, 'z) store_scheme \<Rightarrow> bool" where
  "holds tp p st st' \<longleftrightarrow> (let e = next_addr st in next_addr st' = Suc e \<and> entry_at st' = (entry_at st)(P_Key p \<mapsto> e) \<and>
     lookup st' = (lookup st)(P_Key p \<mapsto> P_Value p) \<and>
     (\<forall>q. l_len (plist (policy st') q) = l_len (plist (policy st) q) + (if q = block_queue tp then P_PolicyWeight p else 0)) \<and>
     (\<forall>a. eview (heap st' a) = eview (if a = e then entry_of p else heap st a)))"

lemma linked_inv:
  fixes st :: "('k::zero, 'v::zero, 'z) store_scheme"
  assumes I: "store_inv st X" and s: "supply_ok st" and p: "pentry_ok tp p" and e: "e = next_addr st" and q: "q = block_queue tp"
    and fit: "tsize (heap st) X + unat (P_PolicyWeight p) \<le> unat (capacity (policy st))"
  shows "\<exists>h l. PushBack (plist (policy st) q) e ((heap st)(e := entry_of p)) = Some (h, l) \<and> pframe ((heap st)(e := entry_of p)) h \<and>
    l_capacity l = l_capacity (plist (policy st) q) \<and> l_len l = l_len (plist (policy st) q) + P_PolicyWeight p \<and>
    store_inv (st\<lparr>heap := h, next_addr := Suc e, policy := (set_target tp l (policy st))\<lparr>weightedSize := weightedSize (policy st) + P_PolicyWeight p\<rparr>\<rparr>)
      (X(q := X q @ [e]))"
proof -
  let ?x = "entry_of p" and ?X = "X(q := X q @ [e])" and ?T = "plist (policy st)"
  define l where "l = (?T q)\<lparr>l_len := l_len (?T q) + policyWeight ?x, l_count := l_count (?T q) + 1\<rparr>"
  have f: "unlinked (heap st e)" "unmapped st e" using s by (simp_all add: supply_ok_def fresh_def e)
  have x: "unlinked ?x" "in_queue q' (flag ?x) \<Longrightarrow> q' = q" for q'
    using p by (auto simp: pentry_ok_def unlinked_def entry_of_def zero_entry_def q)
  have k: "policy_ok st X" and M: "map_inv st" using store_inv_parts [OF I] by simp_all
  note R = policy_ok_parts(1) [OF k]
  obtain h where h: "PushBack (?T q) e ((heap st)(e := ?x)) = Some (h, l)" "reps h (?T(q := l)) ?X" "pframe ((heap st)(e := ?x)) h"
    using reps_PushBack_new [OF R f(1) x l_def] by blast
  note hf = pframe_fields [OF h(3)]
  let ?t = "(set_target tp l (policy st))\<lparr>weightedSize := weightedSize (policy st) + P_PolicyWeight p\<rparr>"
  let ?st = "st\<lparr>heap := h, next_addr := Suc e, policy := ?t\<rparr>"
  have pl: "plist ?t = ?T(q := l)" using plist_target [of tp l "policy st"] by (simp add: fun_eq_iff pqueue_all q)
  have ne: "e \<notin> all_entries X" using store_inv_member [OF I, of e] f(1) by (simp add: unlinked_def flags_def)
  have pw: "policyWeight (h a) = policyWeight (heap st a)" if "a \<noteq> e" for a using hf(4) [of a] that by simp
  have pe: "policyWeight (h e) = P_PolicyWeight p" using hf(4) [of e] by (simp add: entry_of_def zero_entry_def)
  have all: "all_entries ?X = insert e (all_entries X)" by (auto simp: all_entries_def split: if_splits)
  have ts: "tsize h ?X = tsize (heap st) X + unat (P_PolicyWeight p)"
  proof -
    have "tsize h ?X = (\<Sum>a\<in>all_entries X. unat (policyWeight (h a))) + unat (P_PolicyWeight p)"
      using tsize_sum [OF h(2)] ne unfolding all by (simp add: pe)
    also have "(\<Sum>a\<in>all_entries X. unat (policyWeight (h a))) = tsize (heap st) X"
      unfolding tsize_sum [OF R] using pw ne by (intro sum.cong) (auto, metis)
    finally show ?thesis .
  qed
  have tf: "sketch ?t = sketch (policy st)" "capacity ?t = capacity (policy st)" "step ?t = step (policy st)"
    "l_capacity (plist ?t q') = l_capacity (?T q')" for q'
    unfolding pl by (simp_all add: set_target_def l_def)
  have "weightedSize ?t = total h ?X" using k unfolding total_tsize ts by (simp add: policy_ok_def policy_inv_def total_tsize)
  then have "policy_inv ?st ?X" using k h(2) pl tf(1) by (simp add: policy_ok_def policy_inv_def)
  moreover have "climber_ok ?t" using k tf(2,3) tf(4) [of QWindow] tf(4) [of QProtected] by (simp add: policy_ok_def climber_ok_def caps_ok_def)
  moreover have "nonneg h ?X"
    unfolding nonneg_def all
  proof
    fix a assume "a \<in> insert e (all_entries X)"
    then show "0 \<le> sint (policyWeight (h a))"
      using k p pw [of a] pe by (cases "a = e") (auto simp: policy_ok_def nonneg_def pentry_ok_def)
  qed
  ultimately have P: "policy_ok ?st ?X" by (simp add: policy_ok_def)
  have "map_inv (st\<lparr>heap := (heap st)(e := ?x)\<rparr>)" by (rule map_inv_overwrite [OF M f(2)])
  then have "map_inv ?st" by (rule map_inv_cong) (use hf in \<open>simp_all add: flags_def\<close>)
  moreover obtain W where "wreps (heap st) (timerwheel st) W" using I by (auto simp: store_inv_def)
  then have "wreps ((heap st)(e := ?x)) (timerwheel st) W" using f(1) x(1) by (rule wreps_overwrite)
  then have "wreps h (timerwheel st) W" using wreps_wview [OF pframe_wview [OF h(3)]] by simp
  ultimately have "store_inv ?st ?X" using P ts fit tf(2) by (auto simp: store_inv_def)
  then show ?thesis using h(1,3) by (intro exI [of _ h] exI [of _ l]) (simp add: l_def entry_of_def zero_entry_def)
qed

lemma insertSimple_spec:
  assumes W: "wreps (heap st) (timerwheel st) W" and e: "\<not> IsRoot (flags (heap st) e)"
    and i: "i = snd (index (key (heap st e)) st)" "i < length (shards st)" and s: "shard_set (logf st) (key (heap st e)) e (shards st ! i) = Some s'"
  shows "\<exists>h tw. insertSimple e st = Some ((set_shard i s' st)\<lparr>heap := h, timerwheel := tw\<rparr>) \<and> wframe (heap st) h \<and> (\<exists>R. wreps h tw R) \<and>
    enters {e} (heap st) h \<and> tw_clock tw = tw_clock (timerwheel st)"
proof (cases "expire (heap st e) = 0")
  case True
  then have "insertSimple e st = Some ((set_shard i s' st)\<lparr>heap := heap st, timerwheel := timerwheel st\<rparr>)"
    using i s by (simp add: insertSimple_def Let_def set_shard_def)
  then show ?thesis using W by (intro exI [of _ "heap st"] exI [of _ "timerwheel st"]) (auto simp: enters_def)
next
  case False
  let ?st = "set_shard i s' st"
  have f: "heap ?st = heap st" "timerwheel ?st = timerwheel st" by (simp_all add: set_shard_def)
  have W': "wreps (heap ?st) (timerwheel ?st) W" "\<not> IsRoot (flags (heap ?st) e)" using W e by (simp_all add: f)
  obtain h tw R where t: "schedule e ?st = Some (?st\<lparr>heap := h, timerwheel := tw\<rparr>)" "wreps h tw R" "wframe (heap st) h" "enters {e} (heap st) h"
    using schedule_enters [OF W'] unfolding f by blast
  obtain h' tw' where t': "schedule e ?st = Some (?st\<lparr>heap := h', timerwheel := tw'\<rparr>)" "tw_clock tw' = tw_clock (timerwheel st)"
    using schedule_spec [OF W' refl refl refl refl] unfolding f by blast
  have "timerwheel (?st\<lparr>heap := h, timerwheel := tw\<rparr>) = timerwheel (?st\<lparr>heap := h', timerwheel := tw'\<rparr>)" using t(1) t'(1) by simp
  then have "tw_clock tw = tw_clock (timerwheel st)" using t'(2) by simp
  moreover have "insertSimple e st = schedule e ?st" using False i s by (simp add: insertSimple_def Let_def set_shard_def)
  ultimately show ?thesis using t by (intro exI [of _ h] exI [of _ tw]) auto
qed

text \<open>Linking \<open>e\<close> into a list and the wheel leaves every other unused entry unused.\<close>

lemma fresh_linked:
  assumes I: "store_inv st X" "store_inv st1 (X(q := X q @ [e]))" and P: "pframe ((heap st)(e := x)) (heap st1)" and W: "wframe (heap st1) h" "enters {e} (heap st1) h"
    and a: "a \<noteq> e" "fresh st a"
  shows "unlinked (heap st1 a)" "unlinked (h a)"
proof -
  have ua: "unlinked (heap st a)" using a(2) by (simp add: fresh_def)
  have ra: "\<not> IsRoot (flags (heap st1) a)" using ua a(1) pframe_fields(8) [OF P, of a] by (simp add: unlinked_def flags_def)
  have "a \<notin> all_entries X" using store_inv_member [OF I(1), of a] ua by (simp add: unlinked_def flags_def)
  then have "a \<notin> all_entries (X(q := X q @ [e]))" using a(1) by (auto simp: all_entries_def split: if_splits)
  then have m: "m_prev (meta (heap st1 a)) = None" using store_inv_member [OF I(2), of a] ra by simp
  have "prv WHEEL_LIST (heap st1) a = None" using pframe_fields(7) [OF P] ua a(1) by (simp add: unlinked_def prv_def e_prev_def)
  then have "prv WHEEL_LIST h a = None" "prv WHEEL_LIST (heap st1) a = None" using W(2) a(1) by (auto simp: enters_def)
  then show "unlinked (heap st1 a)" "unlinked (h a)"
    using m ra wframe_fields(8) [OF W(1)] meta_policy_wframe [OF W(1), of a] by (simp_all add: unlinked_def prv_def e_prev_def flags_def fun_eq_iff)
qed

lemma load_entry_spec:
  fixes st :: "('k::zero, 'v::zero, 'z) store_scheme"
  assumes L: "load_inv n st X" and n: "20 * Suc n \<le> 2 ^ 31" and p: "pentry_ok tp p" and q: "q = block_queue tp"
    and fit: "tsize (heap st) X + unat (P_PolicyWeight p) \<le> unat (capacity (policy st))"
  shows "\<exists>st'. load_entry tp p st = Some st' \<and> load_inv (Suc n) st' (X(q := X q @ [next_addr st])) \<and> holds tp p st st' \<and> same_limits st st'"
proof -
  define e where "e = next_addr st"
  have I: "store_inv st X" and s: "supply_ok st" and d: "doors_ok st" and sh: "\<And>s. s \<in> set (shards st) \<Longrightarrow> length (hashmap s) \<le> n \<and> \<not> s_closed s"
    using L by (auto simp: load_inv_def)
  have fr0: "fresh st a" if "e \<le> a" for a using s that by (simp add: supply_ok_def e_def)
  obtain h l where P: "PushBack (plist (policy st) q) e ((heap st)(e := entry_of p)) = Some (h, l)" "pframe ((heap st)(e := entry_of p)) h"
    "l_capacity l = l_capacity (plist (policy st) q)" "l_len l = l_len (plist (policy st) q) + P_PolicyWeight p" and
    I1: "store_inv (st\<lparr>heap := h, next_addr := Suc e, policy := (set_target tp l (policy st))\<lparr>weightedSize := weightedSize (policy st) + P_PolicyWeight p\<rparr>\<rparr>)
      (X(q := X q @ [e]))" (is "store_inv ?st1 ?X") using linked_inv [OF I s p e_def q fit] by blast
  define st1 where "st1 = ?st1"
  have ev: "eview (h a) = eview (if a = e then entry_of p else heap st a)" for a using eview_pframe [OF P(2), of a] by simp
  have ke: "key (h e) = P_Key p" "evalue (h e) = P_Value p" "policyWeight (h e) = P_PolicyWeight p" "\<not> IsRoot (flags h e)" "expire (h e) = P_Expire p"
    using ev [of e] p by (auto simp: eview_def entry_of_def zero_entry_def store_flags_def flags_def pentry_ok_def)
  define i where "i = snd (index (P_Key p) st)"
  have il: "i < length (shards st)" unfolding i_def by (rule index_lt [OF store_inv_parts(3) [OF I]])
  note si = sh [OF nth_mem [OF il]]
  have dk: "\<forall>d. dookeeper (shards st ! i) = Some d \<longrightarrow> bloom_wf d" using d nth_mem [OF il] by (auto simp: doors_ok_def)
  have ln: "20 * Suc (length (hashmap (shards st ! i))) \<le> 2 ^ 31" using conjunct1 [OF si] n by simp
  obtain s' where s': "shard_set (logf st) (P_Key p) e (shards st ! i) = Some s'" "hashmap s' = AList.update (P_Key p) e (hashmap (shards st ! i))"
    "\<not> s_closed s'" "dookeeper (shards st ! i) = None \<longleftrightarrow> dookeeper s' = None" "\<forall>d. dookeeper s' = Some d \<longrightarrow> bloom_wf d"
    using shard_set_spec [OF conjunct2 [OF si] dk ln, of "logf st" "P_Key p" e] by (elim exE conjE)
  have e1: "i = snd (index (P_Key p) st1)" "key (heap st1 e) = P_Key p" "\<not> IsRoot (flags (heap st1) e)" "hashmap s' = AList.update (P_Key p) e (hashmap (shards st1 ! i))"
    "\<not> s_closed (shards st1 ! i)" using ke si s'(2) by (simp_all add: st1_def i_def index_def)
  note B = rebind [OF I1 [folded st1_def] e1(1-4) s'(3) e1(5)]
  define st2 where "st2 = set_shard i s' st1"
  define stb where "stb = st\<lparr>next_addr := Suc e, heap := h, policy := set_target tp l (policy st)\<rparr>"
  have hb: "heap stb = h" "timerwheel stb = timerwheel st" "heap st2 = h" "timerwheel st2 = timerwheel st" "\<not> IsRoot (flags (heap stb) e)"
    "i = snd (index (key (heap stb e)) stb)" "i < length (shards stb)" "shard_set (logf stb) (key (heap stb e)) e (shards stb ! i) = Some s'"
    using ke il s'(1) by (simp_all add: set_shard_def st2_def st1_def stb_def i_def index_def)
  obtain W where W: "wreps h (timerwheel st) W" using B(1) hb(3,4) unfolding st2_def [symmetric] by (auto simp: store_inv_def)
  obtain h3 tw where S: "insertSimple e stb = Some ((set_shard i s' stb)\<lparr>heap := h3, timerwheel := tw\<rparr>)"
    "wframe h h3" "\<exists>R. wreps h3 tw R" "enters {e} h h3" "tw_clock tw = tw_clock (timerwheel st)"
    using insertSimple_spec [OF _ hb(5-8)] W unfolding hb(1,2) by blast
  have "sketch_wf (sketch (policy st))" by (rule policy_ok_parts(4) [OF store_inv_parts(1) [OF I]])
  then obtain sk where sk: "(if 0 < sint (P_Frequency p) then sk_Addn (s_hasher st (P_Key p)) (P_Frequency p) (sketch (policy st)) else Some (sketch (policy st))) = Some sk" "sketch_wf sk"
    using Addn_spec by (cases "0 < sint (P_Frequency p)") (auto, blast)
  define st' where "st' = (st2\<lparr>heap := h3, timerwheel := tw\<rparr>)\<lparr>policy := (policy st2)\<lparr>sketch := sk\<rparr>\<rparr>"
  note w3 = wframe_fields [OF S(2)]
  have tg: "sketch (set_target tp l (policy st)) = sketch (policy st)" "weightedSize (set_target tp l (policy st)) = weightedSize (policy st)" by (simp_all add: set_target_def)
  have run: "load_entry tp p st = Some st'"
    using P(1) S(1) sk(1) w3 ke unfolding load_entry_def alloc_def Let_def target_plist q
    by (cases "0 < sint (P_Frequency p)") (simp_all add: e_def [symmetric] stb_def tg st'_def st2_def st1_def set_shard_def)
  have hs: "heap st' = h3" "shards st' = (shards st)[i := s']" "next_addr st' = Suc e" "entryPool st' = entryPool st"
    by (simp_all add: st'_def st2_def st1_def set_shard_def)
  obtain R3 where "wreps h3 tw R3" using S(3) by blast
  then have "store_inv (st2\<lparr>heap := h3, timerwheel := tw\<rparr>) ?X" using store_inv_wheel [of st2 ?X h3 tw] B(1) S(2) hb(3) by (simp add: st2_def)
  from store_inv_sketch [OF this sk(2)] have I': "store_inv st' ?X" by (simp add: st'_def)
  have fr: "fresh st' a" if a: "a \<noteq> e" "fresh st a" for a
  proof -
    have "unlinked (h a)" "unlinked (h3 a)" using fresh_linked [OF I I1 _ _ _ a, of "entry_of p" h3] P(2) S(2,4) by simp_all
    moreover have "fresh st1 a" using a(2) \<open>unlinked (h a)\<close> by (simp add: fresh_def st1_def unmapped_def)
    ultimately show ?thesis using B(3) [OF a(1)] by (simp add: fresh_def hs st'_def st2_def unmapped_def)
  qed
  have "supply_ok st'" using s fr fr0 unfolding supply_ok_def hs by (force simp: e_def)
  moreover have "doors_ok st'"
    using d s'(4,5) nth_mem [OF il] set_update_subset_insert [of "shards st" i s'] by (auto simp: doors_ok_def hs st'_def st2_def st1_def set_shard_def)
  moreover have "length (hashmap s) \<le> Suc n \<and> \<not> s_closed s" if "s \<in> set (shards st')" for s
    using that set_update_subset_insert [of "shards st" i s'] sh [of s] si s'(2,3) length_AList_update [of "P_Key p" e "hashmap (shards st ! i)"] by (auto simp: hs)
  ultimately have L': "load_inv (Suc n) st' ?X" using I' by (simp add: load_inv_def)
  have at: "entry_at st' = (entry_at st)(P_Key p \<mapsto> e)"
    using B(2) by (simp add: st'_def st2_def st1_def entry_at_def index_def set_shard_def fun_eq_iff)
  have ev3: "eview (heap st' a) = eview (if a = e then entry_of p else heap st a)" for a using eview_wframe [OF S(2), of a] ev [of a] by (simp add: hs)
  have "lookup st' = (lookup st)(P_Key p \<mapsto> P_Value p)"
  proof (rule lookup_upd [OF at])
    show "evalue (heap st' e) = P_Value p" using ev3 [of e] by (simp add: eview_def entry_of_def zero_entry_def)
    fix k' a assume "k' \<noteq> P_Key p" "entry_at st k' = Some a"
    then have "a \<noteq> e" using mapped_not_fresh [OF store_inv_parts(3) [OF I]] fr0 [of e] by auto
    then show "evalue (heap st' a) = evalue (heap st a)" using ev3 [of a] by (simp add: eview_def)
  qed
  moreover have "plist (policy st') q' = ((plist (policy st))(q := l)) q'" for q'
    using plist_target [of tp l "policy st"] by (cases q') (simp_all add: st'_def st2_def st1_def set_shard_def fun_eq_iff pqueue_all q)
  ultimately have "holds tp p st st'" using at ev3 hs(3) P(4) by (simp add: holds_def e_def Let_def q)
  moreover have "same_limits st st'"
    using P(3) plist_target [of tp l "policy st"] S(5)
    by (simp add: same_limits_def st'_def st2_def st1_def set_shard_def pqueue_all q block_queue_def set_target_def)
  ultimately show ?thesis using run L' by (simp add: e_def)
qed

subsection \<open>Loading the entries of a block\<close>

text \<open>The two sides of the test for room.\<close>

definition fill :: "u8 \<Rightarrow> 'k TinyLfu \<Rightarrow> i64" where
  "fill tp t = (if tp = 2 then l_len (window t) else if tp = 3 then l_len (protected (slru t)) + l_len (probation (slru t)) else l_len (protected (slru t)))"

definition limit :: "u8 \<Rightarrow> 'k TinyLfu \<Rightarrow> i64" where
  "limit tp t = (if tp = 2 then l_capacity (window t) else if tp = 3 then s_maxsize (slru t) else l_capacity (protected (slru t)))"

lemma has_room_fill: "has_room tp t \<longleftrightarrow> slt (fill tp t) (limit tp t)"
  by (simp add: has_room_def fill_def limit_def Len_def)

lemma fill_holds: "holds tp p st st' \<Longrightarrow> fill tp (policy st') = fill tp (policy st) + P_PolicyWeight p"
  by (auto simp: holds_def Let_def fill_def block_queue_def pqueue_all)

lemma limit_same: "same_limits st st' \<Longrightarrow> limit tp (policy st') = limit tp (policy st)"
  by (auto simp: same_limits_def limit_def pqueue_all)

text \<open>The invariant of a store between two runs: nothing is pending.\<close>

definition restoring :: "nat \<Rightarrow> ('k, 'v, 'z) store_scheme \<Rightarrow> (pqueue \<Rightarrow> addr list) \<Rightarrow> bool" where
  "restoring n st X \<longleftrightarrow> load_inv n st X \<and> reads_ok st \<and> writeChan st = [] \<and> chan_ok st []"

text \<open>A saved entry whose weight has reached the policy.\<close>

definition pentry_fine :: "u8 \<Rightarrow> ('k, 'v) Pentry \<Rightarrow> bool" where
  "pentry_fine tp p \<longleftrightarrow> pentry_ok tp p \<and> 0 \<le> sint (P_Weight p) \<and>
     (\<not> IsDeleted (P_Flag p) \<and> \<not> IsRemoved (P_Flag p) \<longrightarrow> P_PolicyWeight p = P_Weight p)"

lemma live_Nil: "live st [] e \<longleftrightarrow> \<not> IsDeleted (flag (heap st e)) \<and> \<not> IsRemoved (flag (heap st e))"
  by (auto simp: live_def flags_def)

lemma load_restoring:
  assumes r: "restoring n st X" and p: "pentry_fine tp p" and L: "load_inv m st' X'" and h: "holds tp p st st'" and l: "same_limits st st'"
  shows "restoring m st' X'"
proof -
  let ?e = "next_addr st"
  have ev: "eview (heap st' a) = eview (if a = ?e then entry_of p else heap st a)" for a using h by (simp add: holds_def Let_def)
  have ee: "weight (heap st' ?e) = P_Weight p" "policyWeight (heap st' ?e) = P_PolicyWeight p" "store_flags (flag (heap st' ?e)) = store_flags (P_Flag p)"
    using ev [of ?e] by (simp_all add: eview_def entry_of_def zero_entry_def)
  have eo: "weight (heap st' a) = weight (heap st a)" "policyWeight (heap st' a) = policyWeight (heap st a)" "store_flags (flag (heap st' a)) = store_flags (flag (heap st a))"
    if "a \<noteq> ?e" for a using ev [of a] that by (simp_all add: eview_def)
  have at: "entry_at st' = (entry_at st)(P_Key p \<mapsto> ?e)" using h by (simp add: holds_def Let_def)
  have ne: "a \<noteq> ?e" if "entry_at st k = Some a" for k a
    using mapped_not_fresh [OF store_inv_parts(3) that] r by (auto simp: restoring_def load_inv_def supply_ok_def)
  have "0 \<le> sint (weight (heap st' a)) \<and> (live st' [] a \<longrightarrow> policyWeight (heap st' a) = weight (heap st' a))" if "entry_at st' k = Some a" for k a
  proof (cases "a = ?e")
    case True
    then show ?thesis using p ee by (auto simp: pentry_fine_def live_Nil store_flags_def)
  next
    case False
    then have "entry_at st k = Some a" using that at by (auto split: if_splits)
    then have "0 \<le> sint (weight (heap st a)) \<and> (live st [] a \<longrightarrow> policyWeight (heap st a) = weight (heap st a))"
      using r by (auto simp: restoring_def chan_ok_def)
    then show ?thesis using eo [OF False] by (auto simp: live_Nil store_flags_def)
  qed
  then have "chan_ok st' []" by (auto simp: chan_ok_def)
  moreover have "IsRoot (flags (heap st') a) = (a \<noteq> ?e \<and> IsRoot (flags (heap st) a))" for a
    using ee(3) eo(3) [of a] p by (cases "a = ?e") (auto simp: store_flags_def flags_def pentry_fine_def pentry_ok_def)
  then have "reads_valid (heap st) xs \<Longrightarrow> reads_valid (heap st') xs" for xs by (auto simp: reads_valid_def)
  then have "reads_ok st'" using r l unfolding reads_ok_def restoring_def same_limits_def by metis
  ultimately show ?thesis using r L l by (simp add: restoring_def same_limits_def)
qed

lemma tsize_snoc: "tsize h (X(q := X q @ [e])) = tsize h X + unat (policyWeight (h e))"
  by (cases q) (simp_all add: tsize_def)

lemma holds_tsize:
  assumes h: "holds tp p st st'" and e: "next_addr st \<notin> all_entries X"
  shows "tsize (heap st') (X(q := X q @ [next_addr st])) = tsize (heap st) X + unat (P_PolicyWeight p)"
proof -
  have ev: "eview (heap st' a) = eview (if a = next_addr st then entry_of p else heap st a)" for a using h by (simp add: holds_def Let_def)
  have "tsize (heap st') X = tsize (heap st) X"
  proof (rule tsize_cong)
    fix a assume "a \<in> all_entries X"
    then have "a \<noteq> next_addr st" using e by blast
    then show "policyWeight (heap st' a) = policyWeight (heap st a)" using ev [of a] by (simp add: eview_def)
  qed
  then show ?thesis using ev [of "next_addr st"] by (simp add: tsize_snoc eview_def entry_of_def zero_entry_def)
qed

text \<open>An entry is taken unless its deadline has passed or its list is full.\<close>

definition accepts :: "u8 \<Rightarrow> ('k, 'v) Pentry \<Rightarrow> ('k, 'v, 'z) store_scheme \<Rightarrow> bool" where
  "accepts tp p st \<longleftrightarrow> (P_Expire p \<noteq> 0 \<longrightarrow> \<not> slt (P_Expire p) (fst (read_now st))) \<and> has_room tp (policy st)"

definition clocked :: "('k, 'v) Pentry \<Rightarrow> ('k, 'v, 'z) store_scheme \<Rightarrow> ('k, 'v, 'z) store_scheme" where
  "clocked p st = (if P_Expire p \<noteq> 0 then st\<lparr>clk_pos := clk_pos st + 1\<rparr> else st)"

lemma recover_entry_cases: "recover_entry tp p st = (if accepts tp p st then load_entry tp p (clocked p st) else Some (clocked p st))"
  by (simp add: recover_entry_def accepts_def clocked_def read_now_def Let_def)

lemma clocked_fields:
  "policy (clocked p st) = policy st" "heap (clocked p st) = heap st" "next_addr (clocked p st) = next_addr st" "lookup (clocked p st) = lookup st"
  "same_limits st (clocked p st)" "restoring n st X \<Longrightarrow> restoring n (clocked p st) X" "entry_at (clocked p st) = entry_at st"
proof -
  show f: "policy (clocked p st) = policy st" "heap (clocked p st) = heap st" "next_addr (clocked p st) = next_addr st" "lookup (clocked p st) = lookup st"
    "same_limits st (clocked p st)" "entry_at (clocked p st) = entry_at st"
    by (simp_all add: clocked_def lookup_def entry_at_def index_def fun_eq_iff same_limits_def)
  show "restoring n (clocked p st) X" if r: "restoring n st X"
  proof -
    have "store_inv (clocked p st) X" by (rule store_inv_cong [of st]) (use r in \<open>simp_all add: restoring_def load_inv_def clocked_def\<close>)
    moreover have "supply_ok (clocked p st)" using r by (auto simp: restoring_def load_inv_def supply_ok_def clocked_def)
    moreover have "live (clocked p st) [] = live st []" by (simp add: fun_eq_iff live_Nil f)
    ultimately show ?thesis using r by (simp add: restoring_def load_inv_def doors_ok_def reads_ok_def chan_ok_def f) (simp add: clocked_def)
  qed
qed

lemma recover_entry_spec:
  fixes st :: "('k::zero, 'v::zero, 'z) store_scheme"
  assumes r: "restoring n st X" and n: "20 * Suc n \<le> 2 ^ 31" and p: "pentry_fine tp p"
    and fit: "tsize (heap st) X + unat (P_PolicyWeight p) \<le> unat (capacity (policy st))"
  shows "\<exists>st' X'. recover_entry tp p st = Some st' \<and> restoring (Suc n) st' X' \<and> same_limits st st' \<and>
    tsize (heap st') X' \<le> tsize (heap st) X + unat (P_PolicyWeight p) \<and>
    (if accepts tp p st then lookup st' = (lookup st)(P_Key p \<mapsto> P_Value p) \<and>
        (\<forall>q. l_len (plist (policy st') q) = l_len (plist (policy st) q) + (if q = block_queue tp then P_PolicyWeight p else 0))
     else lookup st' = lookup st)"
proof (cases "accepts tp p st")
  case False
  have "restoring (Suc n) (clocked p st) X" using clocked_fields(6) [OF r, of p] by (auto simp: restoring_def load_inv_def)
  then show ?thesis using False by (intro exI [of _ "clocked p st"] exI [of _ X]) (simp add: recover_entry_cases clocked_fields(1-5))
next
  case True
  note r1 = clocked_fields(6) [OF r, of p]
  have L: "load_inv n (clocked p st) X" "pentry_ok tp p" using r1 p by (simp_all add: restoring_def pentry_fine_def)
  have fit1: "tsize (heap (clocked p st)) X + unat (P_PolicyWeight p) \<le> unat (capacity (policy (clocked p st)))" using fit by (simp add: clocked_fields)
  obtain st' where s: "load_entry tp p (clocked p st) = Some st'" "load_inv (Suc n) st' (X(block_queue tp := X (block_queue tp) @ [next_addr st]))"
    "holds tp p (clocked p st) st'" "same_limits (clocked p st) st'"
    using load_entry_spec [OF L(1) n L(2) refl fit1] by (auto simp: clocked_fields)
  have "next_addr st \<notin> all_entries X" 
    using store_inv_member [of st X "next_addr st"] r by (auto simp: restoring_def load_inv_def supply_ok_def fresh_def unlinked_def flags_def)
  then have t: "tsize (heap st') (X(block_queue tp := X (block_queue tp) @ [next_addr st])) = tsize (heap st) X + unat (P_PolicyWeight p)"
    using holds_tsize [OF s(3), of X "block_queue tp"] by (simp add: clocked_fields)
  have "lookup st' = (lookup st)(P_Key p \<mapsto> P_Value p)"
    "\<forall>q. l_len (plist (policy st') q) = l_len (plist (policy st) q) + (if q = block_queue tp then P_PolicyWeight p else 0)"
    using s(3) by (simp_all add: holds_def Let_def clocked_fields)
  then show ?thesis using True s(1) load_restoring [OF r1 p s(2,3,4)] same_limits_trans [OF clocked_fields(5) s(4)] t
    by (intro exI [of _ st'] exI [of _ "X(block_queue tp := X (block_queue tp) @ [next_addr st])"]) (simp add: recover_entry_cases)
qed

definition weights :: "('k, 'v) Pentry list \<Rightarrow> nat" where
  "weights ps = sum_list (map (\<lambda>p. unat (P_PolicyWeight p)) ps)"

definition bindings :: "('k, 'v) Pentry list \<Rightarrow> ('k \<times> 'v) list" where
  "bindings ps = map (\<lambda>p. (P_Key p, P_Value p)) ps"

text \<open>Enough room for all of them, and no deadline that has passed.\<close>

definition ample :: "u8 \<Rightarrow> ('k, 'v) Pentry list \<Rightarrow> 'k TinyLfu \<Rightarrow> bool" where
  "ample tp ps t \<longleftrightarrow> (\<forall>p\<in>set ps. 0 < unat (P_PolicyWeight p)) \<and> 0 \<le> sint (fill tp t) \<and> sint (fill tp t) + int (weights ps) \<le> sint (limit tp t)"

definition alive :: "('k, 'v) Pentry list \<Rightarrow> ('k, 'v, 'z) store_scheme \<Rightarrow> bool" where
  "alive ps st \<longleftrightarrow> (\<forall>p\<in>set ps. P_Expire p = 0 \<or> (\<forall>m. \<not> slt (P_Expire p) (NowNano (clk st m) (tw_clock (timerwheel st)))))"

lemma weights_simps [simp]: "weights [] = 0" "weights (p # ps) = unat (P_PolicyWeight p) + weights ps"
  by (simp_all add: weights_def)

lemma bindings_simps [simp]: "bindings [] = []" "bindings (p # ps) = (P_Key p, P_Value p) # bindings ps"
  by (simp_all add: bindings_def)

lemma alive_accepts:
  assumes "alive (p # ps) st" "ample tp (p # ps) (policy st)" shows "accepts tp p st"
proof -
  have "0 < unat (P_PolicyWeight p)" using assms(2) by (simp add: ample_def)
  then have "0 < int (unat (P_PolicyWeight p))" by (simp only: of_nat_0_less_iff)
  then have "sint (fill tp (policy st)) < sint (limit tp (policy st))" using assms(2) unfolding ample_def weights_simps of_nat_add by linarith
  then show ?thesis using assms(1) by (auto simp: accepts_def has_room_fill slt_def alive_def read_now_def)
qed

lemma alive_tl: "alive (p # ps) st \<Longrightarrow> same_limits st st' \<Longrightarrow> alive ps st'"
  by (simp add: alive_def same_limits_def)

lemma ample_tl:
  assumes a: "ample tp (p # ps) (policy st)" and f: "fill tp (policy st') = fill tp (policy st) + P_PolicyWeight p" and l: "limit tp (policy st') = limit tp (policy st)"
  shows "ample tp ps (policy st')"
proof -
  let ?w = "P_PolicyWeight p" and ?f = "fill tp (policy st)"
  have b: "0 \<le> sint ?f" "sint ?f + int (unat ?w) + int (weights ps) \<le> sint (limit tp (policy st))" using a by (simp_all add: ample_def)
  have "sint (limit tp (policy st)) < 2 ^ 63" using sint_range64 by blast
  then have "int (unat ?w) < int (2 ^ 63)" using b by simp
  then have w: "unat ?w < 2 ^ 63" by (simp only: of_nat_less_iff)
  then have sw: "sint ?w = int (unat ?w)" by (rule sint_eq_unat64)
  have "sint (?f + ?w) = sint ?f + sint ?w" 
    by (intro sint_add64; unfold sw; use b \<open>sint (limit tp (policy st)) < 2 ^ 63\<close> in linarith)
  then show ?thesis using a b sw by (simp add: ample_def f l)
qed

lemma recover_entries_spec:
  fixes st :: "('k::zero, 'v::zero, 'z) store_scheme"
  assumes "restoring n st X" "20 * (n + length ps) \<le> 2 ^ 31" "\<forall>p\<in>set ps. pentry_fine tp p"
    "tsize (heap st) X + weights ps \<le> unat (capacity (policy st))"
  shows "\<exists>st' X' qs. recover_entries tp ps st = Some st' \<and> restoring (n + length ps) st' X' \<and> same_limits st st' \<and>
    tsize (heap st') X' \<le> tsize (heap st) X + weights ps \<and> set qs \<subseteq> set ps \<and> lookup st' = lookup st ++ map_of (rev (bindings qs)) \<and>
    (ample tp ps (policy st) \<and> alive ps st \<longrightarrow> qs = ps \<and>
       (\<forall>q. l_len (plist (policy st') q) = l_len (plist (policy st) q) + (if q = block_queue tp then of_nat (weights ps) else 0)))"
  using assms
proof (induction ps arbitrary: n st X)
  case Nil
  then show ?case by (auto simp: same_limits_refl)
next
  case (Cons p ps)
  have n: "20 * Suc n \<le> 2 ^ 31" "20 * (Suc n + length ps) \<le> 2 ^ 31" and pf: "pentry_fine tp p" "\<forall>p\<in>set ps. pentry_fine tp p"
    and fit: "tsize (heap st) X + unat (P_PolicyWeight p) \<le> unat (capacity (policy st))" using Cons.prems by simp_all
  obtain st1 X1 where s: "recover_entry tp p st = Some st1" "restoring (Suc n) st1 X1" "same_limits st st1"
    "tsize (heap st1) X1 \<le> tsize (heap st) X + unat (P_PolicyWeight p)" and
    c: "if accepts tp p st then lookup st1 = (lookup st)(P_Key p \<mapsto> P_Value p) \<and>
        (\<forall>q. l_len (plist (policy st1) q) = l_len (plist (policy st) q) + (if q = block_queue tp then P_PolicyWeight p else 0))
      else lookup st1 = lookup st"
    using recover_entry_spec [OF Cons.prems(1) n(1) pf(1) fit] by blast
  have cap: "capacity (policy st1) = capacity (policy st)" using s(3) by (simp add: same_limits_def)
  have fit1: "tsize (heap st1) X1 + weights ps \<le> unat (capacity (policy st1))" using s(4) Cons.prems(4) by (simp add: cap)
  obtain st' X' qs where t: "recover_entries tp ps st1 = Some st'" "restoring (Suc n + length ps) st' X'" "same_limits st1 st'"
    "tsize (heap st') X' \<le> tsize (heap st1) X1 + weights ps" "set qs \<subseteq> set ps" "lookup st' = lookup st1 ++ map_of (rev (bindings qs))" and
    a: "ample tp ps (policy st1) \<and> alive ps st1 \<longrightarrow> qs = ps \<and>
       (\<forall>q. l_len (plist (policy st') q) = l_len (plist (policy st1) q) + (if q = block_queue tp then of_nat (weights ps) else 0))"
    using Cons.IH [OF s(2) n(2) pf(2) fit1] by blast
  define rs where "rs = (if accepts tp p st then p # qs else qs)"
  have lk: "lookup st' = lookup st ++ map_of (rev (bindings rs))"
    using t(6) c by (auto simp: rs_def map_add_assoc [symmetric] split: if_splits)
  have run: "recover_entries tp (p # ps) st = Some st'" "restoring (n + length (p # ps)) st' X'" "set rs \<subseteq> set (p # ps)"
    "tsize (heap st') X' \<le> tsize (heap st) X + weights (p # ps)" using s(1,4) t(1,2,4,5) by (auto simp: rs_def)
  have "rs = p # ps \<and> (\<forall>q. l_len (plist (policy st') q) = l_len (plist (policy st) q) + (if q = block_queue tp then of_nat (weights (p # ps)) else 0))"
    if al: "ample tp (p # ps) (policy st)" "alive (p # ps) st"
  proof -
    have ac: "accepts tp p st" by (rule alive_accepts [OF al(2,1)])
    then have l: "l_len (plist (policy st1) q) = l_len (plist (policy st) q) + (if q = block_queue tp then P_PolicyWeight p else 0)" for q using c by simp
    then have "fill tp (policy st1) = fill tp (policy st) + P_PolicyWeight p"
      using l [of QWindow] l [of QProbation] l [of QProtected] by (auto simp: fill_def block_queue_def)
    then have "qs = ps \<and> (\<forall>q. l_len (plist (policy st') q) = l_len (plist (policy st1) q) + (if q = block_queue tp then of_nat (weights ps) else 0))"
      using a alive_tl [OF al(2) s(3)] ample_tl [OF al(1) _ limit_same [OF s(3)]] by blast
    then show ?thesis using ac l by (simp add: rs_def)
  qed
  then show ?case using run lk same_limits_trans [OF s(3) t(3)] by blast
qed

subsection \<open>The saved entries\<close>

text \<open>No write is under way: the policy holds exactly the entries that the maps hold.\<close>

definition settled :: "('k, 'v, 'z) store_scheme \<Rightarrow> (pqueue \<Rightarrow> addr list) \<Rightarrow> bool" where
  "settled st X \<longleftrightarrow> (\<forall>a. a \<in> all_entries X \<longleftrightarrow> (\<exists>k. entry_at st k = Some a)) \<and> chan_ok st []"

lemma reps_entries: "reps h T X \<Longrightarrow> entries (T q) h = Some (X q)"
  unfolding reps_def using entries_spec reps_ringD(2,3,5) by metis

lemma saved_eq: "store_inv st X \<Longrightarrow> saved st (plist (policy st) q) = map (snapshot (s_hasher st) (sketch (policy st)) (heap st)) (X q)"
  unfolding saved_def by (simp add: reps_entries [OF policy_ok_parts(1) [OF store_inv_parts(1)]])

lemma saved_fine:
  assumes I: "store_inv st X" and s: "settled st X" and p: "p \<in> set (saved st (plist (policy st) (block_queue tp)))"
  shows "pentry_fine tp p"
proof -
  obtain a where a: "a \<in> set (X (block_queue tp))" "p = snapshot (s_hasher st) (sketch (policy st)) (heap st) a" using p saved_eq [OF I] by auto
  note R = policy_ok_parts(1) [OF store_inv_parts(1) [OF I]]
  have m: "a \<in> all_entries X" using a(1) by (rule all_entriesI)
  obtain k where k: "entry_at st k = Some a" using s m by (auto simp: settled_def)
  have "0 \<le> sint (weight (heap st a))" "live st [] a \<Longrightarrow> policyWeight (heap st a) = weight (heap st a)"
    using chan_okD(4,5) [of st "[]"] s k by (auto simp: settled_def)
  then show ?thesis using reps_not_root [OF R m] reps_in_queue [OF R a(1)] policy_ok_parts(3) [OF store_inv_parts(1) [OF I] m]
    by (simp add: pentry_fine_def pentry_ok_def a(2) snapshot_def pentry_def flags_def live_Nil)
qed

lemma saved_binding:
  assumes I: "store_inv st X" and s: "settled st X" and b: "(k, x) \<in> set (bindings (saved st (plist (policy st) q)))"
  shows "lookup st k = Some x"
proof -
  obtain a where a: "a \<in> set (X q)" "k = key (heap st a)" "x = evalue (heap st a)"
    using b saved_eq [OF I] by (auto simp: bindings_def snapshot_def pentry_def)
  obtain k' where k': "entry_at st k' = Some a" using s all_entriesI [where X = X, OF a(1)] by (auto simp: settled_def)
  then have "k' = k" using entry_at_key [OF store_inv_parts(3) [OF I] k'] a(2) by simp
  then show ?thesis using k' a(3) by (simp add: lookup_def)
qed

lemma binding_saved:
  assumes I: "store_inv st X" and s: "settled st X" and k: "lookup st k = Some x"
  shows "\<exists>q. (k, x) \<in> set (bindings (saved st (plist (policy st) q)))"
proof -
  obtain a where a: "entry_at st k = Some a" "x = evalue (heap st a)" using k by (auto simp: lookup_def)
  then have "a \<in> all_entries X" using s by (auto simp: settled_def)
  then obtain q where "a \<in> set (X q)" by (auto simp: all_entries_def)
  moreover have "key (heap st a) = k" by (rule entry_at_key [OF store_inv_parts(3) [OF I] a(1)])
  ultimately show ?thesis using a(2) by (auto simp: saved_eq [OF I] bindings_def snapshot_def pentry_def intro!: exI [of _ q])
qed

lemma saved_weights:
  assumes I: "store_inv st X"
  shows "weights (saved st (window (policy st))) + weights (saved st (probation (slru (policy st)))) + weights (saved st (protected (slru (policy st)))) = tsize (heap st) X"
proof -
  have "weights (saved st (plist (policy st) q)) = sum_list (map (\<lambda>e. unat (policyWeight (heap st e))) (X q))" for q
    unfolding saved_eq [OF I] weights_def by (simp add: snapshot_def pentry_def comp_def)
  from this [of QWindow] this [of QProbation] this [of QProtected] show ?thesis by (simp add: tsize_def)
qed

lemma persist_loop_total: "sketch_wf sk \<Longrightarrow> \<exists>r. persist_loop g tp hs sk h as b w = Some r"
  by (induction "as" arbitrary: b w) (auto simp: Estimate_est Let_def split: sum.splits)

lemma list_Persist_total: "sketch_wf sk \<Longrightarrow> entries l h = Some es \<Longrightarrow> \<exists>r. list_Persist g l hs sk h tp w = Some r"
  using persist_loop_total [of sk g tp hs h es "NewBlock tp []" w] by (auto simp: list_Persist_def split: sum.splits)

lemma and_then_total: "\<exists>x. r = Some x \<Longrightarrow> (\<And>a. \<exists>y. f a = Some y) \<Longrightarrow> \<exists>y. and_then r f = Some y"
  by (auto simp: and_then_def split: sum.splits)

lemma store_Persist_total:
  assumes I: "store_inv st X" shows "\<exists>r. store_Persist g v st = Some r"
proof -
  note k = store_inv_parts(1) [OF I]
  have e: "\<exists>r. list_Persist g (plist (policy st) q) (s_hasher st) (sketch (policy st)) (heap st) tp w = Some r" for q tp w
    by (rule list_Persist_total [OF policy_ok_parts(4) [OF k] reps_entries [OF policy_ok_parts(1) [OF k]]])
  show ?thesis unfolding store_Persist_def Let_def
    by (intro and_then_total) (use e [of QWindow] e [of QProbation] e [of QProtected] in simp_all)
qed

subsection \<open>Restoring into a new store\<close>

lemma NewStore_empty_shards:
  fixes rt :: "'k::zero runtime"
  assumes "NewStore rt opt = Some st" "s \<in> set (shards st)" shows "hashmap s = [] \<and> \<not> s_closed s"
proof -
  obtain ss :: "'k Shard list" where ss: "new_shards (rt_log rt) (Doorkeeper opt) (shard_count (GOMAXPROCS rt)) = Some ss"
    "\<forall>s\<in>set ss. hashmap s = [] \<and> \<not> s_closed s"
    using new_shards_spec [of "rt_log rt" "Doorkeeper opt" "shard_count (GOMAXPROCS rt)"] by blast
  have "shards st = ss" using assms(1) ss(1) unfolding NewStore_def by (auto simp: Let_def split: bind_splits prod.splits)
  then show ?thesis using ss(2) assms(2) by blast
qed

lemma new_restoring:
  fixes opt :: "'v::zero StoreOptions" and rt :: "'k::zero runtime"
  assumes "0 < sint (MaxSize opt)" "runtime_ok rt" "\<not> EntryPool opt" and n: "NewStore rt opt = Some st"
  shows "restoring 0 st (\<lambda>_. [])" "lookup st = Map.empty" "entryPool st = None" "capacity (policy st) = MaxSize opt"
proof -
  show S: "lookup st = Map.empty" "entryPool st = None" "capacity (policy st) = MaxSize opt"
    using NewStore_spec [OF assms(1,2)] assms(3,4) by auto
  have T: "store_inv st (\<lambda>_. [])" "supply_ok st" "doors_ok st" "reads_ok st" "writeChan st = []"
    using NewStore_spec [OF assms(1,2)] assms(3,4) by auto
  have "entry_at st k = None" for k using fun_cong [OF S(1), of k] by (simp add: lookup_def)
  then have "chan_ok st []" by (simp add: chan_ok_def)
  then show "restoring 0 st (\<lambda>_. [])" using T NewStore_empty_shards [OF n] by (simp add: restoring_def load_inv_def)
qed

lemma ensure_capacity_total:
  assumes "sketch_wf s" "unat sz \<le> 2 ^ 45" shows "\<exists>s'. sk_EnsureCapacity sz s = Some s' \<and> sketch_wf s'"
proof (cases "sint sz \<le> int (length (Table s))")
  case True
  then show ?thesis using EnsureCapacity_id assms(1) by blast
next
  case False
  then show ?thesis using EnsureCapacity_grow [of s sz] assms(2) by (metis not_le)
qed

text \<open>The metadata sets the origin of the clock and makes room in the sketch.\<close>

lemma recover_meta_spec:
  assumes r: "restoring n st X" and t: "unat (m_Total m) \<le> 2 ^ 45" and v: "m_Version m = v"
  shows "\<exists>st'. recover_meta v m st = Some (None, st') \<and> restoring n st' X \<and> lookup st' = lookup st \<and> entryPool st' = entryPool st \<and>
    clk st' = clk st \<and> tw_clock (timerwheel st') = SetStart (m_StartNano m) (tw_clock (timerwheel st)) \<and> capacity (policy st') = capacity (policy st) \<and>
    plist (policy st') = plist (policy st) \<and> s_maxsize (slru (policy st')) = s_maxsize (slru (policy st)) \<and> heap st' = heap st"
proof -
  let ?tw = "(timerwheel st)\<lparr>tw_clock := SetStart (m_StartNano m) (tw_clock (timerwheel st))\<rparr>"
  have I: "store_inv st X" using r by (simp add: restoring_def load_inv_def)
  obtain sk where sk: "sk_EnsureCapacity (m_Total m) (sketch (policy st)) = Some sk" "sketch_wf sk"
    using ensure_capacity_total [OF policy_ok_parts(4) [OF store_inv_parts(1) [OF I]] t] by blast
  obtain W where "wreps (heap st) (timerwheel st) W" using I by (auto simp: store_inv_def)
  then have "wreps (heap st) ?tw W" by (simp add: wreps_def wheel_shape_def wroots_def)
  from store_inv_sketch [OF store_inv_wheel [OF I _ this] sk(2)] have I': "store_inv (st\<lparr>timerwheel := ?tw, policy := (policy st)\<lparr>sketch := sk\<rparr>\<rparr>) X" by simp
  let ?st = "st\<lparr>timerwheel := ?tw, policy := (policy st)\<lparr>sketch := sk\<rparr>\<rparr>"
  have "recover_meta v m st = Some (None, ?st)" using sk(1) v by (simp add: recover_meta_def Let_def)
  moreover have f: "fresh ?st = fresh st" "entry_at ?st = entry_at st" by (simp_all add: fresh_def unmapped_def entry_at_def index_def fun_eq_iff)
  then have "restoring n ?st X" using r I' unfolding restoring_def load_inv_def
    by (simp add: supply_ok_def doors_ok_def reads_ok_def chan_ok_def f live_Nil)
  moreover have "lookup ?st = lookup st" using f(2) by (simp add: lookup_def fun_eq_iff)
  ultimately show ?thesis by (intro exI [of _ ?st]) (simp add: pqueue_fun_eq)
qed

text \<open>Every list of the new store has room for the saved entries, and none of them has expired.\<close>

definition fits :: "('k, 'v, 'y) store_scheme \<Rightarrow> ('k, 'v, 'z) store_scheme \<Rightarrow> bool" where
  "fits st0 st \<longleftrightarrow> (let t0 = policy st0; t = policy st; all = saved st0 (window t0) @ saved st0 (protected (slru t0)) @ saved st0 (probation (slru t0)) in
     (\<forall>p\<in>set all. 0 < unat (P_PolicyWeight p)) \<and>
     int (weights (saved st0 (window t0))) \<le> sint (l_capacity (window t)) \<and>
     int (weights (saved st0 (protected (slru t0)))) \<le> sint (l_capacity (protected (slru t))) \<and>
     int (weights (saved st0 (protected (slru t0))) + weights (saved st0 (probation (slru t0)))) \<le> sint (s_maxsize (slru t)) \<and>
     (\<forall>p\<in>set all. P_Expire p = 0 \<or>
        (\<forall>m. \<not> slt (P_Expire p) (NowNano (clk st m) (SetStart (of_int (Start (tw_clock (timerwheel st0)))) (tw_clock (timerwheel st)))))))"

lemma map_add_le:
  assumes "m \<subseteq>\<^sub>m a" "n \<subseteq>\<^sub>m a" shows "m ++ n \<subseteq>\<^sub>m a"
proof (rule map_le_Some)
  fix k x assume "(m ++ n) k = Some x"
  then show "a k = Some x" using assms by (auto simp: map_add_Some_iff map_le_def dom_def)
qed

lemma bindings_le:
  assumes "\<And>k x. (k, x) \<in> set (bindings ps) \<Longrightarrow> A k = Some x" "set qs \<subseteq> set ps" shows "map_of (rev (bindings qs)) \<subseteq>\<^sub>m A"
proof -
  have "A k = Some x" if "map_of (rev (bindings qs)) k = Some x" for k x
    using map_of_SomeD [OF that] assms by (auto simp: bindings_def)
  then show ?thesis by (rule map_le_Some)
qed

lemma map_le_dom_eq:
  assumes "m \<subseteq>\<^sub>m a" "dom a \<subseteq> dom m" shows "m = a"
proof
  fix k show "m k = a k" using assms by (cases "a k"; cases "m k") (auto simp: map_le_def dom_def)
qed

lemma dom_bindings: "dom (map_of (rev (bindings ps))) = fst ` set (bindings ps)"
  by (simp add: dom_map_of_conv_image_fst)

text \<open>The three lists, one after the other.\<close>

lemma restore_lists:
  fixes st :: "('k::zero, 'v::zero, 'z) store_scheme"
  assumes r: "restoring 0 st (\<lambda>_. [])" and n: "20 * (length ps2 + length ps4 + length ps3) \<le> 2 ^ 31"
    and f: "\<forall>p\<in>set ps2. pentry_fine 2 p" "\<forall>p\<in>set ps4. pentry_fine 4 p" "\<forall>p\<in>set ps3. pentry_fine 3 p"
    and w: "weights ps2 + weights ps4 + weights ps3 \<le> unat (capacity (policy st))"
  shows "\<exists>st' X qs2 qs4 qs3. do { st \<leftarrow> recover_entries 2 ps2 st; st \<leftarrow> recover_entries 4 ps4 st; recover_entries 3 ps3 st } = Some st' \<and>
    (\<exists>n. restoring n st' X) \<and> same_limits st st' \<and> set qs2 \<subseteq> set ps2 \<and> set qs4 \<subseteq> set ps4 \<and> set qs3 \<subseteq> set ps3 \<and>
    lookup st' = lookup st ++ map_of (rev (bindings qs2)) ++ map_of (rev (bindings qs4)) ++ map_of (rev (bindings qs3)) \<and>
    (alive (ps2 @ ps4 @ ps3) st \<and> ample 2 ps2 (policy st) \<and> ample 4 ps4 (policy st) \<and> (\<forall>p\<in>set ps3. 0 < unat (P_PolicyWeight p)) \<and>
       int (weights ps4 + weights ps3) \<le> sint (s_maxsize (slru (policy st))) \<longrightarrow> qs2 = ps2 \<and> qs4 = ps4 \<and> qs3 = ps3)"
proof -
  have I0: "store_inv st (\<lambda>_. [])" using r by (simp add: restoring_def load_inv_def)
  have z: "l_len (plist (policy st) q) = 0" for q using reps_header [OF policy_ok_parts(1) [OF store_inv_parts(1) [OF I0]], of q] by simp
  have t0: "tsize (heap st) (\<lambda>_. []) = 0" by (simp add: tsize_def)
  obtain st2 X2 qs2 where s2: "recover_entries 2 ps2 st = Some st2" "restoring (0 + length ps2) st2 X2" "same_limits st st2"
    "tsize (heap st2) X2 \<le> tsize (heap st) (\<lambda>_. []) + weights ps2" "set qs2 \<subseteq> set ps2" "lookup st2 = lookup st ++ map_of (rev (bindings qs2))" and
    a2: "ample 2 ps2 (policy st) \<and> alive ps2 st \<longrightarrow> qs2 = ps2 \<and>
       (\<forall>q. l_len (plist (policy st2) q) = l_len (plist (policy st) q) + (if q = block_queue 2 then of_nat (weights ps2) else 0))"
    using recover_entries_spec [OF r _ f(1)] n w t0 by auto
  have c2: "capacity (policy st2) = capacity (policy st)" using s2(3) by (simp add: same_limits_def)
  obtain st4 X4 qs4 where s4: "recover_entries 4 ps4 st2 = Some st4" "restoring (0 + length ps2 + length ps4) st4 X4" "same_limits st2 st4"
    "tsize (heap st4) X4 \<le> tsize (heap st2) X2 + weights ps4" "set qs4 \<subseteq> set ps4" "lookup st4 = lookup st2 ++ map_of (rev (bindings qs4))" and
    a4: "ample 4 ps4 (policy st2) \<and> alive ps4 st2 \<longrightarrow> qs4 = ps4 \<and>
       (\<forall>q. l_len (plist (policy st4) q) = l_len (plist (policy st2) q) + (if q = block_queue 4 then of_nat (weights ps4) else 0))"
    using recover_entries_spec [OF s2(2) _ f(2)] n w t0 s2(4) by (auto simp: c2)
  have c4: "capacity (policy st4) = capacity (policy st)" using s4(3) by (simp add: same_limits_def c2)
  obtain st3 X3 qs3 where s3: "recover_entries 3 ps3 st4 = Some st3" "restoring (0 + length ps2 + length ps4 + length ps3) st3 X3" "same_limits st4 st3"
    "set qs3 \<subseteq> set ps3" "lookup st3 = lookup st4 ++ map_of (rev (bindings qs3))" and
    a3: "ample 3 ps3 (policy st4) \<and> alive ps3 st4 \<longrightarrow> qs3 = ps3"
    using recover_entries_spec [OF s4(2) _ f(3)] n w t0 s2(4) s4(4) by (auto simp: c4)
  have "qs2 = ps2 \<and> qs4 = ps4 \<and> qs3 = ps3" if al: "alive (ps2 @ ps4 @ ps3) st" and am: "ample 2 ps2 (policy st)" "ample 4 ps4 (policy st)"
    and w3: "\<forall>p\<in>set ps3. 0 < unat (P_PolicyWeight p)" "int (weights ps4 + weights ps3) \<le> sint (s_maxsize (slru (policy st)))"
  proof -
    note l24 = same_limits_trans [OF s2(3) s4(3)]
    have l: "alive ps2 st" "alive ps4 st2" "alive ps3 st4" using al s2(3) l24 by (auto simp: alive_def same_limits_def)
    have e2: "qs2 = ps2" "l_len (plist (policy st2) q) = (if q = QWindow then of_nat (weights ps2) else 0)" for q using a2 am(1) l(1) z by (simp_all add: block_queue_def)
    have "fill 4 (policy st2) = fill 4 (policy st)" using e2(2) [of QProtected] z [of QProtected] by (simp add: fill_def)
    then have "ample 4 ps4 (policy st2)" using am(2) limit_same [OF s2(3)] by (simp add: ample_def)
    then have e4: "qs4 = ps4" "\<forall>q. l_len (plist (policy st4) q) = l_len (plist (policy st2) q) + (if q = QProtected then of_nat (weights ps4) else 0)"
      using a4 l(2) by (simp_all add: block_queue_def)
    have f3: "fill 3 (policy st4) = of_nat (weights ps4)"
      using e4(2) [rule_format, of QProtected] e4(2) [rule_format, of QProbation] e2(2) [of QProtected] e2(2) [of QProbation] by (simp add: fill_def)
    have "int (weights ps4 + weights ps3) < 2 ^ 63" using w3(2) sint_range64 [of "s_maxsize (slru (policy st))"] by linarith
    then have "sint (of_nat (weights ps4) :: i64) = int (weights ps4)" using sint_word_of_int64 [of "int (weights ps4)"] by simp
    moreover have "limit 3 (policy st4) = s_maxsize (slru (policy st))" using l24 by (simp add: limit_def same_limits_def)
    ultimately have "ample 3 ps3 (policy st4)" using w3 by (simp add: ample_def f3)
    then show ?thesis using e2(1) e4(1) a3 l(3) by blast
  qed
  then show ?thesis using s2(1,5,6) s3 s4(1,5,6) same_limits_trans [OF same_limits_trans [OF s2(3) s4(3)] s3(3)]
    by (intro exI [of _ st3] exI [of _ X3] exI [of _ qs2] exI [of _ qs4] exI [of _ qs3]) auto
qed

lemma restored_lookup:
  assumes I: "store_inv st0 X" and s: "settled st0 X" and q: "set qs2 \<subseteq> set (saved st0 (window (policy st0)))"
    "set qs4 \<subseteq> set (saved st0 (protected (slru (policy st0))))" "set qs3 \<subseteq> set (saved st0 (probation (slru (policy st0))))"
    and m: "m = map_of (rev (bindings qs2)) ++ map_of (rev (bindings qs4)) ++ map_of (rev (bindings qs3))"
  shows "m \<subseteq>\<^sub>m lookup st0"
    "qs2 = saved st0 (window (policy st0)) \<Longrightarrow> qs4 = saved st0 (protected (slru (policy st0))) \<Longrightarrow> qs3 = saved st0 (probation (slru (policy st0))) \<Longrightarrow> m = lookup st0"
proof -
  have b: "map_of (rev (bindings qs)) \<subseteq>\<^sub>m lookup st0" if "set qs \<subseteq> set (saved st0 (plist (policy st0) q))" for q qs
    using bindings_le [OF saved_binding [OF I s] that] .
  show le: "m \<subseteq>\<^sub>m lookup st0" unfolding m using b [of qs2 QWindow] b [of qs4 QProtected] b [of qs3 QProbation] q by (intro map_add_le) simp_all
  assume e: "qs2 = saved st0 (window (policy st0))" "qs4 = saved st0 (protected (slru (policy st0)))" "qs3 = saved st0 (probation (slru (policy st0)))"
  have "k \<in> dom m" if k: "lookup st0 k = Some x" for k x
  proof -
    obtain q where "(k, x) \<in> set (bindings (saved st0 (plist (policy st0) q)))" using binding_saved [OF I s k] by blast
    then have "k \<in> fst ` set (bindings (saved st0 (plist (policy st0) q)))" by force
    then show ?thesis using e by (cases q) (simp_all add: m dom_map_add dom_bindings)
  qed
  then show "m = lookup st0" by (intro map_le_dom_eq [OF le]) (auto simp: dom_def)
qed

lemma fits_ample:
  assumes f: "fits st0 st" and z: "\<And>q. l_len (plist (policy st1) q) = 0" and p: "plist (policy st1) = plist (policy st)" "s_maxsize (slru (policy st1)) = s_maxsize (slru (policy st))"
    and c: "clk st1 = clk st" "tw_clock (timerwheel st1) = SetStart (of_int (Start (tw_clock (timerwheel st0)))) (tw_clock (timerwheel st))"
  shows "alive (saved st0 (window (policy st0)) @ saved st0 (protected (slru (policy st0))) @ saved st0 (probation (slru (policy st0)))) st1"
    "ample 2 (saved st0 (window (policy st0))) (policy st1)" "ample 4 (saved st0 (protected (slru (policy st0)))) (policy st1)"
    "\<forall>p\<in>set (saved st0 (probation (slru (policy st0)))). 0 < unat (P_PolicyWeight p)"
    "int (weights (saved st0 (protected (slru (policy st0)))) + weights (saved st0 (probation (slru (policy st0))))) \<le> sint (s_maxsize (slru (policy st1)))"
proof -
  have l: "l_capacity (window (policy st1)) = l_capacity (window (policy st))" "l_capacity (protected (slru (policy st1))) = l_capacity (protected (slru (policy st)))"
    using fun_cong [OF p(1), of QWindow] fun_cong [OF p(1), of QProtected] by simp_all
  have z': "l_len (window (policy st1)) = 0" "l_len (protected (slru (policy st1))) = 0" using z [of QWindow] z [of QProtected] by simp_all
  show "alive (saved st0 (window (policy st0)) @ saved st0 (protected (slru (policy st0))) @ saved st0 (probation (slru (policy st0)))) st1"
    using f unfolding fits_def Let_def alive_def c by blast
  show "ample 2 (saved st0 (window (policy st0))) (policy st1)" "ample 4 (saved st0 (protected (slru (policy st0)))) (policy st1)"
    using f by (simp_all add: fits_def Let_def ample_def fill_def limit_def z' l)
  show "\<forall>p\<in>set (saved st0 (probation (slru (policy st0)))). 0 < unat (P_PolicyWeight p)"
    "int (weights (saved st0 (protected (slru (policy st0)))) + weights (saved st0 (probation (slru (policy st0))))) \<le> sint (s_maxsize (slru (policy st1)))"
    using f p(2) by (simp_all add: fits_def Let_def)
qed

end
