(* ===== verification/Persistence_Properties.thy ===== *)
theory Persistence_Properties
  imports Recovery Store_Properties
begin

text \<open>
  The properties of saving and restoring, with a store that holds one entry and a small
  instance of the coders as witnesses.
\<close>

subsection \<open>A demonstration\<close>

text \<open>Coders for a single item, and for the blocks that such a store is saved in.\<close>

definition one_coder :: "'a \<Rightarrow> 'a coder" where
  "one_coder y = \<lparr>enc = (\<lambda>hist x. if x = y then Some [0] else None), dec = (\<lambda>bs. (map (\<lambda>_. y) bs, True))\<rparr>"

definition demo_block :: "u8 \<Rightarrow> DataBlock" where
  "demo_block tp = \<lparr>b_Type = tp, b_SecondaryType = 0, b_CheckSum = 5, b_Index = 0, b_Data = [0]\<rparr>"

definition block_coder :: "DataBlock coder" where
  "block_coder = \<lparr>enc = (\<lambda>hist d. if d = demo_block (b_Type d) then Some [b_Type d] else None), dec = (\<lambda>bs. (map demo_block bs, True))\<rparr>"

definition demo_gob :: "StoreMeta \<Rightarrow> ('k, 'v) Pentry \<Rightarrow> ('k, 'v) gob" where
  "demo_gob m p = \<lparr>g_meta = one_coder m, g_entry = one_coder p, g_int = one_coder 1, g_block = block_coder, xxh3 = (\<lambda>_. 5)\<rparr>"

lemma one_coder_ok: "coder_ok (one_coder y)"
proof -
  have "map (\<lambda>_. y) bs = xs" if "encodes (one_coder y) hist xs = Some bs" for hist xs bs
    using that by (induction xs arbitrary: hist bs) (auto simp: one_coder_def split: bind_splits if_splits)
  then show ?thesis by (auto simp: coder_ok_def one_coder_def)
qed

lemma block_coder_ok: "coder_ok block_coder"
proof -
  have "map demo_block bs = xs" if "encodes block_coder hist xs = Some bs" for hist xs bs
    using that by (induction xs arbitrary: hist bs) (auto simp: block_coder_def split: bind_splits if_splits)
  then show ?thesis by (auto simp: coder_ok_def block_coder_def)
qed

lemma demo_gob_ok: "gob_ok (demo_gob m p)"
  by (simp add: gob_ok_def demo_gob_def one_coder_ok block_coder_ok)

definition demo_pentry :: "(nat, nat) Pentry" where
  "demo_pentry = \<lparr>P_Key = 1, P_Value = 7, P_Weight = 1, P_PolicyWeight = 1, P_Expire = 0, P_Frequency = 0, P_Flag = zero_flag\<rparr>"

lemma NewStore_maxsize:
  assumes "NewStore rt opt = Some st"
  shows "s_maxsize (slru (policy st)) = MaxSize opt - l_capacity (window (policy st))"
  using assms by (auto simp: NewStore_def NewTinyLfu_def NewSlru_def NewList_def Let_def split: bind_splits prod.splits)

text \<open>A store that holds key 1 with value 7 in its window.\<close>

lemma demo_saved:
  obtains st st0 where "NewStore demo_rt demo_opt = Some st" "load_entry 2 demo_pentry st = Some st0"
    "restoring 1 st0 ((\<lambda>_. [])(QWindow := [260]))" "settled st0 ((\<lambda>_. [])(QWindow := [260]))" "lookup st0 = [1 \<mapsto> 7]" "capacity (policy st0) = 100"
    "policyWeight (heap st0 260) = 1" "expire (heap st0 260) = 0" "entry_at st0 1 = Some 260"
    "length (shards st0) \<le> 2 ^ 7"
proof -
  obtain st where N: "NewStore demo_rt demo_opt = Some st" "lookup st = Map.empty" "capacity (policy st) = 100" "next_addr st = 260"
    using NewStore_spec [OF demo_ok(1,2)] by (auto simp: demo_opt_def first_addr_def)
  note r = new_restoring(1) [OF demo_ok N(1)]
  have p: "pentry_fine 2 demo_pentry" "pentry_ok 2 demo_pentry"
    by (auto simp: pentry_fine_def pentry_ok_def demo_pentry_def elim!: in_queue.elims)
  have L: "load_inv 0 st (\<lambda>_. [])" using r by (simp add: restoring_def)
  have fit: "tsize (heap st) (\<lambda>_. []) + unat (P_PolicyWeight demo_pentry) \<le> unat (capacity (policy st))" by (simp add: tsize_def N(3) demo_pentry_def)
  obtain st0 where S: "load_entry 2 demo_pentry st = Some st0" "load_inv (Suc 0) st0 ((\<lambda>_. [])(QWindow := [260]))" "holds 2 demo_pentry st st0" "same_limits st st0"
    using load_entry_spec [OF L _ p(2) refl fit] by (auto simp: N(4) block_queue_def)
  have R: "restoring 1 st0 ((\<lambda>_. [])(QWindow := [260]))" using load_restoring [OF r p(1) S(2,3,4)] by simp
  have "entry_at st k = None" for k using fun_cong [OF N(2), of k] by (simp add: lookup_def)
  then have at: "entry_at st0 = [1 \<mapsto> 260]" using S(3) by (auto simp: holds_def N(4) demo_pentry_def fun_eq_iff)
  then have "settled st0 ((\<lambda>_. [])(QWindow := [260]))" using R by (auto simp: settled_def restoring_def all_entries_def split: if_splits)
  moreover have "lookup st0 = [1 \<mapsto> 7]" using S(3) N(2) by (simp add: holds_def Let_def demo_pentry_def)
  moreover have "eview (heap st0 260) = eview (entry_of demo_pentry)" using S(3) by (simp add: holds_def N(4))
  then have "policyWeight (heap st0 260) = 1" "expire (heap st0 260) = 0" by (simp_all add: eview_def entry_of_def demo_pentry_def)
  moreover have "length (shards st0) \<le> 2 ^ 7"
  proof -
    have "length (shards st0) = length (shards st)"
      using store_inv_parts(3) [of st0] store_inv_parts(3) [of st] S(2,4) L by (auto simp: load_inv_def map_inv_def same_limits_def)
    then show ?thesis using NewStore_spec [OF demo_ok(1,2)] N(1) shard_count_pow2 [of "GOMAXPROCS demo_rt"] power_increasing [of _ 7 "2 :: nat"] by auto
  qed
  ultimately show thesis using that [OF N(1) S(1) R] S(4) N(3) at by (simp add: same_limits_def)
qed

lemma demo_persist:
  fixes st0 :: "(nat, nat) store"
  assumes I: "store_inv st0 ((\<lambda>_. [])(QWindow := [260]))"
  shows "store_Persist (demo_gob (store_meta v st0) (snapshot (s_hasher st0) (sketch (policy st0)) (heap st0) 260)) v st0 = Some (Inr [1, 2, 255])"
proof -
  note k = store_inv_parts(1) [OF I]
  note e = reps_entries [OF policy_ok_parts(1) [OF k]]
  have en: "entries (window (policy st0)) (heap st0) = Some [260]" "entries (protected (slru (policy st0))) (heap st0) = Some []"
    "entries (probation (slru (policy st0))) (heap st0) = Some []" using e [of QWindow] e [of QProtected] e [of QProbation] by simp_all
  obtain n where n: "sk_Estimate (s_hasher st0 (key (heap st0 260))) (sketch (policy st0)) = Some n" using Estimate_est [OF policy_ok_parts(4) [OF k]] by blast
  note B = block_Write_def block_Save_def encode_block_def NewBlock_def BlockBufferSize_def demo_gob_def one_coder_def block_coder_def demo_block_def Let_def
  have 1: "meta_Persist (demo_gob (store_meta v st0) p) (store_meta v st0) \<lparr>w_out = [], blockEncoder = []\<rparr> = Inr \<lparr>w_out = [1], blockEncoder = [demo_block 1]\<rparr>" for p :: "(nat, nat) Pentry"
    by (simp add: meta_Persist_def single_block_def B)
  let ?p = "snapshot (s_hasher st0) (sketch (policy st0)) (heap st0) 260"
  have 2: "list_Persist (demo_gob m ?p) (window (policy st0)) (s_hasher st0) (sketch (policy st0)) (heap st0) 2 \<lparr>w_out = [1], blockEncoder = [demo_block 1]\<rparr> =
      Some (Inr \<lparr>w_out = [1, 2], blockEncoder = [demo_block 1, demo_block 2]\<rparr>)" for m
    using n by (simp add: list_Persist_def en pentry_def snapshot_def B)
  have 3: "list_Persist g l (s_hasher st0) (sketch (policy st0)) (heap st0) tp w = Some (Inr w)" if "entries l (heap st0) = Some []" for g l tp w
    using that by (simp add: list_Persist_def B)
  have 4: "single_block (demo_gob m p) (g_int (demo_gob m p)) 255 1 \<lparr>w_out = [1, 2], blockEncoder = [demo_block 1, demo_block 2]\<rparr> =
      Inr \<lparr>w_out = [1, 2, 255], blockEncoder = [demo_block 1, demo_block 2, demo_block 255]\<rparr>" for m and p :: "(nat, nat) Pentry"
    by (simp add: single_block_def B)
  show ?thesis unfolding store_Persist_def Let_def store_meta_def [symmetric] by (simp add: and_then_def 1 2 3 4 en(2,3))
qed

lemma demo_window_size: "(let s = uint_of_float (f32 (f32_of_uint 100 * f32 (1 / 100))) in if s < 1 then 1 else s) = (1 :: u64)"
  by code_simp

lemma demo_fits:
  assumes D: "NewStore demo_rt demo_opt = Some st" and I: "store_inv st0 ((\<lambda>_. [])(QWindow := [260]))" and e: "policyWeight (heap st0 260) = 1" "expire (heap st0 260) = 0"
  shows "fits st0 st"
proof -
  have "store_inv st (\<lambda>_. [])" using new_restoring(1) [OF demo_ok D] by (simp add: restoring_def load_inv_def)
  then have cap: "1 \<le> sint (l_capacity (window (policy st)))" "0 \<le> sint (l_capacity (protected (slru (policy st))))"
    by (simp_all add: store_inv_def policy_ok_def climber_ok_def caps_ok_def)
  have w: "l_capacity (window (policy st)) = 1" using D demo_window_size
    by (auto simp: NewStore_def NewTinyLfu_def NewList_def Let_def demo_opt_def split: bind_splits prod.splits)
  have sv: "saved st0 (window (policy st0)) = [snapshot (s_hasher st0) (sketch (policy st0)) (heap st0) 260]" "saved st0 (protected (slru (policy st0))) = []"
    "saved st0 (probation (slru (policy st0))) = []" using saved_eq [OF I, of QWindow] saved_eq [OF I, of QProtected] saved_eq [OF I, of QProbation] by simp_all
  show ?thesis using cap e NewStore_maxsize [OF D] by (simp add: fits_def sv snapshot_def pentry_def w demo_opt_def)
qed

lemma few_keys:
  assumes "\<forall>s\<in>set (shards st). length (hashmap s) \<le> 1" "length (shards st) \<le> 2 ^ 7" shows "sum_list (map shard_len (shards st)) \<le> 2 ^ 45"
proof -
  have "sum_list (map shard_len (shards st)) \<le> sum_list (map (\<lambda>_. 1) (shards st))" using assms(1) by (intro sum_list_mono) (simp add: shard_len_def)
  also have "\<dots> \<le> 2 ^ 45" using assms(2) by (simp add: sum_list_triv)
  finally show ?thesis .
qed

subsection \<open>Saving and restoring\<close>

text \<open>What a restore of the saved entries of \<open>st0\<close> gives, whatever the number of keys in the metadata.\<close>

lemma restore_spec:
  fixes opt :: "'v::zero StoreOptions" and rt :: "'k::zero runtime" and st0 :: "('k, 'v) store"
  assumes I: "store_inv st0 X" and s: "settled st0 X" and n: "20 * entry_count X \<le> 2 ^ 31"
    and o: "0 < sint (MaxSize opt)" "runtime_ok rt" "\<not> EntryPool opt" "NewStore rt opt = Some st" and c: "capacity (policy st0) \<le> MaxSize opt"
    and m: "unat (m_Total mt) \<le> 2 ^ 45" "m_Version mt = v" "m_StartNano mt = of_int (Start (tw_clock (timerwheel st0)))"
  shows "\<exists>st1 st'. recover_meta v mt st = Some (None, st1) \<and>
    do { st \<leftarrow> recover_entries 2 (saved st0 (window (policy st0))) st1; st \<leftarrow> recover_entries 4 (saved st0 (protected (slru (policy st0)))) st;
         recover_entries 3 (saved st0 (probation (slru (policy st0)))) st } = Some st' \<and>
    run_inv (MaxSize opt) (lookup st0) st' \<and> (fits st0 st \<longrightarrow> lookup st' = lookup st0)"
proof -
  let ?t0 = "policy st0"
  let ?ps2 = "saved st0 (window ?t0)" and ?ps4 = "saved st0 (protected (slru ?t0))" and ?ps3 = "saved st0 (probation (slru ?t0))"
  note N = new_restoring [OF o]
  obtain st1 where M: "recover_meta v mt st = Some (None, st1)" "restoring 0 st1 (\<lambda>_. [])" "lookup st1 = lookup st" "entryPool st1 = entryPool st"
    "clk st1 = clk st" "tw_clock (timerwheel st1) = SetStart (m_StartNano mt) (tw_clock (timerwheel st))" "capacity (policy st1) = capacity (policy st)"
    "plist (policy st1) = plist (policy st)" "s_maxsize (slru (policy st1)) = s_maxsize (slru (policy st))"
    using recover_meta_spec [OF N(1) m(1,2)] by (elim exE conjE)
  have len: "20 * (length ?ps2 + length ?ps4 + length ?ps3) \<le> 2 ^ 31"
    using n saved_eq [OF I, of QWindow] saved_eq [OF I, of QProtected] saved_eq [OF I, of QProbation] by (simp add: entry_count_def)
  have fine: "\<forall>p\<in>set ?ps2. pentry_fine 2 p" "\<forall>p\<in>set ?ps4. pentry_fine 4 p" "\<forall>p\<in>set ?ps3. pentry_fine 3 p"
    using saved_fine [OF I s, of _ 2] saved_fine [OF I s, of _ 4] saved_fine [OF I s, of _ 3] by (simp_all add: block_queue_def)
  have w: "weights ?ps2 + weights ?ps4 + weights ?ps3 \<le> unat (capacity (policy st1))"
    using saved_weights [OF I] store_inv_parts(4) [OF I] c by (simp add: M(7) N(4) word_le_nat_alt)
  obtain st' X' qs2 qs4 qs3 k where R: "do { st \<leftarrow> recover_entries 2 ?ps2 st1; st \<leftarrow> recover_entries 4 ?ps4 st; recover_entries 3 ?ps3 st } = Some st'"
    "restoring k st' X'" "same_limits st1 st'" and q: "set qs2 \<subseteq> set ?ps2" "set qs4 \<subseteq> set ?ps4" "set qs3 \<subseteq> set ?ps3" and
    lk: "lookup st' = lookup st1 ++ map_of (rev (bindings qs2)) ++ map_of (rev (bindings qs4)) ++ map_of (rev (bindings qs3))" and
    a: "alive (?ps2 @ ?ps4 @ ?ps3) st1 \<and> ample 2 ?ps2 (policy st1) \<and> ample 4 ?ps4 (policy st1) \<and> (\<forall>p\<in>set ?ps3. 0 < unat (P_PolicyWeight p)) \<and>
      int (weights ?ps4 + weights ?ps3) \<le> sint (s_maxsize (slru (policy st1))) \<longrightarrow> qs2 = ?ps2 \<and> qs4 = ?ps4 \<and> qs3 = ?ps3"
    using restore_lists [OF M(2) len fine w] by blast
  note L = restored_lookup [OF I s q refl]
  have lk': "lookup st' = map_of (rev (bindings qs2)) ++ map_of (rev (bindings qs4)) ++ map_of (rev (bindings qs3))" using lk by (simp add: M(3) N(2))
  have z: "l_len (plist (policy st1) q) = 0" for q
    using reps_header [OF policy_ok_parts(1) [OF store_inv_parts(1)], of st1 "\<lambda>_. []" q] M(2) by (simp add: restoring_def load_inv_def)
  have "run_inv (MaxSize opt) (lookup st0) st'"
    using R(2,3) L(1) N(3,4) M(4,7) unfolding run_inv_def core_inv_def lk' by (auto simp: restoring_def load_inv_def same_limits_def)
  moreover have "lookup st' = lookup st0" if "fits st0 st"
    using a L(2) fits_ample [OF that z M(8,9,5)] M(6) m(3) unfolding lk' by simp
  ultimately show ?thesis using M(1) R(1) by blast
qed

lemma total_small: "sum_list (map shard_len (shards st)) \<le> 2 ^ 45 \<Longrightarrow> unat (m_Total (store_meta v st)) \<le> 2 ^ 45"
  by (simp add: store_meta_def unsigned_of_nat take_bit_eq_mod)



text \<open>A block that a restore accepts.\<close>

definition intact :: "('k, 'v) gob \<Rightarrow> u64 \<Rightarrow> DataBlock \<Rightarrow> bool" where
  "intact g v b \<longleftrightarrow> b_CheckSum b = xxh3 g (b_Data b) \<and> (b_Type b = 1 \<longrightarrow> (\<exists>m ms. fst (dec (g_meta g) (b_Data b)) = m # ms \<and> m_Version m = v)) \<and>
     (b_Type b \<in> {2, 3, 4} \<longrightarrow> snd (dec (g_entry g) (b_Data b)))"

lemma recover_block_intact:
  assumes "recover_block g v b st = Some (None, st')" "b_CheckSum b = xxh3 g (b_Data b)" shows "intact g v b"
  using assms by (auto simp: recover_block_def intact_def recover_meta_def Let_def split: if_splits list.splits prod.splits bind_splits)

lemma recover_blocks_intact:
  "recover_blocks g v bs st = Some (None, st') \<Longrightarrow>
    \<exists>pre d rest. bs = pre @ d # rest \<and> b_Type d = 255 \<and> b_CheckSum d = xxh3 g (b_Data d) \<and> (\<forall>b\<in>set pre. intact g v b)"
proof (induction bs arbitrary: st)
  case Nil
  then show ?case by simp
next
  case (Cons b bs)
  have c: "b_CheckSum b = xxh3 g (b_Data b)" using Cons.prems by (auto split: if_splits)
  show ?case
  proof (cases "b_Type b = 255")
    case True
    then show ?thesis using c by (intro exI [of _ "[]"] exI [of _ b] exI [of _ bs]) simp
  next
    case False
    then obtain st1 where b: "recover_block g v b st = Some (None, st1)" "recover_blocks g v bs st1 = Some (None, st')"
      using Cons.prems c by (auto split: bind_splits prod.splits option.splits)
    obtain pre d rest where "bs = pre @ d # rest" "b_Type d = 255" "b_CheckSum d = xxh3 g (b_Data d)" "\<forall>b\<in>set pre. intact g v b" using Cons.IH [OF b(2)] by blast
    then show ?thesis using recover_block_intact [OF b(1) c] by (intro exI [of _ "b # pre"] exI [of _ d] exI [of _ rest]) simp
  qed
qed

text \<open>
  C20. A restore that reports success has read an intact snapshot: the blocks up to an end
  block all carry the checksum of their data, every metadata block is of the expected version,
  and every block of entries could be decoded to its end. A truncated or corrupted snapshot
  is therefore reported.
\<close>

theorem recover_success_intact:
  fixes st :: "('k::zero, 'v::zero) store"
  assumes "store_Recover g v bs st = Some (None, st')"
  shows "\<exists>pre d rest. fst (dec (g_block g) bs) = pre @ d # rest \<and> b_Type d = 255 \<and> b_CheckSum d = xxh3 g (b_Data d) \<and> (\<forall>b\<in>set pre. intact g v b)"
  using recover_blocks_intact assms unfolding store_Recover_def by blast

theorem recover_success_intact_witness:
  "\<exists>(st :: (nat, nat) store) m. NewStore demo_rt demo_opt = Some st \<and> store_Recover (demo_gob m demo_pentry) 3 [255] st = Some (None, st) \<and>
     (\<exists>pre d rest. fst (dec (g_block (demo_gob m demo_pentry)) [255]) = pre @ d # rest \<and> b_Type d = 255)"
proof -
  obtain st :: "(nat, nat) store" where D: "NewStore demo_rt demo_opt = Some st" by (rule demo_store)
  let ?m = "\<lparr>m_Version = 3, m_StartNano = 0, m_Total = 0\<rparr>"
  have R: "store_Recover (demo_gob ?m demo_pentry) 3 [255] st = Some (None, st)"
    by (simp add: store_Recover_def demo_gob_def block_coder_def demo_block_def)
  from recover_success_intact [OF R] show ?thesis using D R by blast
qed

text \<open>
  C21. A deleted key comes back. \<open>Delete\<close> takes the key out of the map at once, but the
  policy still holds the entry until its event is handled, and \<open>Persist\<close> saves the
  policy's lists: a store that is saved in between restores the key with its old value.
\<close>

theorem deleted_key_restored:
  fixes opt :: "'v::zero StoreOptions" and rt :: "'k::zero runtime" and st0 :: "('k, 'v) store"
  assumes g: "gob_ok g" and I: "store_inv st0 X" "supply_ok st0" "doors_ok st0" and s: "settled st0 X" and n: "20 * entry_count X \<le> 2 ^ 31"
    and o: "0 < sint (MaxSize opt)" "runtime_ok rt" "\<not> EntryPool opt" "NewStore rt opt = Some st" and c: "capacity (policy st0) \<le> MaxSize opt" and f: "fits st0 st"
    and d: "store_Delete k st0 = Some st1" "sum_list (map shard_len (shards st1)) \<le> 2 ^ 45" and p: "store_Persist g v st1 = Some (Inr out)"
  shows "lookup st1 k = None \<and> (\<exists>st'. store_Recover g v out st = Some (None, st') \<and> lookup st' k = lookup st0 k)"
proof -
  have D: "heap st1 = heap st0" "policy st1 = policy st0" "s_hasher st1 = s_hasher st0" "timerwheel st1 = timerwheel st0" "lookup st1 = (lookup st0)(k := None)"
    using Delete_spec [OF I, of k] d(1) by (auto simp: keeps_rest_def)
  have sv: "saved st1 = saved st0" by (simp add: saved_def fun_eq_iff D)
  note R = restore_spec [OF I(1) s n o c total_small [OF d(2), of v], of v]
  have "\<exists>st'. store_Recover g v out st = Some (None, st') \<and> lookup st' = lookup st0"
    using R recover_persist [OF g p, of v st] f by (fastforce simp: restore_def store_meta_def sv D split: bind_splits)
  then show ?thesis using D(5) by auto
qed

lemma Delete_shards:
  assumes "store_Delete k st = Some st'" "\<forall>s\<in>set (shards st). length (hashmap s) \<le> n"
  shows "\<forall>s\<in>set (shards st'). length (hashmap s) \<le> n" "length (shards st') = length (shards st)"
proof -
  have del: "length (hashmap (fst (shard_delete h e s))) \<le> length (hashmap s)" for h e and s :: "'a Shard"
    by (simp add: shard_delete_def AList.length_delete_le split: option.split)
  have le: "length (hashmap (fst (shard_delete h e (shards st ! i)))) \<le> n" if "i < length (shards st)" for h e i
    using le_trans [OF del] assms(2) nth_mem [OF that] by blast
  have "shards st' = shards st \<or> (\<exists>i e. i < length (shards st) \<and> shards st' = (shards st)[i := fst (shard_delete (heap st) e (shards st ! i))])"
    using assms(1) by (fastforce simp: store_Delete_def set_shard_def send_def Let_def split: if_splits option.splits prod.splits)
  then show "\<forall>s\<in>set (shards st'). length (hashmap s) \<le> n" "length (shards st') = length (shards st)"
    using assms(2) le by (auto dest!: set_update_subset_insert [THEN subsetD])
qed

theorem deleted_key_restored_witness:
  "\<exists>st (st0 :: (nat, nat) store) st1 g st'. NewStore demo_rt demo_opt = Some st \<and> lookup st0 1 = Some 7 \<and> store_Delete 1 st0 = Some st1 \<and> lookup st1 1 = None \<and>
     store_Persist g 3 st1 = Some (Inr [1, 2, 255]) \<and> store_Recover g 3 [1, 2, 255] st = Some (None, st') \<and> lookup st' 1 = Some 7"
proof -
  let ?X = "(\<lambda>_. [])(QWindow := [260 :: addr])"
  obtain st and st0 :: "(nat, nat) store" where D: "NewStore demo_rt demo_opt = Some st" "restoring 1 st0 ?X" "settled st0 ?X"
    "lookup st0 = [1 \<mapsto> 7]" "capacity (policy st0) = 100" "policyWeight (heap st0 260) = 1" "expire (heap st0 260) = 0" "length (shards st0) \<le> 2 ^ 7" by (rule demo_saved)
  have I: "store_inv st0 ?X" "supply_ok st0" "doors_ok st0" and sh: "\<forall>s\<in>set (shards st0). length (hashmap s) \<le> 1" using D(2) by (auto simp: restoring_def load_inv_def)
  obtain st1 where d: "store_Delete 1 st0 = Some st1" "store_inv st1 ?X" using Delete_spec [OF I, of 1] by blast
  let ?g = "demo_gob (store_meta 3 st1) (snapshot (s_hasher st1) (sketch (policy st1)) (heap st1) 260)"
  have P: "store_Persist ?g 3 st1 = Some (Inr [1, 2, 255])" by (rule demo_persist [OF d(2)])
  have t: "sum_list (map shard_len (shards st1)) \<le> 2 ^ 45" using few_keys [of st1] Delete_shards [OF d(1) sh] D(8) by simp
  have c: "capacity (policy st0) \<le> MaxSize demo_opt" "20 * entry_count ?X \<le> 2 ^ 31" using D(5) by (simp_all add: demo_opt_def entry_count_def)
  have f: "fits st0 st" by (rule demo_fits [OF D(1) I(1) D(6,7)])
  obtain st' where R: "lookup st1 1 = None" "store_Recover ?g 3 [1, 2, 255] st = Some (None, st')" "lookup st' 1 = lookup st0 1"
    using deleted_key_restored [OF demo_gob_ok I D(3) c(2) demo_ok D(1) c(1) f d(1) t P] by blast
  have "lookup st0 1 = Some 7" using D(4) by simp
  with R(3) have "lookup st' 1 = Some 7" by simp
  with \<open>lookup st0 1 = Some 7\<close> D(1) d(1) R(1,2) P show ?thesis by blast
qed

end
