(* ===== verification/RB_Mutex.thy ===== *)
theory RB_Mutex
  imports Pow2 Goroutines
begin

text \<open>
  The reader-biased lock of internal/rbmutex.go that guards every shard. The state is the
  shared memory of the lock; \<open>sync.RWMutex\<close> is a count of readers and a writer bit, which
  may be taken when Go's documentation allows it. Every atomic load, store, addition and
  compare-and-swap is one step, and the steps of any number of goroutines interleave; a
  goroutine is a program counter with its local variables. Tokens of the pool and readings
  of the clock are arbitrary. A failed call of \<open>TryRLock\<close> or \<open>TryLock\<close> returns to \<open>Idle\<close>.
\<close>

type_synonym i32 = "32 word"

record RBMutex =
  rslots :: "i32 list"
  rmask :: u32
  rbias :: i32
  inhibitUntil :: int
  rw_readers :: nat
  rw_writer :: bool

definition NewRBMutex :: "u32 \<Rightarrow> RBMutex" where
  "NewRBMutex parallelism =
     (let nslots = RoundUpPowerOf2 parallelism
      in \<lparr>rslots = replicate (unat nslots) 0, rmask = nslots - 1, rbias = 1, inhibitUntil = 0, rw_readers = 0, rw_writer = False\<rparr>)"

definition slot_at :: "RBMutex \<Rightarrow> u32 \<Rightarrow> nat" where
  "slot_at mu s = unat (s AND rmask mu)"

definition slot_add :: "u32 \<Rightarrow> i32 \<Rightarrow> RBMutex \<Rightarrow> RBMutex" where
  "slot_add s d mu = mu\<lparr>rslots := (rslots mu)[slot_at mu s := rslots mu ! slot_at mu s + d]\<rparr>"

text \<open>
  Where a goroutine is. The flag tells a \<open>Try\<close> call; \<open>FastLoad\<close> to \<open>FastRollback\<close> are inside
  \<open>fastRlock\<close>, \<open>SlowLock\<close> to \<open>SlowSet\<close> on the slow path of a reader; \<open>Reading\<close> has returned
  with its token, \<open>Writing\<close> holds the lock; the others are inside \<open>Lock\<close> and \<open>TryLock\<close>.
\<close>

datatype rpc = Idle
  | FastLoad bool u32 nat | FastCas bool u32 nat i32 | FastCheck bool u32 | FastRollback bool u32
  | SlowLock bool | SlowBias | SlowSet | Reading "u32 option"
  | WBias | WClear | WScan nat | Writing
  | TBias | TClear | TScan nat | TRestore | TUnlock
  | Panicked

inductive fastRlock :: "RBMutex \<times> rpc \<Rightarrow> RBMutex \<times> rpc \<Rightarrow> bool" where
  fast_biased: "rbias mu = 1 \<Longrightarrow> fastRlock (mu, Idle) (mu, FastLoad b t 0)"
| fast_unbiased: "rbias mu \<noteq> 1 \<Longrightarrow> fastRlock (mu, Idle) (mu, SlowLock b)"
| fast_load: "i < length (rslots mu) \<Longrightarrow> fastRlock (mu, FastLoad b t i) (mu, FastCas b t i (rslots mu ! slot_at mu (t + of_nat i)))"
| fast_exhausted: "length (rslots mu) \<le> i \<Longrightarrow> fastRlock (mu, FastLoad b t i) (mu, SlowLock b)"
| fast_cas: "rslots mu ! slot_at mu (t + of_nat i) = m \<Longrightarrow>
    fastRlock (mu, FastCas b t i m) (slot_add (t + of_nat i) 1 mu, FastCheck b (t + of_nat i))"
| fast_contended: "rslots mu ! slot_at mu (t + of_nat i) \<noteq> m \<Longrightarrow> fastRlock (mu, FastCas b t i m) (mu, FastLoad b t (i + 1))"
| fast_won: "rbias mu = 1 \<Longrightarrow> fastRlock (mu, FastCheck b s) (mu, Reading (Some s))"
| fast_lost: "rbias mu \<noteq> 1 \<Longrightarrow> fastRlock (mu, FastCheck b s) (mu, FastRollback b s)"
| fast_rollback: "fastRlock (mu, FastRollback b s) (slot_add s (-1) mu, SlowLock b)"

text \<open>The slow path of \<open>RLock\<close> and \<open>TryRLock\<close>; the clock is read when the bias is off.\<close>

inductive RLock :: "RBMutex \<times> rpc \<Rightarrow> RBMutex \<times> rpc \<Rightarrow> bool" where
  slow_lock: "\<not> rw_writer mu \<Longrightarrow> RLock (mu, SlowLock b) (mu\<lparr>rw_readers := rw_readers mu + 1\<rparr>, SlowBias)"
| slow_keep: "rbias mu \<noteq> 0 \<or> now \<le> inhibitUntil mu \<Longrightarrow> RLock (mu, SlowBias) (mu, Reading None)"
| slow_rebias: "rbias mu = 0 \<Longrightarrow> inhibitUntil mu < now \<Longrightarrow> RLock (mu, SlowBias) (mu, SlowSet)"
| slow_set: "RLock (mu, SlowSet) (mu\<lparr>rbias := 1\<rparr>, Reading None)"

inductive TryRLock :: "RBMutex \<times> rpc \<Rightarrow> RBMutex \<times> rpc \<Rightarrow> bool" where
  try_fail: "TryRLock (mu, SlowLock True) (mu, Idle)"

inductive RUnlock :: "RBMutex \<times> rpc \<Rightarrow> RBMutex \<times> rpc \<Rightarrow> bool" where
  runlock_slow: "RUnlock (mu, Reading None) (if rw_readers mu = 0 then (mu, Panicked) else (mu\<lparr>rw_readers := rw_readers mu - 1\<rparr>, Idle))"
| runlock_fast: "RUnlock (mu, Reading (Some s))
    (slot_add s (-1) mu, if sint (rslots mu ! slot_at mu s + (-1)) < 0 then Panicked else Idle)"

text \<open>\<open>Lock\<close>: the scan waits at each slot until it is free; \<open>start\<close> and \<open>now\<close> are the clock readings.\<close>

inductive Lock :: "RBMutex \<times> rpc \<Rightarrow> RBMutex \<times> rpc \<Rightarrow> bool" where
  lock_rw: "\<not> rw_writer mu \<Longrightarrow> rw_readers mu = 0 \<Longrightarrow> Lock (mu, Idle) (mu\<lparr>rw_writer := True\<rparr>, WBias)"
| lock_unbiased: "rbias mu \<noteq> 1 \<Longrightarrow> Lock (mu, WBias) (mu, Writing)"
| lock_biased: "rbias mu = 1 \<Longrightarrow> Lock (mu, WBias) (mu, WClear)"
| lock_clear: "Lock (mu, WClear) (mu\<lparr>rbias := 0\<rparr>, WScan 0)"
| lock_scan: "i < length (rslots mu) \<Longrightarrow> \<not> 0 < sint (rslots mu ! i) \<Longrightarrow> Lock (mu, WScan i) (mu, WScan (i + 1))"
| lock_done: "length (rslots mu) \<le> i \<Longrightarrow> Lock (mu, WScan i) (mu\<lparr>inhibitUntil := now + (now - start) * 7\<rparr>, Writing)"

inductive TryLock :: "RBMutex \<times> rpc \<Rightarrow> RBMutex \<times> rpc \<Rightarrow> bool" where
  try_rw: "\<not> rw_writer mu \<Longrightarrow> rw_readers mu = 0 \<Longrightarrow> TryLock (mu, Idle) (mu\<lparr>rw_writer := True\<rparr>, TBias)"
| try_unbiased: "rbias mu \<noteq> 1 \<Longrightarrow> TryLock (mu, TBias) (mu, Writing)"
| try_biased: "rbias mu = 1 \<Longrightarrow> TryLock (mu, TBias) (mu, TClear)"
| try_clear: "TryLock (mu, TClear) (mu\<lparr>rbias := 0\<rparr>, TScan 0)"
| try_scan: "i < length (rslots mu) \<Longrightarrow> \<not> 0 < sint (rslots mu ! i) \<Longrightarrow> TryLock (mu, TScan i) (mu, TScan (i + 1))"
| try_busy: "i < length (rslots mu) \<Longrightarrow> 0 < sint (rslots mu ! i) \<Longrightarrow> TryLock (mu, TScan i) (mu, TRestore)"
| try_done: "length (rslots mu) \<le> i \<Longrightarrow> TryLock (mu, TScan i) (mu, Writing)"
| try_restore: "TryLock (mu, TRestore) (mu\<lparr>rbias := 1\<rparr>, TUnlock)"
| try_unlock: "TryLock (mu, TUnlock) (mu\<lparr>rw_writer := False\<rparr>, Idle)"

inductive Unlock :: "RBMutex \<times> rpc \<Rightarrow> RBMutex \<times> rpc \<Rightarrow> bool" where
  unlock: "Unlock (mu, Writing) (mu\<lparr>rw_writer := False\<rparr>, Idle)"

text \<open>One step of one goroutine, and of the whole system.\<close>

definition rb_local :: "RBMutex \<times> rpc \<Rightarrow> RBMutex \<times> rpc \<Rightarrow> bool" where
  "rb_local c d \<longleftrightarrow> fastRlock c d \<or> RLock c d \<or> TryRLock c d \<or> RUnlock c d \<or> Lock c d \<or> TryLock c d \<or> Unlock c d"

inductive rb_step :: "RBMutex \<times> rpc list \<Rightarrow> RBMutex \<times> rpc list \<Rightarrow> bool" where
  "g < length ps \<Longrightarrow> rb_local (mu, ps ! g) (mu', p) \<Longrightarrow> rb_step (mu, ps) (mu', ps[g := p])"

lemmas rb_rules = fastRlock.simps RLock.simps TryRLock.simps RUnlock.simps Lock.simps TryLock.simps Unlock.simps

subsection \<open>What a goroutine holds\<close>

text \<open>The slot it has counted itself in, the read side of the inner lock, the write side.\<close>

fun held :: "rpc \<Rightarrow> u32 option" where
  "held (FastCheck b s) = Some s"
| "held (FastRollback b s) = Some s"
| "held (Reading t) = t"
| "held _ = None"

fun slow :: "rpc \<Rightarrow> bool" where
  "slow SlowBias = True"
| "slow SlowSet = True"
| "slow (Reading t) = (t = None)"
| "slow _ = False"

fun owns :: "rpc \<Rightarrow> bool" where
  "owns WBias = True" | "owns WClear = True" | "owns (WScan i) = True" | "owns Writing = True"
| "owns TBias = True" | "owns TClear = True" | "owns (TScan i) = True" | "owns TRestore = True" | "owns TUnlock = True"
| "owns _ = False"

fun scanning :: "rpc \<Rightarrow> nat option" where
  "scanning (WScan i) = Some i"
| "scanning (TScan i) = Some i"
| "scanning _ = None"

definition holds :: "RBMutex \<Rightarrow> nat \<Rightarrow> rpc \<Rightarrow> bool" where
  "holds mu j p \<longleftrightarrow> (\<exists>s. held p = Some s \<and> slot_at mu s = j)"

definition rb_wf :: "RBMutex \<Rightarrow> bool" where
  "rb_wf mu \<longleftrightarrow> (\<exists>m. length (rslots mu) = 2 ^ m \<and> unat (rmask mu + 1) = 2 ^ m)"

lemma slot_at_lt: "rb_wf mu \<Longrightarrow> slot_at mu s < length (rslots mu)"
  using unat_and_pow2_minus_1 [of "rmask mu + 1" _ s] by (auto simp: rb_wf_def slot_at_def)

lemma slot_add_simps [simp]:
  "length (rslots (slot_add s d mu)) = length (rslots mu)" "rmask (slot_add s d mu) = rmask mu" "rbias (slot_add s d mu) = rbias mu"
  "rw_readers (slot_add s d mu) = rw_readers mu" "rw_writer (slot_add s d mu) = rw_writer mu" "slot_at (slot_add s d mu) = slot_at mu"
  by (simp_all add: slot_add_def slot_at_def fun_eq_iff)

text \<open>A step moves the counts of the slots by what the goroutine holds before and after.\<close>

lemma local_slots:
  assumes "rb_local (mu, p) (mu', p')" "rb_wf mu"
  shows "rb_wf mu' \<and> slot_at mu' = slot_at mu \<and> length (rslots mu') = length (rslots mu) \<and>
    (p' \<noteq> Panicked \<longrightarrow> (\<forall>j<length (rslots mu). rslots mu' ! j = rslots mu ! j + of_bool (holds mu j p') - of_bool (holds mu j p)))"
proof -
  have "slot_at mu s < length (rslots mu)" for s by (rule slot_at_lt [OF assms(2)])
  then show ?thesis using assms
    by (auto simp: rb_local_def rb_rules rb_wf_def slot_at_def slot_add_def holds_def nth_list_update fun_eq_iff split: if_splits)
qed

definition slots_ok :: "RBMutex \<times> rpc list \<Rightarrow> bool" where
  "slots_ok c \<longleftrightarrow> (case c of (mu, ps) \<Rightarrow> rb_wf mu \<and> length ps < 2 ^ 31 \<and> (\<forall>j<length (rslots mu). rslots mu ! j = of_nat (cnt (holds mu j) ps)))"

definition rw_ok :: "RBMutex \<times> rpc list \<Rightarrow> bool" where
  "rw_ok c \<longleftrightarrow> (case c of (mu, ps) \<Rightarrow> rw_readers mu = cnt slow ps \<and> cnt owns ps = of_bool (rw_writer mu) \<and> (rw_writer mu \<longrightarrow> rw_readers mu = 0))"

text \<open>
  The bias. While it is off, only a goroutine that scans the slots may still find readers,
  and only in the slots ahead of it; a writer has found none at all.
\<close>

definition bias_ok :: "RBMutex \<times> rpc list \<Rightarrow> bool" where
  "bias_ok c \<longleftrightarrow> (case c of (mu, ps) \<Rightarrow> rbias mu \<in> {0, 1} \<and> Panicked \<notin> set ps \<and>
     (\<forall>p\<in>set ps. \<forall>i. scanning p = Some i \<longrightarrow> rbias mu = 0 \<and> (\<forall>s. Reading (Some s) \<in> set ps \<longrightarrow> i \<le> slot_at mu s)) \<and>
     (Writing \<in> set ps \<longrightarrow> rbias mu = 0 \<and> (\<forall>s. Reading (Some s) \<notin> set ps)) \<and>
     (rbias mu = 0 \<longrightarrow> (\<exists>p\<in>set ps. scanning p \<noteq> None \<or> p = TRestore) \<or> (\<forall>s. Reading (Some s) \<notin> set ps)))"

lemma sint_count: "n < 2 ^ 31 \<Longrightarrow> sint (of_nat n :: i32) = int n"
  by (simp add: signed_of_nat signed_take_bit_int_eq_self)

lemma slots_step:
  assumes S: "slots_ok (mu, ps)" and g: "g < length ps" and l: "rb_local (mu, ps ! g) (mu', p)" and np: "p \<noteq> Panicked"
  shows "slots_ok (mu', ps[g := p])"
proof -
  have wf: "rb_wf mu" and c: "\<And>j. j < length (rslots mu) \<Longrightarrow> rslots mu ! j = of_nat (cnt (holds mu j) ps)" using S by (simp_all add: slots_ok_def)
  note L = local_slots [OF l wf]
  have h: "holds mu' = holds mu" using L by (simp add: holds_def fun_eq_iff)
  have "rslots mu' ! j = of_nat (cnt (holds mu j) (ps[g := p]))" if "j < length (rslots mu)" for j
  proof -
    have "of_nat (cnt (holds mu j) (ps[g := p]) + of_bool (holds mu j (ps ! g))) = (of_nat (cnt (holds mu j) ps + of_bool (holds mu j p)) :: i32)"
      by (simp only: cnt_update [OF g])
    then have "of_nat (cnt (holds mu j) (ps[g := p])) = (of_nat (cnt (holds mu j) ps) + of_bool (holds mu j p) - of_bool (holds mu j (ps ! g)) :: i32)"
      unfolding of_nat_add of_nat_of_bool by (simp only: eq_diff_eq)
    then show ?thesis using L np that c [OF that] by simp
  qed
  then show ?thesis using S L by (simp add: slots_ok_def h)
qed

lemma local_rw:
  assumes "rb_local (mu, p) (mu', p')" "p' \<noteq> Panicked" "slow p \<longrightarrow> 0 < rw_readers mu" "owns p \<longrightarrow> rw_writer mu" "rw_writer mu \<longrightarrow> rw_readers mu = 0"
  shows "rw_readers mu' + of_bool (slow p) = rw_readers mu + of_bool (slow p') \<and>
    of_bool (rw_writer mu') + of_bool (owns p) = (of_bool (rw_writer mu) + of_bool (owns p') :: nat) \<and> (rw_writer mu' \<longrightarrow> rw_readers mu' = 0)"
  using assms(1) unfolding rb_local_def
  by (elim disjE fastRlock.cases RLock.cases TryRLock.cases RUnlock.cases Lock.cases TryLock.cases Unlock.cases) (use assms(2-5) in \<open>auto split: if_splits\<close>)

lemma rw_step:
  assumes R: "rw_ok (mu, ps)" and g: "g < length ps" and l: "rb_local (mu, ps ! g) (mu', p)" and np: "p \<noteq> Panicked"
  shows "rw_ok (mu', ps[g := p])"
proof -
  have "ps ! g \<in> set ps" using g by simp
  then have "slow (ps ! g) \<longrightarrow> 0 < rw_readers mu" "owns (ps ! g) \<longrightarrow> rw_writer mu" "rw_writer mu \<longrightarrow> rw_readers mu = 0"
    using R cnt_pos [of "ps ! g" ps slow] cnt_pos [of "ps ! g" ps owns] by (auto simp: rw_ok_def)
  from local_rw [OF l np this] show ?thesis
    using R cnt_update [OF g, of slow p] cnt_update [OF g, of owns p] by (simp add: rw_ok_def)
qed

text \<open>At most one goroutine owns the inner lock for writing.\<close>

lemma owns_unique:
  assumes "rw_ok (mu, ps)" "g < length ps" "h < length ps" "owns (ps ! g)" "owns (ps ! h)" shows "g = h"
proof (rule ccontr)
  assume "g \<noteq> h"
  then have "cnt owns (ps[g := Idle]) + 1 = cnt owns ps" "ps[g := Idle] ! h = ps ! h" using cnt_update [OF assms(2), of owns Idle] assms(4) by simp_all
  moreover have "0 < cnt owns (ps[g := Idle])" by (rule cnt_pos [of "ps ! h"]) (use assms(3,5) \<open>g \<noteq> h\<close> nth_mem [of h "ps[g := Idle]"] in simp_all)
  ultimately show False using assms(1) by (simp add: rw_ok_def of_bool_def split: if_splits)
qed

lemma owner_after:
  assumes "rw_ok (mu, ps)" "g < length ps" "owns (ps ! g)" "x \<in> set (ps[g := p])" "owns x" shows "x = p"
proof -
  obtain h where h: "h < length ps" "x = ps[g := p] ! h" using assms(4) by (auto simp: in_set_conv_nth)
  show ?thesis using owns_unique [OF assms(1,2) h(1) assms(3)] assms(5) h by (cases "h = g") auto
qed

text \<open>A writer-side goroutine and a goroutine on the read side of the inner lock exclude each other.\<close>

lemma slow_no_owner:
  assumes "rw_ok (mu, ps)" "p \<in> set ps" "slow p" shows "x \<in> set ps \<Longrightarrow> \<not> owns x"
  using assms cnt_pos [of p ps slow] cnt_pos [of x ps owns] by (auto simp: rw_ok_def of_bool_def split: if_splits)

lemma no_panic:
  assumes S: "slots_ok (mu, ps)" and R: "rw_ok (mu, ps)" and g: "g < length ps" "ps ! g \<noteq> Panicked" and l: "rb_local (mu, ps ! g) (mu', p)"
  shows "p \<noteq> Panicked"
proof -
  have slow: "slow (ps ! g) \<Longrightarrow> 0 < rw_readers mu" using R g cnt_pos [of "ps ! g" ps slow] by (simp add: rw_ok_def)
  have fast: "0 \<le> sint (rslots mu ! slot_at mu s + (-1))" if "ps ! g = Reading (Some s)" for s
  proof -
    let ?n = "cnt (holds mu (slot_at mu s)) ps"
    have v: "rslots mu ! slot_at mu s = of_nat ?n" and n: "?n < 2 ^ 31"
      using S slot_at_lt [of mu s] cnt_le [of "holds mu (slot_at mu s)" ps] by (auto simp: slots_ok_def)
    have "0 < ?n" by (rule cnt_pos [OF nth_mem [OF g(1)]]) (simp add: that holds_def)
    then have "of_nat ?n + (-1) = (of_nat (?n - 1) :: i32)" by (simp add: of_nat_diff)
    then show ?thesis using sint_count [of "?n - 1"] n by (simp add: v)
  qed
  show ?thesis using l unfolding rb_local_def
    by (elim disjE fastRlock.cases RLock.cases TryRLock.cases RUnlock.cases Lock.cases TryLock.cases Unlock.cases) (use slow fast g(2) in \<open>auto split: if_splits\<close>)
qed

lemma bias_calm:
  assumes B: "bias_ok (mu, ps)" and g: "g < length ps" and m: "rbias mu' = rbias mu" "slot_at mu' = slot_at mu"
    and p: "scanning p = None" "p \<noteq> Writing" "p \<noteq> Panicked" "\<And>s. p \<noteq> Reading (Some s)" and q: "scanning (ps ! g) = None" "ps ! g \<noteq> TRestore"
  shows "bias_ok (mu', ps[g := p])"
proof -
  have sub: "x = p \<or> x \<in> set ps" if "x \<in> set (ps[g := p])" for x using that set_update_subset_insert [of ps g p] by blast
  have keep: "x \<in> set (ps[g := p])" if "x \<in> set ps" "x \<noteq> ps ! g" for x
    using that by (auto simp: in_set_conv_nth) (metis nth_list_update_neq)
  have rd: "Reading (Some s) \<in> set ps" if "Reading (Some s) \<in> set (ps[g := p])" for s using sub [OF that] p(4) by auto
  have sc: "x \<in> set ps" if "x \<in> set (ps[g := p])" "scanning x = Some i" for x i using sub [OF that(1)] that(2) p(1) by auto
  have wr: "Writing \<in> set ps" if "Writing \<in> set (ps[g := p])" using sub [OF that] p(2) by auto
  have ex: "\<exists>x\<in>set (ps[g := p]). scanning x \<noteq> None \<or> x = TRestore" if "\<exists>x\<in>set ps. scanning x \<noteq> None \<or> x = TRestore" using that keep q by metis
  have "Panicked \<notin> set (ps[g := p])" using sub [of Panicked] B p(3) by (auto simp: bias_ok_def)
  then show ?thesis using B rd sc wr ex unfolding bias_ok_def m prod.case by blast
qed

text \<open>The steps that touch the bias, one by one.\<close>

lemma no_owner_bias:
  assumes "\<And>x. x \<in> set ps \<Longrightarrow> \<not> owns x" "rbias mu = 1" "Panicked \<notin> set ps" shows "bias_ok (mu, ps)"
proof -
  have "scanning x = None" if "x \<in> set ps" for x using assms(1) [OF that] by (cases x) auto
  moreover have "Writing \<notin> set ps" using assms(1) by force
  ultimately show ?thesis using assms(2,3) by (simp add: bias_ok_def)
qed

lemma bias_won:
  assumes B: "bias_ok (mu, ps)" and b: "rbias mu = 1" and p: "scanning p = None" "p \<noteq> Writing" "p \<noteq> Panicked"
  shows "bias_ok (mu, ps[g := p])"
  using assms set_update_subset_insert [of ps g p] unfolding bias_ok_def by fastforce

text \<open>A goroutine that owns the inner lock moves: only its own program counter matters.\<close>

lemma bias_owner:
  assumes R: "rw_ok (mu, ps)" and g: "g < length ps" "owns (ps ! g)" and B: "bias_ok (mu, ps)" and m: "slot_at mu' = slot_at mu" "rbias mu' \<in> {0, 1}"
    and p: "p \<noteq> Panicked" "\<And>s. p \<noteq> Reading (Some s)"
    and sc: "\<And>i. scanning p = Some i \<Longrightarrow> rbias mu' = 0 \<and> (\<forall>s. Reading (Some s) \<in> set ps \<longrightarrow> i \<le> slot_at mu s)"
    and wr: "p = Writing \<Longrightarrow> rbias mu' = 0 \<and> (\<forall>s. Reading (Some s) \<notin> set ps)"
    and ex: "rbias mu' = 0 \<Longrightarrow> scanning p \<noteq> None \<or> p = TRestore \<or> (\<forall>s. Reading (Some s) \<notin> set ps)"
  shows "bias_ok (mu', ps[g := p])"
proof -
  have pin: "p \<in> set (ps[g := p])" using g(1) by (rule set_update_memI)
  have sub: "x = p \<or> x \<in> set ps" if "x \<in> set (ps[g := p])" for x using that set_update_subset_insert [of ps g p] by blast
  have rd: "Reading (Some s) \<in> set ps" if "Reading (Some s) \<in> set (ps[g := p])" for s using sub [OF that] p(2) by auto
  have own: "x = p" if "x \<in> set (ps[g := p])" "scanning x \<noteq> None \<or> x = Writing" for x
    by (rule owner_after [OF R g that(1)]) (use that(2) in \<open>cases x; auto\<close>)
  have "Panicked \<notin> set (ps[g := p])" using sub [of Panicked] B p(1) by (auto simp: bias_ok_def)
  moreover have "rbias mu' = 0 \<and> (\<forall>s. Reading (Some s) \<in> set (ps[g := p]) \<longrightarrow> i \<le> slot_at mu s)" if "x \<in> set (ps[g := p])" "scanning x = Some i" for x i
    using own [OF that(1)] that(2) sc [of i] rd by auto
  moreover have "rbias mu' = 0 \<and> (\<forall>s. Reading (Some s) \<notin> set (ps[g := p]))" if "Writing \<in> set (ps[g := p])" using own [OF that] wr rd by auto
  moreover have "(\<exists>x\<in>set (ps[g := p]). scanning x \<noteq> None \<or> x = TRestore) \<or> (\<forall>s. Reading (Some s) \<notin> set (ps[g := p]))" if "rbias mu' = 0"
    using ex [OF that] pin rd by blast
  ultimately show ?thesis using m by (simp add: bias_ok_def)
qed

text \<open>A slot that the scan finds free has no reader.\<close>

lemma scan_free:
  assumes "slots_ok (mu, ps)" "\<not> 0 < sint (rslots mu ! i)" "i < length (rslots mu)" "Reading (Some s) \<in> set ps" shows "slot_at mu s \<noteq> i"
proof
  assume s: "slot_at mu s = i"
  have "rslots mu ! i = of_nat (cnt (holds mu i) ps)" "cnt (holds mu i) ps < 2 ^ 31" using assms(1,3) cnt_le [of "holds mu i" ps] by (simp_all add: slots_ok_def)
  moreover have "0 < cnt (holds mu i) ps" by (rule cnt_pos [OF assms(4)]) (simp add: holds_def s)
  ultimately show False using assms(2) sint_count by simp
qed

lemma bias_step:
  assumes S: "slots_ok (mu, ps)" and R: "rw_ok (mu, ps)" and B: "bias_ok (mu, ps)" and g: "g < length ps" and l: "rb_local (mu, ps ! g) (mu', p)"
  shows "bias_ok (mu', ps[g := p])"
proof -
  have wf: "rb_wf mu" using S by (simp add: slots_ok_def)
  have gin: "ps ! g \<in> set ps" using g by simp
  have np: "p \<noteq> Panicked" by (rule no_panic [OF S R g _ l]) (use B gin in \<open>auto simp: bias_ok_def\<close>)
  note sl = local_slots [OF l wf]
  have B': "rbias mu \<in> {0, 1}" "\<And>i s. scanning (ps ! g) = Some i \<Longrightarrow> Reading (Some s) \<in> set ps \<Longrightarrow> i \<le> slot_at mu s" "\<And>i. scanning (ps ! g) = Some i \<Longrightarrow> rbias mu = 0"
    "ps ! g = Writing \<Longrightarrow> Reading (Some s) \<notin> set ps" for s using B gin by (auto simp: bias_ok_def)
  show ?thesis
  proof (cases "owns (ps ! g)")
    case True
    have unb: "\<forall>s. Reading (Some s) \<notin> set ps" if "rbias mu = 0" "scanning (ps ! g) = None" "ps ! g \<noteq> TRestore"
    proof -
      have "x = ps ! g" if "x \<in> set ps" "scanning x \<noteq> None \<or> x = TRestore" for x
        using owner_after [OF R g True, of x "ps ! g"] that by (cases x) auto
      then show ?thesis using B that unfolding bias_ok_def by auto
    qed
    have end_: "Reading (Some s) \<notin> set ps" if "scanning (ps ! g) = Some i" "length (rslots mu) \<le> i" for i s
      using B'(2) [OF that(1), of s] slot_at_lt [OF wf, of s] that(2) by auto
    have nxt: "Suc i \<le> slot_at mu s" if "scanning (ps ! g) = Some i" "\<not> 0 < sint (rslots mu ! i)" "i < length (rslots mu)" "Reading (Some s) \<in> set ps" for i s
      using B'(2) [OF that(1,4)] scan_free [OF S that(2,3,4)] by simp
    show ?thesis
      by (rule bias_owner [OF R g True B])
        (use l True B'(1,3,4) unb end_ nxt np sl in \<open>auto simp: rb_local_def rb_rules split: if_splits\<close>)
  next
    case False
    then have q: "scanning (ps ! g) = None" "ps ! g \<noteq> TRestore" by (cases "ps ! g"; simp)+
    show ?thesis
    proof (cases "(\<exists>s. p = Reading (Some s)) \<or> ps ! g = SlowSet")
      case True
      then consider s where "p = Reading (Some s)" "mu' = mu" "rbias mu = 1" | "ps ! g = SlowSet" "p = Reading None" "rbias mu' = 1"
        using l by (auto simp: rb_local_def rb_rules split: if_splits)
      then show ?thesis
      proof cases
        case 1
        then show ?thesis using bias_won [OF B] by simp
      next
        case 2
        have "\<not> owns x" if "x \<in> set (ps[g := p])" for x
          using that set_update_subset_insert [of ps g p] slow_no_owner [OF R gin, of x] 2 by auto
        moreover have "Panicked \<notin> set (ps[g := p])" using B np set_update_subset_insert [of ps g p] by (auto simp: bias_ok_def)
        ultimately show ?thesis using 2(3) by (intro no_owner_bias)
      qed
    next
      case no: False
      have "rbias mu' = rbias mu \<and> scanning p = None \<and> p \<noteq> Writing"
        using l no False by (auto simp: rb_local_def rb_rules split: if_splits)
      then show ?thesis using sl np no q by (intro bias_calm [OF B g]) auto
    qed
  qed
qed

subsection \<open>Mutual exclusion\<close>

definition rb_inv :: "RBMutex \<times> rpc list \<Rightarrow> bool" where
  "rb_inv c \<longleftrightarrow> slots_ok c \<and> rw_ok c \<and> bias_ok c"

lemma rb_step_inv: "rb_step c d \<Longrightarrow> rb_inv c \<Longrightarrow> rb_inv d"
proof (erule rb_step.cases)
  fix g ps mu mu' p assume c: "c = (mu, ps)" "d = (mu', ps[g := p])" "rb_inv c" and g: "g < length ps" "rb_local (mu, ps ! g) (mu', p)"
  then have I: "slots_ok (mu, ps)" "rw_ok (mu, ps)" "bias_ok (mu, ps)" by (simp_all add: rb_inv_def)
  have "Panicked \<notin> set ps" using I(3) by (simp add: bias_ok_def)
  then have "ps ! g \<noteq> Panicked" using nth_mem [OF g(1)] by auto
  then have np: "p \<noteq> Panicked" by (rule no_panic [OF I(1,2) g(1) _ g(2)])
  show "rb_inv d" using slots_step [OF I(1) g np] rw_step [OF I(2) g np] bias_step [OF I g] by (simp add: rb_inv_def c)
qed

lemma rb_init:
  assumes "parallelism \<noteq> 0" "unat parallelism \<le> 2 ^ 31" "n < 2 ^ 31"
  shows "rb_inv (NewRBMutex parallelism, replicate n Idle)"
proof -
  have w: "unat parallelism \<le> 2 ^ (LENGTH(32) - 1)" using assms(2) by simp
  obtain m where "unat (RoundUpPowerOf2 parallelism) = 2 ^ m" using roundup.power [OF assms(1) w] by blast
  then have "rb_wf (NewRBMutex parallelism)" by (auto simp: rb_wf_def NewRBMutex_def)
  moreover have "cnt P (replicate n Idle) = 0" if "\<not> P Idle" for P using that by (simp add: cnt_def)
  ultimately show ?thesis using assms(3) by (simp add: rb_inv_def slots_ok_def rw_ok_def bias_ok_def holds_def NewRBMutex_def Let_def)
qed

text \<open>
  C7. The reader-biased lock excludes. In every interleaving of the atomic steps of up to
  \<open>2 ^ 31\<close> goroutines that call \<open>RLock\<close>, \<open>TryRLock\<close>, \<open>RUnlock\<close>, \<open>Lock\<close>, \<open>TryLock\<close> and
  \<open>Unlock\<close>, a goroutine that holds the lock for writing is the only one that holds it: no
  other writes, and none reads, on the fast or the slow path. And no \<open>RUnlock\<close> ever panics.
\<close>

theorem rbmutex_excludes:
  assumes "parallelism \<noteq> 0" "unat parallelism \<le> 2 ^ 31" "n < 2 ^ 31"
    and "rb_step\<^sup>*\<^sup>* (NewRBMutex parallelism, replicate n Idle) (mu, ps)"
  shows "Panicked \<notin> set ps \<and> (\<forall>g h. g < length ps \<and> h < length ps \<and> ps ! g = Writing \<and> (ps ! h = Writing \<or> (\<exists>t. ps ! h = Reading t)) \<longrightarrow> g = h)"
proof -
  have "rb_inv (mu, ps)" using assms(4) by induction (use rb_init [OF assms(1-3)] rb_step_inv in auto)
  then have I: "rw_ok (mu, ps)" "bias_ok (mu, ps)" by (simp_all add: rb_inv_def)
  have "g = h" if g: "g < length ps" "h < length ps" "ps ! g = Writing" "ps ! h = Writing \<or> (\<exists>t. ps ! h = Reading t)" for g h
  proof (cases "ps ! h = Writing")
    case True
    then show ?thesis using owns_unique [OF I(1) g(1,2)] g(3) by simp
  next
    case False
    then obtain t where t: "ps ! h = Reading t" using g(4) by blast
    have in_: "Writing \<in> set ps" "Reading t \<in> set ps" using nth_mem g t by metis+
    then show ?thesis using I(2) slow_no_owner [OF I(1) in_(2), of Writing] by (cases t) (simp_all add: bias_ok_def)
  qed
  then show ?thesis using I(2) by (auto simp: bias_ok_def)
qed

text \<open>One reader enters on the fast path, a writer then waits for it in its scan.\<close>

theorem rbmutex_excludes_witness:
  "\<exists>mu. rb_step\<^sup>*\<^sup>* (NewRBMutex 1, [Idle, Idle]) (mu, [Reading (Some 0), WScan 0]) \<and> 0 < sint (rslots mu ! 0) \<and>
     Panicked \<notin> set [Reading (Some 0), WScan 0]"
proof -
  define mu where "mu = NewRBMutex 1"
  have mu: "rslots mu = [0]" "rmask mu = 0" "rbias mu = 1" "\<not> rw_writer mu" "rw_readers mu = 0"
    by (simp_all add: mu_def NewRBMutex_def RoundUpPowerOf2_def smear_def Let_def)
  let ?m1 = "slot_add 0 1 mu"
  let ?m2 = "?m1\<lparr>rw_writer := True\<rparr>" and ?m3 = "?m1\<lparr>rw_writer := True, rbias := 0\<rparr>"
  have s: "slot_at mu 0 = 0" by (simp add: slot_at_def)
  have a: "rb_step (mu', [p, q]) (mu'', [p', q])" if "rb_local (mu', p) (mu'', p')" for mu' mu'' p p' q
    using rb_step.intros [of 0 "[p, q]" mu' mu'' p'] that by simp
  have b: "rb_step (mu', [p, q]) (mu'', [p, q'])" if "rb_local (mu', q) (mu'', q')" for mu' mu'' p q q'
    using rb_step.intros [of 1 "[p, q]" mu' mu'' q'] that by simp
  have "rb_step (mu, [Idle, Idle]) (mu, [FastLoad False 0 0, Idle])" by (rule a) (simp add: rb_local_def fast_biased mu)
  moreover have "rb_step (mu, [FastLoad False 0 0, Idle]) (mu, [FastCas False 0 0 0, Idle])"
    using fast_load [of 0 mu False 0] by (intro a) (simp add: rb_local_def mu s)
  moreover have "rb_step (mu, [FastCas False 0 0 0, Idle]) (?m1, [FastCheck False 0, Idle])"
    using fast_cas [of mu 0 0 0 False] by (intro a) (simp add: rb_local_def mu s)
  moreover have "rb_step (?m1, [FastCheck False 0, Idle]) (?m1, [Reading (Some 0), Idle])" by (rule a) (simp add: rb_local_def fast_won mu)
  moreover have "rb_step (?m1, [Reading (Some 0), Idle]) (?m2, [Reading (Some 0), WBias])" using lock_rw [of ?m1] by (intro b) (simp add: rb_local_def mu)
  moreover have "rb_step (?m2, [Reading (Some 0), WBias]) (?m2, [Reading (Some 0), WClear])" by (rule b) (simp add: rb_local_def lock_biased mu)
  moreover have "rb_step (?m2, [Reading (Some 0), WClear]) (?m3, [Reading (Some 0), WScan 0])" using lock_clear [of ?m2] by (intro b) (simp add: rb_local_def)
  ultimately have r: "rb_step\<^sup>*\<^sup>* (NewRBMutex 1, [Idle, Idle]) (?m3, [Reading (Some 0), WScan 0])"
    unfolding mu_def [symmetric] by (meson converse_rtranclp_into_rtranclp rtranclp.rtrancl_refl)
  have "[Idle, Idle] = replicate 2 Idle" by (simp add: numeral_2_eq_2)
  then have "Panicked \<notin> set [Reading (Some 0), WScan 0]" using rbmutex_excludes [of 1 2 ?m3 "[Reading (Some 0), WScan 0]"] r by simp
  moreover have "0 < sint (rslots ?m3 ! 0)" by (simp add: slot_add_def s mu)
  ultimately show ?thesis using r by blast
qed

end
