(* ===== verification/Single_Flight.thy ===== *)
theory Single_Flight
  imports Goroutines
begin

text \<open>
  Duplicate call suppression, internal/singleflight.go: the goroutines that ask for a key
  while a call for it is in flight wait for that call and share its result. A call lives at
  an address and returns to a pool when its last user lets go of it. The code under the
  group's mutex is one step; loads and additions outside it are steps of their own. How the
  user's function ends is arbitrary: it returns, panics or calls \<open>runtime.Goexit\<close>. The list
  \<open>g_ran\<close> records the executions of the function; it is not part of the code.
\<close>

datatype 'e sferr = NoErr | UserErr 'e | PanicErr | GoexitErr

record ('v, 'e) call =
  c_val :: 'v
  c_err :: "'e sferr"
  c_wg :: nat
  c_dups :: int

record ('k, 'v, 'e) Group =
  g_m :: "'k \<Rightarrow> nat option"
  g_calls :: "nat \<Rightarrow> ('v, 'e) call"
  g_pool :: "nat list"
  g_next :: nat
  g_ran :: "('k \<times> 'v \<times> 'e sferr) list"

definition new_call :: "'v \<Rightarrow> ('v, 'e) call" where
  "new_call v0 = \<lparr>c_val = v0, c_err = NoErr, c_wg = 0, c_dups = 0\<rparr>"

definition NewGroup :: "'v \<Rightarrow> ('k, 'v, 'e) Group" where
  "NewGroup v0 = \<lparr>g_m = Map.empty, g_calls = (\<lambda>_. new_call v0), g_pool = [], g_next = 0, g_ran = []\<rparr>"

definition update_call :: "nat \<Rightarrow> (('v, 'e) call \<Rightarrow> ('v, 'e) call) \<Rightarrow> ('k, 'v, 'e) Group \<Rightarrow> ('k, 'v, 'e) Group" where
  "update_call c f g = g\<lparr>g_calls := (g_calls g)(c := f (g_calls g c))\<rparr>"

text \<open>\<open>callPool.Get\<close>: the pool may return any of its calls or make a new one.\<close>

definition callPool_Get :: "'v \<Rightarrow> nat \<Rightarrow> ('k, 'v, 'e) Group \<Rightarrow> nat \<times> ('k, 'v, 'e) Group" where
  "callPool_Get v0 j g =
     (if j < length (g_pool g) then (g_pool g ! j, g\<lparr>g_pool := take j (g_pool g) @ drop (Suc j) (g_pool g)\<rparr>)
      else (g_next g, (update_call (g_next g) (\<lambda>_. new_call v0) g)\<lparr>g_next := g_next g + 1\<rparr>))"

text \<open>Where a goroutine is inside \<open>Do\<close>.\<close>

datatype ('k, 'v, 'e) spc = SIdle
  | SRun 'k nat | SFin 'k nat | SRet 'k nat | SWait 'k nat
  | SDec 'k nat 'v "'e sferr" | SDone 'k 'v "'e sferr"

text \<open>The section of \<open>Do\<close> under the mutex: join the call in flight or start a new one.\<close>

definition Do_enter :: "'v \<Rightarrow> nat \<Rightarrow> 'k \<Rightarrow> ('k, 'v, 'e) Group \<Rightarrow> ('k, 'v, 'e) Group \<times> ('k, 'v, 'e) spc" where
  "Do_enter v0 j k g =
     (case g_m g k of
        Some c \<Rightarrow> (update_call c (\<lambda>x. x\<lparr>c_dups := c_dups x + 1\<rparr>) g, SWait k c)
      | None \<Rightarrow>
          let (c, g) = callPool_Get v0 j g;
              g = update_call c (\<lambda>x. x\<lparr>c_dups := c_dups x + 1, c_wg := c_wg x + 1\<rparr>) g
          in (g\<lparr>g_m := (g_m g)(k \<mapsto> c)\<rparr>, SRun k c))"

text \<open>How the user's function ends; a panic or an exit leaves the value of the call as it was.\<close>

datatype ('v, 'e) ending = Returns 'v "'e option" | Panics | Exits

definition doCall_run :: "nat \<Rightarrow> ('v, 'e) ending \<Rightarrow> ('k, 'v, 'e) Group \<Rightarrow> ('k, 'v, 'e) Group" where
  "doCall_run c r =
     update_call c (\<lambda>x. case r of
        Returns v e \<Rightarrow> x\<lparr>c_val := v, c_err := (case e of None \<Rightarrow> NoErr | Some e \<Rightarrow> UserErr e)\<rparr>
      | Panics \<Rightarrow> x\<lparr>c_err := PanicErr\<rparr>
      | Exits \<Rightarrow> x\<lparr>c_err := GoexitErr\<rparr>)"

text \<open>The deferred section of \<open>doCall\<close> under the mutex.\<close>

definition doCall_finish :: "'k \<Rightarrow> nat \<Rightarrow> ('k, 'v, 'e) Group \<Rightarrow> ('k, 'v, 'e) Group" where
  "doCall_finish k c g =
     (let g = update_call c (\<lambda>x. x\<lparr>c_wg := c_wg x - 1\<rparr>) g
      in if g_m g k = Some c then g\<lparr>g_m := (g_m g)(k := None)\<rparr> else g)"

text \<open>\<open>n := c.dups.Add(-1); if n == 0 { callPool.Put(c) }\<close>\<close>

definition release :: "nat \<Rightarrow> ('k, 'v, 'e) Group \<Rightarrow> ('k, 'v, 'e) Group" where
  "release c g =
     (let g = update_call c (\<lambda>x. x\<lparr>c_dups := c_dups x - 1\<rparr>) g
      in if c_dups (g_calls g c) = 0 then g\<lparr>g_pool := c # g_pool g\<rparr> else g)"

text \<open>
  The steps of one goroutine. A waiter that finds a panic or an exit ends with it and keeps
  its claim on the call, as the code does.
\<close>

inductive Do_step :: "'v \<Rightarrow> ('k, 'v, 'e) Group \<times> ('k, 'v, 'e) spc \<Rightarrow> ('k, 'v, 'e) Group \<times> ('k, 'v, 'e) spc \<Rightarrow> bool" for v0 where
  do_enter: "Do_step v0 (g, SIdle) (Do_enter v0 j k g)"
| do_run: "g' = doCall_run c r g \<Longrightarrow>
    Do_step v0 (g, SRun k c) (g'\<lparr>g_ran := (k, c_val (g_calls g' c), c_err (g_calls g' c)) # g_ran g'\<rparr>, SFin k c)"
| do_finish: "Do_step v0 (g, SFin k c) (doCall_finish k c g, SRet k c)"
| do_return: "Do_step v0 (g, SRet k c) (g, SDec k c (c_val (g_calls g c)) (c_err (g_calls g c)))"
| do_wake: "c_wg (g_calls g c) = 0 \<Longrightarrow> c_err (g_calls g c) \<notin> {PanicErr, GoexitErr} \<Longrightarrow>
    Do_step v0 (g, SWait k c) (g, SDec k c (c_val (g_calls g c)) (c_err (g_calls g c)))"
| do_fail: "c_wg (g_calls g c) = 0 \<Longrightarrow> c_err (g_calls g c) \<in> {PanicErr, GoexitErr} \<Longrightarrow>
    Do_step v0 (g, SWait k c) (g, SDone k (c_val (g_calls g c)) (c_err (g_calls g c)))"
| do_release: "Do_step v0 (g, SDec k c v e) (release c g, SDone k v e)"

inductive sf_step :: "'v \<Rightarrow> ('k, 'v, 'e) Group \<times> ('k, 'v, 'e) spc list \<Rightarrow> ('k, 'v, 'e) Group \<times> ('k, 'v, 'e) spc list \<Rightarrow> bool" for v0 where
  "i < length ps \<Longrightarrow> Do_step v0 (g, ps ! i) (g', p) \<Longrightarrow> sf_step v0 (g, ps) (g', ps[i := p])"

subsection \<open>The invariant\<close>

fun uses :: "('k, 'v, 'e) spc \<Rightarrow> nat option" where
  "uses (SRun k c) = Some c" | "uses (SFin k c) = Some c" | "uses (SRet k c) = Some c" | "uses (SWait k c) = Some c" | "uses (SDec k c v e) = Some c"
| "uses _ = None"

text \<open>The goroutine that executes the function of a call, until the call is taken out of the map.\<close>

fun leads :: "('k, 'v, 'e) spc \<Rightarrow> ('k \<times> nat) option" where
  "leads (SRun k c) = Some (k, c)" | "leads (SFin k c) = Some (k, c)" | "leads _ = None"

lemma leads_uses: "leads p = Some (k, c) \<Longrightarrow> uses p = Some c"
  by (cases p) auto

definition led :: "('k, 'v, 'e) spc list \<Rightarrow> nat \<Rightarrow> bool" where
  "led ps c \<longleftrightarrow> (\<exists>i<length ps. \<exists>k. leads (ps ! i) = Some (k, c))"

definition result :: "nat \<Rightarrow> ('k, 'v, 'e) Group \<Rightarrow> 'v \<times> 'e sferr" where
  "result c g = (c_val (g_calls g c), c_err (g_calls g c))"

text \<open>Every call that is in use is counted, and a pooled call is in nobody's use.\<close>

definition counts_ok :: "('k, 'v, 'e) Group \<times> ('k, 'v, 'e) spc list \<Rightarrow> bool" where
  "counts_ok s \<longleftrightarrow> (case s of (g, ps) \<Rightarrow>
     distinct (g_pool g) \<and> (\<forall>c\<in>set (g_pool g). c < g_next g \<and> c_dups (g_calls g c) = 0) \<and>
     (\<forall>i<length ps. \<forall>c. uses (ps ! i) = Some c \<longrightarrow> c < g_next g) \<and>
     (\<forall>c<g_next g. int (cnt (\<lambda>p. uses p = Some c) ps) \<le> c_dups (g_calls g c)))"

text \<open>The map holds exactly the calls that are led; while a call is led its other users wait for it.\<close>

definition lead_ok :: "('k, 'v, 'e) Group \<times> ('k, 'v, 'e) spc list \<Rightarrow> bool" where
  "lead_ok s \<longleftrightarrow> (case s of (g, ps) \<Rightarrow>
     (\<forall>i<length ps. \<forall>k c. leads (ps ! i) = Some (k, c) \<longrightarrow> g_m g k = Some c) \<and>
     (\<forall>k c. g_m g k = Some c \<longrightarrow> (\<exists>i<length ps. leads (ps ! i) = Some (k, c))) \<and>
     (\<forall>i<length ps. \<forall>j<length ps. \<forall>k c. leads (ps ! i) = Some (k, c) \<longrightarrow> j \<noteq> i \<longrightarrow> uses (ps ! j) = Some c \<longrightarrow> ps ! j = SWait k c) \<and>
     (\<forall>c<g_next g. c_wg (g_calls g c) = of_bool (led ps c)))"

text \<open>What a goroutine has or will read is the result of an execution for its key.\<close>

definition results_ok :: "('k, 'v, 'e) Group \<times> ('k, 'v, 'e) spc list \<Rightarrow> bool" where
  "results_ok s \<longleftrightarrow> (case s of (g, ps) \<Rightarrow> \<forall>i<length ps.
     (\<forall>k c. ps ! i = SFin k c \<or> ps ! i = SRet k c \<or> ps ! i = SWait k c \<and> \<not> led ps c \<longrightarrow> (k, result c g) \<in> set (g_ran g)) \<and>
     (\<forall>k c v e. ps ! i = SDec k c v e \<or> ps ! i = SDone k v e \<longrightarrow> (k, v, e) \<in> set (g_ran g)))"

definition sf_inv :: "('k, 'v, 'e) Group \<times> ('k, 'v, 'e) spc list \<Rightarrow> bool" where
  "sf_inv s \<longleftrightarrow> counts_ok s \<and> lead_ok s \<and> results_ok s"

lemma update_call_simps [simp]:
  "g_m (update_call c f g) = g_m g" "g_pool (update_call c f g) = g_pool g" "g_next (update_call c f g) = g_next g" "g_ran (update_call c f g) = g_ran g"
  "g_calls (update_call c f g) d = (if d = c then f (g_calls g c) else g_calls g d)"
  by (simp_all add: update_call_def)

text \<open>A call that has a user has a positive count, so it is not in the pool.\<close>

lemma used_counted:
  assumes "counts_ok (g, ps)" "i < length ps" "uses (ps ! i) = Some c" shows "0 < c_dups (g_calls g c)" "c \<notin> set (g_pool g)" "c < g_next g"
proof -
  show n: "c < g_next g" using assms by (auto simp: counts_ok_def)
  have "0 < cnt (\<lambda>p. uses p = Some c) ps" by (rule cnt_pos [OF nth_mem [OF assms(2)]]) (rule assms(3))
  moreover have "int (cnt (\<lambda>p. uses p = Some c) ps) \<le> c_dups (g_calls g c)" using assms(1) n by (simp add: counts_ok_def)
  ultimately show d: "0 < c_dups (g_calls g c)" by linarith
  then show "c \<notin> set (g_pool g)" using assms(1) by (auto simp: counts_ok_def)
qed

text \<open>The call that a new leader takes has no user.\<close>

lemma pool_fresh:
  assumes C: "counts_ok (g, ps)" and P: "callPool_Get v0 j g = (c, g')"
  shows "\<forall>i<length ps. uses (ps ! i) \<noteq> Some c" "c < g_next g'" "g_next g \<le> g_next g'" "c_dups (g_calls g' c) = 0" "distinct (g_pool g')" "set (g_pool g') \<subseteq> set (g_pool g) - {c}"
    "g_m g' = g_m g" "g_ran g' = g_ran g" "\<And>d. d \<noteq> c \<Longrightarrow> g_calls g' d = g_calls g d" "\<And>d. d < g_next g' \<Longrightarrow> d = c \<or> d < g_next g"
    "c < g_next g \<longrightarrow> g_calls g' c = g_calls g c" "\<not> c < g_next g \<longrightarrow> c_wg (g_calls g' c) = 0"
proof -
  have D: "distinct (g_pool g)" "\<And>d. d \<in> set (g_pool g) \<Longrightarrow> d < g_next g \<and> c_dups (g_calls g d) = 0" using C by (auto simp: counts_ok_def)
  have free: "\<forall>i<length ps. uses (ps ! i) \<noteq> Some c"
  proof (intro allI impI notI)
    fix i assume i: "i < length ps" "uses (ps ! i) = Some c"
    then show False using used_counted [OF C i] P nth_mem [of j "g_pool g"] by (auto simp: callPool_Get_def split: if_splits)
  qed
  show "\<forall>i<length ps. uses (ps ! i) \<noteq> Some c" by (rule free)
  show "c < g_next g'" "g_next g \<le> g_next g'" "c_dups (g_calls g' c) = 0" "g_m g' = g_m g" "g_ran g' = g_ran g" "\<And>d. d \<noteq> c \<Longrightarrow> g_calls g' d = g_calls g d"
    "\<And>d. d < g_next g' \<Longrightarrow> d = c \<or> d < g_next g" "c < g_next g \<longrightarrow> g_calls g' c = g_calls g c" "\<not> c < g_next g \<longrightarrow> c_wg (g_calls g' c) = 0"
    using P D nth_mem [of j "g_pool g"] by (auto simp: callPool_Get_def new_call_def split: if_splits)
  have "distinct (g_pool g') \<and> set (g_pool g') \<subseteq> set (g_pool g) - {c}"
  proof (cases "j < length (g_pool g)")
    case True
    then have "g_pool g = take j (g_pool g) @ g_pool g ! j # drop (Suc j) (g_pool g)" by (rule id_take_nth_drop)
    then have "distinct (take j (g_pool g) @ g_pool g ! j # drop (Suc j) (g_pool g))" using D(1) by simp
    then show ?thesis using True P set_take_subset [of j "g_pool g"] set_drop_subset [of "Suc j" "g_pool g"] by (auto simp: callPool_Get_def)
  next
    case False
    then show ?thesis using P D(1) D(2) [of "g_next g"] by (auto simp: callPool_Get_def)
  qed
  then show "distinct (g_pool g')" "set (g_pool g') \<subseteq> set (g_pool g) - {c}" by simp_all
qed

subsection \<open>Preservation\<close>

lemma led_update:
  assumes "i < length ps"
  shows "led (ps[i := p]) c \<longleftrightarrow> (\<exists>k. leads p = Some (k, c)) \<or> (\<exists>j<length ps. j \<noteq> i \<and> (\<exists>k. leads (ps ! j) = Some (k, c)))"
  using assms unfolding led_def by (auto simp: nth_list_update split: if_splits)

lemma led_same: "i < length ps \<Longrightarrow> leads p = leads (ps ! i) \<Longrightarrow> led (ps[i := p]) c = led ps c"
  unfolding led_update by (auto simp: led_def)

lemma lead_okD:
  assumes "lead_ok (g, ps)"
  shows "i < length ps \<Longrightarrow> leads (ps ! i) = Some (k, c) \<Longrightarrow> g_m g k = Some c"
    "g_m g k = Some c \<Longrightarrow> \<exists>i<length ps. leads (ps ! i) = Some (k, c)"
    "i < length ps \<Longrightarrow> leads (ps ! i) = Some (k, c) \<Longrightarrow> j < length ps \<Longrightarrow> j \<noteq> i \<Longrightarrow> uses (ps ! j) = Some c \<Longrightarrow> ps ! j = SWait k c"
    "c < g_next g \<Longrightarrow> c_wg (g_calls g c) = of_bool (led ps c)"
  using assms unfolding lead_ok_def prod.case by blast+

lemma lead_okI:
  assumes "\<And>i k c. i < length ps \<Longrightarrow> leads (ps ! i) = Some (k, c) \<Longrightarrow> g_m g k = Some c"
    "\<And>k c. g_m g k = Some c \<Longrightarrow> \<exists>i<length ps. leads (ps ! i) = Some (k, c)"
    "\<And>i j k c. i < length ps \<Longrightarrow> leads (ps ! i) = Some (k, c) \<Longrightarrow> j < length ps \<Longrightarrow> j \<noteq> i \<Longrightarrow> uses (ps ! j) = Some c \<Longrightarrow> ps ! j = SWait k c"
    "\<And>c. c < g_next g \<Longrightarrow> c_wg (g_calls g c) = of_bool (led ps c)"
  shows "lead_ok (g, ps)"
  using assms unfolding lead_ok_def prod.case by blast

lemma leader_unique:
  assumes "lead_ok (g, ps)" "i < length ps" "j < length ps" "leads (ps ! i) = Some (k, c)" "leads (ps ! j) = Some (k', c)" shows "i = j"
proof (rule ccontr)
  assume "i \<noteq> j"
  then have "ps ! j = SWait k c" using assms leads_uses [OF assms(5)] by (auto simp: lead_ok_def)
  then show False using assms(5) by simp
qed

text \<open>A step after which the same goroutines use the same calls, one of them perhaps no more.\<close>

lemma counts_drop:
  assumes C: "counts_ok (g, ps)" and i: "i < length ps" and u: "uses p = uses (ps ! i) \<or> uses p = None"
    and g: "g_pool g' = g_pool g" "g_next g' = g_next g" "\<And>c. c_dups (g_calls g' c) = c_dups (g_calls g c)"
  shows "counts_ok (g', ps[i := p])"
proof -
  have "cnt (\<lambda>p. uses p = Some c) (ps[i := p]) \<le> cnt (\<lambda>p. uses p = Some c) ps" for c
    using cnt_update [OF i, of "\<lambda>p. uses p = Some c" p] u by (auto simp: of_bool_def split: if_splits)
  then have "int (cnt (\<lambda>p. uses p = Some c) (ps[i := p])) \<le> c_dups (g_calls g c)" if "c < g_next g" for c
    using C that unfolding counts_ok_def prod.case by (meson of_nat_mono order_trans)
  moreover have "c < g_next g" if "j < length ps" "uses (ps[i := p] ! j) = Some c" for j c
    using that C u i by (cases "j = i") (auto simp: counts_ok_def)
  ultimately show ?thesis using C g by (auto simp: counts_ok_def)
qed

lemma lead_same:
  assumes L: "lead_ok (g, ps)" and i: "i < length ps" and l: "leads p = leads (ps ! i)" and u: "leads p = None \<Longrightarrow> uses p = uses (ps ! i) \<or> uses p = None"
    and w: "\<And>k c. ps ! i = SWait k c \<Longrightarrow> uses p = Some c \<Longrightarrow> \<not> led ps c"
    and g: "g_m g' = g_m g" "g_next g' = g_next g" "\<And>c. c < g_next g \<Longrightarrow> c_wg (g_calls g' c) = c_wg (g_calls g c)"
  shows "lead_ok (g', ps[i := p])"
proof -
  note led = led_same [OF i l]
  have ld: "leads (ps[i := p] ! j) = leads (ps ! j)" if "j < length ps" for j using l i by (cases "j = i") (simp_all add: that)
  have "ps[i := p] ! b = SWait k c" if a: "a < length ps" "leads (ps ! a) = Some (k, c)" and b: "b < length ps" "b \<noteq> a" "uses (ps[i := p] ! b) = Some c" for a b k c
  proof (cases "b = i")
    case True
    have n: "leads p = None"
    proof (rule ccontr)
      assume "leads p \<noteq> None"
      then obtain k' d where d: "leads p = Some (k', d)" by auto
      then have "d = c" using leads_uses [OF d] b True i by simp
      then show False using leader_unique [OF L a(1) i a(2)] d l b(2) True by simp
    qed
    then have "uses (ps ! i) = Some c" using u b True i by auto
    then have "ps ! i = SWait k c" using L a b(2) True i by (auto simp: lead_ok_def)
    then have "\<not> led ps c" using w b True i by simp
    then show ?thesis using a by (auto simp: led_def)
  next
    case False
    then show ?thesis using L a b by (auto simp: lead_ok_def)
  qed
  then show ?thesis using lead_okD [OF L] g led by (intro lead_okI) (simp_all add: ld, metis ld)
qed

text \<open>The results of the other goroutines, and of the one that moves.\<close>

lemma results_step:
  assumes R: "results_ok (g, ps)" and i: "i < length ps" and rn: "set (g_ran g) \<subseteq> set (g_ran g')"
    and res: "\<And>j k c. j < length ps \<Longrightarrow> j \<noteq> i \<Longrightarrow> ps ! j = SFin k c \<or> ps ! j = SRet k c \<or> ps ! j = SWait k c \<and> \<not> led (ps[i := p]) c \<Longrightarrow>
      (k, result c g') \<in> set (g_ran g')"
    and own: "\<And>k c. p = SFin k c \<or> p = SRet k c \<or> p = SWait k c \<and> \<not> led (ps[i := p]) c \<Longrightarrow> (k, result c g') \<in> set (g_ran g')"
      "\<And>k c v e. p = SDec k c v e \<or> p = SDone k v e \<Longrightarrow> (k, v, e) \<in> set (g_ran g')"
  shows "results_ok (g', ps[i := p])"
  unfolding results_ok_def prod.case length_list_update
proof (intro allI impI)
  fix j assume j: "j < length ps"
  show "(\<forall>k c. ps[i := p] ! j = SFin k c \<or> ps[i := p] ! j = SRet k c \<or> ps[i := p] ! j = SWait k c \<and> \<not> led (ps[i := p]) c \<longrightarrow> (k, result c g') \<in> set (g_ran g')) \<and>
    (\<forall>k c v e. ps[i := p] ! j = SDec k c v e \<or> ps[i := p] ! j = SDone k v e \<longrightarrow> (k, v, e) \<in> set (g_ran g'))"
  proof (cases "j = i")
    case True
    then show ?thesis using own i by (simp add: nth_list_update)
  next
    case False
    have "(k, v, e) \<in> set (g_ran g')" if "ps ! j = SDec k c v e \<or> ps ! j = SDone k v e" for k c v e
      using R j that rn by (auto simp: results_ok_def)
    then show ?thesis using False res [OF j False] by (auto simp: nth_list_update)
  qed
qed

lemma results_quiet:
  assumes R: "results_ok (g, ps)" and i: "i < length ps" and g: "g_ran g' = g_ran g" "\<And>c. result c g' = result c g" and l: "\<And>c. led ps c \<Longrightarrow> led (ps[i := p]) c"
    and own: "\<And>k c. p = SFin k c \<or> p = SRet k c \<or> p = SWait k c \<and> \<not> led (ps[i := p]) c \<Longrightarrow> (k, result c g) \<in> set (g_ran g)"
      "\<And>k c v e. p = SDec k c v e \<or> p = SDone k v e \<Longrightarrow> (k, v, e) \<in> set (g_ran g)"
  shows "results_ok (g', ps[i := p])"
proof (rule results_step [OF R i])
  fix j k c assume "j < length ps" "ps ! j = SFin k c \<or> ps ! j = SRet k c \<or> ps ! j = SWait k c \<and> \<not> led (ps[i := p]) c"
  then show "(k, result c g') \<in> set (g_ran g')" using R l [of c] g by (auto simp: results_ok_def)
qed (use own g in auto)

lemma result_calls: "g_calls g' c = g_calls g c \<Longrightarrow> result c g' = result c g"
  by (simp add: result_def)

text \<open>Joining a call in flight.\<close>

lemma call_join_inv:
  assumes I: "sf_inv (g, ps)" and i: "i < length ps" "ps ! i = SIdle" and m: "g_m g k = Some c"
  shows "sf_inv (update_call c (\<lambda>x. x\<lparr>c_dups := c_dups x + 1\<rparr>) g, ps[i := SWait k c])" (is "sf_inv (?g, ?ps)")
proof -
  have C: "counts_ok (g, ps)" and L: "lead_ok (g, ps)" and R: "results_ok (g, ps)" using I by (simp_all add: sf_inv_def)
  obtain l where l: "l < length ps" "leads (ps ! l) = Some (k, c)" using lead_okD(2) [OF L m] by blast
  note u = used_counted [OF C l(1) leads_uses [OF l(2)]]
  have led: "led ?ps d = led ps d" for d by (rule led_same) (use i in simp_all)
  have "counts_ok (?g, ?ps)"
  proof -
    have "int (cnt (\<lambda>p. uses p = Some d) ?ps) \<le> c_dups (g_calls ?g d)" if "d < g_next g" for d
      using cnt_update [OF i(1), of "\<lambda>p. uses p = Some d" "SWait k c"] C that i(2) by (auto simp: counts_ok_def)
    moreover have "d < g_next g" if "j < length ps" "uses (?ps ! j) = Some d" for j d
      using that C u(3) i by (cases "j = i") (auto simp: counts_ok_def)
    ultimately show ?thesis using C u(2) by (auto simp: counts_ok_def)
  qed
  moreover have "lead_ok (?g, ?ps)"
  proof -
    have ld: "leads (?ps ! j) = leads (ps ! j)" if "j < length ps" for j using i by (cases "j = i") (simp_all add: that)
    have "?ps ! b = SWait k' d" if a: "a < length ps" "leads (ps ! a) = Some (k', d)" and b: "b < length ps" "b \<noteq> a" "uses (?ps ! b) = Some d" for a b k' d
    proof (cases "b = i")
      case True
      then have "d = c" using b i by simp
      then have "k' = k" using leader_unique [OF L a(1) l(1) a(2)] l(2) a(2) by auto
      then show ?thesis using True \<open>d = c\<close> i by simp
    next
      case False
      then show ?thesis using L a b by (auto simp: lead_ok_def)
    qed
    then show ?thesis using lead_okD [OF L] led by (intro lead_okI) (simp_all add: ld, metis ld)
  qed
  moreover have "led ps c" using l by (auto simp: led_def)
  then have "results_ok (?g, ?ps)" by (intro results_quiet [OF R i(1)]) (auto simp: result_def led)
  ultimately show ?thesis by (simp add: sf_inv_def)
qed

text \<open>Starting a call: nobody uses the call that comes from the pool.\<close>

definition started :: "'k \<Rightarrow> nat \<Rightarrow> ('k, 'v, 'e) Group \<Rightarrow> ('k, 'v, 'e) Group" where
  "started k c g = (update_call c (\<lambda>x. x\<lparr>c_dups := c_dups x + 1, c_wg := c_wg x + 1\<rparr>) g)\<lparr>g_m := (g_m g)(k \<mapsto> c)\<rparr>"

lemma start_view:
  assumes C: "counts_ok (g, ps)" and L: "lead_ok (g, ps)" and i: "i < length ps" "ps ! i = SIdle" and P: "callPool_Get v0 j g = (c, g0)"
  shows "g_m (started k c g0) = (g_m g)(k \<mapsto> c)" and "g_next (started k c g0) = g_next g0" and "g_pool (started k c g0) = g_pool g0"
    and "g_ran (started k c g0) = g_ran g" and "d \<noteq> c \<Longrightarrow> g_calls (started k c g0) d = g_calls g d"
    and "c_dups (g_calls (started k c g0) c) = 1" and "c_wg (g_calls (started k c g0) c) = 1"
    and "led (ps[i := SRun k c]) d \<longleftrightarrow> d = c \<or> led ps d"
proof -
  note F = pool_fresh [OF C P]
  have "leads (ps ! a) \<noteq> Some (k', c)" if "a < length ps" for a k' using F(1) that leads_uses [of "ps ! a" k' c] by auto
  then have "\<not> led ps c" unfolding led_def by blast
  then have "c_wg (g_calls g0 c) = 0" using lead_okD(4) [OF L, of c] F(11,12) by (cases "c < g_next g") simp_all
  then show "g_m (started k c g0) = (g_m g)(k \<mapsto> c)" "g_next (started k c g0) = g_next g0" "g_pool (started k c g0) = g_pool g0" "g_ran (started k c g0) = g_ran g"
    "d \<noteq> c \<Longrightarrow> g_calls (started k c g0) d = g_calls g d" "c_dups (g_calls (started k c g0) c) = 1" "c_wg (g_calls (started k c g0) c) = 1"
    unfolding started_def using F(4,7,8,9) by simp_all
  have "a \<noteq> i" if "leads (ps ! a) = Some x" for a x using that i(2) by auto
  then have "(\<exists>j<length ps. j \<noteq> i \<and> (\<exists>k. leads (ps ! j) = Some (k, d))) \<longleftrightarrow> led ps d" unfolding led_def by blast
  then show "led (ps[i := SRun k c]) d \<longleftrightarrow> d = c \<or> led ps d" unfolding led_update [OF i(1)] by auto
qed

lemma start_counts:
  assumes C: "counts_ok (g, ps)" and L: "lead_ok (g, ps)" and i: "i < length ps" "ps ! i = SIdle" and P: "callPool_Get v0 j g = (c, g0)"
  shows "counts_ok (started k c g0, ps[i := SRun k c])" (is "counts_ok (?g, ?ps)")
proof -
  note F = pool_fresh [OF C P] and f = start_view [OF C L i P, where k = k]
  have "cnt (\<lambda>p. uses p = Some c) ps = 0" using F(1) by (auto simp: cnt_0 in_set_conv_nth)
  moreover have "int (cnt (\<lambda>p. uses p = Some d) ps) \<le> c_dups (g_calls g d)" if "d < g_next g" for d using C that by (simp add: counts_ok_def)
  ultimately have "int (cnt (\<lambda>p. uses p = Some d) ?ps) \<le> c_dups (g_calls ?g d)" if "d < g_next ?g" for d
    using cnt_update [OF i(1), of "\<lambda>p. uses p = Some d" "SRun k c"] F(10) [of d] that i(2) f(2,5,6) by (cases "d = c") simp_all
  moreover have "d < g_next ?g" if "a < length ps" "uses (?ps ! a) = Some d" for a d
    using that C F(2,3) f(2) by (cases "a = i") (auto simp: counts_ok_def)
  moreover have "d < g_next ?g \<and> c_dups (g_calls ?g d) = 0" if "d \<in> set (g_pool ?g)" for d
  proof -
    have "d \<in> set (g_pool g)" "d \<noteq> c" using that F(6) f(3) by auto
    then show ?thesis using C F(3) f(2,5) by (auto simp: counts_ok_def)
  qed
  ultimately show ?thesis using F(5) f(3) by (simp add: counts_ok_def)
qed

lemma start_lead:
  assumes C: "counts_ok (g, ps)" and L: "lead_ok (g, ps)" and i: "i < length ps" "ps ! i = SIdle" and m: "g_m g k = None" and P: "callPool_Get v0 j g = (c, g0)"
  shows "lead_ok (started k c g0, ps[i := SRun k c])" (is "lead_ok (?g, ?ps)")
proof (rule lead_okI)
  note F = pool_fresh [OF C P] and f = start_view [OF C L i P, where k = k]
  have ld: "leads (?ps ! a) = (if a = i then Some (k, c) else leads (ps ! a))" "uses (?ps ! a) = (if a = i then Some c else uses (ps ! a))" if "a < length ps" for a
    using that by (simp_all add: nth_list_update)
  have nl: "leads (ps ! a) \<noteq> Some (k', c)" if "a < length ps" for a k' using F(1) that leads_uses [of "ps ! a" k' c] by auto
  {
    fix a k' d assume a: "a < length ?ps" "leads (?ps ! a) = Some (k', d)"
    then show "g_m ?g k' = Some d" using lead_okD(1) [OF L, of a k' d] ld(1) [of a] m f(1) by (auto split: if_splits)
    fix b assume b: "b < length ?ps" "b \<noteq> a" "uses (?ps ! b) = Some d"
    show "?ps ! b = SWait k' d"
    proof (cases "a = i")
      case True
      then show ?thesis using a b ld [of a] ld(2) [of b] F(1) by auto
    next
      case False
      then have "d \<noteq> c" using a nl ld(1) [of a] by auto
      then show ?thesis using lead_okD(3) [OF L, of a k' d b] False a b ld [of a] ld(2) [of b] by (auto split: if_splits)
    qed
  next
    fix k' d assume k': "g_m ?g k' = Some d"
    show "\<exists>a<length ?ps. leads (?ps ! a) = Some (k', d)"
    proof (cases "k' = k")
      case True
      then show ?thesis using k' ld(1) [OF i(1)] i(1) f(1) by (intro exI [of _ i]) simp
    next
      case False
      then obtain a where a: "a < length ps" "leads (ps ! a) = Some (k', d)" using k' lead_okD(2) [OF L, of k' d] f(1) by auto
      then have "a \<noteq> i" using i(2) by auto
      then show ?thesis using a ld(1) [OF a(1)] by auto
    qed
  next
    fix d assume "d < g_next ?g"
    then show "c_wg (g_calls ?g d) = of_bool (led ?ps d)" using F(10) [of d] lead_okD(4) [OF L, of d] f(2,5,7,8) by (cases "d = c") simp_all
  }
qed

lemma call_start_inv:
  assumes I: "sf_inv (g, ps)" and i: "i < length ps" "ps ! i = SIdle" and m: "g_m g k = None" and P: "callPool_Get v0 j g = (c, g0)"
    and g': "g' = (update_call c (\<lambda>x. x\<lparr>c_dups := c_dups x + 1, c_wg := c_wg x + 1\<rparr>) g0)\<lparr>g_m := (g_m g0)(k \<mapsto> c)\<rparr>"
  shows "sf_inv (g', ps[i := SRun k c])" (is "sf_inv (?g, ?ps)")
proof -
  have C: "counts_ok (g, ps)" and L: "lead_ok (g, ps)" and R: "results_ok (g, ps)" using I by (simp_all add: sf_inv_def)
  have g'': "g' = started k c g0" by (simp add: g' started_def)
  note f = start_view [OF C L i P, where k = k, folded g'']
  have "results_ok (?g, ?ps)"
  proof (rule results_step [OF R i(1)])
    fix a k' d assume a: "a < length ps" "ps ! a = SFin k' d \<or> ps ! a = SRet k' d \<or> ps ! a = SWait k' d \<and> \<not> led ?ps d"
    then have "d \<noteq> c" using pool_fresh(1) [OF C P] by force
    then show "(k', result d g') \<in> set (g_ran g')" using R a f(8) [of d] f(4,5) by (auto simp: results_ok_def result_def)
  qed (use f(4) in auto)
  then show ?thesis using start_counts [OF C L i P, of k] start_lead [OF C L i m P] by (simp add: sf_inv_def g'')
qed

text \<open>The function has ended: its result is in the call and on record.\<close>

lemma call_run_inv:
  assumes I: "sf_inv (g, ps)" and i: "i < length ps" "ps ! i = SRun k c" and g': "g' = doCall_run c r g"
  shows "sf_inv (g'\<lparr>g_ran := (k, c_val (g_calls g' c), c_err (g_calls g' c)) # g_ran g'\<rparr>, ps[i := SFin k c])" (is "sf_inv (?g, ?ps)")
proof -
  have C: "counts_ok (g, ps)" and L: "lead_ok (g, ps)" and R: "results_ok (g, ps)" using I by (simp_all add: sf_inv_def)
  have f: "g_m g' = g_m g" "g_next g' = g_next g" "g_pool g' = g_pool g" "g_ran g' = g_ran g" "\<And>d. d \<noteq> c \<Longrightarrow> g_calls g' d = g_calls g d"
    "\<And>d. c_dups (g_calls g' d) = c_dups (g_calls g d)" "\<And>d. c_wg (g_calls g' d) = c_wg (g_calls g d)"
    by (simp_all add: g' doCall_run_def split: ending.split)
  have led: "led ?ps d = led ps d" for d by (rule led_same) (use i in simp_all)
  have "counts_ok (?g, ?ps)" by (rule counts_drop [OF C i(1)]) (use i f in simp_all)
  moreover have "lead_ok (?g, ?ps)" by (rule lead_same [OF L i(1)]) (use i f in simp_all)
  moreover have "results_ok (?g, ?ps)"
  proof (rule results_step [OF R i(1)])
    fix a k' d assume a: "a < length ps" "a \<noteq> i" "ps ! a = SFin k' d \<or> ps ! a = SRet k' d \<or> ps ! a = SWait k' d \<and> \<not> led ?ps d"
    have "d \<noteq> c"
    proof
      assume "d = c"
      then have "ps ! a = SWait k c" using lead_okD(3) [OF L i(1), of k c a] i a by auto
      then show False using a(3) \<open>d = c\<close> led [of c] i by (auto simp: led_def)
    qed
    then show "(k', result d ?g) \<in> set (g_ran ?g)" using R a led [of d] f(4,5) by (auto simp: results_ok_def result_def)
  qed (use f(4) in \<open>auto simp: result_def\<close>)
  ultimately show ?thesis by (simp add: sf_inv_def)
qed

text \<open>The leader takes its call out of the map; from now on the result counts for the waiters too.\<close>

lemma finish_view:
  assumes L: "lead_ok (g, ps)" and i: "i < length ps" "ps ! i = SFin k c"
  shows "g_m g k = Some c" and "g_m (doCall_finish k c g) = (g_m g)(k := None)" and "g_next (doCall_finish k c g) = g_next g"
    and "g_pool (doCall_finish k c g) = g_pool g" and "g_ran (doCall_finish k c g) = g_ran g" and "c_dups (g_calls (doCall_finish k c g) d) = c_dups (g_calls g d)"
    and "c_wg (g_calls (doCall_finish k c g) d) = (if d = c then c_wg (g_calls g c) - 1 else c_wg (g_calls g d))"
    and "result d (doCall_finish k c g) = result d g"
    and "led (ps[i := SRet k c]) d \<longleftrightarrow> d \<noteq> c \<and> led ps d"
proof -
  show m: "g_m g k = Some c" by (rule lead_okD(1) [OF L i(1)]) (simp add: i(2))
  then show "g_m (doCall_finish k c g) = (g_m g)(k := None)" "g_next (doCall_finish k c g) = g_next g" "g_pool (doCall_finish k c g) = g_pool g"
    "g_ran (doCall_finish k c g) = g_ran g" "c_dups (g_calls (doCall_finish k c g) d) = c_dups (g_calls g d)"
    "c_wg (g_calls (doCall_finish k c g) d) = (if d = c then c_wg (g_calls g c) - 1 else c_wg (g_calls g d))" "result d (doCall_finish k c g) = result d g"
    by (simp_all add: doCall_finish_def result_def)
  have u: "a = i" if "a < length ps" "leads (ps ! a) = Some (k', c)" for a k' using leader_unique [OF L i(1) that(1) _ that(2)] i(2) by auto
  have "led (ps[i := SRet k c]) d \<longleftrightarrow> (\<exists>a<length ps. a \<noteq> i \<and> (\<exists>k. leads (ps ! a) = Some (k, d)))" unfolding led_update [OF i(1)] by simp
  also have "\<dots> \<longleftrightarrow> d \<noteq> c \<and> led ps d"
  proof (cases "d = c")
    case True
    then show ?thesis using u by blast
  next
    case False
    then have "a \<noteq> i" if "leads (ps ! a) = Some (k', d)" for a k' using that i(2) by auto
    then show ?thesis using False unfolding led_def by blast
  qed
  finally show "led (ps[i := SRet k c]) d \<longleftrightarrow> d \<noteq> c \<and> led ps d" .
qed

lemma finish_lead:
  assumes L: "lead_ok (g, ps)" and i: "i < length ps" "ps ! i = SFin k c"
  shows "lead_ok (doCall_finish k c g, ps[i := SRet k c])" (is "lead_ok (?g, ?ps)")
proof (rule lead_okI)
  note f = finish_view [OF L i]
  have ld: "leads (?ps ! a) = (if a = i then None else leads (ps ! a))" "uses (?ps ! a) = uses (ps ! a)" if "a < length ps" for a
    using that i by (auto simp: nth_list_update)
  {
    fix a k' d assume a: "a < length ?ps" "leads (?ps ! a) = Some (k', d)"
    then have a': "a < length ps" "a \<noteq> i" "leads (ps ! a) = Some (k', d)" using ld(1) [of a] by (simp_all split: if_splits)
    have "k' \<noteq> k"
    proof
      assume "k' = k"
      then have "d = c" using lead_okD(1) [OF L a'(1,3)] f(1) by simp
      then show False using leader_unique [OF L a'(1) i(1) a'(3), of k] i(2) a'(2) by simp
    qed
    then show "g_m ?g k' = Some d" using lead_okD(1) [OF L a'(1,3)] f(2) by simp
    fix b assume b: "b < length ?ps" "b \<noteq> a" "uses (?ps ! b) = Some d"
    then have "ps ! b = SWait k' d" using lead_okD(3) [OF L a'(1,3), of b] ld(2) [of b] by simp
    then show "?ps ! b = SWait k' d" using i by (cases "b = i") simp_all
  next
    fix k' d assume "g_m ?g k' = Some d"
    then have k: "k' \<noteq> k" "g_m g k' = Some d" using f(2) by (simp_all split: if_splits)
    then obtain a where a: "a < length ps" "leads (ps ! a) = Some (k', d)" using lead_okD(2) [OF L] by blast
    then have "a \<noteq> i" using k(1) i(2) by auto
    then show "\<exists>a<length ?ps. leads (?ps ! a) = Some (k', d)" using a ld(1) [OF a(1)] by auto
  next
    fix d assume "d < g_next ?g"
    then have "c_wg (g_calls g d) = of_bool (led ps d)" using lead_okD(4) [OF L, of d] f(3) by simp
    then show "c_wg (g_calls ?g d) = of_bool (led ?ps d)" unfolding f(7,9) by auto
  }
qed

lemma call_finish_inv:
  assumes I: "sf_inv (g, ps)" and i: "i < length ps" "ps ! i = SFin k c"
  shows "sf_inv (doCall_finish k c g, ps[i := SRet k c])" (is "sf_inv (?g, ?ps)")
proof -
  have C: "counts_ok (g, ps)" and L: "lead_ok (g, ps)" and R: "results_ok (g, ps)" using I by (simp_all add: sf_inv_def)
  note f = finish_view [OF L i]
  have "counts_ok (?g, ?ps)" by (rule counts_drop [OF C i(1)]) (use i f in simp_all)
  moreover have "lead_ok (?g, ?ps)" by (rule finish_lead [OF L i])
  moreover have "results_ok (?g, ?ps)"
  proof (rule results_step [OF R i(1)])
    have own: "(k, result c g) \<in> set (g_ran g)" using R i by (auto simp: results_ok_def)
    fix a k' d assume a: "a < length ps" "a \<noteq> i" "ps ! a = SFin k' d \<or> ps ! a = SRet k' d \<or> ps ! a = SWait k' d \<and> \<not> led ?ps d"
    show "(k', result d ?g) \<in> set (g_ran ?g)"
    proof (cases "d = c")
      case True
      then have "uses (ps ! a) = Some c" using a(3) by auto
      then have "ps ! a = SWait k c" using lead_okD(3) [OF L i(1), of k c a] i(2) a(1,2) by simp
      then show ?thesis using own True a(3) f(5,8) by simp
    next
      case False
      then show ?thesis using R a f(9) [of d] f(5,8) by (auto simp: results_ok_def)
    qed
  next
    fix k' d assume "SRet k c = SFin k' d \<or> SRet k c = SRet k' d \<or> SRet k c = SWait k' d \<and> \<not> led ?ps d"
    then show "(k', result d ?g) \<in> set (g_ran ?g)" using R i f(5,8) by (auto simp: results_ok_def)
  qed (use f(5) in auto)
  ultimately show ?thesis by (simp add: sf_inv_def)
qed

text \<open>A goroutine takes the result of a finished call.\<close>

lemma call_read_inv:
  assumes I: "sf_inv (g, ps)" and i: "i < length ps" and p: "ps ! i = SRet k c \<or> ps ! i = SWait k c \<and> c_wg (g_calls g c) = 0"
    and q: "q = SDec k c (c_val (g_calls g c)) (c_err (g_calls g c)) \<or> q = SDone k (c_val (g_calls g c)) (c_err (g_calls g c))"
  shows "sf_inv (g, ps[i := q])"
proof -
  have C: "counts_ok (g, ps)" and L: "lead_ok (g, ps)" and R: "results_ok (g, ps)" using I by (simp_all add: sf_inv_def)
  have u: "uses (ps ! i) = Some c" "leads (ps ! i) = None" using p by auto
  have "c < g_next g" by (rule used_counted [OF C i u(1)])
  then have nl: "\<not> led ps c" if "ps ! i = SWait k c" using lead_okD(4) [OF L, of c] p that by simp
  then have res: "(k, result c g) \<in> set (g_ran g)" using R i p by (auto simp: results_ok_def)
  have "counts_ok (g, ps[i := q])" by (rule counts_drop [OF C i]) (use q u in auto)
  moreover have "lead_ok (g, ps[i := q])" by (rule lead_same [OF L i]) (use q u nl p in auto)
  moreover have "led (ps[i := q]) d = led ps d" for d by (rule led_same [OF i]) (use q u in auto)
  then have "results_ok (g, ps[i := q])" by (intro results_quiet [OF R i]) (use q res in \<open>auto simp: result_def\<close>)
  ultimately show ?thesis by (simp add: sf_inv_def)
qed

text \<open>The last user of a call returns it to the pool.\<close>

lemma call_release_inv:
  assumes I: "sf_inv (g, ps)" and i: "i < length ps" "ps ! i = SDec k c v e"
  shows "sf_inv (release c g, ps[i := SDone k v e])" (is "sf_inv (?g, ?ps)")
proof -
  have C: "counts_ok (g, ps)" and L: "lead_ok (g, ps)" and R: "results_ok (g, ps)" using I by (simp_all add: sf_inv_def)
  have u: "uses (ps ! i) = Some c" "leads (ps ! i) = None" using i by auto
  note n = used_counted [OF C i(1) u(1)]
  have f: "g_m ?g = g_m g" "g_next ?g = g_next g" "g_ran ?g = g_ran g" "\<And>d. c_wg (g_calls ?g d) = c_wg (g_calls g d)" "\<And>d. result d ?g = result d g"
    "\<And>d. c_dups (g_calls ?g d) = (if d = c then c_dups (g_calls g c) - 1 else c_dups (g_calls g d))"
    "g_pool ?g = (if c_dups (g_calls g c) = 1 then c # g_pool g else g_pool g)"
    by (simp_all add: release_def result_def Let_def)
  have "counts_ok (?g, ?ps)"
  proof -
    have "int (cnt (\<lambda>p. uses p = Some d) ?ps) \<le> c_dups (g_calls ?g d)" if "d < g_next g" for d
    proof -
      have "int (cnt (\<lambda>p. uses p = Some d) ps) \<le> c_dups (g_calls g d)" using C that by (simp add: counts_ok_def)
      then show ?thesis using cnt_update [OF i(1), of "\<lambda>p. uses p = Some d" "SDone k v e"] u(1) f(6) by (cases "d = c") simp_all
    qed
    moreover have "d < g_next g" if "j < length ps" "uses (?ps ! j) = Some d" for j d
      using that C i by (cases "j = i") (auto simp: counts_ok_def)
    moreover have "distinct (g_pool ?g)" using C n(2) f(7) by (simp add: counts_ok_def)
    moreover have "d < g_next g \<and> c_dups (g_calls ?g d) = 0" if "d \<in> set (g_pool ?g)" for d
      using that C n(2,3) f(6,7) by (auto simp: counts_ok_def split: if_splits)
    ultimately show ?thesis using f(2) by (simp add: counts_ok_def)
  qed
  moreover have "lead_ok (?g, ?ps)" by (rule lead_same [OF L i(1)]) (use u f in auto)
  moreover have "led ?ps d = led ps d" for d by (rule led_same [OF i(1)]) (use u in auto)
  then have "results_ok (?g, ?ps)" by (intro results_quiet [OF R i(1)]) (use R i f in \<open>auto simp: results_ok_def\<close>)
  ultimately show ?thesis by (simp add: sf_inv_def)
qed

inductive_cases Do_stepE: "Do_step v0 (g, p) (g', q)"
inductive_cases sf_stepE: "sf_step v0 (g, ps) (g', qs)"

lemma enter_inv:
  assumes "sf_inv (g, ps)" "i < length ps" "ps ! i = SIdle" "Do_enter v0 j k g = (g', q)" shows "sf_inv (g', ps[i := q])"
proof (cases "g_m g k")
  case None
  obtain c g0 where P: "callPool_Get v0 j g = (c, g0)" by fastforce
  then show ?thesis using call_start_inv [OF assms(1-3) None P refl] assms(4) None by (simp add: Do_enter_def)
next
  case (Some c)
  then show ?thesis using call_join_inv [OF assms(1-3) Some] assms(4) by (simp add: Do_enter_def)
qed

lemma Do_step_inv:
  assumes I: "sf_inv (g, ps)" and i: "i < length ps" and S: "Do_step v0 (g, ps ! i) (g', q)" shows "sf_inv (g', ps[i := q])"
  by (rule Do_stepE [OF S])
    (auto intro: enter_inv [OF I i] call_run_inv [OF I i] call_finish_inv [OF I i] call_read_inv [OF I i] call_release_inv [OF I i])

lemma sf_init: "sf_inv (NewGroup v0, replicate n SIdle)"
  by (simp add: sf_inv_def counts_ok_def lead_ok_def results_ok_def NewGroup_def led_def)

lemma sf_reach:
  assumes "(sf_step v0)\<^sup>*\<^sup>* (NewGroup v0, replicate n SIdle) s" shows "sf_inv s"
  using assms
proof induction
  case base
  show ?case by (rule sf_init)
next
  case (step s t)
  then show ?case by (cases s; cases t) (auto elim!: sf_stepE intro: Do_step_inv)
qed


text \<open>Two goroutines ask for the same key: the second waits and both get the result of the one execution.\<close>

lemma demo_flight:
  "(sf_step (0::nat))\<^sup>*\<^sup>* (NewGroup 0, replicate 2 SIdle)
     (\<lparr>g_m = Map.empty, g_calls = (\<lambda>_. new_call 0)(0 := \<lparr>c_val = 5, c_err = NoErr, c_wg = 0, c_dups = 0\<rparr>), g_pool = [0], g_next = 1, g_ran = [(True, 5, NoErr)]\<rparr>,
      [SDone True 5 (NoErr :: unit sferr), SDone True 5 NoErr])"
proof -
  define st where "st = (\<lambda>(m :: bool \<Rightarrow> nat option) (c :: (nat, unit) call) p r. \<lparr>g_m = m, g_calls = (\<lambda>_. new_call 0)(0 := c), g_pool = p, g_next = 1, g_ran = r\<rparr>)"
  note D = st_def NewGroup_def new_call_def update_call_def callPool_Get_def Do_enter_def doCall_run_def doCall_finish_def release_def Let_def
  have S: "(sf_step (0::nat))\<^sup>*\<^sup>* s (g', qs)" if "(sf_step (0::nat))\<^sup>*\<^sup>* s (g, ps)" "Do_step 0 (g, ps ! i) (g', q)" "i < length ps" "qs = ps[i := q]" for s g ps i g' q and qs :: "(bool, nat, unit) spc list"
    using that by (auto intro: rtranclp.rtrancl_into_rtrancl sf_step.intros)
  have 1: "(sf_step (0::nat))\<^sup>*\<^sup>* (NewGroup 0, replicate 2 SIdle) (st [True \<mapsto> 0] \<lparr>c_val = 0, c_err = NoErr, c_wg = 1, c_dups = 1\<rparr> [] [], [SRun True 0, SIdle])"
    by (rule S [OF rtranclp.rtrancl_refl, where i = 0 and q = "SRun True 0"]) (use do_enter [of 0 "NewGroup 0" 0 True] in \<open>simp_all add: D numeral_2_eq_2\<close>)
  have 2: "(sf_step (0::nat))\<^sup>*\<^sup>* (NewGroup 0, replicate 2 SIdle) (st [True \<mapsto> 0] \<lparr>c_val = 0, c_err = NoErr, c_wg = 1, c_dups = 2\<rparr> [] [], [SRun True 0, SWait True 0])"
    by (rule S [OF 1, where i = 1 and q = "SWait True 0"]) (use do_enter [of 0 "st [True \<mapsto> 0] \<lparr>c_val = 0, c_err = NoErr, c_wg = 1, c_dups = 1\<rparr> [] []" 0 True] in \<open>simp_all add: D\<close>)
  have 3: "(sf_step (0::nat))\<^sup>*\<^sup>* (NewGroup 0, replicate 2 SIdle) (st [True \<mapsto> 0] \<lparr>c_val = 5, c_err = NoErr, c_wg = 1, c_dups = 2\<rparr> [] [(True, 5, NoErr)], [SFin True 0, SWait True 0])"
    by (rule S [OF 2, where i = 0 and q = "SFin True 0"]) (use do_run [OF refl, where c = 0 and r = "Returns 5 None" and g = "st [True \<mapsto> 0] \<lparr>c_val = 0, c_err = NoErr, c_wg = 1, c_dups = 2\<rparr> [] []" and k = True] in \<open>simp_all add: D\<close>)
  have 4: "(sf_step (0::nat))\<^sup>*\<^sup>* (NewGroup 0, replicate 2 SIdle) (st Map.empty \<lparr>c_val = 5, c_err = NoErr, c_wg = 0, c_dups = 2\<rparr> [] [(True, 5, NoErr)], [SRet True 0, SWait True 0])"
    by (rule S [OF 3, where i = 0 and q = "SRet True 0"]) (use do_finish [of 0 "st [True \<mapsto> 0] \<lparr>c_val = 5, c_err = NoErr, c_wg = 1, c_dups = 2\<rparr> [] [(True, 5, NoErr)]" True 0] in \<open>simp_all add: D\<close>)
  have 5: "(sf_step (0::nat))\<^sup>*\<^sup>* (NewGroup 0, replicate 2 SIdle) (st Map.empty \<lparr>c_val = 5, c_err = NoErr, c_wg = 0, c_dups = 2\<rparr> [] [(True, 5, NoErr)], [SDec True 0 5 NoErr, SWait True 0])"
    by (rule S [OF 4, where i = 0 and q = "SDec True 0 5 NoErr"]) (use do_return [of 0 "st Map.empty \<lparr>c_val = 5, c_err = NoErr, c_wg = 0, c_dups = 2\<rparr> [] [(True, 5, NoErr)]" True 0] in \<open>simp_all add: D\<close>)
  have 6: "(sf_step (0::nat))\<^sup>*\<^sup>* (NewGroup 0, replicate 2 SIdle) (st Map.empty \<lparr>c_val = 5, c_err = NoErr, c_wg = 0, c_dups = 1\<rparr> [] [(True, 5, NoErr)], [SDone True 5 NoErr, SWait True 0])"
    by (rule S [OF 5, where i = 0 and q = "SDone True 5 NoErr"]) (use do_release [of 0 "st Map.empty \<lparr>c_val = 5, c_err = NoErr, c_wg = 0, c_dups = 2\<rparr> [] [(True, 5, NoErr)]" True 0 5 NoErr] in \<open>simp_all add: D\<close>)
  have 7: "(sf_step (0::nat))\<^sup>*\<^sup>* (NewGroup 0, replicate 2 SIdle) (st Map.empty \<lparr>c_val = 5, c_err = NoErr, c_wg = 0, c_dups = 1\<rparr> [] [(True, 5, NoErr)], [SDone True 5 NoErr, SDec True 0 5 NoErr])"
    by (rule S [OF 6, where i = 1 and q = "SDec True 0 5 NoErr"]) (use do_wake [of "st Map.empty \<lparr>c_val = 5, c_err = NoErr, c_wg = 0, c_dups = 1\<rparr> [] [(True, 5, NoErr)]" 0 0 True] in \<open>simp_all add: D\<close>)
  show ?thesis
    by (rule S [OF 7, where i = 1 and q = "SDone True 5 NoErr"]) (use do_release [of 0 "st Map.empty \<lparr>c_val = 5, c_err = NoErr, c_wg = 0, c_dups = 1\<rparr> [] [(True, 5, NoErr)]" True 0 5 NoErr] in \<open>simp_all add: D\<close>)
qed


text \<open>
  C9. Nobody waits for ever. In every interleaving, as long as a goroutine has not returned
  some goroutine can take a step: a goroutine that waits for a call finds it finished, or the
  goroutine that executes the function of that call is on its way.
\<close>

theorem single_flight_progress:
  assumes "(sf_step v0)\<^sup>*\<^sup>* (NewGroup v0, replicate n SIdle) (g, ps)" "i < length ps" "\<And>k v e. ps ! i \<noteq> SDone k v e"
  shows "\<exists>s. sf_step v0 (g, ps) s"
proof -
  note I = sf_reach [OF assms(1)]
  then have C: "counts_ok (g, ps)" and L: "lead_ok (g, ps)" by (simp_all add: sf_inv_def)
  have go: "\<exists>s. sf_step v0 (g, ps) s" if "Do_step v0 (g, ps ! a) s" "a < length ps" for a s using that by (cases s) (auto intro: sf_step.intros)
  show ?thesis
  proof (cases "ps ! i")
    case SIdle
    show ?thesis by (rule go [OF _ assms(2)]) (use do_enter SIdle in simp)
  next
    case (SRun k c)
    show ?thesis by (rule go [OF _ assms(2)]) (use do_run [OF refl] SRun in simp)
  next
    case (SFin k c)
    show ?thesis by (rule go [OF _ assms(2)]) (use do_finish SFin in simp)
  next
    case (SRet k c)
    show ?thesis by (rule go [OF _ assms(2)]) (use do_return SRet in simp)
  next
    case (SDec k c v e)
    show ?thesis by (rule go [OF _ assms(2)]) (use do_release SDec in simp)
  next
    case (SWait k c)
    have n: "c < g_next g" by (rule used_counted [OF C assms(2)]) (simp add: SWait)
    show ?thesis
    proof (cases "c_wg (g_calls g c) = 0")
      case True
      then show ?thesis using go [OF _ assms(2)] do_wake [of g c v0 k] do_fail [of g c v0 k] SWait by metis
    next
      case False
      then obtain a k' where a: "a < length ps" "leads (ps ! a) = Some (k', c)" using lead_okD(4) [OF L n] by (auto simp: led_def split: if_splits)
      then have "ps ! a = SRun k' c \<or> ps ! a = SFin k' c" by (cases "ps ! a") auto
      then show ?thesis using go [OF _ a(1)] do_run [OF refl] do_finish by metis
    qed
  qed (use assms(3) in blast)
qed

theorem single_flight_progress_witness: "\<exists>s. sf_step (0::nat) (NewGroup 0, replicate 1 (SIdle :: (bool, nat, unit) spc)) s"
  by (rule single_flight_progress [OF rtranclp.rtrancl_refl, of 0]) simp_all

end
