(* ===== verification/Spec2Isabelle.thy ===== *)
theory Spec2Isabelle
  imports Driver Buffer_Races Maintenance Pool_Properties Persistence_Properties Clock Counter RB_Mutex Single_Flight
begin

text \<open>
  Verification of theine-go, an in-memory cache for Go with W-TinyLFU eviction, expiry times, an
  optional secondary cache, an optional loader, and snapshots. The theories translate the code
  under src/ into executable definitions and prove the properties C1 to C40; each
  stands after a text that states it.

  \<^bold>\<open>The program.\<close> A client (cache.go) calls a \<^emph>\<open>store\<close> (internal/store.go). The store keeps its
  bindings in shards: a hash map, a mutex and, if configured, a Bloom filter each
  (the doorkeeper). A write changes the hash map at once and sends an event through a
  channel. One goroutine, \<open>maintenance\<close>, takes events in batches and brings the \<^emph>\<open>policy\<close>
  (internal/tlfu.go, slru.go) up to date: three intrusive lists through the entries, a frequency
  sketch and a hill climber that moves capacity between window and main region. Reads
  go into lossy ring buffers that are drained into the policy. When the policy is over its
  capacity it evicts, through a callback into the store. A ticker advances the
  \<^emph>\<open>timer wheel\<close> (internal/timerwheel.go), which expires entries through the same callback.
  Evicted entries may go through a queue and a worker to the \<^emph>\<open>secondary cache\<close>; reads
  may promote them again. A loading store calls the user's loader through a
  \<^emph>\<open>single flight\<close> group. The shards use a reader-biased mutex.

  \<^bold>\<open>How code is modelled.\<close> A struct is a record, with Go's field names where possible; a pointer to an
  entry is an address into a heap, a total function from addresses to entries, so that the links of the
  lists and the wheel are the real ones, sentinels included. Integers are words of their width
  and wrap; floats are rationals rounded to nearest even after each operation (Go_Float).
  A computation of type \<open>option\<close> is \<open>None\<close> when the code panics (nil, index out
  of range) or does not return; theorems that conclude \<open>\<exists>y. f x = Some y\<close> exclude both. Loops
  are \<open>fun\<close> or \<open>function\<close> with a measure where they obviously end, and
  \<open>partial_function (option)\<close> where that is a theorem (the eviction loops, the drained
  channel). No definition uses fuel. Errors are values of sum types.

  \<^bold>\<open>Parameters.\<close> Code outside the repository is an argument: the hash function and the
  logarithm, the clock readings and random numbers as streams, the user's loader, cost function and
  secondary cache, which of the pooled objects \<open>sync.Pool\<close> hands out, \<open>encoding/gob\<close> and
  \<open>xxh3\<close> of the snapshots (record \<open>gob\<close>, with \<open>gob_ok\<close> for what the code relies on), and the order in
  which Go iterates over a map.

  \<^bold>\<open>Concurrency.\<close> Four pieces of lock-free or blocking code are step relations whose steps are single
  atomic accesses: the striped counter, the ring of reads, the reader-biased mutex and the single flight group.
  Above them a critical section is one step; \<open>store_step\<close> and \<open>hybrid_step\<close> interleave client calls,
  event handling, the worker and clock ticks in any order. The channel of events has no bound in
  the model: that a send on a full one waits restricts the interleavings but adds none.

  \<^bold>\<open>Theories, from the bottom.\<close>
  \<^item> Prelude, Ring, Goroutines: words, signed comparisons, the option monad; circular lists as link
    functions; counting goroutines.
  \<^item> Pow2 (internal/utils.go, the roundings of sketch.go and bf.go): a locale of rounding routines with its three
    instances. Policy_Flag (policy_flag.go), Entry (entry.go), Intrusive_List (list.go): the operations
    on pointers against lists. Clock (clock/clock.go). Counter (counter.go, stats.go): no lost update.
  \<^item> Sketch (sketch.go): the exact effect of an addition, ageing, and the bound from below; its
    interface is the locale \<open>frequency_sketch\<close>. Bloom (bf/bf.go): no false negatives, locale \<open>membership_filter\<close>.
  \<^item> Policy_Lists, Slru, Tlfu, Tlfu_Lists, Tlfu_Evict, Policy_Size (slru.go, tlfu.go): \<open>reps\<close> ties the headers
    and the heap to three lists; every operation of the policy against it, the end of the eviction
    loops, the sum of the weights. What eviction asks of the store is the locale \<open>eviction_callback\<close>.
  \<^item> Timer_Wheel, Wheel_Advance (timerwheel.go): placement, cascading and expiry; locale \<open>expiry_callback\<close>.
  \<^item> Read_Buffer, Buffer_Races (buffer.go): the ring of reads against a bounded list, and the state it can be stuck in; the
    same ring under concurrency, where items may be lost but none is handed out twice.
  \<^item> Store, Store_Ops (store.go): shards, removal, events and their handlers, reads, writes, the tick. Store_Removal,
    Store_Invariant, Store_Client, Store_Writes: \<open>store_inv\<close> and that every operation keeps it; both callbacks are
    interpreted on \<open>removeEntry\<close>. Store_New: \<open>NewStore\<close>. Store_Runs: \<open>store_step\<close>, its invariant \<open>run_inv\<close>, which
    relates the store to the map of the last successful writes and accounts for every event on its way.
    Maintenance: the batches of the goroutine. Store_Properties, Store_Views: the properties of the store, \<open>Range\<close>,
    \<open>DebugInfo\<close> and what the tests print, \<open>Wait\<close>. Pool_Properties: an evicted entry, the entry pool and an event
    that comes too late.
  \<^item> Hybrid, Hybrid_Runs, Hybrid_Properties (secondary_cache.go, store.go): the secondary cache as a record of
    operations with the locale \<open>secondary_map\<close>, interpreted on the map of the repository; promotion, the
    worker, the loading store.
  \<^item> Persistence, Recovery, Persistence_Properties (persistence.go, the \<open>Persist\<close> and \<open>Recover\<close> methods of list.go and
    store.go): blocks, checksums, the loops over a stream, and the round trip.
  \<^item> RB_Mutex (rbmutex.go), Single_Flight (singleflight.go): mutual exclusion; one execution per key, results
    and the reuse of pooled calls, progress.
  \<^item> Lossy_Cache: the contract of a cache towards its client, a map that may forget, as the locale \<open>lossy_cache\<close>; every
    sequence of observations of an implementation agrees with such a map. Interpreted on the store and,
    in Client_API, on the client that the builder returns.
  \<^item> Hasher (hasher/), Client_API (cache.go, builder.go): the builders and the four clients.
  \<^item> Driver (run/main.go): the load generator as a step relation of its six workers over the client; it rests on the
    contract of Lossy_Cache alone.
  \<^item> This theory: the properties of whole runs.

  \<^bold>\<open>Bounds.\<close> Runs start from a new store without an entry pool: a pooled entry can be handed out
  while an event about it is still on its way, so the accounting of events does not hold
  with a pool; the operations themselves are modelled with it, and C37 shows what then goes wrong. At most \<open>2 ^ 45\<close> entries are in the policy and
  a filter has at most about \<open>2 ^ 31\<close> bits, so that the products of the hill climber
  and of the filters do not wrap. Two ticks see times that do not decrease. Keys hash by
  value: before Go 1.24 this needs a key without pointers, a string, or a key function (Hasher).

  \<^bold>\<open>Where the code does not do what it means to.\<close> Several properties state such behaviour exactly: C16 to C19 for the
  secondary cache, C21 for a deleted key that a snapshot brings back, C36 for the read buffer, C37 for the entry pool, C38 for
  entries that were refreshed while they expired.

  \<^bold>\<open>Not modelled.\<close> The sources of random numbers and the padding of cache lines (internal/xruntime), which are the
  runtime's; starting and stopping the ticker and the goroutines; contexts; the traces of panics; the profiling
  server of run/main.go.
\<close>

subsection \<open>Runs of a store\<close>



text \<open>
  C2. No stale reads. In every state of every run a read returns (it cannot get stuck), it
  changes no binding, and a hit returns the value that the last successful write to the key
  put there; a key that was deleted since, or never written, is never a hit.
\<close>

theorem no_stale_reads:
  fixes opt :: "'v::zero StoreOptions" and rt :: "'k::zero runtime"
  assumes "0 < sint (MaxSize opt)" "runtime_ok rt" "\<not> EntryPool opt" "NewStore rt opt = Some st0"
    and "(store_step (costfn opt))\<^sup>*\<^sup>* (Map.empty, st0) (A, st)"
  shows "\<exists>v ok st'. store_Get k st = Some ((v, ok), st') \<and> lookup st' = lookup st \<and> (if ok then A k = Some v else v = 0)"
  using run_get [OF run_reachable [OF assms], of k] by blast

theorem no_stale_reads_witness:
  "\<exists>st0 st v ok st'. NewStore demo_rt demo_opt = Some st0 \<and> store_Set (costfn demo_opt) 1 7 0 0 st0 = Some (True, st) \<and>
     store_Get 1 st = Some ((v, ok), st') \<and> lookup st' 1 = Some 7 \<and> (ok \<longrightarrow> v = 7)"
proof -
  obtain st0 st where R: "NewStore demo_rt demo_opt = Some st0" "store_Set (costfn demo_opt) 1 7 0 0 st0 = Some (True, st)"
    "(store_step (costfn demo_opt))\<^sup>*\<^sup>* (Map.empty, st0) ([1 \<mapsto> 7], st)" "lookup st 1 = Some 7" by (rule demo_run)
  obtain v ok st' where "store_Get 1 st = Some ((v, ok), st')" "lookup st' = lookup st" "if ok then [1 \<mapsto> 7] (1 :: nat) = Some v else v = 0"
    using no_stale_reads [OF demo_ok R(1,3), of 1] by blast
  then show ?thesis using R by (intro exI [of _ st0] exI [of _ st] exI [of _ v] exI [of _ ok] exI [of _ st']) auto
qed

text \<open>
  C4. Writes take effect. In every state of every run \<open>Set\<close> with a cost that is not negative
  returns; when it reports success on an open shard, the key is bound to the value at once,
  before the policy has heard of it.
\<close>

theorem writes_take_effect:
  fixes opt :: "'v::zero StoreOptions" and rt :: "'k::zero runtime"
  assumes "0 < sint (MaxSize opt)" "runtime_ok rt" "\<not> EntryPool opt" "NewStore rt opt = Some st0"
    and "(store_step (costfn opt))\<^sup>*\<^sup>* (Map.empty, st0) (A, st)" and "roomy st" "0 \<le> sint (set_cost (costfn opt) v cost)"
  shows "\<exists>ok st'. store_Set (costfn opt) k v cost ttl st = Some (ok, st') \<and> (ok \<and> \<not> closed_at st k \<longrightarrow> lookup st' k = Some v)"
proof -
  have "may_set (costfn opt) v cost st" using assms(6,7) by (simp add: may_set_def)
  from run_set [OF run_reachable [OF assms(1-5)] this, of k ttl] show ?thesis by blast
qed

theorem writes_take_effect_witness:
  "\<exists>st0 ok st'. NewStore demo_rt demo_opt = Some st0 \<and> store_Set (costfn demo_opt) 2 9 1 0 st0 = Some (ok, st') \<and> (ok \<longrightarrow> lookup st' 2 = Some 9)"
proof -
  obtain st0 where N: "NewStore demo_rt demo_opt = Some st0" "roomy st0" "\<not> closed_at st0 2"
    using NewStore_spec [OF demo_ok(1,2)] that by (elim exE conjE) simp
  show ?thesis
    using writes_take_effect [OF demo_ok N(1) rtranclp.rtrancl_refl N(2), of 9 1 2 0] N(1,3) by (auto simp: set_cost_def)
qed





text \<open>The same of a single batch of any length, the one that holds everything that waits.\<close>

lemma batch_brings_policy_up_to_date:
  fixes opt :: "'v::zero StoreOptions" and rt :: "'k::zero runtime"
  assumes "0 < sint (MaxSize opt)" "runtime_ok rt" "\<not> EntryPool opt" "NewStore rt opt = Some st0"
    and "(store_step (costfn opt))\<^sup>*\<^sup>* (Map.empty, st0) (A, st)" and "length (resident st) + length (writeChan st) \<le> 2 ^ 45"
  shows "\<exists>st'. drainWrite (writeChan st) 0 (st\<lparr>writeChan := []\<rparr>) = Some (st', 0) \<and> lookup st' \<subseteq>\<^sub>m lookup st \<and> weightedSize (policy st') \<le> MaxSize opt \<and>
    (\<forall>k e. entry_at st' k = Some e \<and> \<not> IsDeleted (flags (heap st') e) \<and> \<not> IsRemoved (flags (heap st') e) \<longrightarrow>
       policyWeight (heap st' e) = weight (heap st' e))"
proof -
  obtain X where R: "core_inv (MaxSize opt) st X" "chan_ok st (writeChan st)" using run_reachable [OF assms(1-5)] by (auto simp: run_inv_def)
  obtain st' X' where D: "drainWrite (writeChan st) 0 (st\<lparr>writeChan := []\<rparr>) = Some (st', 0)" "core_inv (MaxSize opt) st' X'" "chan_ok st' []" "lookup st' \<subseteq>\<^sub>m lookup st"
    using drain_inv [OF recv_inv [OF R, of "[]"]] assms(6) unfolding recv_view by blast
  then show ?thesis using policy_current [OF D(2,3)] by blast
qed

end
